(* ===== verification/Prelude.thy ===== *)
theory Prelude
  imports Main "HOL-Library.Word" "HOL-Library.Code_Target_Numeral"
begin

text \<open>
  The vocabulary every component of the EmbLinkOS development shares: the machine
  integer types, the kernel's error codes, the result type of fallible operations, and
  the generic facts on lists, words and finite sets that the component proofs rewrite
  with.

  Conventions.  A C \<open>uint8_t\<close>, \<open>uint32_t\<close> or \<open>uint64_t\<close> whose bits or wrap-around
  matter is a word of that width.  A counter, index or size that the code keeps in a
  \<open>uint64_t\<close> but that is bounded by a table size is a natural number, and every sum
  that could leave the 64 bit range is written with its reduction (\<open>wrap64\<close>).
  A function that returns \<open>0\<close> or a negative error code returns a value of
  \<open>'a res\<close>.
\<close>

unbundle bit_operations_syntax

section \<open>Machine types\<close>

type_synonym u8 = "8 word"
type_synonym u16 = "16 word"
type_synonym u32 = "32 word"
type_synonym u64 = "64 word"

text \<open>Reduction to the range of an unsigned 64 bit and 32 bit integer.\<close>

definition wrap64 :: "nat \<Rightarrow> nat" where
  "wrap64 n = n mod 2 ^ 64"

definition wrap32 :: "nat \<Rightarrow> nat" where
  "wrap32 n = n mod 2 ^ 32"

text \<open>Subtraction of 64-bit values, which wraps below 0.\<close>

definition sub64 :: "nat \<Rightarrow> nat \<Rightarrow> nat" where
  "sub64 a b = wrap64 (a + 2 ^ 64 - b)"

lemma wrap64_id [simp]: "n < 2 ^ 64 \<Longrightarrow> wrap64 n = n"
  by (simp add: wrap64_def)

lemma wrap32_id [simp]: "n < 2 ^ 32 \<Longrightarrow> wrap32 n = n"
  by (simp add: wrap32_def)

lemma wrap64_less [simp]: "wrap64 n < 2 ^ 64"
  by (simp add: wrap64_def)

lemma wrap32_less [simp]: "wrap32 n < 2 ^ 32"
  by (simp add: wrap32_def)

section \<open>Error codes and results\<close>

text \<open>
  The codes of \<open>kernel/include/errno.h\<close> that the modelled components return; a C function
  returns them negated.
\<close>

datatype errno =
    EPERM | ENOENT | EIO | ENOEXEC | EAGAIN | ENOMEM | EFAULT | EBUSY | EEXIST | ENODEV | ENOTDIR
  | EINVAL | ENFILE | EMFILE | ENOSPC | EROFS | EPIPE | ENAMETOOLONG | ENOSYS | EMSGSIZE
  | ENOTSUP | ECONNREFUSED | ECANCELED | EACCES | ECHILD | ESTOPPED

type_synonym 'a res = "errno + 'a"

section \<open>Bits of words\<close>

lemma word_and_single_bit:
  "(w AND push_bit n 1 \<noteq> 0) \<longleftrightarrow> bit w n" if "n < LENGTH('a)" for w :: "'a::len word"
proof -
  have "bit (w AND push_bit n 1) m \<longleftrightarrow> bit w m \<and> m = n" for m
    using that by (auto simp: bit_simps)
  then have "(w AND push_bit n 1 = 0) \<longleftrightarrow> \<not> bit w n"
    by (metis bit_word_eqI bit_0_eq bot_apply bot_bool_def)
  then show ?thesis by simp
qed

lemma bit_or_single:
  "bit (w OR push_bit n 1) m \<longleftrightarrow> bit w m \<or> m = n"
  if "n < LENGTH('a)" for w :: "'a::len word"
  using that by (auto simp: bit_simps)

lemma bit_and_not_single:
  "bit (w AND NOT (push_bit n 1)) m \<longleftrightarrow> bit w m \<and> m \<noteq> n"
  if "n < LENGTH('a)" for w :: "'a::len word"
  using that by (auto simp: bit_simps dest: bit_imp_le_length)

lemmas bit_single_pow = bit_or_single [simplified] bit_and_not_single [simplified]

lemma u8_all_ones_bit: "(w :: u8) = 255 \<longleftrightarrow> (\<forall>n<8. bit w n)"
proof
  assume "w = 255"
  then show "\<forall>n<8. bit w n"
    by (auto simp: less_Suc_eq eval_nat_numeral)
next
  assume *: "\<forall>n<8. bit w n"
  show "w = 255"
  proof (rule bit_word_eqI)
    fix n assume "n < LENGTH(8)"
    then have "n < 8" by simp
    moreover from this have "bit (255 :: u8) n"
      by (auto simp: less_Suc_eq eval_nat_numeral)
    ultimately show "bit w n = bit (255 :: u8) n" using * by simp
  qed
qed

section \<open>First match\<close>

text \<open>The index the code's \<open>for (i = 0; i < N; i++) if (P(xs[i])) ...\<close> scans stop at.\<close>

fun first_index :: "('a \<Rightarrow> bool) \<Rightarrow> 'a list \<Rightarrow> nat option" where
  "first_index P [] = None"
| "first_index P (x # xs) = (if P x then Some 0 else map_option Suc (first_index P xs))"

lemma first_index_None: "first_index P xs = None \<longleftrightarrow> (\<forall>x\<in>set xs. \<not> P x)"
  by (induction xs) auto

lemma first_index_Some:
  "first_index P xs = Some i \<longleftrightarrow> i < length xs \<and> P (xs ! i) \<and> (\<forall>j<i. \<not> P (xs ! j))"
proof (induction xs arbitrary: i)
  case (Cons x xs)
  show ?case
  proof (cases i)
    case 0
    then show ?thesis by auto
  next
    case (Suc k)
    have "(\<forall>j<Suc k. \<not> P ((x # xs) ! j)) \<longleftrightarrow> \<not> P x \<and> (\<forall>j<k. \<not> P (xs ! j))"
      by (auto simp: less_Suc_eq_0_disj)
    with Suc Cons show ?thesis by auto
  qed
qed simp

section \<open>Updating one element of a list that is summed up\<close>

lemma sum_list_map_update:
  fixes f :: "'a \<Rightarrow> 'b :: comm_monoid_add"
  assumes "i < length xs"
  shows "sum_list (map f (xs[i := x])) + f (xs ! i) = sum_list (map f xs) + f x"
  using assms
proof (induction xs arbitrary: i)
  case (Cons y ys)
  show ?case
  proof (cases i)
    case (Suc k)
    with Cons.prems Cons.IH [of k] show ?thesis by (simp add: add.assoc)
  qed (simp add: ac_simps)
qed simp

lemma length_filter_update:
  assumes "i < length xs"
  shows "int (length (filter P (xs[i := x]))) + of_bool (P (xs ! i)) = int (length (filter P xs)) + of_bool (P x)"
proof -
  have "int (length (filter P ys)) = sum_list (map (\<lambda>y. of_bool (P y)) ys)" for ys
    by (induction ys) simp_all
  then show ?thesis using sum_list_map_update [OF assms, of "\<lambda>y. of_bool (P y) :: int"] by simp
qed

section \<open>Exclusive or\<close>

lemma word_xor_cancel_left: "x XOR y = x XOR z \<longleftrightarrow> y = z" for x :: "'a :: len word"
  by (metis xor.assoc xor.left_neutral xor_self_eq)

lemma word_xor_cancel_right: "y XOR x = z XOR x \<longleftrightarrow> y = z" for x :: "'a :: len word"
  by (simp add: word_xor_cancel_left xor.commute [of _ x])

lemma word_xor_self_left [simp]: "x XOR (x XOR y) = y" for x :: "'a :: len word"
  by (simp add: xor.assoc [symmetric])

section \<open>Little-endian numbers\<close>

fun le_word :: "u8 list \<Rightarrow> 'a :: len word" where
  "le_word [] = 0"
| "le_word (b # bs) = ucast b XOR push_bit 8 (le_word bs)"

lemma bit_le_word:
  "bit (le_word bs :: 'a :: len word) i \<longleftrightarrow>
   i < LENGTH('a) \<and> i div 8 < length bs \<and> bit (bs ! (i div 8)) (i mod 8)"
proof (induction bs arbitrary: i)
  case (Cons b bs)
  show ?case
  proof (cases "i < 8")
    case False
    then have "i = i - 8 + 8" by simp
    then have d: "i div 8 = Suc ((i - 8) div 8)" "i mod 8 = (i - 8) mod 8"
      by (metis div_add_self2 Suc_eq_plus1 zero_neq_numeral, metis mod_add_self2)
    have "\<not> bit (ucast b :: 'a word) i" using False by (auto simp: bit_simps dest: bit_imp_le_length)
    then show ?thesis using False Cons.IH [of "i - 8"] d by (auto simp: bit_simps)
  qed (auto simp: bit_simps)
qed simp

end
