(* ===== verification/Bitmap.thy ===== *)
theory Bitmap
  imports Prelude
begin

text \<open>
  Bitmaps.  The physical page allocator (\<open>kernel/mm/pmm.c\<close>) keeps one bit per page in a byte
  array, with test, set and clear routines.  The locale \<open>bitmap_ops\<close> is the contract the
  allocator relies on; it is interpreted on those routines, and the counting facts the allocator
  needs are proved here once.
\<close>

locale bitmap_ops =
  fixes tst :: "u8 list \<Rightarrow> nat \<Rightarrow> bool"
    and setb :: "u8 list \<Rightarrow> nat \<Rightarrow> u8 list"
    and clrb :: "u8 list \<Rightarrow> nat \<Rightarrow> u8 list"
  assumes length_setb: "length (setb b i) = length b"
    and length_clrb: "length (clrb b i) = length b"
    and tst_bit: "i < 8 * length b \<Longrightarrow> tst b i \<longleftrightarrow> bit (b ! (i div 8)) (i mod 8)"
    and tst_setb: "i < 8 * length b \<Longrightarrow> j < 8 * length b \<Longrightarrow> tst (setb b i) j \<longleftrightarrow> j = i \<or> tst b j"
    and tst_clrb: "i < 8 * length b \<Longrightarrow> j < 8 * length b \<Longrightarrow> tst (clrb b i) j \<longleftrightarrow> j \<noteq> i \<and> tst b j"
begin

lemma tst_append_left: "i < 8 * length b \<Longrightarrow> tst (b @ c) i = tst b i"
  by (simp add: tst_bit nth_append less_mult_imp_div_less mult.commute)

lemma tst_append_right:
  assumes "8 * length b \<le> i" and "i < 8 * (length b + length c)"
  shows "tst (b @ c) i = tst c (i - 8 * length b)"
proof -
  from assms(1) obtain k where k: "i = 8 * length b + k"
    using le_Suc_ex by blast
  show ?thesis using assms by (simp add: tst_bit nth_append k)
qed

lemma tst_replicate_ones: "i < 8 * n \<Longrightarrow> tst (replicate n 255) i"
proof -
  assume i: "i < 8 * n"
  then have "i div 8 < n" and "i mod 8 < 8" by presburger+
  with i show ?thesis using u8_all_ones_bit [of 255] by (simp add: tst_bit)
qed

lemma tst_replicate_zero: "i < 8 * n \<Longrightarrow> \<not> tst (replicate n 0) i"
  by (simp add: tst_bit less_mult_imp_div_less mult.commute)

lemma byte_ones:
  assumes "b ! (i div 8) = 255" and "i mod 8 = 0" and "j < 8" and "i + j < 8 * length b"
  shows "tst b (i + j)"
proof -
  from assms(2) obtain q where q: "i = 8 * q"
    by (auto simp: mod_eq_0_iff_dvd elim: dvdE)
  with assms(3) have "(i + j) div 8 = q" and "(i + j) mod 8 = j"
    by simp_all
  with assms q show ?thesis using u8_all_ones_bit [of "b ! q"] by (simp add: tst_bit)
qed

lemma clear_after_setb:
  assumes "i < 8 * length b" and "n \<le> 8 * length b"
  shows "{p. p < n \<and> \<not> tst (setb b i) p} = {p. p < n \<and> \<not> tst b p} - {i}"
  using assms by (auto simp: tst_setb)

lemma clear_after_clrb:
  assumes "i < n" and "n \<le> 8 * length b"
  shows "{p. p < n \<and> \<not> tst (clrb b i) p} = insert i {p. p < n \<and> \<not> tst b p}"
  using assms by (auto simp: tst_clrb)

lemma card_clear_setb:
  assumes "i < n" and "n \<le> 8 * length b" and "\<not> tst b i"
  shows "card {p. p < n \<and> \<not> tst b p} = Suc (card {p. p < n \<and> \<not> tst (setb b i) p})"
proof -
  have "i \<in> {p. p < n \<and> \<not> tst b p}" using assms by simp
  then show ?thesis
    using assms by (simp add: clear_after_setb card.remove [of _ i] del: card_Diff_insert)
qed

lemma card_clear_clrb:
  assumes "i < n" and "n \<le> 8 * length b" and "tst b i"
  shows "card {p. p < n \<and> \<not> tst (clrb b i) p} = Suc (card {p. p < n \<and> \<not> tst b p})"
  using assms by (simp add: clear_after_clrb)

lemma card_clear_le: "card {p. p < n \<and> \<not> tst b p} \<le> n"
proof -
  have "card {p. p < n \<and> \<not> tst b p} \<le> card {..<n}"
    by (rule card_mono) auto
  then show ?thesis by simp
qed

end

end
