(* ===== verification/Pmm.thy ===== *)
theory Pmm
  imports Bitmap
begin

text \<open>
  The physical page allocator, \<open>kernel/mm/pmm.c\<close>.  The record \<open>pmm\<close> holds the file's static
  variables.  A physical page is one bit of the bitmap, set when the page is in use.  The
  allocator scans from a rotating hint, skips full bytes, and wraps once.

  The theory shows that the counters always equal the number of clear bits, that the scan
  is exact (it fails only when no page is free), that the aligned contiguous search is sound
  and complete, and that initialisation from the firmware map leaves free only pages of
  usable regions above the kernel image and outside the bitmap.
\<close>

section \<open>State and bitmap primitives\<close>

abbreviation (input) PAGE_SIZE :: nat where
  "PAGE_SIZE \<equiv> 4096"

record pmm =
  pmm_bitmap :: "u8 list"
  total_pages :: nat
  used_pages :: nat
  free_pages :: nat
  bitmap_size :: nat
  pmm_hint :: nat
  pmm_scan_bits :: nat
  pmm_scan_allocs :: nat

definition bitmap_set :: "u8 list \<Rightarrow> nat \<Rightarrow> u8 list" where
  "bitmap_set b page_index =
     b[page_index div 8 := b ! (page_index div 8) OR push_bit (page_index mod 8) 1]"

definition bitmap_clear :: "u8 list \<Rightarrow> nat \<Rightarrow> u8 list" where
  "bitmap_clear b page_index =
     b[page_index div 8 := b ! (page_index div 8) AND NOT (push_bit (page_index mod 8) 1)]"

definition bitmap_test :: "u8 list \<Rightarrow> nat \<Rightarrow> bool" where
  "bitmap_test b page_index \<longleftrightarrow> b ! (page_index div 8) AND push_bit (page_index mod 8) 1 \<noteq> 0"

section \<open>Single pages\<close>

text \<open>
  One pass of the scan of \<open>pmm_alloc_page\<close> over the pages from \<open>i\<close> below \<open>e\<close>: an aligned
  byte of ones is skipped with one test.  The second result counts the tests.
\<close>

function pmm_scan :: "u8 list \<Rightarrow> nat \<Rightarrow> nat \<Rightarrow> nat \<Rightarrow> nat option \<times> nat" where
  "pmm_scan b i e bits =
     (if i < e then
        (if i mod 8 = 0 \<and> i + 8 \<le> e \<and> b ! (i div 8) = 255 then pmm_scan b (i + 8) e (bits + 1)
         else if \<not> bitmap_test b i then (Some i, bits + 1)
         else pmm_scan b (i + 1) e (bits + 1))
      else (None, bits))"
  by pat_completeness auto
termination
  by (relation "measure (\<lambda>(b, i, e, bits). e - i)") auto

declare pmm_scan.simps [simp del]

definition pmm_take :: "pmm \<Rightarrow> nat \<Rightarrow> nat \<Rightarrow> pmm" where
  "pmm_take s i bits =
     s\<lparr>pmm_bitmap := bitmap_set (pmm_bitmap s) i,
       free_pages := free_pages s - 1,
       used_pages := used_pages s + 1,
       pmm_hint := (if i + 1 \<ge> total_pages s then 0 else i + 1),
       pmm_scan_bits := bits,
       pmm_scan_allocs := pmm_scan_allocs s + 1\<rparr>"

text \<open>The result is the physical address of the page, or 0 when both passes found nothing.\<close>

definition pmm_alloc_page :: "pmm \<Rightarrow> pmm \<times> nat" where
  "pmm_alloc_page s =
     (case pmm_scan (pmm_bitmap s) (pmm_hint s) (total_pages s) (pmm_scan_bits s) of
        (Some i, bits) \<Rightarrow> (pmm_take s i bits, i * PAGE_SIZE)
      | (None, bits) \<Rightarrow>
          (case pmm_scan (pmm_bitmap s) 0 (pmm_hint s) bits of
             (Some i, bits') \<Rightarrow> (pmm_take s i bits', i * PAGE_SIZE)
           | (None, bits') \<Rightarrow> (s\<lparr>pmm_scan_bits := bits'\<rparr>, 0)))"

definition pmm_free_page :: "pmm \<Rightarrow> nat \<Rightarrow> pmm" where
  "pmm_free_page s phys_addr =
     (let page_index = phys_addr div PAGE_SIZE in
      if page_index \<ge> total_pages s then s
      else if bitmap_test (pmm_bitmap s) page_index then
        s\<lparr>pmm_bitmap := bitmap_clear (pmm_bitmap s) page_index,
          free_pages := free_pages s + 1,
          used_pages := used_pages s - 1,
          pmm_hint := (if page_index < pmm_hint s then page_index else pmm_hint s)\<rparr>
      else s)"

definition pmm_reserve_page :: "pmm \<Rightarrow> nat \<Rightarrow> pmm" where
  "pmm_reserve_page s phys_addr =
     (let page_index = phys_addr div PAGE_SIZE in
      if page_index \<ge> total_pages s then s
      else if \<not> bitmap_test (pmm_bitmap s) page_index then
        s\<lparr>pmm_bitmap := bitmap_set (pmm_bitmap s) page_index,
          free_pages := free_pages s - 1,
          used_pages := used_pages s + 1\<rparr>
      else s)"

section \<open>Ranges of pages\<close>

text \<open>
  The two loop bodies that mark a run of pages free or used and keep the counters, run for
  the pages from \<open>p\<close> below \<open>e\<close>.
\<close>

definition pmm_release_one :: "nat \<Rightarrow> pmm \<Rightarrow> pmm" where
  "pmm_release_one p s =
     (if bitmap_test (pmm_bitmap s) p then
        s\<lparr>pmm_bitmap := bitmap_clear (pmm_bitmap s) p,
          free_pages := free_pages s + 1, used_pages := used_pages s - 1\<rparr>
      else s)"

definition pmm_claim_one :: "nat \<Rightarrow> pmm \<Rightarrow> pmm" where
  "pmm_claim_one p s =
     (if \<not> bitmap_test (pmm_bitmap s) p then
        s\<lparr>pmm_bitmap := bitmap_set (pmm_bitmap s) p,
          free_pages := free_pages s - 1, used_pages := used_pages s + 1\<rparr>
      else s)"

definition pmm_release_range :: "nat \<Rightarrow> nat \<Rightarrow> pmm \<Rightarrow> pmm" where
  "pmm_release_range p e s = fold pmm_release_one [p..<e] s"

definition pmm_claim_range :: "nat \<Rightarrow> nat \<Rightarrow> pmm \<Rightarrow> pmm" where
  "pmm_claim_range p e s = fold pmm_claim_one [p..<e] s"

text \<open>
  Memory that arrives after boot.  A region above the bitmap's coverage gets a larger bitmap
  from the kernel heap: \<open>kmalloc\<close> takes the allocator's state, since growing the heap may
  itself allocate pages, and says whether the request succeeded.
\<close>

definition pmm_grow_bitmap :: "nat \<Rightarrow> pmm \<Rightarrow> pmm" where
  "pmm_grow_bitmap new_total s =
     (let new_size = (new_total + 7) div 8 in
      s\<lparr>pmm_bitmap := take (bitmap_size s) (pmm_bitmap s) @ replicate (new_size - bitmap_size s) 255,
        used_pages := used_pages s + (new_total - total_pages s),
        bitmap_size := new_size,
        total_pages := new_total\<rparr>)"

definition pmm_add_region :: "(pmm \<Rightarrow> nat \<Rightarrow> pmm \<times> bool) \<Rightarrow> pmm \<Rightarrow> nat \<Rightarrow> nat \<Rightarrow> pmm \<times> bool" where
  "pmm_add_region kmalloc s phys len =
     (if len = 0 then (s, False)
      else
        let start_page = wrap64 (phys + PAGE_SIZE - 1) div PAGE_SIZE;
            end_page = wrap64 (phys + len) div PAGE_SIZE in
        if end_page \<le> start_page then (s, False)
        else if end_page > total_pages s then
          (case kmalloc s ((end_page + 7) div 8) of
             (s', False) \<Rightarrow> (s', False)
           | (s', True) \<Rightarrow>
               let s1 = pmm_grow_bitmap end_page s';
                   s2 = pmm_release_range start_page end_page s1
               in (s2, free_pages s1 < free_pages s2))
        else
          let s2 = pmm_release_range start_page end_page s
          in (s2, free_pages s < free_pages s2))"

section \<open>Contiguous runs\<close>

text \<open>\<open>x & ~m\<close> on non-negative integers.\<close>

definition and_not :: "nat \<Rightarrow> nat \<Rightarrow> nat" where
  "and_not x m = x - (x AND m)"

text \<open>The inner loop: how many of the \<open>n\<close> pages from \<open>first\<close> are free before a used one.\<close>

fun pmm_run :: "u8 list \<Rightarrow> nat \<Rightarrow> nat \<Rightarrow> nat" where
  "pmm_run b first 0 = 0"
| "pmm_run b first (Suc n) = (if bitmap_test b first then 0 else Suc (pmm_run b (Suc first) n))"

lemma nat_and_le_right: "(a :: nat) AND b \<le> b"
proof -
  have "int (a AND b) \<le> int b"
    by (simp add: of_nat_and_eq AND_upper2)
  then show ?thesis by simp
qed

lemma and_not_greater: "0 < al \<Longrightarrow> x < and_not (x + al) (al - 1)"
proof -
  assume "0 < al"
  have "(x + al) AND (al - 1) \<le> al - 1" by (rule nat_and_le_right)
  with \<open>0 < al\<close> show ?thesis by (simp add: and_not_def)
qed

text \<open>
  The outer loop, from the candidate \<open>first\<close>; the loop variable only grows, so it ends when
  \<open>alignment\<close> is positive, which the caller has checked.  The tests are counted as in the
  code: one per page looked at.
\<close>

function pmm_find_run :: "u8 list \<Rightarrow> nat \<Rightarrow> nat \<Rightarrow> nat \<Rightarrow> nat \<Rightarrow> nat \<Rightarrow> nat option \<times> nat" where
  "pmm_find_run b pages alignment limit first bits =
     (if first \<le> limit \<and> 0 < alignment then
        let i = pmm_run b first pages in
        if i = pages then (Some first, bits + pages)
        else pmm_find_run b pages alignment limit
               (and_not (first + i + alignment) (alignment - 1)) (bits + i + 1)
      else (None, bits))"
  by pat_completeness auto
termination
proof (relation "measure (\<lambda>(b, pages, alignment, limit, first, bits). Suc limit - first)", goal_cases)
  case (2 b pages alignment limit first bits i)
  then have "first + i < and_not (first + i + alignment) (alignment - 1)"
    by (intro and_not_greater) simp
  with 2 show ?case by auto
qed simp

declare pmm_find_run.simps [simp del]

definition pmm_alloc_contiguous :: "pmm \<Rightarrow> nat \<Rightarrow> nat \<Rightarrow> pmm \<times> nat" where
  "pmm_alloc_contiguous s pages alignment =
     (if pages = 0 \<or> alignment = 0 \<or> alignment AND (alignment - 1) \<noteq> 0 then (s, 0)
      else if pages > total_pages s \<or> alignment > total_pages s \<or> pages > free_pages s then (s, 0)
      else
        case pmm_find_run (pmm_bitmap s) pages alignment (total_pages s - pages) alignment
               (pmm_scan_bits s) of
          (Some first, bits) \<Rightarrow>
            (s\<lparr>pmm_bitmap := fold (\<lambda>i b. bitmap_set b (first + i)) [0..<pages] (pmm_bitmap s),
               free_pages := free_pages s - pages,
               used_pages := used_pages s + pages,
               pmm_scan_bits := bits,
               pmm_scan_allocs := pmm_scan_allocs s + pages,
               pmm_hint := (if first + pages \<ge> total_pages s then 0 else first + pages)\<rparr>,
             first * PAGE_SIZE)
        | (None, bits) \<Rightarrow> (s\<lparr>pmm_scan_bits := bits\<rparr>, 0))"

section \<open>Initialisation from the firmware memory map\<close>

record boot_mmap_entry =
  mm_base :: nat
  mm_length :: nat
  mm_type :: nat

abbreviation (input) E820_USABLE :: nat where
  "E820_USABLE \<equiv> 1"

definition mm_end :: "boot_mmap_entry \<Rightarrow> nat" where
  "mm_end e = wrap64 (mm_base e + mm_length e)"

definition pmm_highest :: "boot_mmap_entry list \<Rightarrow> nat" where
  "pmm_highest entries =
     fold (\<lambda>e highest. if mm_type e \<noteq> E820_USABLE then highest
                        else if mm_end e > highest then mm_end e else highest) entries 0"

definition page_up :: "nat \<Rightarrow> nat" where
  "page_up x = and_not (wrap64 (x + PAGE_SIZE - 1)) (PAGE_SIZE - 1)"

text \<open>
  Where the bitmap goes: the first usable region with room at or after the end of the kernel
  image and below the mapped gigabyte; 0 when there is none.
\<close>

fun pmm_choose :: "nat \<Rightarrow> nat \<Rightarrow> boot_mmap_entry list \<Rightarrow> nat" where
  "pmm_choose kend bsize [] = 0"
| "pmm_choose kend bsize (e # es) =
     (let start = page_up (if mm_base e > kend then mm_base e else kend) in
      if mm_type e \<noteq> E820_USABLE then pmm_choose kend bsize es
      else if start \<ge> mm_end e then pmm_choose kend bsize es
      else if mm_end e - start < bsize then pmm_choose kend bsize es
      else if wrap64 (start + bsize) > 0x40000000 then pmm_choose kend bsize es
      else start)"

definition pmm_release_entry :: "boot_mmap_entry \<Rightarrow> pmm \<Rightarrow> pmm" where
  "pmm_release_entry e s =
     (if mm_type e \<noteq> E820_USABLE then s
      else pmm_release_range (mm_base e div PAGE_SIZE) (min (mm_end e div PAGE_SIZE) (total_pages s)) s)"

text \<open>
  \<open>kernel_end\<close> is the physical end of the kernel image and \<open>fixed\<close> the physical addresses
  the architecture reserves (\<open>arch_pmm_reserve_fixed\<close>); \<open>None\<close> is the halt when no region can
  hold the bitmap.
\<close>

definition pmm_init :: "nat \<Rightarrow> nat list \<Rightarrow> boot_mmap_entry list \<Rightarrow> pmm option" where
  "pmm_init kernel_end fixed entries =
     (let total = pmm_highest entries div PAGE_SIZE;
          bsize = (total + 7) div 8;
          chosen = pmm_choose (page_up kernel_end) bsize entries in
      if chosen = 0 then None
      else
        let s0 = \<lparr>pmm_bitmap = replicate bsize 255, total_pages = total, used_pages = total,
                  free_pages = 0, bitmap_size = bsize, pmm_hint = 0, pmm_scan_bits = 0,
                  pmm_scan_allocs = 0\<rparr>;
            s1 = fold pmm_release_entry entries s0;
            b0 = chosen div PAGE_SIZE;
            b1 = wrap64 (wrap64 (chosen + bsize) + PAGE_SIZE - 1) div PAGE_SIZE;
            s2 = pmm_claim_range b0 (min b1 total) s1;
            reserve_end_page = wrap64 (kernel_end + PAGE_SIZE - 1) div PAGE_SIZE;
            s3 = pmm_claim_range 0 (min (reserve_end_page + 1) total) s2
        in Some (fold (\<lambda>a s. pmm_reserve_page s a) fixed s3))"

section \<open>The invariant\<close>

definition pmm_free_set :: "pmm \<Rightarrow> nat set" where
  "pmm_free_set s = {p. p < total_pages s \<and> \<not> bitmap_test (pmm_bitmap s) p}"

definition pmm_inv :: "pmm \<Rightarrow> bool" where
  "pmm_inv s \<longleftrightarrow>
     length (pmm_bitmap s) = bitmap_size s \<and>
     bitmap_size s = (total_pages s + 7) div 8 \<and>
     free_pages s = card (pmm_free_set s) \<and>
     used_pages s + free_pages s = total_pages s \<and>
     (pmm_hint s = 0 \<or> pmm_hint s < total_pages s) \<and>
     (\<forall>p. total_pages s \<le> p \<and> p < 8 * bitmap_size s \<longrightarrow> bitmap_test (pmm_bitmap s) p)"

interpretation pmm_bits: bitmap_ops bitmap_test bitmap_set bitmap_clear
proof
  show "length (bitmap_set b i) = length b" for b i
    by (simp add: bitmap_set_def)
  show "length (bitmap_clear b i) = length b" for b i
    by (simp add: bitmap_clear_def)
  show bit: "bitmap_test b i \<longleftrightarrow> bit (b ! (i div 8)) (i mod 8)" if "i < 8 * length b" for b i
    unfolding bitmap_test_def by (rule word_and_single_bit) simp
  have split: "j = i \<longleftrightarrow> j div 8 = i div 8 \<and> j mod 8 = i mod 8" for i j :: nat
    by (metis div_mult_mod_eq)
  show "bitmap_test (bitmap_set b i) j \<longleftrightarrow> j = i \<or> bitmap_test b j"
    if "i < 8 * length b" and "j < 8 * length b" for b i j
    using that bit [of j "bitmap_set b i"] bit [of j b] split [of j i]
    by (auto simp: bitmap_set_def nth_list_update less_mult_imp_div_less mult.commute bit_single_pow)
  show "bitmap_test (bitmap_clear b i) j \<longleftrightarrow> j \<noteq> i \<and> bitmap_test b j"
    if "i < 8 * length b" and "j < 8 * length b" for b i j
    using that bit [of j "bitmap_clear b i"] bit [of j b] split [of j i]
    by (auto simp: bitmap_clear_def nth_list_update less_mult_imp_div_less mult.commute
        bit_single_pow)
qed

lemmas pmm_bits_laws = pmm_bits.tst_setb pmm_bits.tst_clrb pmm_bits.length_setb pmm_bits.length_clrb

lemma pmm_inv_coverage: "pmm_inv s \<Longrightarrow> total_pages s \<le> 8 * length (pmm_bitmap s)"
  by (simp add: pmm_inv_def)

lemma finite_pmm_free_set [simp]: "finite (pmm_free_set s)"
  by (simp add: pmm_free_set_def)

lemma pmm_free_setD: "p \<in> pmm_free_set s \<Longrightarrow> p < total_pages s \<and> \<not> bitmap_test (pmm_bitmap s) p"
  by (simp add: pmm_free_set_def)

text \<open>Marking a free page used, and a used page free: the step every operation is made of.\<close>

lemma pmm_mark_used:
  assumes inv: "pmm_inv s" and p: "p \<in> pmm_free_set s"
    and t: "t = s\<lparr>pmm_bitmap := bitmap_set (pmm_bitmap s) p, free_pages := free_pages s - 1,
                used_pages := used_pages s + 1\<rparr>"
  shows "pmm_inv t" and "pmm_free_set t = pmm_free_set s - {p}" and "total_pages t = total_pages s"
proof -
  note cov = pmm_inv_coverage [OF inv]
  from p have p': "p < total_pages s" "\<not> bitmap_test (pmm_bitmap s) p"
    by (simp_all add: pmm_free_set_def)
  show fs: "pmm_free_set t = pmm_free_set s - {p}"
    using p' cov by (simp add: t pmm_free_set_def pmm_bits.clear_after_setb)
  show "total_pages t = total_pages s" by (simp add: t)
  have card: "card (pmm_free_set s) = Suc (card (pmm_free_set t))"
    using p by (simp add: fs card.remove [of _ p] del: card_Diff_insert)
  have fields: "pmm_bitmap t = bitmap_set (pmm_bitmap s) p" "free_pages t = free_pages s - 1"
    "used_pages t = used_pages s + 1" "total_pages t = total_pages s" "pmm_hint t = pmm_hint s"
    "bitmap_size t = bitmap_size s"
    by (simp_all add: t)
  show "pmm_inv t"
    using inv card p' cov by (auto simp: pmm_inv_def fields pmm_bits_laws)
qed

lemma pmm_mark_free:
  assumes inv: "pmm_inv s" and p: "p < total_pages s" "bitmap_test (pmm_bitmap s) p"
    and t: "t = s\<lparr>pmm_bitmap := bitmap_clear (pmm_bitmap s) p, free_pages := free_pages s + 1,
                used_pages := used_pages s - 1\<rparr>"
  shows "pmm_inv t" and "pmm_free_set t = insert p (pmm_free_set s)" and "total_pages t = total_pages s"
proof -
  note cov = pmm_inv_coverage [OF inv]
  show fs: "pmm_free_set t = insert p (pmm_free_set s)"
    using p cov by (simp add: t pmm_free_set_def pmm_bits.clear_after_clrb)
  show "total_pages t = total_pages s" by (simp add: t)
  have new: "p \<notin> pmm_free_set s" using p by (simp add: pmm_free_set_def)
  then have card: "card (pmm_free_set t) = Suc (card (pmm_free_set s))"
    by (simp add: fs)
  have "card (pmm_free_set t) \<le> total_pages s"
    using pmm_bits.card_clear_le [of "total_pages s" "pmm_bitmap t"] by (simp add: pmm_free_set_def t)
  moreover have fields: "pmm_bitmap t = bitmap_clear (pmm_bitmap s) p"
    "free_pages t = free_pages s + 1" "used_pages t = used_pages s - 1"
    "total_pages t = total_pages s" "pmm_hint t = pmm_hint s" "bitmap_size t = bitmap_size s"
    by (simp_all add: t)
  ultimately show "pmm_inv t"
    using inv card p cov by (auto simp: pmm_inv_def fields pmm_bits_laws)
qed

section \<open>Every operation keeps the invariant\<close>

lemma pmm_free_set_fields [simp]:
  "pmm_free_set (s\<lparr>pmm_hint := h\<rparr>) = pmm_free_set s"
  "pmm_free_set (s\<lparr>pmm_scan_bits := n\<rparr>) = pmm_free_set s"
  "pmm_free_set (s\<lparr>pmm_scan_allocs := n\<rparr>) = pmm_free_set s"
  "pmm_free_set (s\<lparr>free_pages := n\<rparr>) = pmm_free_set s"
  "pmm_free_set (s\<lparr>used_pages := n\<rparr>) = pmm_free_set s"
  by (simp_all add: pmm_free_set_def)

lemma pmm_inv_fields [simp]:
  "pmm_inv (s\<lparr>pmm_scan_bits := n\<rparr>) = pmm_inv s"
  "pmm_inv (s\<lparr>pmm_scan_allocs := n\<rparr>) = pmm_inv s"
  by (simp_all add: pmm_inv_def)

lemma pmm_inv_hint: "pmm_inv s \<Longrightarrow> h = 0 \<or> h < total_pages s \<Longrightarrow> pmm_inv (s\<lparr>pmm_hint := h\<rparr>)"
  by (simp add: pmm_inv_def)

lemma pmm_take_inv:
  assumes "pmm_inv s" and "i \<in> pmm_free_set s"
  shows "pmm_inv (pmm_take s i bits)" and "pmm_free_set (pmm_take s i bits) = pmm_free_set s - {i}"
    and "total_pages (pmm_take s i bits) = total_pages s"
proof -
  define t where "t = s\<lparr>pmm_bitmap := bitmap_set (pmm_bitmap s) i, free_pages := free_pages s - 1,
                        used_pages := used_pages s + 1\<rparr>"
  note t = pmm_mark_used [OF assms t_def]
  have eq: "pmm_take s i bits =
      t\<lparr>pmm_hint := (if i + 1 \<ge> total_pages s then 0 else i + 1)\<rparr>
       \<lparr>pmm_scan_bits := bits\<rparr>\<lparr>pmm_scan_allocs := pmm_scan_allocs s + 1\<rparr>"
    by (simp add: pmm_take_def t_def)
  show "pmm_inv (pmm_take s i bits)"
    unfolding eq pmm_inv_fields by (rule pmm_inv_hint [OF t(1)]) (simp add: t(3))
  show "pmm_free_set (pmm_take s i bits) = pmm_free_set s - {i}"
    unfolding eq pmm_free_set_fields by (rule t(2))
  show "total_pages (pmm_take s i bits) = total_pages s"
    unfolding eq by (simp add: t(3))
qed

lemma pmm_scan_spec:
  assumes "e \<le> 8 * length b" and "pmm_scan b i e bits = (r, bits')"
  shows "(case r of
            None \<Rightarrow> \<forall>k. i \<le> k \<and> k < e \<longrightarrow> bitmap_test b k
          | Some j \<Rightarrow> i \<le> j \<and> j < e \<and> \<not> bitmap_test b j)"
  using assms
proof (induction b i e bits rule: pmm_scan.induct)
  case (1 b i e bits)
  let ?skip = "i mod 8 = 0 \<and> i + 8 \<le> e \<and> b ! (i div 8) = 255"
  consider (stop) "\<not> i < e" | (skip) "i < e" ?skip
    | (hit) "i < e" "\<not> ?skip" "\<not> bitmap_test b i" | (next_bit) "i < e" "\<not> ?skip" "bitmap_test b i"
    by blast
  then show ?case
  proof cases
    case stop
    with "1.prems" show ?thesis by (auto simp: pmm_scan.simps [of b i])
  next
    case skip
    with "1.prems" have rec: "pmm_scan b (i + 8) e (bits + 1) = (r, bits')"
      by (simp add: pmm_scan.simps [of b i])
    have ones: "bitmap_test b k" if "i \<le> k" "k < i + 8" for k
      using pmm_bits.byte_ones [of b i "k - i"] skip that "1.prems"(1) by auto
    have "i \<le> k \<and> k < e \<longleftrightarrow> i \<le> k \<and> k < i + 8 \<or> i + 8 \<le> k \<and> k < e" for k
      using skip(2) by auto
    with "1.IH"(1) [OF skip "1.prems"(1) rec] ones show ?thesis
      by (cases r) auto
  next
    case hit
    with "1.prems" show ?thesis by (auto simp: pmm_scan.simps [of b i])
  next
    case next_bit
    with "1.prems" have rec: "pmm_scan b (i + 1) e (bits + 1) = (r, bits')"
      by (auto simp: pmm_scan.simps [of b i])
    have "\<not> \<not> bitmap_test b i" using next_bit by simp
    moreover have "i \<le> k \<and> k < e \<longleftrightarrow> k = i \<or> i + 1 \<le> k \<and> k < e" for k
      using next_bit(1) by auto
    ultimately show ?thesis
      using "1.IH"(2) [OF next_bit(1,2) _ "1.prems"(1) rec] next_bit(3) by (cases r) auto
  qed
qed

text \<open>The allocator finds a page exactly when one is free.\<close>

lemma pmm_alloc_page_cases:
  assumes inv: "pmm_inv s" and alloc: "pmm_alloc_page s = (s', a)"
  obtains (found) p where "p \<in> pmm_free_set s" "a = p * PAGE_SIZE" "pmm_inv s'"
      "pmm_free_set s' = pmm_free_set s - {p}" "total_pages s' = total_pages s"
  | (empty) bits where "pmm_free_set s = {}" "a = 0" "s' = s\<lparr>pmm_scan_bits := bits\<rparr>"
proof -
  note cov = pmm_inv_coverage [OF inv]
  have hint: "pmm_hint s \<le> total_pages s" using inv by (auto simp: pmm_inv_def)
  obtain r bits where r: "pmm_scan (pmm_bitmap s) (pmm_hint s) (total_pages s) (pmm_scan_bits s) = (r, bits)"
    by fastforce
  obtain r' bits' where r': "pmm_scan (pmm_bitmap s) 0 (pmm_hint s) bits = (r', bits')"
    by fastforce
  note spec = pmm_scan_spec [OF cov r] pmm_scan_spec [OF order_trans [OF hint cov] r']
  consider p where "r = Some p" | p where "r = None" "r' = Some p" | "r = None" "r' = None"
    by (cases r; cases r') auto
  then show thesis
  proof cases
    case (1 p)
    with spec have "p \<in> pmm_free_set s" by (simp add: pmm_free_set_def)
    with 1 r alloc inv show thesis
      by (intro found [of p]) (auto simp: pmm_alloc_page_def pmm_take_inv)
  next
    case (2 p)
    with spec hint have "p \<in> pmm_free_set s" by (simp add: pmm_free_set_def)
    with 2 r r' alloc inv show thesis
      by (intro found [of p]) (auto simp: pmm_alloc_page_def pmm_take_inv)
  next
    case 3
    with spec have "bitmap_test (pmm_bitmap s) k" if "k < total_pages s" for k
      using that by (cases "k < pmm_hint s") auto
    then have "pmm_free_set s = {}" by (auto simp: pmm_free_set_def)
    with 3 r r' alloc show thesis
      by (intro empty [of bits']) (auto simp: pmm_alloc_page_def)
  qed
qed

lemma pmm_free_page_inv:
  assumes "pmm_inv s"
  shows "pmm_inv (pmm_free_page s a)"
    and "total_pages (pmm_free_page s a) = total_pages s"
    and "pmm_free_set (pmm_free_page s a) =
         (if a div PAGE_SIZE < total_pages s then insert (a div PAGE_SIZE) (pmm_free_set s)
          else pmm_free_set s)"
proof -
  let ?p = "a div PAGE_SIZE"
  let ?t = "s\<lparr>pmm_bitmap := bitmap_clear (pmm_bitmap s) ?p, free_pages := free_pages s + 1,
              used_pages := used_pages s - 1\<rparr>"
  consider (out) "\<not> ?p < total_pages s" | (free) "?p < total_pages s" "\<not> bitmap_test (pmm_bitmap s) ?p"
    | (used) "?p < total_pages s" "bitmap_test (pmm_bitmap s) ?p"
    by blast
  then have "pmm_inv (pmm_free_page s a) \<and> total_pages (pmm_free_page s a) = total_pages s \<and>
    pmm_free_set (pmm_free_page s a) =
      (if ?p < total_pages s then insert ?p (pmm_free_set s) else pmm_free_set s)"
  proof cases
    case used
    have eq: "pmm_free_page s a = ?t\<lparr>pmm_hint := (if ?p < pmm_hint s then ?p else pmm_hint s)\<rparr>"
      using used by (simp add: pmm_free_page_def Let_def)
    have "pmm_hint s = 0 \<or> pmm_hint s < total_pages s" using assms by (simp add: pmm_inv_def)
    with used pmm_mark_free [OF assms used refl] show ?thesis
      unfolding eq by (auto intro!: pmm_inv_hint)
  qed (use assms in \<open>auto simp: pmm_free_page_def pmm_free_set_def insert_absorb\<close>)
  then show "pmm_inv (pmm_free_page s a)" and "total_pages (pmm_free_page s a) = total_pages s"
    and "pmm_free_set (pmm_free_page s a) =
         (if ?p < total_pages s then insert ?p (pmm_free_set s) else pmm_free_set s)"
    by blast+
qed

lemma pmm_reserve_page_inv:
  assumes "pmm_inv s"
  shows "pmm_inv (pmm_reserve_page s a)"
    and "total_pages (pmm_reserve_page s a) = total_pages s"
    and "pmm_free_set (pmm_reserve_page s a) = pmm_free_set s - {a div PAGE_SIZE}"
proof -
  let ?p = "a div PAGE_SIZE"
  have "pmm_inv (pmm_reserve_page s a) \<and> total_pages (pmm_reserve_page s a) = total_pages s \<and>
    pmm_free_set (pmm_reserve_page s a) = pmm_free_set s - {?p}"
  proof (cases "?p \<in> pmm_free_set s")
    case True
    define t where "t = s\<lparr>pmm_bitmap := bitmap_set (pmm_bitmap s) ?p,
      free_pages := free_pages s - 1, used_pages := used_pages s + 1\<rparr>"
    have "pmm_reserve_page s a = t"
      using pmm_free_setD [OF True] by (simp add: pmm_reserve_page_def Let_def t_def)
    with pmm_mark_used [OF assms True t_def] show ?thesis by simp
  next
    case False
    then have "pmm_reserve_page s a = s"
      by (auto simp: pmm_reserve_page_def pmm_free_set_def Let_def)
    with False assms show ?thesis by simp
  qed
  then show "pmm_inv (pmm_reserve_page s a)"
    and "total_pages (pmm_reserve_page s a) = total_pages s"
    and "pmm_free_set (pmm_reserve_page s a) = pmm_free_set s - {?p}"
    by blast+
qed

lemma pmm_release_one_inv:
  assumes "pmm_inv s" and "p < total_pages s"
  shows "pmm_inv (pmm_release_one p s)"
    and "pmm_free_set (pmm_release_one p s) = insert p (pmm_free_set s)"
    and "total_pages (pmm_release_one p s) = total_pages s"
proof -
  have "pmm_inv (pmm_release_one p s) \<and> pmm_free_set (pmm_release_one p s) = insert p (pmm_free_set s) \<and>
    total_pages (pmm_release_one p s) = total_pages s"
  proof (cases "bitmap_test (pmm_bitmap s) p")
    case True
    define t where "t = s\<lparr>pmm_bitmap := bitmap_clear (pmm_bitmap s) p,
      free_pages := free_pages s + 1, used_pages := used_pages s - 1\<rparr>"
    have "pmm_release_one p s = t" using True by (simp add: pmm_release_one_def t_def)
    with pmm_mark_free [OF assms True t_def] show ?thesis by simp
  next
    case False
    with assms have "p \<in> pmm_free_set s" by (simp add: pmm_free_set_def)
    moreover have "pmm_release_one p s = s" using False by (simp add: pmm_release_one_def)
    ultimately show ?thesis using assms by (simp add: insert_absorb)
  qed
  then show "pmm_inv (pmm_release_one p s)"
    and "pmm_free_set (pmm_release_one p s) = insert p (pmm_free_set s)"
    and "total_pages (pmm_release_one p s) = total_pages s"
    by blast+
qed

lemma pmm_claim_one_inv:
  assumes "pmm_inv s" and "p < total_pages s"
  shows "pmm_inv (pmm_claim_one p s)"
    and "pmm_free_set (pmm_claim_one p s) = pmm_free_set s - {p}"
    and "total_pages (pmm_claim_one p s) = total_pages s"
proof -
  have "pmm_claim_one p s = pmm_reserve_page s (p * PAGE_SIZE)"
    using assms(2) by (simp add: pmm_claim_one_def pmm_reserve_page_def Let_def)
  with pmm_reserve_page_inv [OF assms(1), of "p * PAGE_SIZE"]
  show "pmm_inv (pmm_claim_one p s)"
    and "pmm_free_set (pmm_claim_one p s) = pmm_free_set s - {p}"
    and "total_pages (pmm_claim_one p s) = total_pages s"
    by simp_all
qed

lemma pmm_release_range_inv:
  assumes "pmm_inv s" and "e \<le> total_pages s"
  shows "pmm_inv (pmm_release_range p e s) \<and>
    pmm_free_set (pmm_release_range p e s) = pmm_free_set s \<union> {p..<e} \<and>
    total_pages (pmm_release_range p e s) = total_pages s"
proof -
  have *: "pmm_inv (fold pmm_release_one ps s) \<and>
      pmm_free_set (fold pmm_release_one ps s) = pmm_free_set s \<union> set ps \<and>
      total_pages (fold pmm_release_one ps s) = total_pages s"
    if "set ps \<subseteq> {..<total_pages s}" for ps
    using that assms(1)
    by (induction ps arbitrary: s) (simp_all add: pmm_release_one_inv)
  have "set [p..<e] \<subseteq> {..<total_pages s}" using assms(2) by auto
  from * [OF this] show ?thesis by (simp add: pmm_release_range_def)
qed

lemma pmm_claim_range_inv:
  assumes "pmm_inv s" and "e \<le> total_pages s"
  shows "pmm_inv (pmm_claim_range p e s) \<and>
    pmm_free_set (pmm_claim_range p e s) = pmm_free_set s - {p..<e} \<and>
    total_pages (pmm_claim_range p e s) = total_pages s"
proof -
  have *: "pmm_inv (fold pmm_claim_one ps s) \<and>
      pmm_free_set (fold pmm_claim_one ps s) = pmm_free_set s - set ps \<and>
      total_pages (fold pmm_claim_one ps s) = total_pages s"
    if "set ps \<subseteq> {..<total_pages s}" for ps
    using that assms(1)
    by (induction ps arbitrary: s) (auto simp: pmm_claim_one_inv)
  have "set [p..<e] \<subseteq> {..<total_pages s}" using assms(2) by auto
  from * [OF this] show ?thesis by (simp add: pmm_claim_range_def)
qed

lemma pmm_grow_bitmap_inv:
  assumes inv: "pmm_inv s" and grow: "total_pages s < nt"
  shows "pmm_inv (pmm_grow_bitmap nt s)" and "pmm_free_set (pmm_grow_bitmap nt s) = pmm_free_set s"
    and "total_pages (pmm_grow_bitmap nt s) = nt"
proof -
  define t where "t = pmm_grow_bitmap nt s"
  define b where "b = pmm_bitmap s"
  define k where "k = (nt + 7) div 8 - length b"
  have lb: "length b = (total_pages s + 7) div 8" and bs: "bitmap_size s = length b"
    using inv by (simp_all add: pmm_inv_def b_def)
  have k: "length b + k = (nt + 7) div 8"
    using grow by (simp add: k_def lb div_le_mono)
  have fields: "pmm_bitmap t = b @ replicate k 255" "total_pages t = nt"
    "bitmap_size t = length b + k" "free_pages t = free_pages s"
    "used_pages t = used_pages s + (nt - total_pages s)" "pmm_hint t = pmm_hint s"
    using k by (simp_all add: t_def pmm_grow_bitmap_def Let_def bs b_def k_def)
  have old: "bitmap_test (pmm_bitmap t) p = bitmap_test b p" if "p < 8 * length b" for p
    using that by (simp add: fields pmm_bits.tst_append_left)
  have new: "bitmap_test (pmm_bitmap t) p" if "8 * length b \<le> p" "p < 8 * (length b + k)" for p
    using that by (simp add: fields pmm_bits.tst_append_right pmm_bits.tst_replicate_ones)
  have tail: "bitmap_test b p" if "total_pages s \<le> p" "p < 8 * length b" for p
    using inv that by (simp add: pmm_inv_def b_def)
  have used: "bitmap_test (pmm_bitmap t) p" if "total_pages s \<le> p" "p < 8 * (length b + k)" for p
    using that old new tail by (cases "p < 8 * length b") auto
  have cov: "total_pages s \<le> 8 * length b" unfolding lb by simp
  have cov': "nt \<le> 8 * (length b + k)" unfolding k by simp
  show fs: "pmm_free_set (pmm_grow_bitmap nt s) = pmm_free_set s"
  proof -
    have "p < nt \<and> \<not> bitmap_test (pmm_bitmap t) p \<longleftrightarrow> p < total_pages s \<and> \<not> bitmap_test b p" for p
      using used [of p] old [of p] cov cov' grow by (cases "p < total_pages s") auto
    then show ?thesis by (simp add: pmm_free_set_def fields b_def flip: t_def)
  qed
  show "total_pages (pmm_grow_bitmap nt s) = nt" by (simp add: fields flip: t_def)
  show "pmm_inv (pmm_grow_bitmap nt s)"
    using inv grow used fs k
    unfolding pmm_inv_def t_def [symmetric] fields by auto
qed

lemma pmm_add_region_inv:
  assumes inv: "pmm_inv s"
    and kmalloc: "\<And>n. pmm_inv (fst (kmalloc s n)) \<and> total_pages (fst (kmalloc s n)) = total_pages s"
  shows "pmm_inv (fst (pmm_add_region kmalloc s phys len))"
proof -
  define sp where "sp = wrap64 (phys + PAGE_SIZE - 1) div PAGE_SIZE"
  define ep where "ep = wrap64 (phys + len) div PAGE_SIZE"
  obtain s' ok where k: "kmalloc s ((ep + 7) div 8) = (s', ok)" by fastforce
  with kmalloc [of "(ep + 7) div 8"] have s': "pmm_inv s'" "total_pages s' = total_pages s" by simp_all
  have grown: "pmm_inv (pmm_release_range sp ep (pmm_grow_bitmap ep s'))" if "total_pages s < ep"
    using that s' pmm_grow_bitmap_inv [of s' ep] pmm_release_range_inv [of "pmm_grow_bitmap ep s'" ep sp]
    by simp
  have inside: "pmm_inv (pmm_release_range sp ep s)" if "\<not> total_pages s < ep"
    using that pmm_release_range_inv [OF inv, of ep sp] by simp
  show ?thesis
    unfolding pmm_add_region_def Let_def sp_def [symmetric] ep_def [symmetric] k
    using inv s' grown inside by (auto split: bool.splits)
qed

section \<open>The contiguous search\<close>

lemma pow2_if_and_pred_zero: "0 < (a :: nat) \<Longrightarrow> a AND (a - 1) = 0 \<Longrightarrow> \<exists>k. a = 2 ^ k"
proof (induction a rule: less_induct)
  case (less a)
  show ?case
  proof (cases "even a")
    case True
    then obtain m where m: "a = 2 * m" by blast
    with less.prems(1) have "0 < m" by simp
    have half: "(2 * m - Suc 0) div 2 = m - Suc 0" using \<open>0 < m\<close> by presburger
    have "a AND (a - 1) = 2 * (m AND (m - 1))"
      using and_rec [of a "a - 1"] by (simp add: m half)
    with less.prems(2) have "m AND (m - 1) = 0" by simp
    with less.IH [of m] \<open>0 < m\<close> m obtain k where "m = 2 ^ k" by auto
    with m have "a = 2 ^ Suc k" by simp
    then show ?thesis by blast
  next
    case False
    then obtain m where m: "a = 2 * m + 1" by (elim oddE)
    then have "a AND (a - 1) = 2 * m" using and_rec [of a "a - 1"] by simp
    with less.prems(2) m have "a = 2 ^ 0" by simp
    then show ?thesis by blast
  qed
qed

lemma and_not_round:
  assumes "al = 2 ^ k"
  shows "and_not (x + al) (al - 1) = (x div al + 1) * al"
proof -
  have "(x + al) AND (al - 1) = (x + al) mod al"
    using take_bit_eq_mask [of k "x + al"] by (simp add: assms take_bit_eq_mod mask_eq_exp_minus_1)
  moreover have "(x + al) div al = x div al + 1" using assms div_add_self2 [of al x] by simp
  ultimately show ?thesis
    unfolding and_not_def by (metis minus_mod_eq_div_mult)
qed

lemma pmm_run_le: "pmm_run b first n \<le> n"
  by (induction n arbitrary: first) auto

lemma pmm_run_free: "k < pmm_run b first n \<Longrightarrow> \<not> bitmap_test b (first + k)"
proof (induction n arbitrary: first k)
  case (Suc n)
  show ?case
  proof (cases k)
    case (Suc j)
    with Suc.prems Suc.IH [of j "Suc first"] show ?thesis by (auto split: if_splits)
  qed (use Suc.prems in \<open>auto split: if_splits\<close>)
qed simp

lemma pmm_run_stop: "pmm_run b first n < n \<Longrightarrow> bitmap_test b (first + pmm_run b first n)"
proof (induction n arbitrary: first)
  case (Suc n)
  then show ?case using Suc.IH [of "Suc first"] by auto
qed simp

lemma pmm_find_run_spec:
  assumes al: "al = 2 ^ k" and "al dvd first" and "pmm_find_run b pages al limit first bits = (r, bits')"
  shows "(case r of
            Some f \<Rightarrow> al dvd f \<and> first \<le> f \<and> f \<le> limit \<and> (\<forall>i<pages. \<not> bitmap_test b (f + i))
          | None \<Rightarrow> \<forall>f. al dvd f \<and> first \<le> f \<and> f \<le> limit \<longrightarrow> (\<exists>i<pages. bitmap_test b (f + i)))"
  using assms
proof (induction b pages al limit first bits rule: pmm_find_run.induct)
  case (1 b pages al limit first bits)
  note al = "1.prems"(1)
  have pos: "0 < al" by (simp add: al)
  define i where "i = pmm_run b first pages"
  show ?case
  proof (cases "first \<le> limit")
    case False
    then show ?thesis using "1.prems" by (auto simp: pmm_find_run.simps [of b pages])
  next
    case in_range: True
    show ?thesis
    proof (cases "i = pages")
      case True
      then show ?thesis
        using in_range "1.prems" pos pmm_run_free [of _ b first pages]
        by (auto simp: pmm_find_run.simps [of b pages] Let_def i_def [symmetric])
    next
      case False
      then have stop: "bitmap_test b (first + i)" and lt: "i < pages"
        using pmm_run_stop [of b first pages] pmm_run_le [of b first pages] by (auto simp: i_def)
      let ?n = "and_not (first + i + al) (al - 1)"
      have n: "?n = ((first + i) div al + 1) * al" by (rule and_not_round [OF al])
      have rec: "pmm_find_run b pages al limit ?n (bits + i + 1) = (r, bits')"
        using in_range False pos "1.prems" by (simp add: pmm_find_run.simps [of b pages] Let_def i_def)
      have skip: "\<exists>j<pages. bitmap_test b (f + j)" if "al dvd f" "first \<le> f" "f < ?n" for f
      proof -
        from \<open>al dvd f\<close> obtain q where q: "f = al * q" ..
        have "al * q < al * ((first + i) div al + 1)" using that(3) q by (simp only: n mult.commute)
        then have "q < (first + i) div al + 1" by (rule mult_less_cancel1 [THEN iffD1, THEN conjunct2])
        then have "q \<le> (first + i) div al" by simp
        then have "f \<le> first + i"
          using q mult_le_mono2 [of q "(first + i) div al" al] times_div_less_eq_dividend [of al "first + i"]
          by linarith
        with that(2) stop lt show ?thesis by (intro exI [of _ "first + i - f"]) auto
      qed
      have "al dvd ?n" unfolding n by simp
      from "1.IH" [OF _ i_def False al this rec] in_range pos
      show ?thesis
        using skip and_not_greater [OF pos, of "first + i"]
        by (auto split: option.splits) (metis leI)
    qed
  qed
qed


lemma bitmap_set_run:
  assumes "first + n \<le> 8 * length b"
  defines "c \<equiv> fold (\<lambda>i b. bitmap_set b (first + i)) [0..<n] b"
  shows "length c = length b"
    and "p < 8 * length b \<Longrightarrow> bitmap_test c p \<longleftrightarrow> p \<in> {first..<first + n} \<or> bitmap_test b p"
proof -
  have "length (fold (\<lambda>i b. bitmap_set b (first + i)) [0..<m] b) = length b \<and>
      (p < 8 * length b \<longrightarrow> bitmap_test (fold (\<lambda>i b. bitmap_set b (first + i)) [0..<m] b) p \<longleftrightarrow>
        p \<in> {first..<first + m} \<or> bitmap_test b p)" if "m \<le> n" for m p
    using that assms(1) by (induction m) (auto simp: pmm_bits_laws)
  from this [OF order_refl] show "length c = length b"
    and "p < 8 * length b \<Longrightarrow> bitmap_test c p \<longleftrightarrow> p \<in> {first..<first + n} \<or> bitmap_test b p"
    by (simp_all add: c_def)
qed

text \<open>An aligned run of free pages, as the callers of \<open>pmm_alloc_contiguous\<close> ask for it.\<close>

definition pmm_free_run :: "pmm \<Rightarrow> nat \<Rightarrow> nat \<Rightarrow> nat \<Rightarrow> bool" where
  "pmm_free_run s pages al f \<longleftrightarrow> al dvd f \<and> al \<le> f \<and> {f..<f + pages} \<subseteq> pmm_free_set s"

lemma pmm_free_run_bounds:
  assumes "pmm_free_run s pages al f" and "0 < pages"
  shows "f + pages \<le> total_pages s" and "pages \<le> card (pmm_free_set s)"
proof -
  have "f + pages - 1 \<in> {f..<f + pages}" using assms(2) by auto
  then have "f + pages - 1 \<in> pmm_free_set s" using assms(1) by (auto simp: pmm_free_run_def)
  then show "f + pages \<le> total_pages s" using assms(2) by (auto dest: pmm_free_setD)
  have "card {f..<f + pages} \<le> card (pmm_free_set s)"
    using assms(1) by (intro card_mono) (auto simp: pmm_free_run_def)
  then show "pages \<le> card (pmm_free_set s)" by simp
qed

lemma pmm_alloc_contiguous_cases:
  assumes inv: "pmm_inv s" and pages: "0 < pages" and al: "al = 2 ^ k"
    and alloc: "pmm_alloc_contiguous s pages al = (s', a)"
  obtains (found) f where "pmm_free_run s pages al f" "a = f * PAGE_SIZE" "pmm_inv s'"
      "pmm_free_set s' = pmm_free_set s - {f..<f + pages}" "total_pages s' = total_pages s"
  | (none) bits where "\<nexists>f. pmm_free_run s pages al f" "a = 0" "s' = s \<or> s' = s\<lparr>pmm_scan_bits := bits\<rparr>"
proof -
  note cov = pmm_inv_coverage [OF inv]
  have al0: "al \<noteq> 0" "al AND (al - 1) = 0"
    using take_bit_eq_mask [of k al] by (simp_all add: al take_bit_eq_mod mask_eq_exp_minus_1)
  show thesis
  proof (cases "pages > total_pages s \<or> al > total_pages s \<or> pages > free_pages s")
    case True
    have "\<not> pmm_free_run s pages al f" for f
    proof
      assume run: "pmm_free_run s pages al f"
      have "free_pages s = card (pmm_free_set s)" using inv by (simp add: pmm_inv_def)
      moreover have "al \<le> f" using run by (simp add: pmm_free_run_def)
      ultimately show False
        using pmm_free_run_bounds [OF run pages] True by linarith
    qed
    with True al0 pages alloc show thesis
      by (intro none) (auto simp: pmm_alloc_contiguous_def)
  next
    case False
    then have guards: "pages \<le> total_pages s" "al \<le> total_pages s" "pages \<le> free_pages s" by auto
    obtain r bits where r: "pmm_find_run (pmm_bitmap s) pages al (total_pages s - pages) al
        (pmm_scan_bits s) = (r, bits)"
      by fastforce
    note spec = pmm_find_run_spec [OF al dvd_refl r]
    show thesis
    proof (cases r)
      case None
      have "\<not> pmm_free_run s pages al f" for f
      proof
        assume run: "pmm_free_run s pages al f"
        from pmm_free_run_bounds(1) [OF this pages] have "f \<le> total_pages s - pages" by simp
        with spec None run obtain i where "i < pages" "bitmap_test (pmm_bitmap s) (f + i)"
          by (auto simp: pmm_free_run_def)
        moreover have "f + i \<in> pmm_free_set s" using run \<open>i < pages\<close> by (auto simp: pmm_free_run_def)
        ultimately show False by (simp add: pmm_free_set_def)
      qed
      with None r al0 pages guards alloc show thesis
        by (intro none [of bits]) (auto simp: pmm_alloc_contiguous_def)
    next
      case (Some f)
      define c where "c = fold (\<lambda>i b. bitmap_set b (f + i)) [0..<pages] (pmm_bitmap s)"
      define t where "t = s\<lparr>pmm_bitmap := c, free_pages := free_pages s - pages,
        used_pages := used_pages s + pages, pmm_scan_bits := bits,
        pmm_scan_allocs := pmm_scan_allocs s + pages,
        pmm_hint := (if f + pages \<ge> total_pages s then 0 else f + pages)\<rparr>"
      have st: "s' = t" "a = f * PAGE_SIZE"
        using Some r al0 pages guards alloc by (simp_all add: pmm_alloc_contiguous_def t_def c_def)
      have fits: "f + pages \<le> total_pages s" using spec Some guards by auto
      then have run: "pmm_free_run s pages al f"
        using spec Some by (fastforce simp: pmm_free_run_def pmm_free_set_def dest: le_Suc_ex)
      note c = bitmap_set_run [OF order_trans [OF fits cov], folded c_def]
      have fs: "pmm_free_set t = pmm_free_set s - {f..<f + pages}"
        using c(2) cov by (auto simp: pmm_free_set_def t_def)
      have "card (pmm_free_set t) = card (pmm_free_set s) - pages"
        unfolding fs using run by (subst card_Diff_subset) (auto simp: pmm_free_run_def)
      then have "pmm_inv t"
        using inv guards c cov unfolding pmm_inv_def t_def [symmetric]
        by (auto simp: t_def)
      with run st fs show thesis by (intro found [of f]) (auto simp: t_def)
    qed
  qed
qed

section \<open>Initialisation\<close>

lemma pmm_highest_bound: "e \<in> set es \<Longrightarrow> mm_type e = E820_USABLE \<Longrightarrow> mm_end e \<le> pmm_highest es"
proof -
  let ?f = "\<lambda>e highest. if mm_type e \<noteq> E820_USABLE then highest
                        else if mm_end e > highest then mm_end e else highest"
  have mono: "h \<le> fold ?f xs h" for xs h
  proof (induction xs arbitrary: h)
    case (Cons x xs)
    have "h \<le> ?f x h" by simp
    also have "\<dots> \<le> fold ?f xs (?f x h)" by (rule Cons.IH)
    finally show ?case by simp
  qed simp
  have "e \<in> set xs \<Longrightarrow> mm_type e = E820_USABLE \<Longrightarrow> mm_end e \<le> fold ?f xs h" for xs h
  proof (induction xs arbitrary: h)
    case (Cons x xs)
    show ?case
    proof (cases "x = e")
      case True
      with Cons.prems have "mm_end e \<le> ?f x h" by simp
      also have "\<dots> \<le> fold ?f xs (?f x h)" by (rule mono)
      finally show ?thesis by simp
    next
      case False
      with Cons.prems Cons.IH [of "?f x h"] show ?thesis by simp
    qed
  qed simp
  then show "e \<in> set es \<Longrightarrow> mm_type e = E820_USABLE \<Longrightarrow> mm_end e \<le> pmm_highest es"
    by (simp add: pmm_highest_def)
qed

lemma pmm_release_entry_inv:
  assumes "pmm_inv s"
  shows "pmm_inv (pmm_release_entry e s)" and "total_pages (pmm_release_entry e s) = total_pages s"
    and "pmm_free_set (pmm_release_entry e s) = pmm_free_set s \<union>
      {p. mm_type e = E820_USABLE \<and> mm_base e div PAGE_SIZE \<le> p \<and> p < mm_end e div PAGE_SIZE \<and>
          p < total_pages s}"
proof -
  let ?m = "min (mm_end e div PAGE_SIZE) (total_pages s)"
  have "?m \<le> total_pages s" by simp
  note r = pmm_release_range_inv [OF assms this, of "mm_base e div PAGE_SIZE"]
  show "pmm_inv (pmm_release_entry e s)" and "total_pages (pmm_release_entry e s) = total_pages s"
    using r assms by (simp_all add: pmm_release_entry_def)
  show "pmm_free_set (pmm_release_entry e s) = pmm_free_set s \<union>
      {p. mm_type e = E820_USABLE \<and> mm_base e div PAGE_SIZE \<le> p \<and> p < mm_end e div PAGE_SIZE \<and>
          p < total_pages s}"
  proof (cases "mm_type e = E820_USABLE")
    case True
    then have "pmm_release_entry e s = pmm_release_range (mm_base e div PAGE_SIZE) ?m s"
      by (simp add: pmm_release_entry_def)
    then have "pmm_free_set (pmm_release_entry e s) = pmm_free_set s \<union> {mm_base e div PAGE_SIZE..<?m}"
      using r by simp
    moreover have "{a..<min b c} = {p. True \<and> a \<le> p \<and> p < b \<and> p < c}" for a b c :: nat
      by auto
    ultimately show ?thesis by (simp only: True simp_thms)
  qed (simp add: pmm_release_entry_def)
qed

lemma pmm_release_entries_inv:
  assumes "pmm_inv s"
  shows "pmm_inv (fold pmm_release_entry es s) \<and> total_pages (fold pmm_release_entry es s) = total_pages s \<and>
    pmm_free_set (fold pmm_release_entry es s) = pmm_free_set s \<union>
      {p. p < total_pages s \<and> (\<exists>e\<in>set es. mm_type e = E820_USABLE \<and>
            mm_base e div PAGE_SIZE \<le> p \<and> p < mm_end e div PAGE_SIZE)}"
  using assms
proof (induction es arbitrary: s)
  case (Cons e es)
  note step = pmm_release_entry_inv [OF Cons.prems, of e]
  from Cons.IH [OF step(1)] step show ?case by auto
qed simp

lemma pmm_reserve_all_inv:
  assumes "pmm_inv s"
  shows "pmm_inv (fold (\<lambda>a s. pmm_reserve_page s a) as s) \<and>
    pmm_free_set (fold (\<lambda>a s. pmm_reserve_page s a) as s) = pmm_free_set s - (\<lambda>a. a div PAGE_SIZE) ` set as"
  using assms
proof (induction as arbitrary: s)
  case (Cons a as)
  note step = pmm_reserve_page_inv [OF Cons.prems, of a]
  from Cons.IH [OF step(1)] step show ?case by auto
qed simp

lemma pmm_all_used_inv:
  assumes "s = \<lparr>pmm_bitmap = replicate ((n + 7) div 8) 255, total_pages = n, used_pages = n,
    free_pages = 0, bitmap_size = (n + 7) div 8, pmm_hint = 0, pmm_scan_bits = 0, pmm_scan_allocs = 0\<rparr>"
  shows "pmm_inv s" and "pmm_free_set s = {}" and "total_pages s = n"
proof -
  have "n \<le> 8 * ((n + 7) div 8)" by simp
  then show "pmm_free_set s = {}"
    by (auto simp: pmm_free_set_def assms pmm_bits.tst_replicate_ones)
  then show "pmm_inv s"
    by (simp add: pmm_inv_def) (simp add: assms pmm_bits.tst_replicate_ones)
  show "total_pages s = n" by (simp add: assms)
qed

text \<open>
  Exactly which pages initialisation leaves free: those of usable entries (the first page of
  an entry is rounded down, its end too), above the kernel image's last page, outside the
  bitmap and not fixed.
\<close>

lemma pmm_init_free_set:
  assumes "pmm_init kernel_end fixed entries = Some s"
  defines "bsize \<equiv> (pmm_highest entries div PAGE_SIZE + 7) div 8"
  defines "chosen \<equiv> pmm_choose (page_up kernel_end) bsize entries"
  shows "pmm_inv s" and
    "pmm_free_set s =
      {p. (\<exists>e\<in>set entries. mm_type e = E820_USABLE \<and>
            mm_base e div PAGE_SIZE \<le> p \<and> p < mm_end e div PAGE_SIZE)}
      - {chosen div PAGE_SIZE ..< wrap64 (wrap64 (chosen + bsize) + PAGE_SIZE - 1) div PAGE_SIZE}
      - {0..wrap64 (kernel_end + PAGE_SIZE - 1) div PAGE_SIZE}
      - (\<lambda>a. a div PAGE_SIZE) ` set fixed"
proof -
  define n where "n = pmm_highest entries div PAGE_SIZE"
  define s0 where "s0 = \<lparr>pmm_bitmap = replicate ((n + 7) div 8) 255, total_pages = n, used_pages = n,
    free_pages = 0, bitmap_size = (n + 7) div 8, pmm_hint = 0, pmm_scan_bits = 0, pmm_scan_allocs = 0\<rparr>"
  define s1 where "s1 = fold pmm_release_entry entries s0"
  define b0 where "b0 = chosen div PAGE_SIZE"
  define b1 where "b1 = wrap64 (wrap64 (chosen + bsize) + PAGE_SIZE - 1) div PAGE_SIZE"
  define s2 where "s2 = pmm_claim_range b0 (min b1 n) s1"
  define r where "r = wrap64 (kernel_end + PAGE_SIZE - 1) div PAGE_SIZE"
  define s3 where "s3 = pmm_claim_range 0 (min (r + 1) n) s2"
  have s: "s = fold (\<lambda>a s. pmm_reserve_page s a) fixed s3"
    using assms(1) unfolding pmm_init_def Let_def n_def [symmetric]
    by (simp add: s0_def s1_def s2_def s3_def b0_def b1_def r_def chosen_def bsize_def n_def split: if_splits)
  note i0 = pmm_all_used_inv [OF s0_def]
  note i1 = pmm_release_entries_inv [OF i0(1), of entries, folded s1_def]
  have i2: "pmm_inv s2 \<and> pmm_free_set s2 = pmm_free_set s1 - {b0..<min b1 n} \<and> total_pages s2 = n"
    unfolding s2_def using pmm_claim_range_inv [of s1 "min b1 n" b0] i0 i1 by simp
  have i3: "pmm_inv s3 \<and> pmm_free_set s3 = pmm_free_set s2 - {0..<min (r + 1) n}"
    unfolding s3_def using pmm_claim_range_inv [of s2 "min (r + 1) n" 0] i2 by simp
  note i4 = pmm_reserve_all_inv [of s3 fixed, folded s]
  show "pmm_inv s" using i3 i4 by blast
  have below: "p < n" if "e \<in> set entries" "mm_type e = E820_USABLE" "p < mm_end e div PAGE_SIZE" for e p
    using pmm_highest_bound [OF that(1,2)] that(3) div_le_mono [of "mm_end e" "pmm_highest entries" PAGE_SIZE]
    by (simp add: n_def)
  have "pmm_free_set s = {p. p < n \<and> (\<exists>e\<in>set entries. mm_type e = E820_USABLE \<and>
            mm_base e div PAGE_SIZE \<le> p \<and> p < mm_end e div PAGE_SIZE)}
      - {b0..<min b1 n} - {0..<min (r + 1) n} - (\<lambda>a. a div PAGE_SIZE) ` set fixed"
    using i0 i1 i2 i3 i4 by simp
  also have "\<dots> = {p. (\<exists>e\<in>set entries. mm_type e = E820_USABLE \<and>
            mm_base e div PAGE_SIZE \<le> p \<and> p < mm_end e div PAGE_SIZE)}
      - {b0..<b1} - {0..r} - (\<lambda>a. a div PAGE_SIZE) ` set fixed"
    using below by auto
  finally show "pmm_free_set s = {p. (\<exists>e\<in>set entries. mm_type e = E820_USABLE \<and>
            mm_base e div PAGE_SIZE \<le> p \<and> p < mm_end e div PAGE_SIZE)}
      - {chosen div PAGE_SIZE ..< wrap64 (wrap64 (chosen + bsize) + PAGE_SIZE - 1) div PAGE_SIZE}
      - {0..wrap64 (kernel_end + PAGE_SIZE - 1) div PAGE_SIZE}
      - (\<lambda>a. a div PAGE_SIZE) ` set fixed"
    by (simp only: b0_def b1_def r_def)
qed

section \<open>Ownership of pages\<close>

text \<open>
  The allocator together with the set of pages its callers hold.  A page is returned only by
  a holder; a region that arrives later is memory nobody holds and does not start at address
  0.  When the region lies above the bitmap's coverage the heap may take pages first, so the
  rule continues from the state and the holdings after that request.
\<close>

definition region_start :: "nat \<Rightarrow> nat" where
  "region_start phys = wrap64 (phys + PAGE_SIZE - 1) div PAGE_SIZE"

definition region_end :: "nat \<Rightarrow> nat \<Rightarrow> nat" where
  "region_end phys len = wrap64 (phys + len) div PAGE_SIZE"

inductive pmm_reachable :: "pmm \<Rightarrow> nat set \<Rightarrow> bool" where
  init: "pmm_init kernel_end fixed entries = Some s \<Longrightarrow> pmm_reachable s {}"
| alloc: "pmm_reachable s own \<Longrightarrow> pmm_alloc_page s = (s', a) \<Longrightarrow>
    pmm_reachable s' (if a = 0 then own else insert (a div PAGE_SIZE) own)"
| contiguous: "pmm_reachable s own \<Longrightarrow> pmm_alloc_contiguous s pages alignment = (s', a) \<Longrightarrow>
    pmm_reachable s' (if a = 0 then own else own \<union> {a div PAGE_SIZE..<a div PAGE_SIZE + pages})"
| free: "pmm_reachable s own \<Longrightarrow> a div PAGE_SIZE \<in> own \<Longrightarrow>
    pmm_reachable (pmm_free_page s a) (own - {a div PAGE_SIZE})"
| reserve: "pmm_reachable s own \<Longrightarrow> pmm_reachable (pmm_reserve_page s a) own"
| region_inside: "pmm_reachable s own \<Longrightarrow> region_end phys len \<le> total_pages s \<Longrightarrow>
    0 < region_start phys \<Longrightarrow> {region_start phys..<region_end phys len} \<inter> own = {} \<Longrightarrow>
    pmm_reachable (fst (pmm_add_region kmalloc s phys len)) own"
| region_above: "pmm_reachable s own \<Longrightarrow> total_pages s < region_end phys len \<Longrightarrow> 0 < len \<Longrightarrow>
    region_start phys < region_end phys len \<Longrightarrow>
    kmalloc s ((region_end phys len + 7) div 8) = (s', ok) \<Longrightarrow> pmm_reachable s' own' \<Longrightarrow>
    total_pages s' = total_pages s \<Longrightarrow>
    0 < region_start phys \<Longrightarrow> {region_start phys..<region_end phys len} \<inter> own' = {} \<Longrightarrow>
    pmm_reachable (fst (pmm_add_region kmalloc s phys len)) own'"

definition pmm_owned :: "pmm \<Rightarrow> nat set \<Rightarrow> bool" where
  "pmm_owned s own \<longleftrightarrow> pmm_inv s \<and> 0 \<notin> pmm_free_set s \<and> own \<inter> pmm_free_set s = {} \<and>
     own \<subseteq> {0<..<total_pages s}"

lemma pmm_owned_grow:
  assumes "pmm_owned s own" "pmm_inv t" "total_pages s \<le> total_pages t"
    "pmm_free_set t \<subseteq> pmm_free_set s \<union> R" "0 \<notin> R" "R \<inter> own = {}"
  shows "pmm_owned t own"
  using assms unfolding pmm_owned_def by (auto dest: subsetD)

lemma pmm_add_region_inside:
  assumes "pmm_inv s" and "region_end phys len \<le> total_pages s"
    and t: "t = fst (pmm_add_region kmalloc s phys len)"
  shows "pmm_inv t \<and> total_pages t = total_pages s \<and>
    pmm_free_set t \<subseteq> pmm_free_set s \<union> {region_start phys..<region_end phys len}"
proof -
  have "t = s \<or> t = pmm_release_range (region_start phys) (region_end phys len) s"
    using assms(2) unfolding t pmm_add_region_def Let_def region_start_def region_end_def by simp
  then show ?thesis
    using assms(1) pmm_release_range_inv [OF assms(1,2), of "region_start phys"] by auto
qed

lemma pmm_add_region_above:
  assumes "total_pages s < region_end phys len" "0 < len" "region_start phys < region_end phys len"
    and k: "kmalloc s ((region_end phys len + 7) div 8) = (s', ok)"
    and s': "pmm_inv s'" "total_pages s' = total_pages s"
    and t: "t = fst (pmm_add_region kmalloc s phys len)"
  shows "pmm_inv t \<and> total_pages s' \<le> total_pages t \<and>
    pmm_free_set t \<subseteq> pmm_free_set s' \<union> {region_start phys..<region_end phys len}"
proof -
  have "t = s' \<or> t = pmm_release_range (region_start phys) (region_end phys len)
                      (pmm_grow_bitmap (region_end phys len) s')"
    using assms(1-3) k unfolding t pmm_add_region_def Let_def region_start_def region_end_def
    by (cases ok) simp_all
  moreover have "total_pages s' < region_end phys len" using assms(1) s'(2) by simp
  note g = pmm_grow_bitmap_inv [OF s'(1) this]
  ultimately show ?thesis
    using s' assms(1) g pmm_release_range_inv [OF g(1), of "region_end phys len" "region_start phys"] by auto
qed

lemma pmm_alloc_contiguous_bad:
  assumes "pages = 0 \<or> (\<nexists>k. alignment = 2 ^ k)"
  shows "pmm_alloc_contiguous s pages alignment = (s, 0)"
  using assms pow2_if_and_pred_zero [of alignment] by (auto simp: pmm_alloc_contiguous_def)

lemma pmm_reachable_owned: "pmm_reachable s own \<Longrightarrow> pmm_owned s own"
proof (induction rule: pmm_reachable.induct)
  case (init kernel_end fixed entries s)
  then show ?case using pmm_init_free_set [OF init] by (simp add: pmm_owned_def)
next
  case (alloc s own s' a)
  then have inv: "pmm_inv s" by (simp add: pmm_owned_def)
  from inv alloc(2) show ?case
  proof (cases rule: pmm_alloc_page_cases)
    case (found p)
    then have "p \<noteq> 0" using alloc.IH by (metis pmm_owned_def)
    with found alloc.IH show ?thesis by (auto simp: pmm_owned_def dest: pmm_free_setD)
  qed (use alloc.IH in \<open>simp add: pmm_owned_def\<close>)
next
  case (contiguous s own pages alignment s' a)
  then have inv: "pmm_inv s" by (simp add: pmm_owned_def)
  show ?case
  proof (cases "pages = 0 \<or> (\<nexists>k. alignment = 2 ^ k)")
    case False
    then obtain k where "0 < pages" "alignment = 2 ^ k" by auto
    from inv this contiguous(2) show ?thesis
    proof (cases rule: pmm_alloc_contiguous_cases)
      case (found f)
      then have "f \<noteq> 0" using \<open>alignment = 2 ^ k\<close> by (auto simp: pmm_free_run_def)
      have "{f..<f + pages} \<subseteq> {0<..<total_pages s}"
        using found(1) \<open>f \<noteq> 0\<close> by (auto simp: pmm_free_run_def subset_iff dest!: pmm_free_setD)
      with found \<open>f \<noteq> 0\<close> contiguous.IH show ?thesis by (auto simp: pmm_owned_def)
    qed (use contiguous.IH in \<open>auto simp: pmm_owned_def\<close>)
  qed (use contiguous pmm_alloc_contiguous_bad [of pages alignment s] in \<open>auto\<close>)
next
  case (free s own a)
  then have inv: "pmm_inv s" and "a div PAGE_SIZE \<noteq> 0" by (auto simp: pmm_owned_def)
  with free.IH pmm_free_page_inv [OF inv, of a] show ?case by (auto simp: pmm_owned_def)
next
  case (reserve s own a)
  then have inv: "pmm_inv s" by (simp add: pmm_owned_def)
  with reserve.IH pmm_reserve_page_inv [OF inv, of a] show ?case by (auto simp: pmm_owned_def)
next
  case (region_inside s own phys len kmalloc)
  then have inv: "pmm_inv s" by (simp add: pmm_owned_def)
  note r = pmm_add_region_inside [OF inv region_inside(2) refl, of kmalloc]
  show ?case
    by (rule pmm_owned_grow [OF region_inside.IH]) (use r region_inside(3,4) in auto)
next
  case (region_above s own phys len kmalloc s' ok own')
  then have inv: "pmm_inv s'" by (simp add: pmm_owned_def)
  note r = pmm_add_region_above [where kmalloc = kmalloc, OF region_above(2-5) inv region_above(7) refl]
  show ?case
    by (rule pmm_owned_grow [OF region_above.IH(2)]) (use r region_above(8,9) in auto)
qed
section \<open>Properties\<close>

text \<open>
  C9: every page allocation is exact.  In every state the system can reach,
  \<open>pmm_alloc_page\<close> fails (returns 0) exactly when the free counter is 0; otherwise it returns
  the address of a page inside the managed range that no caller holds, the page belongs to
  its caller alone afterwards, and one page moves from the free to the used counter.
\<close>

theorem pmm_alloc_page_exact:
  assumes "pmm_reachable s own" and "pmm_alloc_page s = (s', a)"
  shows "(a = 0 \<longleftrightarrow> free_pages s = 0) \<and>
    (a \<noteq> 0 \<longrightarrow> PAGE_SIZE dvd a \<and> a div PAGE_SIZE < total_pages s \<and> a div PAGE_SIZE \<notin> own \<and>
       a div PAGE_SIZE \<notin> pmm_free_set s' \<and>
       Suc (free_pages s') = free_pages s \<and> used_pages s' = Suc (used_pages s))"
proof -
  have owned: "pmm_owned s own" by (rule pmm_reachable_owned [OF assms(1)])
  then have inv: "pmm_inv s" by (simp add: pmm_owned_def)
  from inv assms(2) show ?thesis
  proof (cases rule: pmm_alloc_page_cases)
    case (found p)
    then have p: "p \<noteq> 0" "p < total_pages s" "p \<notin> own"
      using owned by (auto simp: pmm_owned_def dest: pmm_free_setD)
    have "card (pmm_free_set s) = Suc (card (pmm_free_set s'))"
      using found card.remove [of "pmm_free_set s" p] by simp
    then have free: "free_pages s = Suc (free_pages s')"
      using inv found by (simp add: pmm_inv_def)
    moreover have "used_pages s' + free_pages s' = used_pages s + free_pages s"
      using inv found(3,5) by (simp add: pmm_inv_def)
    ultimately show ?thesis using found p by simp
  next
    case (empty bits)
    then show ?thesis using inv by (simp add: pmm_inv_def)
  qed
qed

text \<open>A machine with eight pages: the kernel image and the bitmap take the first two.\<close>

definition pmm_example :: pmm where
  "pmm_example = \<lparr>pmm_bitmap = [3], total_pages = 8, used_pages = 2, free_pages = 6,
     bitmap_size = 1, pmm_hint = 0, pmm_scan_bits = 0, pmm_scan_allocs = 0\<rparr>"

lemma pmm_example_init:
  "pmm_init 4096 [] [\<lparr>mm_base = 0, mm_length = 32768, mm_type = 1\<rparr>] = Some pmm_example"
  by code_simp

lemma pmm_example_reachable: "pmm_reachable pmm_example {}"
  by (rule pmm_reachable.init [OF pmm_example_init])

theorem pmm_alloc_page_exact_witness:
  "\<exists>s'. pmm_alloc_page pmm_example = (s', 8192) \<and> Suc (free_pages s') = free_pages pmm_example \<and>
     2 \<notin> pmm_free_set s'"
proof -
  define s' where "s' = fst (pmm_alloc_page pmm_example)"
  have "snd (pmm_alloc_page pmm_example) = 8192" by code_simp
  then have "pmm_alloc_page pmm_example = (s', 8192)" by (simp add: s'_def prod_eq_iff)
  with pmm_alloc_page_exact [OF pmm_example_reachable this] show ?thesis by auto
qed

text \<open>
  C10: the allocator's state is consistent in every reachable state.  The bitmap has one bit
  per page, the free counter is the number of clear bits, the used counter the number of all
  other pages of the machine, whether they were handed out or never were usable, no page that a
  caller holds is marked free, and page 0 (whose address is the failure value) is never free.
\<close>

theorem pmm_reachable_consistent:
  assumes "pmm_reachable s own"
  shows "length (pmm_bitmap s) = (total_pages s + 7) div 8 \<and>
    free_pages s = card {p. p < total_pages s \<and> \<not> bitmap_test (pmm_bitmap s) p} \<and>
    used_pages s = card {p. p < total_pages s \<and> bitmap_test (pmm_bitmap s) p} \<and>
    (\<forall>p\<in>own. 0 < p \<and> p < total_pages s \<and> bitmap_test (pmm_bitmap s) p) \<and>
    (0 < total_pages s \<longrightarrow> bitmap_test (pmm_bitmap s) 0)"
proof -
  have owned: "pmm_owned s own" by (rule pmm_reachable_owned [OF assms])
  then have inv: "pmm_inv s" by (simp add: pmm_owned_def)
  let ?F = "{p. p < total_pages s \<and> \<not> bitmap_test (pmm_bitmap s) p}"
  let ?U = "{p. p < total_pages s \<and> bitmap_test (pmm_bitmap s) p}"
  have "?U = {..<total_pages s} - ?F" by auto
  then have "card ?U = total_pages s - card ?F" by (simp add: card_Diff_subset subset_eq)
  moreover have "free_pages s = card ?F" and "used_pages s + free_pages s = total_pages s"
    and "length (pmm_bitmap s) = (total_pages s + 7) div 8"
    using inv by (simp_all add: pmm_inv_def pmm_free_set_def)
  moreover have "0 < p \<and> p < total_pages s \<and> bitmap_test (pmm_bitmap s) p" if "p \<in> own" for p
  proof -
    have "p \<in> {0<..<total_pages s}" and "p \<notin> pmm_free_set s"
      using owned that by (auto simp: pmm_owned_def)
    then show ?thesis by (simp add: pmm_free_set_def)
  qed
  moreover have "0 < total_pages s \<longrightarrow> bitmap_test (pmm_bitmap s) 0"
    using owned by (auto simp: pmm_owned_def pmm_free_set_def)
  ultimately show ?thesis by simp
qed

theorem pmm_reachable_consistent_witness:
  "free_pages pmm_example = card {p. p < total_pages pmm_example \<and> \<not> bitmap_test (pmm_bitmap pmm_example) p}"
  using pmm_reachable_consistent [OF pmm_example_reachable] by blast

text \<open>
  C11: the aligned contiguous search is sound and complete.  For a positive page count and a
  power-of-two alignment (in pages), \<open>pmm_alloc_contiguous\<close> returns 0 exactly when there is no
  run of that many free pages that starts at a positive multiple of the alignment; otherwise
  the result is such a run, exactly its pages leave the free set, and the counters move by
  the page count.
\<close>

theorem pmm_alloc_contiguous_exact:
  assumes "pmm_reachable s own" and "0 < pages" and "alignment = 2 ^ k"
    and "pmm_alloc_contiguous s pages alignment = (s', a)"
  shows "(a = 0 \<longleftrightarrow> (\<nexists>f. alignment dvd f \<and> alignment \<le> f \<and> {f..<f + pages} \<subseteq> pmm_free_set s)) \<and>
    (a \<noteq> 0 \<longrightarrow> alignment * PAGE_SIZE dvd a \<and>
       {a div PAGE_SIZE..<a div PAGE_SIZE + pages} \<subseteq> pmm_free_set s \<and>
       pmm_free_set s' = pmm_free_set s - {a div PAGE_SIZE..<a div PAGE_SIZE + pages} \<and>
       free_pages s' + pages = free_pages s)"
proof -
  have inv: "pmm_inv s" using pmm_reachable_owned [OF assms(1)] by (simp add: pmm_owned_def)
  from inv assms(2-4) show ?thesis
  proof (cases rule: pmm_alloc_contiguous_cases)
    case (found f)
    then have run: "alignment dvd f" "alignment \<le> f" "{f..<f + pages} \<subseteq> pmm_free_set s"
      by (simp_all add: pmm_free_run_def)
    then have "f \<noteq> 0" using assms(3) by auto
    have "card (pmm_free_set s') = card (pmm_free_set s) - pages"
      using found(4) run(3) by (simp add: card_Diff_subset)
    moreover have "pages \<le> card (pmm_free_set s)"
      using pmm_free_run_bounds [OF found(1) assms(2)] by simp
    ultimately have "free_pages s' + pages = free_pages s"
      using inv found(3) by (simp add: pmm_inv_def)
    with found run \<open>f \<noteq> 0\<close> show ?thesis by auto
  next
    case (none bits)
    then show ?thesis by (simp add: pmm_free_run_def)
  qed
qed

theorem pmm_alloc_contiguous_exact_witness:
  "\<exists>s'. pmm_alloc_contiguous pmm_example 3 4 = (s', 16384) \<and>
     pmm_free_set s' = pmm_free_set pmm_example - {4..<7}"
proof -
  define s' where "s' = fst (pmm_alloc_contiguous pmm_example 3 4)"
  have "snd (pmm_alloc_contiguous pmm_example 3 4) = 16384" by code_simp
  then have "pmm_alloc_contiguous pmm_example 3 4 = (s', 16384)" by (simp add: s'_def prod_eq_iff)
  with pmm_alloc_contiguous_exact [OF pmm_example_reachable _ _ this, of 2] show ?thesis by auto
qed

lemma pmm_choose_place: "pmm_choose kend bsize es \<noteq> 0 \<Longrightarrow> pmm_choose kend bsize es + bsize \<le> 0x40000000"
proof (induction es)
  case (Cons e es)
  define st where "st = page_up (if mm_base e > kend then mm_base e else kend)"
  define hit where "hit \<longleftrightarrow> mm_type e = E820_USABLE \<and> st < mm_end e \<and> bsize \<le> mm_end e - st \<and>
    wrap64 (st + bsize) \<le> 0x40000000"
  have "pmm_choose kend bsize (e # es) = (if hit then st else pmm_choose kend bsize es)"
    unfolding pmm_choose.simps Let_def st_def [symmetric] hit_def by (simp add: not_less [symmetric])
  moreover have "st + bsize \<le> 0x40000000" if hit
  proof -
    have "st + bsize \<le> mm_end e" using that by (auto simp: hit_def)
    also have "\<dots> < 2 ^ 64" by (simp add: mm_end_def wrap64_def)
    finally show ?thesis using that by (simp add: hit_def wrap64_def)
  qed
  ultimately show ?case using Cons by (cases hit) (simp_all del: pmm_choose.simps)
qed simp

lemma pmm_init_bitmap_place:
  assumes "pmm_init kernel_end fixed entries = Some s"
    and "chosen = pmm_choose (page_up kernel_end) (bitmap_size s) entries"
  shows "bitmap_size s = (pmm_highest entries div PAGE_SIZE + 7) div 8"
    and "chosen + bitmap_size s \<le> 0x40000000"
proof -
  have keep: "bitmap_size (fold (\<lambda>a s. pmm_reserve_page s a) as s) = bitmap_size s" for as s
    by (rule fold_invariant [where Q = "\<lambda>_. True"]) (auto simp: pmm_reserve_page_def Let_def)
  have claim: "bitmap_size (pmm_claim_range a b s) = bitmap_size s" for a b s
    unfolding pmm_claim_range_def
    by (rule fold_invariant [where Q = "\<lambda>_. True"]) (auto simp: pmm_claim_one_def)
  have release: "bitmap_size (fold pmm_release_entry es s) = bitmap_size s" for es s
  proof -
    have "bitmap_size (pmm_release_range a b s) = bitmap_size s" for a b s
      unfolding pmm_release_range_def
      by (rule fold_invariant [where Q = "\<lambda>_. True"]) (auto simp: pmm_release_one_def)
    then show ?thesis
      by (induction es arbitrary: s) (simp_all add: pmm_release_entry_def)
  qed
  define bsize where "bsize = (pmm_highest entries div PAGE_SIZE + 7) div 8"
  have "map_option bitmap_size (pmm_init kernel_end fixed entries) =
      (if pmm_choose (page_up kernel_end) bsize entries = 0 then None else Some bsize)"
    unfolding pmm_init_def Let_def bsize_def [symmetric]
    by (simp only: if_distrib [of "map_option bitmap_size"] option.map keep claim release pmm.select_convs)
  with assms(1) have size: "bitmap_size s = bsize" and "pmm_choose (page_up kernel_end) bsize entries \<noteq> 0"
    by (simp_all split: if_splits)
  then show "bitmap_size s = (pmm_highest entries div PAGE_SIZE + 7) div 8"
    and "chosen + bitmap_size s \<le> 0x40000000"
    unfolding assms(2) by (simp_all add: bsize_def pmm_choose_place)
qed

text \<open>
  C12: what initialisation frees.  After \<open>pmm_init\<close>, with a kernel image that ends below the last
  page of the address space, every free page overlaps a usable entry of the firmware map, ends
  inside it, and lies wholly inside it when the entry starts on a page boundary (the code rounds
  the start down, so the first page of an unaligned entry is freed whole); it lies above the page
  that holds the end of the kernel image, is outside the bitmap's own pages, and is not one the
  architecture reserves.
\<close>

theorem pmm_init_safe:
  assumes "pmm_init kernel_end fixed entries = Some s" and "p \<in> pmm_free_set s"
    and "kernel_end + PAGE_SIZE \<le> 2 ^ 64"
    and "chosen = pmm_choose (page_up kernel_end) (bitmap_size s) entries"
  shows "(\<exists>e\<in>set entries. mm_type e = E820_USABLE \<and> mm_base e < (p + 1) * PAGE_SIZE \<and>
            (p + 1) * PAGE_SIZE \<le> mm_end e \<and> (PAGE_SIZE dvd mm_base e \<longrightarrow> mm_base e \<le> p * PAGE_SIZE)) \<and>
    kernel_end < p * PAGE_SIZE \<and>
    ((p + 1) * PAGE_SIZE \<le> chosen \<or> chosen + bitmap_size s \<le> p * PAGE_SIZE) \<and>
    (\<forall>a\<in>set fixed. a div PAGE_SIZE \<noteq> p)"
proof -
  note f = pmm_init_free_set [OF assms(1)]
  note c = pmm_init_bitmap_place [OF assms(1,4)]
  have mem: "\<exists>e\<in>set entries. mm_type e = E820_USABLE \<and> mm_base e div PAGE_SIZE \<le> p \<and>
      p < mm_end e div PAGE_SIZE" and r: "wrap64 (kernel_end + PAGE_SIZE - 1) div PAGE_SIZE < p"
    and b: "p < chosen div PAGE_SIZE \<or> (chosen + bitmap_size s + PAGE_SIZE - 1) div PAGE_SIZE \<le> p"
    and "\<forall>a\<in>set fixed. a div PAGE_SIZE \<noteq> p"
    using assms(2) c unfolding f(2) by (auto simp: assms(4) wrap64_def)
  moreover have "kernel_end < p * PAGE_SIZE"
    using r assms(3) by (simp add: wrap64_def)
  moreover have "(p + 1) * PAGE_SIZE \<le> m" if "p < m div PAGE_SIZE" for m
    using that by simp
  moreover have "m < (p + 1) * PAGE_SIZE \<and> (PAGE_SIZE dvd m \<longrightarrow> m \<le> p * PAGE_SIZE)" if "m div PAGE_SIZE \<le> p" for m
    using that by (auto elim!: dvdE)
  moreover have "n \<le> p * PAGE_SIZE" if "(n + PAGE_SIZE - 1) div PAGE_SIZE \<le> p" for n
    using that by simp
  ultimately show ?thesis by metis
qed

theorem pmm_init_safe_witness:
  "4096 < (2 :: nat) * PAGE_SIZE \<and> 2 \<in> pmm_free_set pmm_example"
proof -
  have "2 \<in> pmm_free_set pmm_example" unfolding pmm_free_set_def mem_Collect_eq by code_simp
  with pmm_init_safe [OF pmm_example_init this _ refl] show ?thesis by simp
qed

text \<open>
  The rounding is visible to the allocator's clients.  With a usable entry that starts in the
  middle of page 3, the first half of which a reserved entry covers, page 3 is free after
  initialisation, and the first allocation hands it out.
\<close>

lemma pmm_init_partial_page:
  "\<exists>s. pmm_init 8192 [] [\<lparr>mm_base = 0, mm_length = 0x3000, mm_type = E820_USABLE\<rparr>,
                         \<lparr>mm_base = 0x3000, mm_length = 0x800, mm_type = 2\<rparr>,
                         \<lparr>mm_base = 0x3800, mm_length = 0x4800, mm_type = E820_USABLE\<rparr>] = Some s \<and>
     3 \<in> pmm_free_set s \<and> snd (pmm_alloc_page s) = 0x3000"
proof -
  let ?s = "\<lparr>pmm_bitmap = [7], total_pages = 8, used_pages = 3, free_pages = 5, bitmap_size = 1, pmm_hint = 0,
     pmm_scan_bits = 0, pmm_scan_allocs = 0\<rparr>"
  have "pmm_init 8192 [] [\<lparr>mm_base = 0, mm_length = 0x3000, mm_type = E820_USABLE\<rparr>,
      \<lparr>mm_base = 0x3000, mm_length = 0x800, mm_type = 2\<rparr>,
      \<lparr>mm_base = 0x3800, mm_length = 0x4800, mm_type = E820_USABLE\<rparr>] = Some ?s" by code_simp
  moreover have "3 \<in> pmm_free_set ?s" unfolding pmm_free_set_def mem_Collect_eq by code_simp
  moreover have "snd (pmm_alloc_page ?s) = 0x3000" by code_simp
  ultimately show ?thesis by blast
qed

end
