(* ===== verification/Ring.thy ===== *)
theory Ring
  imports Prelude
begin

text \<open>
  Bounded queues.  Objects of the kernel keep a queue in a circular array: the byte buffer of a
  pipe, the backlog of a listening endpoint.
  The theory has the list view of a circular array, the two loops the code runs over such a
  queue (fill while there is room, drain while there is something), and the locale
  \<open>fifo\<close> that states what a queue promises; every client's facts are proved once in it.
\<close>

section \<open>Definitions\<close>

text \<open>The \<open>n\<close> elements of a circular array from position \<open>first\<close> on.\<close>

definition ring_list :: "'a list \<Rightarrow> nat \<Rightarrow> nat \<Rightarrow> 'a list" where
  "ring_list buf first n = map (\<lambda>i. buf ! ((first + i) mod length buf)) [0..<n]"

text \<open>\<open>while (n < len && !full) put(in[n++])\<close>: how many elements went in.\<close>

fun fill_queue :: "('s \<Rightarrow> bool) \<Rightarrow> ('a \<Rightarrow> 's \<Rightarrow> 's) \<Rightarrow> 'a list \<Rightarrow> 's \<Rightarrow> nat \<times> 's" where
  "fill_queue full put [] s = (0, s)"
| "fill_queue full put (x # xs) s =
     (if full s then (0, s)
      else let (n, s') = fill_queue full put xs (put x s) in (Suc n, s'))"

text \<open>\<open>while (n < len && !empty) out[n++] = get()\<close>: the elements taken out.\<close>

fun drain_queue :: "('s \<Rightarrow> bool) \<Rightarrow> ('s \<Rightarrow> 'a \<times> 's) \<Rightarrow> nat \<Rightarrow> 's \<Rightarrow> 'a list \<times> 's" where
  "drain_queue emp get 0 s = ([], s)"
| "drain_queue emp get (Suc n) s =
     (if emp s then ([], s)
      else let (x, s') = get s; (xs, s'') = drain_queue emp get n s' in (x # xs, s''))"

section \<open>Circular arrays\<close>

lemma length_ring_list [simp]: "length (ring_list buf first n) = n"
  by (simp add: ring_list_def)

lemma ring_list_0 [simp]: "ring_list buf first 0 = []"
  by (simp add: ring_list_def)

lemma ring_list_pop:
  assumes "0 < n" and "first < length buf"
  shows "ring_list buf first n = buf ! first # ring_list buf ((first + 1) mod length buf) (n - 1)"
proof -
  from assms(1) obtain m where n: "n = Suc m" by (cases n) auto
  have "ring_list buf first n = buf ! first # map (\<lambda>i. buf ! ((first + Suc i) mod length buf)) [0..<m]"
    using assms(2) unfolding ring_list_def n upt_conv_Cons [OF zero_less_Suc]
    by (simp del: upt_Suc add: map_Suc_upt [symmetric] comp_def)
  also have "map (\<lambda>i. buf ! ((first + Suc i) mod length buf)) [0..<m] =
      ring_list buf ((first + 1) mod length buf) m"
    unfolding ring_list_def by (simp add: mod_add_left_eq)
  finally show ?thesis using n by simp
qed

lemma ring_list_push:
  assumes "n < length buf"
  shows "ring_list (buf[(first + n) mod length buf := x]) first (Suc n) = ring_list buf first n @ [x]"
proof -
  have "(first + i) mod length buf \<noteq> (first + n) mod length buf" if "i < n" for i
  proof
    assume eq: "(first + i) mod length buf = (first + n) mod length buf"
    have "(first + i) mod length buf = (first + i + (n - i)) mod length buf" using eq that by simp
    then have "length buf dvd n - i" by (metis add_diff_cancel_left' mod_eq_dvd_iff_nat le_add1)
    moreover have "0 < n - i" and "n - i < length buf" using that assms by auto
    ultimately show False using nat_dvd_not_less by blast
  qed
  moreover have "(first + n) mod length buf < length buf" using assms by (intro mod_less_divisor) auto
  ultimately show ?thesis unfolding ring_list_def by (simp add: nth_list_update_neq [OF not_sym])
qed

section \<open>The interface of a bounded queue\<close>

locale fifo =
  fixes wf :: "'s \<Rightarrow> bool" and items :: "'s \<Rightarrow> 'a list" and cap :: nat
    and put :: "'a \<Rightarrow> 's \<Rightarrow> 's" and get :: "'s \<Rightarrow> 'a \<times> 's"
  assumes put_law: "wf s \<Longrightarrow> length (items s) < cap \<Longrightarrow> wf (put x s) \<and> items (put x s) = items s @ [x]"
    and get_law: "wf s \<Longrightarrow> items s \<noteq> [] \<Longrightarrow> get s = (x, s') \<Longrightarrow> wf s' \<and> items s = x # items s'"
    and bound: "wf s \<Longrightarrow> length (items s) \<le> cap"
begin

lemma fold_put:
  assumes "wf s" and "length (items s) + length xs \<le> cap"
  shows "wf (fold put xs s)" and "items (fold put xs s) = items s @ xs"
proof -
  have "wf (fold put xs s) \<and> items (fold put xs s) = items s @ xs"
    using assms
  proof (induction xs arbitrary: s)
    case (Cons x xs)
    then have "wf (put x s) \<and> items (put x s) = items s @ [x]" by (intro put_law) simp_all
    with Cons.IH [of "put x s"] Cons.prems(2) show ?case by simp
  qed simp
  then show "wf (fold put xs s)" and "items (fold put xs s) = items s @ xs" by simp_all
qed

text \<open>The fill loop stores the longest prefix that fits, at the end of the queue.\<close>

lemma fill_queue_spec:
  assumes "wf s" and full: "\<And>s. wf s \<Longrightarrow> full s \<longleftrightarrow> length (items s) = cap"
    and "fill_queue full put xs s = (n, s')"
  shows "n = min (length xs) (cap - length (items s)) \<and> wf s' \<and> items s' = items s @ take n xs"
  using assms(1,3)
proof (induction xs arbitrary: s n s')
  case (Cons x xs)
  show ?case
  proof (cases "full s")
    case True
    then show ?thesis using Cons.prems full [OF Cons.prems(1)] by simp
  next
    case False
    then have room: "length (items s) < cap" using full [OF Cons.prems(1)] bound [OF Cons.prems(1)] by simp
    then have put: "wf (put x s)" "items (put x s) = items s @ [x]"
      using put_law [OF Cons.prems(1)] by simp_all
    obtain m where m: "fill_queue full put xs (put x s) = (m, s')" "n = Suc m"
      using Cons.prems(2) False by (auto split: prod.splits)
    from Cons.IH [OF put(1) m(1)] put(2) room m(2) show ?thesis by auto
  qed
qed simp

text \<open>The drain loop removes the longest prefix up to the asked length, in order.\<close>

lemma drain_queue_spec:
  assumes "wf s" and emp: "\<And>s. wf s \<Longrightarrow> emp s \<longleftrightarrow> items s = []"
    and "drain_queue emp get n s = (xs, s')"
  shows "xs = take n (items s) \<and> wf s' \<and> items s' = drop n (items s)"
  using assms(1,3)
proof (induction n arbitrary: s xs s')
  case (Suc n)
  show ?case
  proof (cases "emp s")
    case True
    then show ?thesis using Suc.prems emp [OF Suc.prems(1)] by simp
  next
    case False
    obtain y t where t: "get s = (y, t)" by fastforce
    have "items s \<noteq> []" using False emp [OF Suc.prems(1)] by simp
    then have get: "wf t" "items s = y # items t"
      using get_law [OF Suc.prems(1) _ t] by simp_all
    obtain ys where ys: "drain_queue emp get n t = (ys, s')" "xs = y # ys"
      using Suc.prems(2) False t by (auto split: prod.splits)
    from Suc.IH [OF get(1) ys(1)] get(2) ys(2) show ?thesis by simp
  qed
qed simp

end

text \<open>
  A circular array with a head, a tail and a count is such a queue: the form all the kernel's
  queues have.
\<close>

locale ring_queue =
  fixes wf :: "'s \<Rightarrow> bool" and buf :: "'s \<Rightarrow> 'a list" and tail count :: "'s \<Rightarrow> nat" and cap :: nat
    and put :: "'a \<Rightarrow> 's \<Rightarrow> 's" and get :: "'s \<Rightarrow> 'a \<times> 's"
  assumes wf_bounds: "wf s \<Longrightarrow> length (buf s) = cap \<and> tail s < cap \<and> count s \<le> cap"
    and put_ring: "wf s \<Longrightarrow> count s < cap \<Longrightarrow> wf (put x s) \<and>
      buf (put x s) = (buf s)[(tail s + count s) mod cap := x] \<and> tail (put x s) = tail s \<and>
      count (put x s) = Suc (count s)"
    and get_ring: "wf s \<Longrightarrow> 0 < count s \<Longrightarrow> get s = (x, s') \<Longrightarrow> wf s' \<and> x = buf s ! tail s \<and>
      buf s' = buf s \<and> tail s' = (tail s + 1) mod cap \<and> count s' = count s - 1"

sublocale ring_queue \<subseteq> fifo wf "\<lambda>s. ring_list (buf s) (tail s) (count s)" cap put get
proof
  fix s x s'
  show "length (ring_list (buf s) (tail s) (count s)) \<le> cap" if "wf s"
    using wf_bounds [OF that] by simp
  show "wf (put x s) \<and> ring_list (buf (put x s)) (tail (put x s)) (count (put x s)) =
      ring_list (buf s) (tail s) (count s) @ [x]"
    if "wf s" and "length (ring_list (buf s) (tail s) (count s)) < cap"
    using put_ring [OF that(1), of x] ring_list_push [of "count s" "buf s" "tail s" x] that(2)
      wf_bounds [OF that(1)] by auto
  show "wf s' \<and> ring_list (buf s) (tail s) (count s) = x # ring_list (buf s') (tail s') (count s')"
    if "wf s" and "ring_list (buf s) (tail s) (count s) \<noteq> []" and "get s = (x, s')"
  proof -
    have pos: "0 < count s" using that(2) by (cases "count s") auto
    then show ?thesis
      using get_ring [OF that(1) pos that(3)] ring_list_pop [OF pos, of "tail s" "buf s"]
        wf_bounds [OF that(1)] by simp
  qed
qed

end
