(* ===== verification/Waitq.thy ===== *)
theory Waitq
  imports Prelude
begin

text \<open>
  Wait queues, \<open>kernel/process/process.c\<close>.  A wait queue is an intrusive list of blocked
  threads; a thread is pushed at the front and woken from the front.  An operation that may
  sleep is modelled as one attempt under the scheduler lock: it either completes, or puts the
  caller on a wait queue and reports \<open>Blocked\<close>; a woken caller runs the attempt again, as
  the loops of the code do.
\<close>

type_synonym tid = nat
type_synonym wait_queue = "tid list"

datatype 'a outcome = Done 'a | Blocked

definition wait_queue_block :: "tid \<Rightarrow> wait_queue \<Rightarrow> wait_queue" where
  "wait_queue_block t wq = (if t \<in> set wq then wq else t # wq)"

fun wait_queue_remove :: "tid \<Rightarrow> wait_queue \<Rightarrow> wait_queue" where
  "wait_queue_remove t [] = []"
| "wait_queue_remove t (x # xs) = (if x = t then xs else x # wait_queue_remove t xs)"

text \<open>The second result is the thread made ready, if any.\<close>

fun wait_queue_wake_one :: "wait_queue \<Rightarrow> wait_queue \<times> tid option" where
  "wait_queue_wake_one [] = ([], None)"
| "wait_queue_wake_one (t # wq) = (wait_queue_remove t (t # wq), Some t)"

function wait_queue_wake_all :: "wait_queue \<Rightarrow> wait_queue \<times> tid list" where
  "wait_queue_wake_all wq =
     (case wait_queue_wake_one wq of
        (wq', None) \<Rightarrow> (wq', [])
      | (wq', Some t) \<Rightarrow> (let (wq'', ts) = wait_queue_wake_all wq' in (wq'', t # ts)))"
  by pat_completeness auto
termination
proof (relation "measure length", goal_cases)
  case (2 wq wq' r t)
  then show ?case by (cases wq) auto
qed simp

declare wait_queue_wake_all.simps [simp del]

lemma wait_queue_block_distinct [simp]: "distinct wq \<Longrightarrow> distinct (wait_queue_block t wq)"
  by (simp add: wait_queue_block_def)

lemma set_wait_queue_block [simp]: "set (wait_queue_block t wq) = insert t (set wq)"
  by (auto simp: wait_queue_block_def)

lemma wait_queue_block_not_Nil [simp]: "wait_queue_block t wq \<noteq> []"
  by (auto simp: wait_queue_block_def)

lemma wait_queue_remove_eq: "distinct wq \<Longrightarrow> wait_queue_remove t wq = filter (\<lambda>x. x \<noteq> t) wq"
proof (induction wq)
  case (Cons x wq)
  then have "x = t \<Longrightarrow> filter (\<lambda>x. x \<noteq> t) wq = wq" by (auto simp: filter_id_conv)
  with Cons show ?case by simp
qed simp

lemma set_wait_queue_remove_subset: "set (wait_queue_remove t wq) \<subseteq> set wq"
  by (induction wq) auto

text \<open>Waking all empties the queue, and every waiter is made ready.\<close>

lemma wait_queue_wake_all_eq [simp]: "wait_queue_wake_all wq = ([], wq)"
proof (induction wq)
  case Nil
  show ?case by (subst wait_queue_wake_all.simps) simp
next
  case (Cons t wq)
  then show ?case by (subst wait_queue_wake_all.simps) simp
qed

end
