(* ===== verification/Pipe.thy ===== *)
theory Pipe
  imports Ring Waitq
begin

text \<open>
  Pipes, \<open>kernel/ipc/pipe.c\<close>: a circular byte buffer with counted readers and writers and a
  wait queue for each side.  Reads and writes are attempts under the scheduler lock.

  The theory shows that a pipe is a faithful byte stream (what was read followed by what is
  buffered is exactly what was written), that end of file is reported only when every
  written byte has been read and no writer is left, and that no sleeper is forgotten: a
  thread sleeps on a pipe only while the condition it waits for does not hold.
\<close>

section \<open>State\<close>

abbreviation (input) PIPE_BUF_SIZE :: nat where
  "PIPE_BUF_SIZE \<equiv> 1024"

abbreviation (input) PIPE_MAX :: nat where
  "PIPE_MAX \<equiv> 32"

record pipe =
  pipe_buf :: "u8 list"
  pipe_head :: nat
  pipe_tail :: nat
  pipe_count :: nat
  n_readers :: int
  n_writers :: int
  read_wait :: wait_queue
  write_wait :: wait_queue
  pipe_used :: bool
  pipe_id :: nat

record pipe_end =
  pe_pipe :: nat
  pe_side :: nat
  pe_used :: bool

definition pipe_fresh :: "nat \<Rightarrow> pipe" where
  "pipe_fresh pid = \<lparr>pipe_buf = replicate PIPE_BUF_SIZE 0, pipe_head = 0, pipe_tail = 0,
     pipe_count = 0, n_readers = 1, n_writers = 1, read_wait = [], write_wait = [],
     pipe_used = True, pipe_id = pid\<rparr>"

section \<open>Reading and writing\<close>

definition pipe_put :: "u8 \<Rightarrow> pipe \<Rightarrow> pipe" where
  "pipe_put c p = p\<lparr>pipe_buf := (pipe_buf p)[pipe_head p := c],
     pipe_head := (pipe_head p + 1) mod PIPE_BUF_SIZE, pipe_count := pipe_count p + 1\<rparr>"

definition pipe_get :: "pipe \<Rightarrow> u8 \<times> pipe" where
  "pipe_get p = (pipe_buf p ! pipe_tail p,
     p\<lparr>pipe_tail := (pipe_tail p + 1) mod PIPE_BUF_SIZE, pipe_count := pipe_count p - 1\<rparr>)"

text \<open>
  One attempt of \<open>pipe_read_flags\<close> by thread \<open>t\<close>, whose process is \<open>cancelled\<close> or not;
  \<open>ptrs\<close> says that the pointer arguments are not null.  The empty list is end of file.
\<close>

definition pipe_read_flags :: "tid \<Rightarrow> bool \<Rightarrow> bool \<Rightarrow> nat \<Rightarrow> bool \<Rightarrow> pipe \<Rightarrow> u8 list res outcome \<times> pipe" where
  "pipe_read_flags t cancelled ptrs len nonblock p =
     (if \<not> ptrs then (Done (Inl EINVAL), p)
      else if len = 0 then (Done (Inr []), p)
      else if pipe_count p = 0 then
        (if n_writers p = 0 then (Done (Inr []), p)
         else if cancelled then (Done (Inl ECANCELED), p)
         else if nonblock then (Done (Inl EAGAIN), p)
         else (Blocked, p\<lparr>read_wait := wait_queue_block t (read_wait p)\<rparr>))
      else
        let (bytes, p1) = drain_queue (\<lambda>p. pipe_count p = 0) pipe_get len p
        in (Done (Inr bytes), p1\<lparr>write_wait := fst (wait_queue_wake_all (write_wait p1))\<rparr>))"

definition pipe_no_room :: "bool \<Rightarrow> nat \<Rightarrow> pipe \<Rightarrow> bool" where
  "pipe_no_room atomic_small len p \<longleftrightarrow>
     pipe_count p = PIPE_BUF_SIZE \<or>
     (atomic_small \<and> len \<le> PIPE_BUF_SIZE \<and> PIPE_BUF_SIZE - pipe_count p < len)"

definition pipe_write_flags ::
    "tid \<Rightarrow> bool \<Rightarrow> bool \<Rightarrow> u8 list \<Rightarrow> bool \<Rightarrow> bool \<Rightarrow> pipe \<Rightarrow> nat res outcome \<times> pipe" where
  "pipe_write_flags t cancelled ptrs bytes nonblock atomic_small p =
     (if \<not> ptrs then (Done (Inl EINVAL), p)
      else if bytes = [] then (Done (Inr 0), p)
      else if pipe_no_room atomic_small (length bytes) p then
        (if n_readers p = 0 then (Done (Inl EPIPE), p)
         else if cancelled then (Done (Inl ECANCELED), p)
         else if nonblock then (Done (Inl EAGAIN), p)
         else (Blocked, p\<lparr>write_wait := wait_queue_block t (write_wait p)\<rparr>))
      else if n_readers p = 0 then (Done (Inl EPIPE), p)
      else
        let (n, p1) = fill_queue (\<lambda>p. pipe_count p = PIPE_BUF_SIZE) pipe_put bytes p
        in (Done (Inr n), p1\<lparr>read_wait := fst (wait_queue_wake_all (read_wait p1))\<rparr>))"

definition pipe_read :: "tid \<Rightarrow> bool \<Rightarrow> bool \<Rightarrow> nat \<Rightarrow> pipe \<Rightarrow> u8 list res outcome \<times> pipe" where
  "pipe_read t cancelled ptrs len p = pipe_read_flags t cancelled ptrs len False p"

definition pipe_write :: "tid \<Rightarrow> bool \<Rightarrow> bool \<Rightarrow> u8 list \<Rightarrow> pipe \<Rightarrow> nat res outcome \<times> pipe" where
  "pipe_write t cancelled ptrs bytes p = pipe_write_flags t cancelled ptrs bytes False False p"

definition pipe_avail :: "pipe \<Rightarrow> nat \<Rightarrow> nat" where
  "pipe_avail p side = (if side = 0 then pipe_count p else PIPE_BUF_SIZE - pipe_count p)"

section \<open>References\<close>

definition pipe_ref_locked :: "nat \<Rightarrow> pipe \<Rightarrow> pipe" where
  "pipe_ref_locked side p =
     (if side = 0 then p\<lparr>n_readers := n_readers p + 1\<rparr> else p\<lparr>n_writers := n_writers p + 1\<rparr>)"

definition pipe_unref_locked :: "nat \<Rightarrow> pipe \<Rightarrow> pipe" where
  "pipe_unref_locked side p =
     (let p1 =
        (if side = 0 then
           let q = p\<lparr>n_readers := n_readers p - 1\<rparr> in
           if n_readers q = 0 then q\<lparr>write_wait := fst (wait_queue_wake_all (write_wait q))\<rparr> else q
         else
           let q = p\<lparr>n_writers := n_writers p - 1\<rparr> in
           if n_writers q = 0 then q\<lparr>read_wait := fst (wait_queue_wake_all (read_wait q))\<rparr> else q)
      in if n_readers p1 = 0 \<and> n_writers p1 = 0 then p1\<lparr>pipe_used := False\<rparr> else p1)"

section \<open>The buffer is a queue\<close>

definition pipe_wf :: "pipe \<Rightarrow> bool" where
  "pipe_wf p \<longleftrightarrow> length (pipe_buf p) = PIPE_BUF_SIZE \<and> pipe_tail p < PIPE_BUF_SIZE \<and>
     pipe_count p \<le> PIPE_BUF_SIZE \<and> pipe_head p = (pipe_tail p + pipe_count p) mod PIPE_BUF_SIZE"

definition pipe_items :: "pipe \<Rightarrow> u8 list" where
  "pipe_items p = ring_list (pipe_buf p) (pipe_tail p) (pipe_count p)"

interpretation pipe_ring: ring_queue pipe_wf pipe_buf pipe_tail pipe_count PIPE_BUF_SIZE pipe_put pipe_get
proof
  fix p x p'
  show "pipe_wf p \<Longrightarrow> length (pipe_buf p) = PIPE_BUF_SIZE \<and> pipe_tail p < PIPE_BUF_SIZE \<and>
      pipe_count p \<le> PIPE_BUF_SIZE"
    by (simp add: pipe_wf_def)
  show "pipe_wf (pipe_put x p) \<and>
      pipe_buf (pipe_put x p) = (pipe_buf p)[(pipe_tail p + pipe_count p) mod PIPE_BUF_SIZE := x] \<and>
      pipe_tail (pipe_put x p) = pipe_tail p \<and> pipe_count (pipe_put x p) = Suc (pipe_count p)"
    if "pipe_wf p" and "pipe_count p < PIPE_BUF_SIZE"
    using that by (simp add: pipe_wf_def pipe_put_def mod_Suc_eq)
  show "pipe_wf p' \<and> x = pipe_buf p ! pipe_tail p \<and> pipe_buf p' = pipe_buf p \<and>
      pipe_tail p' = (pipe_tail p + 1) mod PIPE_BUF_SIZE \<and> pipe_count p' = pipe_count p - 1"
    if "pipe_wf p" and "0 < pipe_count p" and "pipe_get p = (x, p')"
  proof -
    have "Suc (pipe_tail p) mod 1024 + (pipe_count p - 1) = pipe_tail p + pipe_count p \<or>
      Suc (pipe_tail p) mod 1024 + (pipe_count p - 1) + 1024 = pipe_tail p + pipe_count p"
      using that by (auto simp: pipe_wf_def mod_Suc)
    then have "(Suc (pipe_tail p) mod 1024 + (pipe_count p - 1)) mod 1024 = (pipe_tail p + pipe_count p) mod 1024"
      by (metis mod_add_self2)
    then show ?thesis using that by (auto simp: pipe_wf_def pipe_get_def)
  qed
qed

lemma length_pipe_items [simp]: "length (pipe_items p) = pipe_count p"
  by (simp add: pipe_items_def)

lemma pipe_items_Nil: "pipe_items p = [] \<longleftrightarrow> pipe_count p = 0"
  by (metis length_0_conv length_pipe_items)

lemma pipe_wf_fields [simp]:
  "pipe_wf (p\<lparr>read_wait := q\<rparr>) = pipe_wf p" "pipe_wf (p\<lparr>write_wait := q\<rparr>) = pipe_wf p"
  "pipe_wf (p\<lparr>n_readers := k\<rparr>) = pipe_wf p" "pipe_wf (p\<lparr>n_writers := k\<rparr>) = pipe_wf p"
  "pipe_wf (p\<lparr>pipe_used := u\<rparr>) = pipe_wf p"
  by (simp_all add: pipe_wf_def)

lemma pipe_items_fields [simp]:
  "pipe_items (p\<lparr>read_wait := q\<rparr>) = pipe_items p" "pipe_items (p\<lparr>write_wait := q\<rparr>) = pipe_items p"
  "pipe_items (p\<lparr>n_readers := k\<rparr>) = pipe_items p" "pipe_items (p\<lparr>n_writers := k\<rparr>) = pipe_items p"
  "pipe_items (p\<lparr>pipe_used := u\<rparr>) = pipe_items p"
  by (simp_all add: pipe_items_def)

text \<open>The fields the two loops leave alone.\<close>

definition pipe_same_ends :: "pipe \<Rightarrow> pipe \<Rightarrow> bool" where
  "pipe_same_ends p q \<longleftrightarrow> n_readers q = n_readers p \<and> n_writers q = n_writers p \<and>
     read_wait q = read_wait p \<and> write_wait q = write_wait p"

lemma pipe_drain_ends:
  "drain_queue (\<lambda>p. pipe_count p = 0) pipe_get n p = (bs, q) \<Longrightarrow> pipe_same_ends p q"
proof (induction n arbitrary: p bs)
  case (Suc n)
  show ?case
  proof (cases "pipe_count p = 0")
    case False
    then obtain cs where "drain_queue (\<lambda>p. pipe_count p = 0) pipe_get n (snd (pipe_get p)) = (cs, q)"
      using Suc.prems by (auto split: prod.splits)
    from Suc.IH [OF this] show ?thesis by (simp add: pipe_same_ends_def pipe_get_def)
  qed (use Suc.prems in \<open>simp add: pipe_same_ends_def\<close>)
qed (simp add: pipe_same_ends_def)

lemma pipe_fill_ends:
  "fill_queue (\<lambda>p. pipe_count p = PIPE_BUF_SIZE) pipe_put bs p = (n, q) \<Longrightarrow> pipe_same_ends p q"
proof (induction bs arbitrary: p n)
  case (Cons b bs)
  show ?case
  proof (cases "pipe_count p = PIPE_BUF_SIZE")
    case False
    then obtain m where "fill_queue (\<lambda>p. pipe_count p = PIPE_BUF_SIZE) pipe_put bs (pipe_put b p) = (m, q)"
      using Cons.prems by (auto split: prod.splits)
    from Cons.IH [OF this] show ?thesis by (simp add: pipe_same_ends_def pipe_put_def)
  qed (use Cons.prems in \<open>simp add: pipe_same_ends_def\<close>)
qed (simp add: pipe_same_ends_def)

text \<open>What one attempt does, branch by branch.\<close>

lemma pipe_read_flags_cases:
  assumes "pipe_wf p" and "pipe_read_flags t cancelled ptrs len nonblock p = (out, q)"
  obtains (error) e where "out = Done (Inl e)" "q = p"
  | (none) "out = Done (Inr [])" "q = p" "ptrs \<and> 0 < len \<longrightarrow> pipe_count p = 0 \<and> n_writers p = 0"
  | (sleep) "out = Blocked" "q = p\<lparr>read_wait := wait_queue_block t (read_wait p)\<rparr>"
      "pipe_count p = 0" "n_writers p \<noteq> 0" "\<not> cancelled"
  | (data) "out = Done (Inr (take len (pipe_items p)))" "0 < len" "0 < pipe_count p" "pipe_wf q"
      "pipe_items q = drop len (pipe_items p)" "n_readers q = n_readers p" "n_writers q = n_writers p"
      "read_wait q = read_wait p" "write_wait q = []"
proof (cases "\<not> ptrs \<or> len = 0 \<or> pipe_count p = 0")
  case True
  then show ?thesis
    using assms(2) error none sleep by (auto simp: pipe_read_flags_def split: if_splits)
next
  case False
  obtain bs p1 where d: "drain_queue (\<lambda>p. pipe_count p = 0) pipe_get len p = (bs, p1)" by fastforce
  from False assms(2) d have out: "out = Done (Inr bs)" "q = p1\<lparr>write_wait := []\<rparr>"
    by (auto simp: pipe_read_flags_def)
  have "bs = take len (pipe_items p) \<and> pipe_wf p1 \<and> pipe_items p1 = drop len (pipe_items p)"
    unfolding pipe_items_def
    by (rule pipe_ring.drain_queue_spec [OF assms(1) _ d]) (simp flip: length_0_conv)
  then show ?thesis using data out False pipe_drain_ends [OF d] by (simp add: pipe_same_ends_def)
qed

lemma pipe_write_flags_cases:
  assumes "pipe_wf p" and "pipe_write_flags t cancelled ptrs bytes nonblock atomic_small p = (out, q)"
  obtains (error) e where "out = Done (Inl e)" "q = p"
  | (none) "out = Done (Inr 0)" "q = p" "bytes = []"
  | (sleep) "out = Blocked" "q = p\<lparr>write_wait := wait_queue_block t (write_wait p)\<rparr>"
      "0 < pipe_count p" "n_readers p \<noteq> 0" "\<not> cancelled" "pipe_no_room atomic_small (length bytes) p"
  | (data) n where "out = Done (Inr n)" "0 < n" "n = min (length bytes) (PIPE_BUF_SIZE - pipe_count p)"
      "\<not> pipe_no_room atomic_small (length bytes) p" "pipe_wf q"
      "pipe_items q = pipe_items p @ take n bytes" "n_readers q = n_readers p"
      "n_writers q = n_writers p" "read_wait q = []" "write_wait q = write_wait p" "n_readers p \<noteq> 0"
proof (cases "\<not> ptrs \<or> bytes = [] \<or> pipe_no_room atomic_small (length bytes) p \<or> n_readers p = 0")
  case True
  have "0 < pipe_count p" if "pipe_no_room atomic_small (length bytes) p"
    using that by (auto simp: pipe_no_room_def)
  with True show ?thesis
    using assms(2) error none sleep by (auto simp: pipe_write_flags_def split: if_splits)
next
  case False
  obtain n p1 where f: "fill_queue (\<lambda>p. pipe_count p = PIPE_BUF_SIZE) pipe_put bytes p = (n, p1)" by fastforce
  from False assms(2) f have out: "out = Done (Inr n)" "q = p1\<lparr>read_wait := []\<rparr>"
    by (auto simp: pipe_write_flags_def)
  note spec = pipe_ring.fill_queue_spec [OF assms(1) _ f, simplified, folded pipe_items_def]
  have "pipe_count p \<noteq> PIPE_BUF_SIZE" using False by (simp add: pipe_no_room_def)
  then have "0 < n" using spec False assms(1) by (auto simp: pipe_wf_def)
  show ?thesis
  proof (rule data [of n])
    show "n = min (length bytes) (PIPE_BUF_SIZE - pipe_count p)" and "pipe_wf q"
      and "pipe_items q = pipe_items p @ take n bytes"
      using spec by (simp_all add: out(2))
  qed (use out False \<open>0 < n\<close> pipe_fill_ends [OF f] in \<open>simp_all add: pipe_same_ends_def\<close>)
qed

section \<open>A pipe in use\<close>

text \<open>
  Every history of a pipe: attempts by any threads, references taken and dropped by holders,
  and sleepers taken off a queue by a cancellation.  \<open>R\<close> records for a thread the request with
  which it last went to sleep in a write (atomic or not, and its length); the two lists are the
  bytes accepted by writes and the bytes handed out by reads.
\<close>

inductive pipe_trace :: "pipe \<Rightarrow> (tid \<Rightarrow> (bool \<times> nat) option) \<Rightarrow> u8 list \<Rightarrow> u8 list \<Rightarrow> bool" where
  start: "pipe_trace (pipe_fresh k) Map.empty [] []"
| read: "pipe_trace p R w g \<Longrightarrow> pipe_read_flags t cancelled ptrs len nonblock p = (out, q) \<Longrightarrow>
    pipe_trace q R w (g @ (case out of Done (Inr bs) \<Rightarrow> bs | _ \<Rightarrow> []))"
| put: "pipe_trace p R w g \<Longrightarrow>
    pipe_write_flags t cancelled ptrs bytes nonblock atomic_small p = (out, q) \<Longrightarrow>
    pipe_trace q (case out of Blocked \<Rightarrow> R(t \<mapsto> (atomic_small, length bytes)) | _ \<Rightarrow> R)
      (w @ (case out of Done (Inr n) \<Rightarrow> take n bytes | _ \<Rightarrow> [])) g"
| ref: "pipe_trace p R w g \<Longrightarrow> 0 < (if side = 0 then n_readers p else n_writers p) \<Longrightarrow>
    pipe_trace (pipe_ref_locked side p) R w g"
| unref: "pipe_trace p R w g \<Longrightarrow> 0 < (if side = 0 then n_readers p else n_writers p) \<Longrightarrow>
    pipe_trace (pipe_unref_locked side p) R w g"
| cancel_reader: "pipe_trace p R w g \<Longrightarrow>
    pipe_trace (p\<lparr>read_wait := wait_queue_remove t (read_wait p)\<rparr>) R w g"
| cancel_writer: "pipe_trace p R w g \<Longrightarrow>
    pipe_trace (p\<lparr>write_wait := wait_queue_remove t (write_wait p)\<rparr>) R w g"

definition pipe_inv :: "pipe \<Rightarrow> bool" where
  "pipe_inv p \<longleftrightarrow> pipe_wf p \<and> 0 \<le> n_readers p \<and> 0 \<le> n_writers p \<and>
     (read_wait p \<noteq> [] \<longrightarrow> pipe_count p = 0 \<and> 0 < n_writers p) \<and>
     (write_wait p \<noteq> [] \<longrightarrow> 0 < pipe_count p \<and> 0 < n_readers p)"

lemma pipe_read_flags_inv:
  assumes "pipe_inv p" and "pipe_read_flags t cancelled ptrs len nonblock p = (out, q)"
  shows "pipe_inv q" and "(case out of Done (Inr bs) \<Rightarrow> bs | _ \<Rightarrow> []) @ pipe_items q = pipe_items p"
proof -
  have wf: "pipe_wf p" using assms(1) by (simp add: pipe_inv_def)
  have "pipe_inv q \<and> (case out of Done (Inr bs) \<Rightarrow> bs | _ \<Rightarrow> []) @ pipe_items q = pipe_items p"
    using wf assms(2)
  proof (cases rule: pipe_read_flags_cases)
    case sleep
    then show ?thesis using assms(1) by (auto simp: pipe_inv_def)
  next
    case data
    then show ?thesis using assms(1) by (auto simp: pipe_inv_def)
  qed (use assms(1) in simp_all)
  then show "pipe_inv q" and "(case out of Done (Inr bs) \<Rightarrow> bs | _ \<Rightarrow> []) @ pipe_items q = pipe_items p"
    by simp_all
qed

lemma pipe_write_flags_inv:
  assumes "pipe_inv p" and "pipe_write_flags t cancelled ptrs bytes nonblock atomic_small p = (out, q)"
  shows "pipe_inv q"
    and "pipe_items q = pipe_items p @ (case out of Done (Inr n) \<Rightarrow> take n bytes | _ \<Rightarrow> [])"
proof -
  have wf: "pipe_wf p" using assms(1) by (simp add: pipe_inv_def)
  have "pipe_inv q \<and> pipe_items q = pipe_items p @ (case out of Done (Inr n) \<Rightarrow> take n bytes | _ \<Rightarrow> [])"
    using wf assms(2)
  proof (cases rule: pipe_write_flags_cases)
    case sleep
    then show ?thesis using assms(1) by (auto simp: pipe_inv_def)
  next
    case (data n)
    have "pipe_count q = pipe_count p + length (take n bytes)"
      using arg_cong [OF data(6), of length] by simp
    then show ?thesis using assms(1) data by (auto simp: pipe_inv_def)
  qed (use assms(1) in simp_all)
  then show "pipe_inv q"
    and "pipe_items q = pipe_items p @ (case out of Done (Inr n) \<Rightarrow> take n bytes | _ \<Rightarrow> [])"
    by simp_all
qed

lemma pipe_unref_locked_inv:
  assumes "pipe_inv p" and "0 < (if side = 0 then n_readers p else n_writers p)"
  shows "pipe_inv (pipe_unref_locked side p)" and "pipe_items (pipe_unref_locked side p) = pipe_items p"
  using assms by (auto simp: pipe_unref_locked_def pipe_inv_def Let_def)

lemma pipe_ref_locked_inv:
  assumes "pipe_inv p"
  shows "pipe_inv (pipe_ref_locked side p)" and "pipe_items (pipe_ref_locked side p) = pipe_items p"
  using assms by (auto simp: pipe_ref_locked_def pipe_inv_def)

lemma pipe_fresh_inv: "pipe_inv (pipe_fresh k)" "pipe_items (pipe_fresh k) = []"
  by (simp_all add: pipe_inv_def pipe_wf_def pipe_fresh_def pipe_items_def)

text \<open>Every sleeping writer has a request for which there still is no room.\<close>

definition writers_wait :: "(tid \<Rightarrow> (bool \<times> nat) option) \<Rightarrow> pipe \<Rightarrow> bool" where
  "writers_wait R p \<longleftrightarrow> (\<forall>t\<in>set (write_wait p). \<exists>a n. R t = Some (a, n) \<and> pipe_no_room a n p)"

lemma pipe_no_room_mono:
  "pipe_no_room a n p \<Longrightarrow> pipe_count p \<le> pipe_count q \<Longrightarrow> pipe_count q \<le> PIPE_BUF_SIZE \<Longrightarrow> pipe_no_room a n q"
  by (auto simp: pipe_no_room_def)

lemma writers_wait_mono:
  "writers_wait R p \<Longrightarrow> set (write_wait q) \<subseteq> set (write_wait p) \<Longrightarrow> pipe_count p \<le> pipe_count q \<Longrightarrow>
   pipe_count q \<le> PIPE_BUF_SIZE \<Longrightarrow> writers_wait R q"
  unfolding writers_wait_def by (meson pipe_no_room_mono subsetD)

lemma pipe_read_flags_writers:
  assumes "pipe_inv p" "writers_wait R p" "pipe_read_flags t cancelled ptrs len nonblock p = (out, q)"
  shows "writers_wait R q"
proof -
  have wf: "pipe_wf p" using assms(1) by (simp add: pipe_inv_def)
  from wf assms(3) show ?thesis
    by (cases rule: pipe_read_flags_cases) (use assms(2) in \<open>simp_all add: writers_wait_def pipe_no_room_def\<close>)
qed

lemma pipe_write_flags_writers:
  assumes "pipe_inv p" "writers_wait R p" "pipe_write_flags t cancelled ptrs bytes nonblock atomic_small p = (out, q)"
  shows "writers_wait (case out of Blocked \<Rightarrow> R(t \<mapsto> (atomic_small, length bytes)) | _ \<Rightarrow> R) q"
proof -
  have wf: "pipe_wf p" using assms(1) by (simp add: pipe_inv_def)
  from wf assms(3) show ?thesis
  proof (cases rule: pipe_write_flags_cases)
    case sleep
    then show ?thesis using assms(2) by (auto simp: writers_wait_def pipe_no_room_def)
  next
    case (data n)
    have "pipe_count q = pipe_count p + length (take n bytes)"
      using arg_cong [OF data(6), of length] by simp
    then show ?thesis using data assms(2) by (auto simp: pipe_wf_def intro!: writers_wait_mono [of R p])
  qed (use assms(2) in simp_all)
qed

lemma pipe_unref_locked_writers: "writers_wait R p \<Longrightarrow> writers_wait R (pipe_unref_locked side p)"
  by (auto simp: pipe_unref_locked_def writers_wait_def pipe_no_room_def Let_def)

lemma pipe_ref_locked_writers: "writers_wait R p \<Longrightarrow> writers_wait R (pipe_ref_locked side p)"
  by (auto simp: pipe_ref_locked_def writers_wait_def pipe_no_room_def)

lemma set_wait_queue_remove: "set (wait_queue_remove t wq) \<subseteq> set wq"
  by (induction wq) auto

lemma pipe_trace_inv: "pipe_trace p R w g \<Longrightarrow> pipe_inv p \<and> writers_wait R p \<and> w = g @ pipe_items p"
proof (induction rule: pipe_trace.induct)
  case (start k)
  then show ?case by (simp add: pipe_fresh_inv) (simp add: writers_wait_def pipe_fresh_def)
next
  case (read p R w g t cancelled ptrs len nonblock out q)
  then show ?case using pipe_read_flags_inv [of p t cancelled ptrs len nonblock out q]
      pipe_read_flags_writers [of p R t cancelled ptrs len nonblock out q] by simp
next
  case (put p R w g t cancelled ptrs bytes nonblock atomic_small out q)
  then show ?case
    using pipe_write_flags_inv [of p t cancelled ptrs bytes nonblock atomic_small out q]
      pipe_write_flags_writers [of p R t cancelled ptrs bytes nonblock atomic_small out q] by simp
next
  case (cancel_reader p R w g t)
  then show ?case by (cases "read_wait p") (auto simp: pipe_inv_def writers_wait_def pipe_no_room_def)
next
  case (cancel_writer p R w g t)
  then have "writers_wait R (p\<lparr>write_wait := wait_queue_remove t (write_wait p)\<rparr>)"
    using set_wait_queue_remove [of t "write_wait p"] by (auto simp: writers_wait_def pipe_no_room_def)
  then show ?case using cancel_writer by (cases "write_wait p") (auto simp: pipe_inv_def)
qed (simp_all add: pipe_ref_locked_inv pipe_unref_locked_inv pipe_unref_locked_writers pipe_ref_locked_writers)

section \<open>Properties\<close>

text \<open>
  C4: a pipe is a faithful byte stream.  In every history, the bytes handed out by reads
  followed by the bytes still buffered are exactly the bytes the writes accepted, in order;
  the buffer never holds more than its size; and a read that asks for bytes and gets none
  happens only when every accepted byte has been read and no writer is left.
\<close>

theorem pipe_stream:
  assumes "pipe_trace p R w g"
  shows "w = g @ pipe_items p \<and> length (pipe_items p) \<le> PIPE_BUF_SIZE \<and>
    (\<forall>t cancelled len nonblock q. 0 < len \<and>
       pipe_read_flags t cancelled True len nonblock p = (Done (Inr []), q) \<longrightarrow> g = w \<and> n_writers p = 0)"
proof -
  have inv: "pipe_inv p" and w: "w = g @ pipe_items p" using pipe_trace_inv [OF assms] by simp_all
  then have wf: "pipe_wf p" by (simp add: pipe_inv_def)
  have "g = w \<and> n_writers p = 0"
    if "0 < len" and r: "pipe_read_flags t cancelled True len nonblock p = (Done (Inr []), q)"
    for t cancelled len nonblock q
    using wf r
  proof (cases rule: pipe_read_flags_cases)
    case data
    then show ?thesis using that by (simp add: pipe_items_Nil)
  qed (use that w in \<open>auto simp: pipe_items_Nil\<close>)
  with w wf show ?thesis by (auto simp: pipe_wf_def)
qed

text \<open>
  C17: no sleeper on a pipe is forgotten.  In every history, a thread sleeps in a read only while
  the condition of its loop holds, that is while the pipe is empty, and it has a writer; a
  thread sleeps in a write only while the condition of its loop holds for its own request, that is
  while the pipe is full, or has less room than an atomic write needs, and there is a reader.  So
  a read that makes room for a sleeping writer has woken it, readers and writers never sleep at
  the same time, and nobody sleeps on a pipe whose other side is gone.
\<close>

theorem pipe_sleepers:
  assumes "pipe_trace p R w g"
  shows "(read_wait p \<noteq> [] \<longrightarrow> pipe_count p = 0 \<and> 0 < n_writers p) \<and>
    (\<forall>t\<in>set (write_wait p). 0 < n_readers p \<and>
       (\<exists>atomic_small len. R t = Some (atomic_small, len) \<and> pipe_no_room atomic_small len p)) \<and>
    (read_wait p = [] \<or> write_wait p = [])"
proof -
  have inv: "pipe_inv p" "writers_wait R p" using pipe_trace_inv [OF assms] by simp_all
  then have "0 < n_readers p" if "t \<in> set (write_wait p)" for t using that by (auto simp: pipe_inv_def)
  then show ?thesis using inv by (auto simp: pipe_inv_def writers_wait_def)
qed

text \<open>
  A concrete history: a reader goes to sleep, a writer stores two bytes, the reader's second
  attempt gets them, and the last writer leaves.
\<close>

lemma pipe_history:
  "\<exists>p R. pipe_trace p R [7, 8] [7, 8] \<and> n_writers p = 0 \<and> read_wait p = [] \<and> pipe_count p = 0"
proof -
  note s1 = pipe_trace.read [OF pipe_trace.start [of 1], of 5 False True 4 False]
  obtain o1 p1 where r1: "pipe_read_flags 5 False True 4 False (pipe_fresh 1) = (o1, p1)"
    and e1: "o1 = Blocked" "p1 = (pipe_fresh 1)\<lparr>read_wait := [5]\<rparr>"
    by (auto simp: pipe_read_flags_def pipe_fresh_def wait_queue_block_def)
  have t1: "pipe_trace p1 Map.empty [] []" using s1 [OF r1] e1(1) by simp
  obtain o2 p2 where r2: "pipe_write_flags 6 False True [7, 8] False True p1 = (o2, p2)" by fastforce
  have inv1: "pipe_wf p1" "pipe_items p1 = []" "pipe_count p1 = 0" "n_readers p1 = 1" "n_writers p1 = 1"
    by (simp_all add: e1 pipe_wf_def pipe_items_Nil pipe_fresh_def)
  have e2: "o2 = Done (Inr 2)" "pipe_items p2 = [7, 8]" "n_writers p2 = 1" "pipe_wf p2" "read_wait p2 = []"
    using inv1(1) r2 by (cases rule: pipe_write_flags_cases;
        use inv1 r2 in \<open>auto simp: pipe_write_flags_def pipe_no_room_def split: if_splits prod.splits\<close>)+
  have t2: "pipe_trace p2 Map.empty [7, 8] []" using pipe_trace.put [OF t1 r2] e2(1) by simp
  obtain o3 p3 where r3: "pipe_read_flags 5 False True 4 False p2 = (o3, p3)" by fastforce
  have c2: "pipe_count p2 = 2" using e2(2) length_pipe_items [of p2] by simp
  have e3: "o3 = Done (Inr [7, 8])" "pipe_items p3 = []" "n_writers p3 = 1" "read_wait p3 = []"
    using e2(4) r3 by (cases rule: pipe_read_flags_cases;
        use c2 e2 r3 in \<open>auto simp: pipe_read_flags_def split: if_splits prod.splits\<close>)+
  have t3: "pipe_trace p3 Map.empty [7, 8] [7, 8]" using pipe_trace.read [OF t2 r3] e3(1) by simp
  have "pipe_trace (pipe_unref_locked 1 p3) Map.empty [7, 8] [7, 8]"
    by (rule pipe_trace.unref [OF t3]) (simp add: e3)
  moreover have "n_writers (pipe_unref_locked 1 p3) = 0" "read_wait (pipe_unref_locked 1 p3) = []"
    "pipe_count (pipe_unref_locked 1 p3) = 0"
    using e3(2) [unfolded pipe_items_Nil] by (simp_all add: pipe_unref_locked_def Let_def e3(3,4))
  ultimately show ?thesis by blast
qed

theorem pipe_stream_witness: "\<exists>p R. pipe_trace p R [7, 8] [7, 8] \<and> pipe_items p = []"
  using pipe_history pipe_stream by fastforce

text \<open>A full pipe with a sleeping writer.\<close>

theorem pipe_sleepers_witness:
  "\<exists>p R w. pipe_trace p R w [] \<and> write_wait p = [5] \<and> R 5 = Some (False, 1) \<and> pipe_no_room False 1 p \<and> 0 < n_readers p"
proof -
  define p0 where "p0 = pipe_fresh 1"
  define bs where "bs = replicate PIPE_BUF_SIZE (0 :: u8)"
  have len: "length bs = PIPE_BUF_SIZE" unfolding bs_def by (rule length_replicate)
  then have ne: "bs \<noteq> []" by auto
  obtain o1 p1 where r1: "pipe_write_flags 4 False True bs False False p0 = (o1, p1)" by fastforce
  have f: "pipe_wf p0" "pipe_items p0 = []" "pipe_count p0 = 0" "n_readers p0 = 1"
    "write_wait p0 = []"
    by (simp_all add: pipe_wf_def pipe_items_Nil pipe_fresh_def p0_def)
  have nr: "\<not> pipe_no_room False (length bs) p0" by (simp add: pipe_no_room_def f len)
  have e1: "pipe_items p1 = bs \<and> n_readers p1 = 1 \<and> write_wait p1 = [] \<and> o1 \<noteq> Blocked"
    using f(1) r1 by (cases rule: pipe_write_flags_cases; use f nr ne len r1 in \<open>auto simp: pipe_write_flags_def split: if_splits prod.splits\<close>)
  then have c: "pipe_count p1 = PIPE_BUF_SIZE" using length_pipe_items [of p1] len by simp
  obtain w where t1: "pipe_trace p1 Map.empty w []"
    using pipe_trace.put [OF pipe_trace.start r1 [unfolded p0_def]] e1 by (cases o1) auto
  let ?p = "p1\<lparr>write_wait := [5]\<rparr>"
  have "pipe_write_flags 5 False True [1] False False p1 = (Blocked, ?p)"
    using c e1 by (simp add: pipe_write_flags_def pipe_no_room_def wait_queue_block_def)
  from pipe_trace.put [OF t1 this] have t2: "pipe_trace ?p [5 \<mapsto> (False, 1)] w []" by simp
  with pipe_sleepers [OF this] show ?thesis by (intro exI [of _ ?p] exI [of _ "[5 \<mapsto> (False, 1)]"] exI [of _ w]) auto
qed

end
