(* ===== verification/Ipc_State.thy ===== *)
theory Ipc_State
  imports Pipe "HOL-Library.Multiset"
begin

text \<open>
  The objects of the interprocess communication layer: the per-process handle tables
  (\<open>kernel/ipc/handle.h\<close>), surfaces (\<open>kernel/gfx/surface.h\<close>), channels
  (\<open>kernel/ipc/channel.h\<close>), listening endpoints (\<open>kernel/ipc/endpoint.h\<close>), the endpoint
  filesystem (\<open>kernel/fs/epfs.c\<close>) and pipes.  An object on the kernel heap is an element of
  the list of its kind; its index stands for its address, and a flag says whether the memory
  is still allocated.  A process is the index of its handle table.

  The multiset \<open>refs\<close> collects every reference the state holds to an object: one per used
  handle, one per handle in a queued message, one per connection in a backlog.  The
  reference-counting invariant of the layer is stated with it.
\<close>

section \<open>Handles\<close>

datatype handle_kind = HANDLE_KIND_NONE | HANDLE_KIND_SURFACE | HANDLE_KIND_CHANNEL
  | HANDLE_KIND_ENDPOINT | HANDLE_KIND_PIPE

text \<open>The \<open>void *\<close> of a handle: which object of which list it points at.\<close>

datatype kobj = NullObj | SurfaceObj nat | ChanEndObj nat nat | EndpointObj nat | PipeEndObj nat

record obj_handle =
  oh_kind :: handle_kind
  oh_obj :: kobj
  map_base :: nat
  map_bytes :: nat
  oh_used :: bool

abbreviation (input) OBJ_HANDLE_MAX :: nat where
  "OBJ_HANDLE_MAX \<equiv> 32"

definition obj_handle_clear :: obj_handle where
  "obj_handle_clear = \<lparr>oh_kind = HANDLE_KIND_NONE, oh_obj = NullObj, map_base = 0, map_bytes = 0,
     oh_used = False\<rparr>"

section \<open>Surfaces\<close>

datatype buffer_owner = BUF_OWNER_CLIENT | BUF_OWNER_COMPOSITOR

record surface_buffer =
  sb_owner :: buffer_owner
  sb_committed :: bool
  sb_seq :: nat

record surface =
  sf_width :: nat
  sf_height :: nat
  sf_stride :: nat
  sf_buffer_size :: nat
  sf_buffers :: "surface_buffer list"
  sf_refcount :: int
  sf_id :: nat
  sf_allocated :: bool

section \<open>Channels\<close>

abbreviation (input) CHAN_MSG_MAX_BYTES :: nat where
  "CHAN_MSG_MAX_BYTES \<equiv> 4096"

abbreviation (input) CHAN_MSG_MAX_HANDLES :: nat where
  "CHAN_MSG_MAX_HANDLES \<equiv> 8"

abbreviation (input) CHAN_QUEUE_MAX :: nat where
  "CHAN_QUEUE_MAX \<equiv> 32"

record chan_handle_ref =
  hr_kind :: handle_kind
  hr_obj :: kobj
  hr_is_move :: bool

record chan_msg =
  msg_bytes :: "u8 list"
  msg_handles :: "chan_handle_ref list"

record channel_end =
  inbox :: "chan_msg list"
  inbox_count :: nat
  recv_wait :: wait_queue
  send_wait :: wait_queue

record channel =
  end0 :: channel_end
  end1 :: channel_end
  ch_refcount :: int
  peer_closed0 :: bool
  peer_closed1 :: bool
  ch_id :: nat
  ch_allocated :: bool

definition chan_end :: "channel \<Rightarrow> nat \<Rightarrow> channel_end" where
  "chan_end c side = (if side = 0 then end0 c else end1 c)"

definition set_chan_end :: "nat \<Rightarrow> channel_end \<Rightarrow> channel \<Rightarrow> channel" where
  "set_chan_end side e c = (if side = 0 then c\<lparr>end0 := e\<rparr> else c\<lparr>end1 := e\<rparr>)"

definition peer_closed :: "channel \<Rightarrow> nat \<Rightarrow> bool" where
  "peer_closed c side = (if side = 0 then peer_closed0 c else peer_closed1 c)"

definition set_peer_closed :: "nat \<Rightarrow> channel \<Rightarrow> channel" where
  "set_peer_closed side c = (if side = 0 then c\<lparr>peer_closed0 := True\<rparr> else c\<lparr>peer_closed1 := True\<rparr>)"

section \<open>Endpoints and the endpoint filesystem\<close>

abbreviation (input) ENDPOINT_ACCEPT_MAX :: nat where
  "ENDPOINT_ACCEPT_MAX \<equiv> 32"

record listen_endpoint =
  ep_owner :: nat
  ep_owner_pid :: nat
  ep_path :: string
  accept_q :: "kobj list"
  accept_head :: nat
  accept_count :: nat
  accept_wait :: wait_queue
  ep_refcount :: int
  ep_unlinked :: bool
  ep_allocated :: bool

datatype epfs_node_type = EPFS_FREE | EPFS_DIR | EPFS_ENDPOINT

record epfs_node =
  en_type :: epfs_node_type
  en_name :: string
  en_parent_ino :: nat
  en_endpoint :: nat
  en_used :: bool

section \<open>The state\<close>

record ipc =
  tables :: "obj_handle list list"
  pids :: "nat list"
  surfaces :: "surface list"
  surface_live :: int
  surface_seq :: nat
  chans :: "channel list"
  chan_live :: int
  epts :: "listen_endpoint list"
  endpoint_live :: int
  epfs_nodes :: "epfs_node list"
  g_pipes :: "pipe list"
  g_pipe_ends :: "pipe_end list"
  g_next_pipe_id :: nat

definition slot :: "ipc \<Rightarrow> nat \<Rightarrow> nat \<Rightarrow> obj_handle" where
  "slot s p h = tables s ! p ! h"

definition set_slot :: "nat \<Rightarrow> nat \<Rightarrow> obj_handle \<Rightarrow> ipc \<Rightarrow> ipc" where
  "set_slot p h x s = s\<lparr>tables := (tables s)[p := (tables s ! p)[h := x]]\<rparr>"

section \<open>References\<close>

definition slot_refs :: "obj_handle \<Rightarrow> kobj multiset" where
  "slot_refs h = (if oh_used h then {#oh_obj h#} else {#})"

definition table_refs :: "obj_handle list \<Rightarrow> kobj multiset" where
  "table_refs t = sum_list (map slot_refs t)"

definition msg_refs :: "chan_msg \<Rightarrow> kobj multiset" where
  "msg_refs m = mset (map hr_obj (msg_handles m))"

definition chan_refs :: "channel \<Rightarrow> kobj multiset" where
  "chan_refs c = sum_list (map msg_refs (inbox (end0 c))) + sum_list (map msg_refs (inbox (end1 c)))"

definition backlog :: "listen_endpoint \<Rightarrow> kobj list" where
  "backlog e = ring_list (accept_q e) (accept_head e) (accept_count e)"

definition refs :: "ipc \<Rightarrow> kobj multiset" where
  "refs s = sum_list (map table_refs (tables s)) + sum_list (map chan_refs (chans s)) +
     sum_list (map (\<lambda>e. mset (backlog e)) (epts s))"

lemma chan_end_simps [simp]:
  "chan_end c 0 = end0 c" "chan_end c (Suc 0) = end1 c"
  "set_chan_end 0 e c = c\<lparr>end0 := e\<rparr>" "set_chan_end (Suc 0) e c = c\<lparr>end1 := e\<rparr>"
  "peer_closed c 0 = peer_closed0 c" "peer_closed c (Suc 0) = peer_closed1 c"
  "set_peer_closed 0 c = c\<lparr>peer_closed0 := True\<rparr>" "set_peer_closed (Suc 0) c = c\<lparr>peer_closed1 := True\<rparr>"
  by (simp_all add: chan_end_def set_chan_end_def peer_closed_def set_peer_closed_def)

lemma cancel_exchange:
  fixes a :: "'a :: cancel_comm_monoid_add"
  assumes "a + u = b + v" and "v + x = u + y"
  shows "a + x = b + y"
proof -
  have "u + (a + x) = u + (b + y)"
    using assms by (metis add.assoc add.commute)
  then show ?thesis by simp
qed

lemma refs_set_slot:
  assumes "p < length (tables s)" and "h < length (tables s ! p)"
  shows "refs (set_slot p h x s) + slot_refs (slot s p h) = refs s + slot_refs x"
proof -
  let ?t = "tables s ! p"
  have t: "table_refs (?t[h := x]) + slot_refs (slot s p h) = table_refs ?t + slot_refs x"
    unfolding table_refs_def slot_def by (rule sum_list_map_update [OF assms(2)])
  have "sum_list (map table_refs ((tables s)[p := ?t[h := x]])) + table_refs ?t =
      sum_list (map table_refs (tables s)) + table_refs (?t[h := x])"
    by (rule sum_list_map_update [OF assms(1)])
  then have "sum_list (map table_refs ((tables s)[p := ?t[h := x]])) + slot_refs (slot s p h) =
      sum_list (map table_refs (tables s)) + slot_refs x"
    using t by (rule cancel_exchange)
  then show ?thesis unfolding refs_def set_slot_def by (simp add: ac_simps)
qed

lemma refs_set_chan:
  assumes "c < length (chans s)"
  shows "refs (s\<lparr>chans := (chans s)[c := x]\<rparr>) + chan_refs (chans s ! c) = refs s + chan_refs x"
proof -
  have "sum_list (map chan_refs ((chans s)[c := x])) + chan_refs (chans s ! c) =
      sum_list (map chan_refs (chans s)) + chan_refs x"
    by (rule sum_list_map_update [OF assms])
  then show ?thesis unfolding refs_def
    by (simp add: ac_simps)
qed

lemma refs_set_ept:
  assumes "e < length (epts s)"
  shows "refs (s\<lparr>epts := (epts s)[e := x]\<rparr>) + mset (backlog (epts s ! e)) = refs s + mset (backlog x)"
proof -
  have "sum_list (map (\<lambda>e. mset (backlog e)) ((epts s)[e := x])) + mset (backlog (epts s ! e)) =
      sum_list (map (\<lambda>e. mset (backlog e)) (epts s)) + mset (backlog x)"
    by (rule sum_list_map_update [OF assms])
  then show ?thesis unfolding refs_def by (simp add: ac_simps)
qed

lemma refs_fields [simp]:
  "refs (s\<lparr>surfaces := a\<rparr>) = refs s" "refs (s\<lparr>surface_live := b\<rparr>) = refs s"
  "refs (s\<lparr>surface_seq := k\<rparr>) = refs s" "refs (s\<lparr>chan_live := b\<rparr>) = refs s"
  "refs (s\<lparr>endpoint_live := b\<rparr>) = refs s" "refs (s\<lparr>epfs_nodes := n\<rparr>) = refs s"
  "refs (s\<lparr>g_pipes := ps\<rparr>) = refs s" "refs (s\<lparr>g_pipe_ends := pe\<rparr>) = refs s"
  "refs (s\<lparr>g_next_pipe_id := k\<rparr>) = refs s" "refs (s\<lparr>pids := kk\<rparr>) = refs s"
  by (simp_all add: refs_def)

end
