(* ===== verification/Handle.thy ===== *)
theory Handle
  imports Ipc_State
begin

text \<open>
  The handle table (\<open>kernel/ipc/handle.c\<close>), surfaces (\<open>kernel/gfx/surface.c\<close>) and channels
  (\<open>kernel/ipc/channel.c\<close>).  Every function of the three files that changes state is here,
  except the ones that release a handle of any kind, which are in \<open>Ipc\<close>.  The result of an
  allocation that the code takes from another allocator (kernel heap, physical pages, page
  tables) is an argument.
\<close>

section \<open>The handle table\<close>

definition obj_handle_alloc :: "nat \<Rightarrow> handle_kind \<Rightarrow> kobj \<Rightarrow> ipc \<Rightarrow> nat res \<times> ipc" where
  "obj_handle_alloc owner k obj s =
     (case first_index (\<lambda>h. \<not> oh_used h) (tables s ! owner) of
        None \<Rightarrow> (Inl EMFILE, s)
      | Some i \<Rightarrow>
          (Inr i, set_slot owner i
             \<lparr>oh_kind = k, oh_obj = obj, map_base = 0, map_bytes = 0, oh_used = True\<rparr> s))"

text \<open>The null object stands for the null pointer.\<close>

definition obj_handle_resolve :: "ipc \<Rightarrow> nat \<Rightarrow> int \<Rightarrow> handle_kind \<Rightarrow> kobj" where
  "obj_handle_resolve s owner handle expect =
     (if handle < 0 \<or> handle \<ge> int OBJ_HANDLE_MAX then NullObj
      else let h = slot s owner (nat handle) in
        if \<not> oh_used h \<or> oh_kind h \<noteq> expect then NullObj else oh_obj h)"

text \<open>A slot given up without a release: the mapping record is left in place.\<close>

definition obj_handle_drop :: "nat \<Rightarrow> nat \<Rightarrow> ipc \<Rightarrow> ipc" where
  "obj_handle_drop p h s =
     set_slot p h ((slot s p h)\<lparr>oh_used := False, oh_kind := HANDLE_KIND_NONE, oh_obj := NullObj\<rparr>) s"

section \<open>Surfaces\<close>

abbreviation (input) SURFACE_MAX_DIM :: nat where
  "SURFACE_MAX_DIM \<equiv> 8192"

abbreviation (input) EMBK_PIXFMT_BGRA8888_PRE :: nat where
  "EMBK_PIXFMT_BGRA8888_PRE \<equiv> 1"

definition upd_surface :: "nat \<Rightarrow> (surface \<Rightarrow> surface) \<Rightarrow> ipc \<Rightarrow> ipc" where
  "upd_surface i f s = s\<lparr>surfaces := (surfaces s)[i := f (surfaces s ! i)]\<rparr>"

definition surface_free_object :: "nat \<Rightarrow> ipc \<Rightarrow> ipc" where
  "surface_free_object i s =
     (upd_surface i (\<lambda>f. f\<lparr>sf_allocated := False\<rparr>) s)\<lparr>surface_live := surface_live s - 1\<rparr>"

definition surface_unref :: "nat \<Rightarrow> ipc \<Rightarrow> ipc" where
  "surface_unref i s =
     (let s1 = upd_surface i (\<lambda>f. f\<lparr>sf_refcount := sf_refcount f - 1\<rparr>) s in
      if sf_refcount (surfaces s1 ! i) \<le> 0 then surface_free_object i s1 else s1)"

definition surface_ref_get :: "nat \<Rightarrow> ipc \<Rightarrow> ipc" where
  "surface_ref_get i s = upd_surface i (\<lambda>f. f\<lparr>sf_refcount := sf_refcount f + 1\<rparr>) s"

definition surface_ref_put :: "nat \<Rightarrow> ipc \<Rightarrow> ipc" where
  "surface_ref_put i s = surface_unref i s"

definition surface_release_for_handle :: "nat \<Rightarrow> nat \<Rightarrow> ipc \<Rightarrow> ipc" where
  "surface_release_for_handle owner handle s =
     (case oh_obj (slot s owner handle) of SurfaceObj i \<Rightarrow> surface_unref i s | _ \<Rightarrow> s)"

definition surface_unmap_from_handle :: "nat \<Rightarrow> nat \<Rightarrow> ipc \<Rightarrow> ipc" where
  "surface_unmap_from_handle owner handle s =
     (if map_base (slot s owner handle) \<noteq> 0
      then set_slot owner handle ((slot s owner handle)\<lparr>map_base := 0, map_bytes := 0\<rparr>) s
      else s)"

definition surface_new :: "nat \<Rightarrow> nat \<Rightarrow> nat \<Rightarrow> nat \<Rightarrow> surface" where
  "surface_new sid w h n_buffers =
     \<lparr>sf_width = w, sf_height = h, sf_stride = w * 4,
      sf_buffer_size = (w * 4 * h + 4096 - 1) div 4096 * 4096,
      sf_buffers = replicate n_buffers \<lparr>sb_owner = BUF_OWNER_CLIENT, sb_committed = False, sb_seq = 0\<rparr>,
      sf_refcount = 0, sf_id = sid, sf_allocated = True\<rparr>"

text \<open>
  \<open>mem\<close>: the object and all its pages could be allocated.  \<open>base\<close>: the address the pages were
  mapped at, 0 when mapping failed.  The identifier source has counted one per surface.
\<close>

definition surface_create :: "bool \<Rightarrow> nat \<Rightarrow> nat \<Rightarrow> nat \<Rightarrow> nat \<Rightarrow> nat \<Rightarrow> nat \<Rightarrow> ipc \<Rightarrow> nat res \<times> ipc" where
  "surface_create mem base client w h fmt n_buffers s =
     (if fmt \<noteq> EMBK_PIXFMT_BGRA8888_PRE then (Inl ENOTSUP, s)
      else if w = 0 \<or> h = 0 \<or> w > SURFACE_MAX_DIM \<or> h > SURFACE_MAX_DIM then (Inl EINVAL, s)
      else if n_buffers < 2 \<or> n_buffers > 4 then (Inl EINVAL, s)
      else if \<not> mem then (Inl ENOMEM, s)
      else
        let i = length (surfaces s);
            f = surface_new (Suc i) w h n_buffers;
            s1 = s\<lparr>surfaces := surfaces s @ [f], surface_live := surface_live s + 1\<rparr> in
        if base = 0 then (Inl ENOMEM, surface_free_object i s1)
        else
          case obj_handle_alloc client HANDLE_KIND_SURFACE (SurfaceObj i) s1 of
            (Inl e, s2) \<Rightarrow> (Inl e, surface_free_object i s2)
          | (Inr nh, s2) \<Rightarrow>
              (Inr nh,
               upd_surface i (\<lambda>f. f\<lparr>sf_refcount := 1\<rparr>)
                 (set_slot client nh ((slot s2 client nh)\<lparr>map_base := base,
                    map_bytes := n_buffers * sf_buffer_size f\<rparr>) s2)))"

text \<open>\<open>base\<close> is where a surface that is not yet mapped gets mapped, 0 when mapping fails.\<close>

definition surface_map :: "nat \<Rightarrow> nat \<Rightarrow> int \<Rightarrow> ipc \<Rightarrow> nat \<times> ipc" where
  "surface_map base caller handle s =
     (case obj_handle_resolve s caller handle HANDLE_KIND_SURFACE of
        SurfaceObj i \<Rightarrow>
          let h = slot s caller (nat handle) in
          if map_base h = 0 then
            (if base = 0 then (0, s)
             else (base, set_slot caller (nat handle) (h\<lparr>map_base := base,
                     map_bytes := length (sf_buffers (surfaces s ! i)) * sf_buffer_size (surfaces s ! i)\<rparr>) s))
          else (map_base h, s)
      | _ \<Rightarrow> (0, s))"

definition surface_acquire :: "nat \<Rightarrow> int \<Rightarrow> ipc \<Rightarrow> nat res" where
  "surface_acquire caller handle s =
     (case obj_handle_resolve s caller handle HANDLE_KIND_SURFACE of
        SurfaceObj i \<Rightarrow>
          (case first_index (\<lambda>b. sb_owner b = BUF_OWNER_CLIENT) (sf_buffers (surfaces s ! i)) of
             Some b \<Rightarrow> Inr b
           | None \<Rightarrow> Inl EAGAIN)
      | _ \<Rightarrow> Inl EINVAL)"

definition surface_commit :: "nat \<Rightarrow> int \<Rightarrow> int \<Rightarrow> ipc \<Rightarrow> unit res \<times> ipc" where
  "surface_commit caller handle buffer_idx s =
     (case obj_handle_resolve s caller handle HANDLE_KIND_SURFACE of
        SurfaceObj i \<Rightarrow>
          let bs = sf_buffers (surfaces s ! i) in
          if buffer_idx < 0 \<or> buffer_idx \<ge> int (length bs) then (Inl EINVAL, s)
          else if sb_owner (bs ! nat buffer_idx) \<noteq> BUF_OWNER_CLIENT then (Inl EINVAL, s)
          else
            (Inr (), (upd_surface i (\<lambda>f. f\<lparr>sf_buffers := bs[nat buffer_idx :=
                (bs ! nat buffer_idx)\<lparr>sb_seq := surface_seq s + 1, sb_committed := True,
                  sb_owner := BUF_OWNER_COMPOSITOR\<rparr>]\<rparr>) s)\<lparr>surface_seq := surface_seq s + 1\<rparr>)
      | _ \<Rightarrow> (Inl EINVAL, s))"

definition surface_release :: "nat \<Rightarrow> int \<Rightarrow> int \<Rightarrow> ipc \<Rightarrow> unit res \<times> ipc" where
  "surface_release caller handle buffer_idx s =
     (case obj_handle_resolve s caller handle HANDLE_KIND_SURFACE of
        SurfaceObj i \<Rightarrow>
          let bs = sf_buffers (surfaces s ! i) in
          if buffer_idx < 0 \<or> buffer_idx \<ge> int (length bs) then (Inl EINVAL, s)
          else if sb_owner (bs ! nat buffer_idx) \<noteq> BUF_OWNER_COMPOSITOR then (Inl EINVAL, s)
          else
            (Inr (), upd_surface i (\<lambda>f. f\<lparr>sf_buffers := bs[nat buffer_idx :=
                (bs ! nat buffer_idx)\<lparr>sb_owner := BUF_OWNER_CLIENT, sb_committed := False\<rparr>]\<rparr>) s)
      | _ \<Rightarrow> (Inl EINVAL, s))"

definition surface_transfer_to :: "nat \<Rightarrow> nat \<Rightarrow> int \<Rightarrow> nat \<Rightarrow> ipc \<Rightarrow> nat res \<times> ipc" where
  "surface_transfer_to base src src_handle dst s =
     (case obj_handle_resolve s src src_handle HANDLE_KIND_SURFACE of
        SurfaceObj i \<Rightarrow>
          (case obj_handle_alloc dst HANDLE_KIND_SURFACE (SurfaceObj i) s of
             (Inl e, s1) \<Rightarrow> (Inl e, s1)
           | (Inr dh, s1) \<Rightarrow>
               if base = 0 then (Inl ENOMEM, obj_handle_drop dst dh s1)
               else (Inr dh, surface_ref_get i
                       (set_slot dst dh ((slot s1 dst dh)\<lparr>map_base := base,
                          map_bytes := length (sf_buffers (surfaces s ! i)) * sf_buffer_size (surfaces s ! i)\<rparr>) s1)))
      | _ \<Rightarrow> (Inl EINVAL, s))"

section \<open>Channels\<close>

definition obj_ref_get :: "handle_kind \<Rightarrow> kobj \<Rightarrow> ipc \<Rightarrow> ipc" where
  "obj_ref_get k obj s =
     (if k = HANDLE_KIND_SURFACE then (case obj of SurfaceObj i \<Rightarrow> surface_ref_get i s | _ \<Rightarrow> s) else s)"

definition obj_ref_put :: "handle_kind \<Rightarrow> kobj \<Rightarrow> ipc \<Rightarrow> ipc" where
  "obj_ref_put k obj s =
     (if k = HANDLE_KIND_SURFACE then (case obj of SurfaceObj i \<Rightarrow> surface_ref_put i s | _ \<Rightarrow> s) else s)"

definition chan_msg_free_undelivered :: "chan_msg \<Rightarrow> ipc \<Rightarrow> ipc" where
  "chan_msg_free_undelivered m s = fold (\<lambda>r s. obj_ref_put (hr_kind r) (hr_obj r) s) (msg_handles m) s"

definition channel_end_new :: channel_end where
  "channel_end_new = \<lparr>inbox = [], inbox_count = 0, recv_wait = [], send_wait = []\<rparr>"

text \<open>The identifier source has counted one per channel.\<close>

definition channel_new :: "int \<Rightarrow> nat \<Rightarrow> channel" where
  "channel_new rc k = \<lparr>end0 = channel_end_new, end1 = channel_end_new, ch_refcount = rc,
     peer_closed0 = False, peer_closed1 = False, ch_id = k, ch_allocated = True\<rparr>"

definition upd_chan :: "nat \<Rightarrow> (channel \<Rightarrow> channel) \<Rightarrow> ipc \<Rightarrow> ipc" where
  "upd_chan c f s = s\<lparr>chans := (chans s)[c := f (chans s ! c)]\<rparr>"

text \<open>Giving a channel's memory back, and the live count with it.\<close>

definition channel_free :: "nat \<Rightarrow> ipc \<Rightarrow> ipc" where
  "channel_free c s = (upd_chan c (\<lambda>x. x\<lparr>ch_allocated := False\<rparr>) s)\<lparr>chan_live := chan_live s - 1\<rparr>"

definition channel_add :: "int \<Rightarrow> ipc \<Rightarrow> ipc" where
  "channel_add rc s = s\<lparr>chans := chans s @ [channel_new rc (Suc (length (chans s)))],
     chan_live := chan_live s + 1\<rparr>"

definition channel_create_pair :: "bool \<Rightarrow> nat \<Rightarrow> ipc \<Rightarrow> (nat \<times> nat) res \<times> ipc" where
  "channel_create_pair mem owner s =
     (if \<not> mem then (Inl ENOMEM, s)
      else
        let c = length (chans s); s1 = channel_add 2 s in
        case obj_handle_alloc owner HANDLE_KIND_CHANNEL (ChanEndObj c 0) s1 of
          (Inl e, s2) \<Rightarrow> (Inl e, channel_free c s2)
        | (Inr h0, s2) \<Rightarrow>
            (case obj_handle_alloc owner HANDLE_KIND_CHANNEL (ChanEndObj c 1) s2 of
               (Inl e, s3) \<Rightarrow> (Inl e, channel_free c (obj_handle_drop owner h0 s3))
             | (Inr h1, s3) \<Rightarrow> (Inr (h0, h1), s3)))"

definition channel_create_raw :: "bool \<Rightarrow> ipc \<Rightarrow> nat option \<times> ipc" where
  "channel_create_raw mem s =
     (if \<not> mem then (None, s) else (Some (length (chans s)), channel_add 0 s))"

definition channel_ref_get :: "nat \<Rightarrow> ipc \<Rightarrow> ipc" where
  "channel_ref_get c s = upd_chan c (\<lambda>x. x\<lparr>ch_refcount := ch_refcount x + 1\<rparr>) s"

text \<open>
  The part of \<open>channel_send\<close> before the lock: the arguments are checked and the message is
  built.  \<open>hnds\<close> pairs each handle with its flag, true for a move.  The result names the end the
  message leaves from.
\<close>

definition handle_ref_of :: "ipc \<Rightarrow> nat \<Rightarrow> int \<times> bool \<Rightarrow> chan_handle_ref" where
  "handle_ref_of s caller = (\<lambda>(hi, mv).
     \<lparr>hr_kind = oh_kind (slot s caller (nat hi)), hr_obj = oh_obj (slot s caller (nat hi)), hr_is_move = mv\<rparr>)"

definition channel_send_prepare ::
    "bool \<Rightarrow> nat \<Rightarrow> int \<Rightarrow> u8 list \<Rightarrow> (int \<times> bool) list \<Rightarrow> ipc \<Rightarrow> (nat \<times> nat \<times> chan_msg) res" where
  "channel_send_prepare mem caller handle bytes hnds s =
     (case obj_handle_resolve s caller handle HANDLE_KIND_CHANNEL of
        ChanEndObj c side \<Rightarrow>
          if length bytes > CHAN_MSG_MAX_BYTES then Inl EMSGSIZE
          else if length hnds > CHAN_MSG_MAX_HANDLES then Inl EINVAL
          else if \<not> mem then Inl ENOMEM
          else if list_ex (\<lambda>(hi, mv). hi < 0 \<or> hi \<ge> int OBJ_HANDLE_MAX \<or>
                             \<not> oh_used (slot s caller (nat hi))) hnds then Inl EINVAL
          else Inr (c, side, \<lparr>msg_bytes = bytes, msg_handles = map (handle_ref_of s caller) hnds\<rparr>)
      | _ \<Rightarrow> Inl EINVAL)"

text \<open>The loop that applies the copy or move of each handle once there is room.\<close>

definition chan_take_handle :: "nat \<Rightarrow> (int \<times> bool) \<times> chan_handle_ref \<Rightarrow> ipc \<Rightarrow> ipc" where
  "chan_take_handle caller = (\<lambda>((hi, _), r) s.
     if hr_is_move r then
       obj_handle_drop caller (nat hi)
         (if hr_kind r = HANDLE_KIND_SURFACE then surface_unmap_from_handle caller (nat hi) s else s)
     else obj_ref_get (hr_kind r) (hr_obj r) s)"

definition channel_enqueue :: "nat \<Rightarrow> nat \<Rightarrow> chan_msg \<Rightarrow> ipc \<Rightarrow> ipc" where
  "channel_enqueue c side m s =
     upd_chan c (\<lambda>x. let e = chan_end x side in
       set_chan_end side (e\<lparr>inbox := inbox e @ [m], inbox_count := inbox_count e + 1,
         recv_wait := fst (wait_queue_wake_one (recv_wait e))\<rparr>) x) s"

text \<open>The part of \<open>channel_send\<close> under the lock, one attempt by thread \<open>t\<close>.\<close>

definition channel_send_locked ::
    "tid \<Rightarrow> bool \<Rightarrow> nat \<Rightarrow> nat \<Rightarrow> nat \<Rightarrow> (int \<times> bool) list \<Rightarrow> chan_msg \<Rightarrow> ipc \<Rightarrow> unit res outcome \<times> ipc" where
  "channel_send_locked t cancelled caller c side hnds m s =
     (let peer = 1 - side; x = chans s ! c in
      if peer_closed x side then (Done (Inl EPIPE), s)
      else if inbox_count (chan_end x peer) \<ge> CHAN_QUEUE_MAX then
        (if cancelled then (Done (Inl ECANCELED), s)
         else (Blocked, upd_chan c (\<lambda>x. let e = chan_end x peer in
                 set_chan_end peer (e\<lparr>send_wait := wait_queue_block t (send_wait e)\<rparr>) x) s))
      else
        (Done (Inr ()),
         channel_enqueue c peer m (fold (chan_take_handle caller) (zip hnds (msg_handles m)) s)))"

definition channel_send ::
    "tid \<Rightarrow> bool \<Rightarrow> bool \<Rightarrow> nat \<Rightarrow> int \<Rightarrow> u8 list \<Rightarrow> (int \<times> bool) list \<Rightarrow> ipc \<Rightarrow> unit res outcome \<times> ipc" where
  "channel_send t cancelled mem caller handle bytes hnds s =
     (case channel_send_prepare mem caller handle bytes hnds s of
        Inl e \<Rightarrow> (Done (Inl e), s)
      | Inr (c, side, m) \<Rightarrow> channel_send_locked t cancelled caller c side hnds m s)"

text \<open>The handles of a received message, installed one by one; a full table drops the reference.\<close>

definition chan_install_handle :: "nat \<Rightarrow> chan_handle_ref \<Rightarrow> nat list \<times> ipc \<Rightarrow> nat list \<times> ipc" where
  "chan_install_handle caller r = (\<lambda>(out, s).
     (case obj_handle_alloc caller (hr_kind r) (hr_obj r) s of
        (Inl e, s1) \<Rightarrow> (out, obj_ref_put (hr_kind r) (hr_obj r) s1)
      | (Inr nh, s1) \<Rightarrow> (out @ [nh], s1)))"

definition channel_dequeue :: "nat \<Rightarrow> nat \<Rightarrow> ipc \<Rightarrow> ipc" where
  "channel_dequeue c side s =
     upd_chan c (\<lambda>x. let e = chan_end x side in
       set_chan_end side (e\<lparr>inbox := tl (inbox e), inbox_count := inbox_count e - 1,
         send_wait := fst (wait_queue_wake_one (send_wait e))\<rparr>) x) s"

definition channel_recv ::
    "tid \<Rightarrow> bool \<Rightarrow> nat \<Rightarrow> int \<Rightarrow> nat \<Rightarrow> ipc \<Rightarrow> (u8 list \<times> nat list) res outcome \<times> ipc" where
  "channel_recv t cancelled caller handle buflen s =
     (case obj_handle_resolve s caller handle HANDLE_KIND_CHANNEL of
        ChanEndObj c side \<Rightarrow>
          let x = chans s ! c; e = chan_end x side in
          if inbox_count e > 0 then
            (let m = hd (inbox e) in
             if length (msg_bytes m) > buflen then (Done (Inl EMSGSIZE), s)
             else
               let (out, s1) = fold (chan_install_handle caller) (msg_handles m)
                                 ([], channel_dequeue c side s)
               in (Done (Inr (msg_bytes m, out)), s1))
          else if peer_closed x side then (Done (Inl EPIPE), s)
          else if cancelled then (Done (Inl ECANCELED), s)
          else (Blocked, upd_chan c (\<lambda>x. let e = chan_end x side in
                  set_chan_end side (e\<lparr>recv_wait := wait_queue_block t (recv_wait e)\<rparr>) x) s)
      | _ \<Rightarrow> (Done (Inl EINVAL), s))"

definition channel_release_raw_end :: "nat \<Rightarrow> nat \<Rightarrow> ipc \<Rightarrow> ipc" where
  "channel_release_raw_end c side s =
     (let drain = inbox (chan_end (chans s ! c) side);
          s1 = upd_chan c (\<lambda>x.
                 let p = chan_end x (1 - side);
                     x1 = set_chan_end (1 - side) (p\<lparr>recv_wait := fst (wait_queue_wake_all (recv_wait p)),
                            send_wait := fst (wait_queue_wake_all (send_wait p))\<rparr>) (set_peer_closed (1 - side) x);
                     e = chan_end x1 side
                 in (set_chan_end side (e\<lparr>inbox := [], inbox_count := 0\<rparr>) x1)\<lparr>ch_refcount := ch_refcount x1 - 1\<rparr>) s;
          s2 = fold chan_msg_free_undelivered drain s1
      in if ch_refcount (chans s1 ! c) \<le> 0 then channel_free c s2 else s2)"

definition channel_release_for_handle :: "nat \<Rightarrow> nat \<Rightarrow> ipc \<Rightarrow> ipc" where
  "channel_release_for_handle owner handle s =
     (case oh_obj (slot s owner handle) of
        ChanEndObj c side \<Rightarrow> channel_release_raw_end c side s
      | _ \<Rightarrow> s)"

definition channel_transfer_end_to :: "nat \<Rightarrow> int \<Rightarrow> nat \<Rightarrow> ipc \<Rightarrow> nat res \<times> ipc" where
  "channel_transfer_end_to src src_handle dst s =
     (case obj_handle_resolve s src src_handle HANDLE_KIND_CHANNEL of
        ChanEndObj c side \<Rightarrow>
          (case obj_handle_alloc dst HANDLE_KIND_CHANNEL (ChanEndObj c side) s of
             (Inl e, s1) \<Rightarrow> (Inl e, s1)
           | (Inr dh, s1) \<Rightarrow> (Inr dh, obj_handle_drop src (nat src_handle) s1))
      | _ \<Rightarrow> (Inl EINVAL, s))"

end
