(* ===== verification/Endpoint.thy ===== *)
theory Endpoint
  imports Handle
begin

text \<open>
  Listening endpoints (\<open>kernel/ipc/endpoint.c\<close>) and the filesystem that names them
  (\<open>kernel/fs/epfs.c\<close>), then the operations of the communication layer that release a handle
  of any kind: \<open>obj_handle_free\<close> and its callers.  Path resolution belongs to the virtual
  filesystem: the argument \<open>vfs\<close> says what a directory path resolves to.
\<close>

section \<open>The endpoint filesystem\<close>

abbreviation (input) EPFS_NAME_MAX :: nat where
  "EPFS_NAME_MAX \<equiv> 32"

datatype vnode_type = VFS_DT_DIR | VFS_DT_ENDPOINT | VFS_DT_OTHER

text \<open>\<open>vn_epfs\<close>: the mount's operations are the endpoint filesystem's.\<close>

record vnode =
  vn_epfs :: bool
  vn_ino :: nat
  vn_type :: vnode_type

definition epfs_node_free :: epfs_node where
  "epfs_node_free = \<lparr>en_type = EPFS_FREE, en_name = [], en_parent_ino = 0, en_endpoint = 0, en_used = False\<rparr>"

definition epfs_init :: "epfs_node list" where
  "epfs_init = (replicate 64 epfs_node_free)
     [0 := \<lparr>en_type = EPFS_DIR, en_name = [], en_parent_ino = 0, en_endpoint = 0, en_used = True\<rparr>]"

definition node_at_ino :: "epfs_node list \<Rightarrow> nat \<Rightarrow> epfs_node option" where
  "node_at_ino nodes ino =
     (if ino < 1 \<or> ino > 64 then None
      else if en_used (nodes ! (ino - 1)) then Some (nodes ! (ino - 1)) else None)"

definition find_child :: "epfs_node list \<Rightarrow> nat \<Rightarrow> string \<Rightarrow> nat option" where
  "find_child nodes parent_ino name =
     (if name = [] \<or> length name \<ge> EPFS_NAME_MAX then None
      else first_index (\<lambda>n. en_used n \<and> en_parent_ino n = parent_ino \<and> en_name n = name) nodes)"

definition vfs_type_of :: "epfs_node_type \<Rightarrow> vnode_type" where
  "vfs_type_of t = (if t = EPFS_DIR then VFS_DT_DIR else VFS_DT_ENDPOINT)"

definition epfs_lookup :: "epfs_node list \<Rightarrow> vnode \<Rightarrow> string \<Rightarrow> vnode res" where
  "epfs_lookup nodes dir name =
     (if vn_type dir \<noteq> VFS_DT_DIR then Inl ENOTDIR
      else case find_child nodes (vn_ino dir) name of
        None \<Rightarrow> Inl ENOENT
      | Some idx \<Rightarrow> Inr \<lparr>vn_epfs = vn_epfs dir, vn_ino = idx + 1, vn_type = vfs_type_of (en_type (nodes ! idx))\<rparr>)"

definition epfs_create_endpoint :: "vnode \<Rightarrow> string \<Rightarrow> nat \<Rightarrow> epfs_node list \<Rightarrow> epfs_node list res" where
  "epfs_create_endpoint dir name endpoint nodes =
     (if vn_type dir \<noteq> VFS_DT_DIR then Inl ENOTDIR
      else if name = [] \<or> length name \<ge> EPFS_NAME_MAX then Inl ENAMETOOLONG
      else if find_child nodes (vn_ino dir) name \<noteq> None then Inl EEXIST
      else case first_index (\<lambda>n. \<not> en_used n) nodes of
        None \<Rightarrow> Inl ENOSPC
      | Some i \<Rightarrow> Inr (nodes[i := \<lparr>en_type = EPFS_ENDPOINT, en_name = name, en_parent_ino = vn_ino dir,
                                     en_endpoint = endpoint, en_used = True\<rparr>]))"

definition epfs_get_endpoint :: "epfs_node list \<Rightarrow> vnode \<Rightarrow> nat option" where
  "epfs_get_endpoint nodes vn =
     (if vn_type vn \<noteq> VFS_DT_ENDPOINT then None
      else case node_at_ino nodes (vn_ino vn) of
        None \<Rightarrow> None
      | Some n \<Rightarrow> if en_type n = EPFS_ENDPOINT then Some (en_endpoint n) else None)"

definition epfs_unlink :: "vnode \<Rightarrow> string \<Rightarrow> epfs_node list \<Rightarrow> epfs_node list res" where
  "epfs_unlink dir name nodes =
     (if vn_type dir \<noteq> VFS_DT_DIR then Inl ENOTDIR
      else case find_child nodes (vn_ino dir) name of
        None \<Rightarrow> Inl ENOENT
      | Some idx \<Rightarrow> if en_type (nodes ! idx) = EPFS_DIR then Inl ENOSYS
                   else Inr (nodes[idx := epfs_node_free]))"

section \<open>Endpoints\<close>

text \<open>The parent path and the leaf of a path: the text before and after the last slash.\<close>

definition split_parent :: "string \<Rightarrow> (string \<times> string) res" where
  "split_parent path =
     (if CHR ''/'' \<notin> set path then Inl EINVAL
      else
        let leaf = rev (takeWhile (\<lambda>c. c \<noteq> CHR ''/'') (rev path));
            parent = take (length path - length leaf - 1) path in
        if leaf = [] \<or> length leaf > 255 then Inl EINVAL
        else if parent = [] then Inr (''/'', leaf)
        else if length parent \<ge> 256 then Inl ENAMETOOLONG
        else Inr (parent, leaf))"

definition endpoint_new :: "nat \<Rightarrow> nat \<Rightarrow> string \<Rightarrow> listen_endpoint" where
  "endpoint_new owner pid path = \<lparr>ep_owner = owner, ep_owner_pid = pid, ep_path = path,
     accept_q = replicate ENDPOINT_ACCEPT_MAX NullObj, accept_head = 0, accept_count = 0,
     accept_wait = [], ep_refcount = 1, ep_unlinked = False, ep_allocated = True\<rparr>"

definition upd_ept :: "nat \<Rightarrow> (listen_endpoint \<Rightarrow> listen_endpoint) \<Rightarrow> ipc \<Rightarrow> ipc" where
  "upd_ept e f s = s\<lparr>epts := (epts s)[e := f (epts s ! e)]\<rparr>"

definition endpoint_listen ::
    "(string \<Rightarrow> vnode res) \<Rightarrow> bool \<Rightarrow> nat \<Rightarrow> string \<Rightarrow> ipc \<Rightarrow> nat res \<times> ipc" where
  "endpoint_listen vfs mem owner path s =
     (case split_parent path of
        Inl e \<Rightarrow> (Inl e, s)
      | Inr (parent_path, leaf) \<Rightarrow>
          (case vfs parent_path of
             Inl e \<Rightarrow> (Inl e, s)
           | Inr parent \<Rightarrow>
               if \<not> vn_epfs parent then (Inl ENOSYS, s)
               else if length path \<ge> 64 then (Inl ENAMETOOLONG, s)
               else if \<not> mem then (Inl ENOMEM, s)
               else
                 let i = length (epts s) in
                 case epfs_create_endpoint parent leaf i (epfs_nodes s) of
                   Inl e \<Rightarrow> (Inl e, s)
                 | Inr nodes \<Rightarrow>
                     (case obj_handle_alloc owner HANDLE_KIND_ENDPOINT (EndpointObj i) (s\<lparr>epfs_nodes := nodes\<rparr>) of
                        (Inl e, s1) \<Rightarrow>
                          (Inl e, case epfs_unlink parent leaf (epfs_nodes s1) of
                                    Inl _ \<Rightarrow> s1 | Inr ns \<Rightarrow> s1\<lparr>epfs_nodes := ns\<rparr>)
                      | (Inr h, s1) \<Rightarrow>
                          (Inr h, s1\<lparr>epts := epts s1 @ [endpoint_new owner (pids s ! owner) path],
                                     endpoint_live := endpoint_live s1 + 1\<rparr>))))"

text \<open>The circular backlog.\<close>

definition accept_put :: "kobj \<Rightarrow> listen_endpoint \<Rightarrow> listen_endpoint" where
  "accept_put o' e = e\<lparr>accept_q := (accept_q e)[(accept_head e + accept_count e) mod ENDPOINT_ACCEPT_MAX := o'],
     accept_count := accept_count e + 1\<rparr>"

definition accept_get :: "listen_endpoint \<Rightarrow> kobj \<times> listen_endpoint" where
  "accept_get e = (accept_q e ! accept_head e,
     e\<lparr>accept_head := (accept_head e + 1) mod ENDPOINT_ACCEPT_MAX, accept_count := accept_count e - 1\<rparr>)"

definition release_end_obj :: "kobj \<Rightarrow> ipc \<Rightarrow> ipc" where
  "release_end_obj o' s = (case o' of ChanEndObj c side \<Rightarrow> channel_release_raw_end c side s | _ \<Rightarrow> s)"

definition endpoint_accept :: "tid \<Rightarrow> bool \<Rightarrow> nat \<Rightarrow> int \<Rightarrow> ipc \<Rightarrow> nat res outcome \<times> ipc" where
  "endpoint_accept t cancelled caller listen_handle s =
     (case obj_handle_resolve s caller listen_handle HANDLE_KIND_ENDPOINT of
        EndpointObj i \<Rightarrow>
          let e = epts s ! i in
          if accept_count e > 0 then
            (let (en, e1) = accept_get e; s1 = upd_ept i (\<lambda>_. e1) s in
             case obj_handle_alloc caller HANDLE_KIND_CHANNEL en s1 of
               (Inl err, s2) \<Rightarrow> (Done (Inl err), release_end_obj en s2)
             | (Inr ch, s2) \<Rightarrow> (Done (Inr ch), s2))
          else if ep_unlinked e then (Done (Inl EINVAL), s)
          else if cancelled then (Done (Inl ECANCELED), s)
          else (Blocked, upd_ept i (\<lambda>e. e\<lparr>accept_wait := wait_queue_block t (accept_wait e)\<rparr>) s)
      | _ \<Rightarrow> (Done (Inl EINVAL), s))"

definition endpoint_teardown :: "(string \<Rightarrow> vnode res) \<Rightarrow> nat \<Rightarrow> ipc \<Rightarrow> ipc" where
  "endpoint_teardown vfs i s =
     (let s1 = upd_ept i (\<lambda>e. e\<lparr>ep_unlinked := True\<rparr>) s;
          s2 = (case split_parent (ep_path (epts s ! i)) of
                  Inl _ \<Rightarrow> s1
                | Inr (parent_path, leaf) \<Rightarrow>
                    (case vfs parent_path of
                       Inl _ \<Rightarrow> s1
                     | Inr parent \<Rightarrow>
                         if vn_epfs parent then
                           (case epfs_unlink parent leaf (epfs_nodes s1) of
                              Inl _ \<Rightarrow> s1 | Inr ns \<Rightarrow> s1\<lparr>epfs_nodes := ns\<rparr>)
                         else s1));
          (drain, e3) = drain_queue (\<lambda>e. accept_count e = 0) accept_get
                          (accept_count (epts s2 ! i)) (epts s2 ! i);
          s3 = upd_ept i (\<lambda>_. e3\<lparr>accept_wait := fst (wait_queue_wake_all (accept_wait e3))\<rparr>) s2;
          s4 = fold release_end_obj drain s3
      in (upd_ept i (\<lambda>e. e\<lparr>ep_allocated := False\<rparr>) s4)\<lparr>endpoint_live := endpoint_live s4 - 1\<rparr>)"

definition endpoint_release_for_handle ::
    "(string \<Rightarrow> vnode res) \<Rightarrow> nat \<Rightarrow> nat \<Rightarrow> ipc \<Rightarrow> ipc" where
  "endpoint_release_for_handle vfs owner handle s =
     (case oh_obj (slot s owner handle) of EndpointObj i \<Rightarrow> endpoint_teardown vfs i s | _ \<Rightarrow> s)"

section \<open>Releasing handles\<close>

definition upd_pipe :: "nat \<Rightarrow> (pipe \<Rightarrow> pipe) \<Rightarrow> ipc \<Rightarrow> ipc" where
  "upd_pipe i f s = s\<lparr>g_pipes := (g_pipes s)[i := f (g_pipes s ! i)]\<rparr>"

definition upd_pipe_end :: "nat \<Rightarrow> (pipe_end \<Rightarrow> pipe_end) \<Rightarrow> ipc \<Rightarrow> ipc" where
  "upd_pipe_end i f s = s\<lparr>g_pipe_ends := (g_pipe_ends s)[i := f (g_pipe_ends s ! i)]\<rparr>"

definition pipe_release_for_handle :: "kobj \<Rightarrow> ipc \<Rightarrow> ipc" where
  "pipe_release_for_handle o' s =
     (case o' of
        PipeEndObj i \<Rightarrow>
          let e = g_pipe_ends s ! i in
          if \<not> pe_used e then s
          else upd_pipe_end i (\<lambda>e. e\<lparr>pe_used := False\<rparr>) (upd_pipe (pe_pipe e) (pipe_unref_locked (pe_side e)) s)
      | _ \<Rightarrow> s)"

definition obj_handle_free :: "(string \<Rightarrow> vnode res) \<Rightarrow> nat \<Rightarrow> int \<Rightarrow> ipc \<Rightarrow> ipc" where
  "obj_handle_free vfs owner handle s =
     (if handle < 0 \<or> handle \<ge> int OBJ_HANDLE_MAX then s
      else
        let h = slot s owner (nat handle) in
        if \<not> oh_used h then s
        else
          set_slot owner (nat handle) obj_handle_clear
            (case oh_kind h of
               HANDLE_KIND_SURFACE \<Rightarrow> surface_release_for_handle owner (nat handle) s
             | HANDLE_KIND_CHANNEL \<Rightarrow> channel_release_for_handle owner (nat handle) s
             | HANDLE_KIND_ENDPOINT \<Rightarrow> endpoint_release_for_handle vfs owner (nat handle) s
             | HANDLE_KIND_PIPE \<Rightarrow> pipe_release_for_handle (oh_obj h) s
             | HANDLE_KIND_NONE \<Rightarrow> s))"

definition obj_handles_release_all :: "(string \<Rightarrow> vnode res) \<Rightarrow> nat \<Rightarrow> ipc \<Rightarrow> ipc" where
  "obj_handles_release_all vfs owner s =
     fold (\<lambda>i s. if oh_used (slot s owner i) then obj_handle_free vfs owner (int i) s else s)
       [0..<OBJ_HANDLE_MAX] s"

definition surface_destroy :: "(string \<Rightarrow> vnode res) \<Rightarrow> nat \<Rightarrow> int \<Rightarrow> ipc \<Rightarrow> unit res \<times> ipc" where
  "surface_destroy vfs caller handle s =
     (if handle < 0 \<or> handle \<ge> int OBJ_HANDLE_MAX then (Inl EINVAL, s)
      else if \<not> oh_used (slot s caller (nat handle)) \<or> oh_kind (slot s caller (nat handle)) \<noteq> HANDLE_KIND_SURFACE
      then (Inl EINVAL, s)
      else (Inr (), obj_handle_free vfs caller handle s))"

definition channel_close :: "(string \<Rightarrow> vnode res) \<Rightarrow> nat \<Rightarrow> int \<Rightarrow> ipc \<Rightarrow> unit res \<times> ipc" where
  "channel_close vfs caller handle s =
     (if handle < 0 \<or> handle \<ge> int OBJ_HANDLE_MAX then (Inl EINVAL, s)
      else if \<not> oh_used (slot s caller (nat handle)) \<or> oh_kind (slot s caller (nat handle)) \<noteq> HANDLE_KIND_CHANNEL
      then (Inl EINVAL, s)
      else (Inr (), obj_handle_free vfs caller handle s))"

text \<open>
  \<open>resolve\<close> is the resolution of the whole path.  The owner is re-checked after the client's
  handle is installed, as in the code, where other operations may run in between.
\<close>

definition endpoint_alive :: "ipc \<Rightarrow> nat \<Rightarrow> bool" where
  "endpoint_alive s i \<longleftrightarrow> \<not> ep_unlinked (epts s ! i) \<and> pids s ! ep_owner (epts s ! i) = ep_owner_pid (epts s ! i)"

definition endpoint_connect ::
    "(string \<Rightarrow> vnode res) \<Rightarrow> (string \<Rightarrow> vnode res) \<Rightarrow> bool \<Rightarrow> nat \<Rightarrow> string \<Rightarrow> ipc \<Rightarrow> nat res \<times> ipc" where
  "endpoint_connect vfs resolve mem caller path s =
     (case resolve path of
        Inl e \<Rightarrow> (Inl e, s)
      | Inr vn \<Rightarrow>
          if vn_type vn \<noteq> VFS_DT_ENDPOINT then (Inl EINVAL, s)
          else if \<not> vn_epfs vn then (Inl ENOSYS, s)
          else case epfs_get_endpoint (epfs_nodes s) vn of
            None \<Rightarrow> (Inl ENOENT, s)
          | Some i \<Rightarrow>
              if \<not> endpoint_alive s i then (Inl ECONNREFUSED, s)
              else case channel_create_raw mem s of
                (None, s1) \<Rightarrow> (Inl ENOMEM, s1)
              | (Some c, s1) \<Rightarrow>
                  (case obj_handle_alloc caller HANDLE_KIND_CHANNEL (ChanEndObj c 0) (channel_ref_get c s1) of
                     (Inl e, s2) \<Rightarrow> (Inl e, channel_release_raw_end c 0 s2)
                   | (Inr ch, s2) \<Rightarrow>
                       if \<not> endpoint_alive s2 i then (Inl ECONNREFUSED, obj_handle_free vfs caller (int ch) s2)
                       else if accept_count (epts s2 ! i) \<ge> ENDPOINT_ACCEPT_MAX then
                         (Inl EAGAIN, obj_handle_free vfs caller (int ch) s2)
                       else
                         (Inr ch,
                          upd_ept i (\<lambda>e. (accept_put (ChanEndObj c 1) e)
                                       \<lparr>accept_wait := fst (wait_queue_wake_one (accept_wait e))\<rparr>)
                            (channel_ref_get c s2))))"

definition pipe_create :: "(string \<Rightarrow> vnode res) \<Rightarrow> nat \<Rightarrow> ipc \<Rightarrow> (nat \<times> nat) res \<times> ipc" where
  "pipe_create vfs proc s =
     (case first_index (\<lambda>p. \<not> pipe_used p) (g_pipes s) of
        None \<Rightarrow> (Inl ENFILE, s)
      | Some k \<Rightarrow>
          (case first_index (\<lambda>e. \<not> pe_used e) (g_pipe_ends s) of
             None \<Rightarrow> (Inl ENFILE, s)
           | Some re \<Rightarrow>
               (case first_index (\<lambda>e. \<not> pe_used e) (drop (Suc re) (g_pipe_ends s)) of
                  None \<Rightarrow> (Inl ENFILE, s)
                | Some d \<Rightarrow>
                    let we = Suc re + d;
                        s1 = s\<lparr>g_pipes := (g_pipes s)[k := pipe_fresh (g_next_pipe_id s)],
                               g_next_pipe_id := g_next_pipe_id s + 1,
                               g_pipe_ends := (g_pipe_ends s)
                                 [re := \<lparr>pe_pipe = k, pe_side = 0, pe_used = True\<rparr>,
                                  we := \<lparr>pe_pipe = k, pe_side = 1, pe_used = True\<rparr>]\<rparr> in
                    case obj_handle_alloc proc HANDLE_KIND_PIPE (PipeEndObj re) s1 of
                      (Inl e, s2) \<Rightarrow>
                        (Inl e, upd_pipe_end we (\<lambda>e. e\<lparr>pe_used := False\<rparr>)
                                  (upd_pipe_end re (\<lambda>e. e\<lparr>pe_used := False\<rparr>)
                                    (upd_pipe k (\<lambda>p. pipe_unref_locked 1 (pipe_unref_locked 0 p)) s2)))
                    | (Inr rh, s2) \<Rightarrow>
                        (case obj_handle_alloc proc HANDLE_KIND_PIPE (PipeEndObj we) s2 of
                           (Inl e, s3) \<Rightarrow>
                             (Inl e, upd_pipe_end we (\<lambda>e. e\<lparr>pe_used := False\<rparr>)
                                       (upd_pipe k (pipe_unref_locked 1) (obj_handle_free vfs proc (int rh) s3)))
                         | (Inr wh, s3) \<Rightarrow> (Inr (rh, wh), s3)))))"

end
