(* ===== verification/Ipc_Refs.thy ===== *)
theory Ipc_Refs
  imports Endpoint
begin

text \<open>
  Reference accounting of the communication layer.  The theory states the invariant that every
  object's count equals the references to it, that an object is freed exactly when its last
  reference goes, and that nothing refers to freed memory; and shows that the operations on
  handles, surfaces and channels keep it.  The invariant carries a multiset of references held
  by running code, so an operation is followed step by step: taking a slot, a queued message
  or a count hands a reference over, and the next step consumes it.
\<close>

section \<open>The invariant\<close>

text \<open>
  \<open>ipc_inv vfs X s\<close>: the reference accounting of the state \<open>s\<close> is exact when the running code
  holds, in addition to the state's own references, those of the multiset \<open>X\<close> in local
  variables.  Each part is stated over \<open>R\<close>, all references there are.
\<close>

fun kind_of :: "kobj \<Rightarrow> handle_kind" where
  "kind_of NullObj = HANDLE_KIND_NONE"
| "kind_of (SurfaceObj i) = HANDLE_KIND_SURFACE"
| "kind_of (ChanEndObj c side) = HANDLE_KIND_CHANNEL"
| "kind_of (EndpointObj e) = HANDLE_KIND_ENDPOINT"
| "kind_of (PipeEndObj p) = HANDLE_KIND_PIPE"

definition slot_ok :: "obj_handle \<Rightarrow> bool" where
  "slot_ok h \<longleftrightarrow> (oh_used h \<longrightarrow> oh_kind h = kind_of (oh_obj h) \<and> oh_obj h \<noteq> NullObj)"

definition tables_ok :: "obj_handle list list \<Rightarrow> bool" where
  "tables_ok ts \<longleftrightarrow> (\<forall>t\<in>set ts. length t = OBJ_HANDLE_MAX \<and> (\<forall>h\<in>set t. slot_ok h))"

definition surf_ok1 :: "nat \<Rightarrow> surface \<Rightarrow> bool" where
  "surf_ok1 n f \<longleftrightarrow> (if sf_allocated f then sf_refcount f = int n \<and> 0 < n else n = 0)"

definition surf_ok :: "kobj multiset \<Rightarrow> surface list \<Rightarrow> int \<Rightarrow> bool" where
  "surf_ok R fs live \<longleftrightarrow>
     (\<forall>i. SurfaceObj i \<in># R \<longrightarrow> i < length fs) \<and>
     (\<forall>i<length fs. surf_ok1 (count R (SurfaceObj i)) (fs ! i)) \<and>
     live = int (length (filter sf_allocated fs))"

definition msg_ok :: "chan_msg \<Rightarrow> bool" where
  "msg_ok m \<longleftrightarrow> (\<forall>r\<in>set (msg_handles m). hr_kind r = HANDLE_KIND_SURFACE \<and> (\<exists>i. hr_obj r = SurfaceObj i))"

definition end_ok :: "nat \<Rightarrow> channel_end \<Rightarrow> bool" where
  "end_ok n e \<longleftrightarrow> inbox_count e = length (inbox e) \<and> length (inbox e) \<le> CHAN_QUEUE_MAX \<and>
     (\<forall>m\<in>set (inbox e). msg_ok m) \<and> (n = 0 \<longrightarrow> inbox e = [])"

definition chan_ok1 :: "nat \<Rightarrow> nat \<Rightarrow> channel \<Rightarrow> bool" where
  "chan_ok1 n0 n1 x \<longleftrightarrow> n0 \<le> 1 \<and> n1 \<le> 1 \<and>
     (if ch_allocated x
      then ch_refcount x = int (n0 + n1) \<and> 0 < n0 + n1 \<and> (peer_closed1 x \<longleftrightarrow> n0 = 0) \<and> (peer_closed0 x \<longleftrightarrow> n1 = 0)
      else n0 = 0 \<and> n1 = 0) \<and>
     end_ok n0 (end0 x) \<and> end_ok n1 (end1 x)"

definition chan_ok :: "kobj multiset \<Rightarrow> channel list \<Rightarrow> int \<Rightarrow> bool" where
  "chan_ok R cs live \<longleftrightarrow>
     (\<forall>c side. ChanEndObj c side \<in># R \<longrightarrow> c < length cs \<and> side < 2) \<and>
     (\<forall>c<length cs. chan_ok1 (count R (ChanEndObj c 0)) (count R (ChanEndObj c 1)) (cs ! c)) \<and>
     live = int (length (filter ch_allocated cs))"

definition accept_wf :: "listen_endpoint \<Rightarrow> bool" where
  "accept_wf e \<longleftrightarrow> length (accept_q e) = ENDPOINT_ACCEPT_MAX \<and> accept_head e < ENDPOINT_ACCEPT_MAX \<and>
     accept_count e \<le> ENDPOINT_ACCEPT_MAX"

definition ept_ok1 :: "nat \<Rightarrow> listen_endpoint \<Rightarrow> bool" where
  "ept_ok1 n e \<longleftrightarrow> n = (if ep_allocated e then 1 else 0) \<and> accept_wf e \<and>
     (\<not> ep_allocated e \<longrightarrow> backlog e = []) \<and> (\<forall>x\<in>set (backlog e). \<exists>c. x = ChanEndObj c 1)"

definition ept_ok :: "kobj multiset \<Rightarrow> listen_endpoint list \<Rightarrow> int \<Rightarrow> bool" where
  "ept_ok R es live \<longleftrightarrow>
     (\<forall>i. EndpointObj i \<in># R \<longrightarrow> i < length es) \<and>
     (\<forall>i<length es. ept_ok1 (count R (EndpointObj i)) (es ! i)) \<and>
     live = int (length (filter ep_allocated es))"

definition pend_ok :: "kobj multiset \<Rightarrow> pipe_end list \<Rightarrow> bool" where
  "pend_ok R es \<longleftrightarrow>
     (\<forall>i. PipeEndObj i \<in># R \<longrightarrow> i < length es) \<and>
     (\<forall>i<length es. count R (PipeEndObj i) = (if pe_used (es ! i) then 1 else 0))"

text \<open>A published name belongs to an allocated endpoint that was registered under it.\<close>

definition node_ok :: "(string \<Rightarrow> vnode res) \<Rightarrow> listen_endpoint list \<Rightarrow> epfs_node \<Rightarrow> bool" where
  "node_ok vfs es n \<longleftrightarrow> (en_used n \<and> en_type n = EPFS_ENDPOINT \<longrightarrow>
     en_endpoint n < length es \<and> ep_allocated (es ! en_endpoint n) \<and>
     (\<exists>pp parent. split_parent (ep_path (es ! en_endpoint n)) = Inr (pp, en_name n) \<and>
        vfs pp = Inr parent \<and> vn_epfs parent \<and> vn_type parent = VFS_DT_DIR \<and>
        vn_ino parent = en_parent_ino n \<and> en_name n \<noteq> [] \<and> length (en_name n) < EPFS_NAME_MAX))"

definition epfs_ok :: "(string \<Rightarrow> vnode res) \<Rightarrow> epfs_node list \<Rightarrow> listen_endpoint list \<Rightarrow> bool" where
  "epfs_ok vfs nodes es \<longleftrightarrow> length nodes = 64 \<and> (\<forall>n\<in>set nodes. node_ok vfs es n) \<and>
     (\<forall>i<length nodes. \<forall>j<length nodes. en_used (nodes ! i) \<and> en_used (nodes ! j) \<and>
        en_parent_ino (nodes ! i) = en_parent_ino (nodes ! j) \<and> en_name (nodes ! i) = en_name (nodes ! j) \<longrightarrow> i = j)"

definition ipc_inv :: "(string \<Rightarrow> vnode res) \<Rightarrow> kobj multiset \<Rightarrow> ipc \<Rightarrow> bool" where
  "ipc_inv vfs X s \<longleftrightarrow> tables_ok (tables s) \<and>
     surf_ok (refs s + X) (surfaces s) (surface_live s) \<and>
     chan_ok (refs s + X) (chans s) (chan_live s) \<and>
     ept_ok (refs s + X) (epts s) (endpoint_live s) \<and>
     pend_ok (refs s + X) (g_pipe_ends s) \<and>
     epfs_ok vfs (epfs_nodes s) (epts s)"

section \<open>Moving references\<close>

text \<open>A step that only moves references between the state and the code keeps the accounting.\<close>

lemma ipc_inv_move:
  assumes "ipc_inv vfs X s" and "refs t + Y = refs s + X" and "tables_ok (tables t)"
    and "surfaces t = surfaces s" "surface_live t = surface_live s"
    and "chans t = chans s" "chan_live t = chan_live s"
    and "epts t = epts s" "endpoint_live t = endpoint_live s"
    and "g_pipe_ends t = g_pipe_ends s" "epfs_nodes t = epfs_nodes s"
  shows "ipc_inv vfs Y t"
  using assms by (simp add: ipc_inv_def)

lemma set_slot_fields [simp]:
  "surfaces (set_slot p h x s) = surfaces s" "surface_live (set_slot p h x s) = surface_live s"
  "surface_seq (set_slot p h x s) = surface_seq s"
  "chans (set_slot p h x s) = chans s" "chan_live (set_slot p h x s) = chan_live s"
  "epts (set_slot p h x s) = epts s" "endpoint_live (set_slot p h x s) = endpoint_live s"
  "g_pipe_ends (set_slot p h x s) = g_pipe_ends s" "g_pipes (set_slot p h x s) = g_pipes s"
  "epfs_nodes (set_slot p h x s) = epfs_nodes s" "pids (set_slot p h x s) = pids s"
  "tables (set_slot p h x s) = (tables s)[p := (tables s ! p)[h := x]]"
  by (simp_all add: set_slot_def)

lemma tables_okD:
  assumes "tables_ok (tables s)" and "p < length (tables s)"
  shows "length (tables s ! p) = OBJ_HANDLE_MAX"
    and "h < OBJ_HANDLE_MAX \<Longrightarrow> slot_ok (slot s p h)"
proof -
  have "tables s ! p \<in> set (tables s)" using assms(2) by simp
  with assms(1) have t: "length (tables s ! p) = OBJ_HANDLE_MAX" "\<forall>y\<in>set (tables s ! p). slot_ok y"
    by (auto simp: tables_ok_def)
  show "length (tables s ! p) = OBJ_HANDLE_MAX" by (rule t(1))
  show "slot_ok (slot s p h)" if "h < OBJ_HANDLE_MAX" using t that by (simp add: slot_def)
qed

lemma tables_ok_set_slot:
  assumes "tables_ok (tables s)" and "p < length (tables s)" and "slot_ok x"
  shows "tables_ok (tables (set_slot p h x s))"
proof -
  have "length ((tables s ! p)[h := x]) = OBJ_HANDLE_MAX \<and> (\<forall>y\<in>set ((tables s ! p)[h := x]). slot_ok y)"
  proof
    have "tables s ! p \<in> set (tables s)" using assms(2) by simp
    then have t: "length (tables s ! p) = OBJ_HANDLE_MAX" "\<forall>y\<in>set (tables s ! p). slot_ok y"
      using assms(1) by (auto simp: tables_ok_def)
    then show "length ((tables s ! p)[h := x]) = OBJ_HANDLE_MAX" by simp
    show "\<forall>y\<in>set ((tables s ! p)[h := x]). slot_ok y"
      using t(2) assms(3) set_update_subset_insert [of "tables s ! p" h x] by auto
  qed
  with assms show ?thesis
    by (auto simp: tables_ok_def dest: set_update_subset_insert [THEN subsetD])
qed

lemma ipc_inv_set_slot:
  assumes inv: "ipc_inv vfs X s" and "p < length (tables s)" "h < OBJ_HANDLE_MAX" and "slot_ok x"
    and bal: "slot_refs x + Y = slot_refs (slot s p h) + X"
  shows "ipc_inv vfs Y (set_slot p h x s)"
proof -
  have tab: "tables_ok (tables s)" using inv by (simp add: ipc_inv_def)
  have "refs (set_slot p h x s) + slot_refs (slot s p h) = refs s + slot_refs x"
    using refs_set_slot [OF assms(2)] tables_okD(1) [OF tab assms(2)] assms(3) by simp
  then have "refs (set_slot p h x s) + Y = refs s + X" using bal by (rule cancel_exchange)
  then show ?thesis
    by (rule ipc_inv_move [OF inv]) (simp_all only: set_slot_fields tables_ok_set_slot [OF tab assms(2,4), simplified])
qed

lemma obj_handle_alloc_cases:
  assumes "ipc_inv vfs X s" and "owner < length (tables s)" and "obj_handle_alloc owner k obj s = (r, t)"
  obtains (full) "r = Inl EMFILE" "t = s"
  | (slot) h where "r = Inr h" "h < OBJ_HANDLE_MAX" "\<not> oh_used (slot s owner h)"
      "t = set_slot owner h \<lparr>oh_kind = k, oh_obj = obj, map_base = 0, map_bytes = 0, oh_used = True\<rparr> s"
proof (cases "first_index (\<lambda>h. \<not> oh_used h) (tables s ! owner)")
  case None
  then show ?thesis using assms(3) full by (simp add: obj_handle_alloc_def)
next
  case (Some h)
  then have "h < length (tables s ! owner)" "\<not> oh_used (slot s owner h)"
    by (simp_all add: first_index_Some slot_def)
  moreover have "length (tables s ! owner) = OBJ_HANDLE_MAX"
    using assms(1,2) tables_okD(1) [of s owner] by (simp add: ipc_inv_def)
  ultimately show ?thesis using assms(3) slot [of h] Some by (simp add: obj_handle_alloc_def)
qed

text \<open>Installing a handle takes the reference over from the code.\<close>

lemma obj_handle_alloc_inv:
  assumes "ipc_inv vfs (add_mset obj X) s" and "owner < length (tables s)"
    and "obj_handle_alloc owner (kind_of obj) obj s = (Inr h, t)" and "obj \<noteq> NullObj"
  shows "ipc_inv vfs X t"
  using assms(1-3)
proof (cases rule: obj_handle_alloc_cases)
  case (slot h')
  then show ?thesis
    using ipc_inv_set_slot [OF assms(1,2) slot(2)] assms(4) by (simp add: slot_ok_def slot_refs_def)
qed simp

text \<open>Giving up a slot hands the reference to the code.\<close>

lemma ipc_inv_clear_slot:
  assumes "ipc_inv vfs X s" and "p < length (tables s)" "h < OBJ_HANDLE_MAX"
    and "oh_used (slot s p h)" "\<not> oh_used x"
  shows "ipc_inv vfs (add_mset (oh_obj (slot s p h)) X) (set_slot p h x s)"
  using ipc_inv_set_slot [OF assms(1-3)] assms(4,5) by (simp add: slot_ok_def slot_refs_def)

text \<open>Changing the mapping record of a slot changes no reference.\<close>

lemma ipc_inv_map_slot:
  assumes "ipc_inv vfs X s" and "p < length (tables s)" "h < OBJ_HANDLE_MAX"
  shows "ipc_inv vfs X (set_slot p h ((slot s p h)\<lparr>map_base := a, map_bytes := b\<rparr>) s)"
proof -
  have "slot_ok (slot s p h)" using assms tables_okD(2) by (simp add: ipc_inv_def)
  then show ?thesis
    using ipc_inv_set_slot [OF assms, of "(slot s p h)\<lparr>map_base := a, map_bytes := b\<rparr>" X]
    by (simp add: slot_ok_def slot_refs_def)
qed

lemma resolve_cases:
  assumes "obj_handle_resolve s p handle k = obj" and "obj \<noteq> NullObj"
  shows "0 \<le> handle" "nat handle < OBJ_HANDLE_MAX" "oh_used (slot s p (nat handle))"
    "oh_kind (slot s p (nat handle)) = k" "oh_obj (slot s p (nat handle)) = obj"
  using assms by (auto simp: obj_handle_resolve_def Let_def split: if_splits)

text \<open>The object of a used slot is referenced.\<close>

lemma slot_in_refs:
  assumes "tables_ok (tables s)" "p < length (tables s)" "h < OBJ_HANDLE_MAX" "oh_used (slot s p h)"
  shows "oh_obj (slot s p h) \<in># refs s"
proof -
  have "refs (set_slot p h obj_handle_clear s) + slot_refs (slot s p h) = refs s + slot_refs obj_handle_clear"
    using refs_set_slot [OF assms(2)] tables_okD(1) [OF assms(1,2)] assms(3) by simp
  then have "refs s = add_mset (oh_obj (slot s p h)) (refs (set_slot p h obj_handle_clear s))"
    using assms(4) by (simp add: slot_refs_def obj_handle_clear_def)
  then show ?thesis by simp
qed

section \<open>One object at a time\<close>

lemma surf_ok_other [simp]:
  "surf_ok (add_mset (ChanEndObj c d) R) fs l = surf_ok R fs l"
  "surf_ok (add_mset (EndpointObj e) R) fs l = surf_ok R fs l"
  "surf_ok (add_mset (PipeEndObj k) R) fs l = surf_ok R fs l"
  by (simp_all add: surf_ok_def)

lemma chan_ok_other [simp]:
  "chan_ok (add_mset (SurfaceObj i) R) cs l = chan_ok R cs l"
  "chan_ok (add_mset (EndpointObj e) R) cs l = chan_ok R cs l"
  "chan_ok (add_mset (PipeEndObj k) R) cs l = chan_ok R cs l"
  by (simp_all add: chan_ok_def)

lemma ept_ok_other [simp]:
  "ept_ok (add_mset (SurfaceObj i) R) es l = ept_ok R es l"
  "ept_ok (add_mset (ChanEndObj c d) R) es l = ept_ok R es l"
  "ept_ok (add_mset (PipeEndObj k) R) es l = ept_ok R es l"
  by (simp_all add: ept_ok_def)

lemma pend_ok_other [simp]:
  "pend_ok (add_mset (SurfaceObj i) R) es = pend_ok R es"
  "pend_ok (add_mset (ChanEndObj c d) R) es = pend_ok R es"
  "pend_ok (add_mset (EndpointObj e) R) es = pend_ok R es"
  by (simp_all add: pend_ok_def)

lemma surf_ok_update:
  assumes ok: "surf_ok R fs live" and i: "i < length fs"
    and same: "\<And>j. j \<noteq> i \<Longrightarrow> count R' (SurfaceObj j) = count R (SurfaceObj j)"
    and f: "surf_ok1 (count R' (SurfaceObj i)) f"
    and live: "live' + of_bool (sf_allocated (fs ! i)) = live + of_bool (sf_allocated f)"
  shows "surf_ok R' (fs[i := f]) live'"
  unfolding surf_ok_def
proof (intro conjI allI impI)
  fix j
  show "j < length (fs[i := f])" if "SurfaceObj j \<in># R'"
  proof (cases "j = i")
    case False
    then have "SurfaceObj j \<in># R" using same [OF False] that by (metis count_eq_zero_iff)
    then show ?thesis using ok by (simp add: surf_ok_def)
  qed (use i in simp)
  show "surf_ok1 (count R' (SurfaceObj j)) (fs[i := f] ! j)" if "j < length (fs[i := f])"
    using that ok f same [of j] by (cases "j = i") (simp_all add: surf_ok_def)
next
  show "live' = int (length (filter sf_allocated (fs[i := f])))"
    using length_filter_update [OF i, of sf_allocated f] ok live by (simp add: surf_ok_def)
qed

lemma chan_ok_update:
  assumes ok: "chan_ok R cs live" and c: "c < length cs"
    and same: "\<And>j d. j \<noteq> c \<Longrightarrow> count R' (ChanEndObj j d) = count R (ChanEndObj j d)"
    and x: "chan_ok1 (count R' (ChanEndObj c 0)) (count R' (ChanEndObj c 1)) x"
    and sides: "\<And>d. ChanEndObj c d \<in># R' \<Longrightarrow> d < 2"
    and live: "live' + of_bool (ch_allocated (cs ! c)) = live + of_bool (ch_allocated x)"
  shows "chan_ok R' (cs[c := x]) live'"
  unfolding chan_ok_def
proof (intro conjI allI impI)
  fix j d
  show "j < length (cs[c := x])" and "d < 2" if "ChanEndObj j d \<in># R'"
  proof -
    have "j < length cs \<and> d < 2"
    proof (cases "j = c")
      case False
      then have "ChanEndObj j d \<in># R" using same [OF False] that by (metis count_eq_zero_iff)
      then show ?thesis using ok by (simp add: chan_ok_def)
    qed (use c sides that in simp)
    then show "j < length (cs[c := x])" and "d < 2" by simp_all
  qed
  show "chan_ok1 (count R' (ChanEndObj j 0)) (count R' (ChanEndObj j 1)) (cs[c := x] ! j)"
    if "j < length (cs[c := x])"
    using that ok x same [of j] by (cases "j = c") (simp_all add: chan_ok_def)
next
  show "live' = int (length (filter ch_allocated (cs[c := x])))"
    using length_filter_update [OF c, of ch_allocated x] ok live by (simp add: chan_ok_def)
qed

lemma ept_ok_update:
  assumes ok: "ept_ok R es live" and e: "e < length es"
    and same: "\<And>j. j \<noteq> e \<Longrightarrow> count R' (EndpointObj j) = count R (EndpointObj j)"
    and x: "ept_ok1 (count R' (EndpointObj e)) x"
    and live: "live' + of_bool (ep_allocated (es ! e)) = live + of_bool (ep_allocated x)"
  shows "ept_ok R' (es[e := x]) live'"
  unfolding ept_ok_def
proof (intro conjI allI impI)
  fix j
  show "j < length (es[e := x])" if "EndpointObj j \<in># R'"
  proof (cases "j = e")
    case False
    then have "EndpointObj j \<in># R" using same [OF False] that by (metis count_eq_zero_iff)
    then show ?thesis using ok by (simp add: ept_ok_def)
  qed (use e in simp)
  show "ept_ok1 (count R' (EndpointObj j)) (es[e := x] ! j)" if "j < length (es[e := x])"
    using that ok x same [of j] by (cases "j = e") (simp_all add: ept_ok_def)
next
  show "live' = int (length (filter ep_allocated (es[e := x])))"
    using length_filter_update [OF e, of ep_allocated x] ok live by (simp add: ept_ok_def)
qed

lemma pend_ok_update:
  assumes ok: "pend_ok R es" and e: "e < length es"
    and same: "\<And>j. j \<noteq> e \<Longrightarrow> count R' (PipeEndObj j) = count R (PipeEndObj j)"
    and x: "count R' (PipeEndObj e) = (if pe_used x then 1 else 0)"
  shows "pend_ok R' (es[e := x])"
  unfolding pend_ok_def
proof (intro conjI allI impI)
  fix j
  show "j < length (es[e := x])" if "PipeEndObj j \<in># R'"
  proof (cases "j = e")
    case False
    then have "PipeEndObj j \<in># R" using same [OF False] that by (metis count_eq_zero_iff)
    then show ?thesis using ok by (simp add: pend_ok_def)
  qed (use e in simp)
  show "count R' (PipeEndObj j) = (if pe_used (es[e := x] ! j) then 1 else 0)" if "j < length (es[e := x])"
    using that ok x same [of j] by (cases "j = e") (simp_all add: pend_ok_def)
qed

section \<open>Surfaces\<close>

lemma surface_unref_eq:
  assumes "i < length (surfaces s)"
  defines "f \<equiv> surfaces s ! i"
  shows "surface_unref i s =
    s\<lparr>surfaces := (surfaces s)[i := f\<lparr>sf_refcount := sf_refcount f - 1,
        sf_allocated := (1 < sf_refcount f \<and> sf_allocated f)\<rparr>],
      surface_live := surface_live s - of_bool (sf_refcount f \<le> 1)\<rparr>"
proof (cases "sf_refcount f \<le> 1")
  case True
  then show ?thesis using assms
    by (simp add: surface_unref_def surface_free_object_def upd_surface_def Let_def)
next
  case False
  have "f\<lparr>sf_refcount := k, sf_allocated := sf_allocated f\<rparr> = f\<lparr>sf_refcount := k\<rparr>" for k by simp
  with False assms show ?thesis
    by (simp add: surface_unref_def upd_surface_def Let_def)
qed

lemma surf_ok_unref:
  assumes ok: "surf_ok (add_mset (SurfaceObj i) R) fs live"
  shows "i < length fs" and
    "surf_ok R (fs[i := (fs ! i)\<lparr>sf_refcount := sf_refcount (fs ! i) - 1,
       sf_allocated := (1 < sf_refcount (fs ! i) \<and> sf_allocated (fs ! i))\<rparr>])
       (live - of_bool (sf_refcount (fs ! i) \<le> 1))"
proof -
  show i: "i < length fs" using ok by (simp add: surf_ok_def)
  then have f: "sf_allocated (fs ! i)" "sf_refcount (fs ! i) = 1 + int (count R (SurfaceObj i))"
    using ok by (auto simp: surf_ok_def surf_ok1_def split: if_splits)
  show "surf_ok R (fs[i := (fs ! i)\<lparr>sf_refcount := sf_refcount (fs ! i) - 1,
       sf_allocated := (1 < sf_refcount (fs ! i) \<and> sf_allocated (fs ! i))\<rparr>])
       (live - of_bool (sf_refcount (fs ! i) \<le> 1))"
    by (rule surf_ok_update [OF ok i]) (use f in \<open>simp_all add: surf_ok1_def not_in_iff\<close>)
qed

lemma surf_ok_ref:
  assumes ok: "surf_ok R fs live" and mem: "SurfaceObj i \<in># R"
  shows "i < length fs" and
    "surf_ok (add_mset (SurfaceObj i) R) (fs[i := (fs ! i)\<lparr>sf_refcount := sf_refcount (fs ! i) + 1\<rparr>]) live"
proof -
  show i: "i < length fs" using ok mem by (simp add: surf_ok_def)
  have "count R (SurfaceObj i) \<noteq> 0" using mem by (simp add: count_eq_zero_iff)
  then have f: "sf_allocated (fs ! i)" "sf_refcount (fs ! i) = int (count R (SurfaceObj i))"
    using ok i by (auto simp: surf_ok_def surf_ok1_def split: if_splits)
  show "surf_ok (add_mset (SurfaceObj i) R) (fs[i := (fs ! i)\<lparr>sf_refcount := sf_refcount (fs ! i) + 1\<rparr>]) live"
    by (rule surf_ok_update [OF ok i]) (use f in \<open>simp_all add: surf_ok1_def not_in_iff\<close>)
qed

lemma surface_unref_inv:
  assumes inv: "ipc_inv vfs (add_mset (SurfaceObj i) X) s"
  shows "ipc_inv vfs X (surface_unref i s)"
proof -
  have "surf_ok (add_mset (SurfaceObj i) (refs s + X)) (surfaces s) (surface_live s)"
    using inv by (simp add: ipc_inv_def)
  note u = surf_ok_unref [OF this]
  show ?thesis using inv u(2) by (simp add: surface_unref_eq [OF u(1)] ipc_inv_def)
qed

lemma surface_ref_get_inv:
  assumes inv: "ipc_inv vfs X s" and mem: "SurfaceObj i \<in># refs s + X"
  shows "ipc_inv vfs (add_mset (SurfaceObj i) X) (surface_ref_get i s)"
proof -
  have "surf_ok (refs s + X) (surfaces s) (surface_live s)" using inv by (simp add: ipc_inv_def)
  note u = surf_ok_ref [OF this mem]
  show ?thesis using inv u(2) by (simp add: surface_ref_get_def upd_surface_def ipc_inv_def)
qed

lemma obj_ref_put_inv:
  assumes "ipc_inv vfs (add_mset obj X) s" and "k = HANDLE_KIND_SURFACE" and "obj = SurfaceObj i"
  shows "ipc_inv vfs X (obj_ref_put k obj s)"
  using assms surface_unref_inv by (simp add: obj_ref_put_def surface_ref_put_def)

lemma ipc_inv_add_surface:
  assumes inv: "ipc_inv vfs X s" and f: "sf_allocated f" "sf_refcount f = 1"
  shows "ipc_inv vfs (add_mset (SurfaceObj (length (surfaces s))) X)
    (s\<lparr>surfaces := surfaces s @ [f], surface_live := surface_live s + 1\<rparr>)"
proof -
  let ?R = "refs s + X"
  have ok: "surf_ok ?R (surfaces s) (surface_live s)" using inv by (simp add: ipc_inv_def)
  have "SurfaceObj (length (surfaces s)) \<notin># ?R" using ok by (auto simp: surf_ok_def)
  then have "surf_ok (add_mset (SurfaceObj (length (surfaces s))) ?R) (surfaces s @ [f]) (surface_live s + 1)"
    using ok f by (auto simp: surf_ok_def nth_append surf_ok1_def less_Suc_eq not_in_iff split: if_splits)
  then show ?thesis using inv by (simp add: ipc_inv_def)
qed

lemma ipc_inv_add_dead_surface:
  assumes inv: "ipc_inv vfs X s" and f: "\<not> sf_allocated f"
  shows "ipc_inv vfs X (s\<lparr>surfaces := surfaces s @ [f]\<rparr>)"
proof -
  let ?R = "refs s + X"
  have ok: "surf_ok ?R (surfaces s) (surface_live s)" using inv by (simp add: ipc_inv_def)
  have "SurfaceObj (length (surfaces s)) \<notin># ?R" using ok by (auto simp: surf_ok_def)
  then have "surf_ok ?R (surfaces s @ [f]) (surface_live s)"
    using ok f by (auto simp: surf_ok_def nth_append surf_ok1_def less_Suc_eq not_in_iff split: if_splits)
  then show ?thesis using inv by (simp add: ipc_inv_def)
qed

section \<open>Channels\<close>

lemma ipc_inv_set_chan:
  assumes inv: "ipc_inv vfs X s" and c: "c < length (chans s)"
    and bal: "chan_refs x + Y = chan_refs (chans s ! c) + X"
    and x: "chan_ok1 (count (refs s + X) (ChanEndObj c 0)) (count (refs s + X) (ChanEndObj c 1)) x"
    and al: "ch_allocated x = ch_allocated (chans s ! c)"
  shows "ipc_inv vfs Y (s\<lparr>chans := (chans s)[c := x]\<rparr>)"
proof -
  have R: "refs (s\<lparr>chans := (chans s)[c := x]\<rparr>) + Y = refs s + X"
    using refs_set_chan [OF c] bal by (rule cancel_exchange)
  have ok: "chan_ok (refs s + X) (chans s) (chan_live s)" using inv by (simp add: ipc_inv_def)
  have "chan_ok (refs s + X) ((chans s)[c := x]) (chan_live s)"
    by (rule chan_ok_update [OF ok c]) (use x al ok in \<open>auto simp: chan_ok_def\<close>)
  then show ?thesis using inv by (simp add: ipc_inv_def R)
qed

lemma chan_refs_simps:
  "chan_refs (x\<lparr>end0 := e\<rparr>) + sum_list (map msg_refs (inbox (end0 x))) =
     chan_refs x + sum_list (map msg_refs (inbox e))"
  "chan_refs (x\<lparr>end1 := e\<rparr>) + sum_list (map msg_refs (inbox (end1 x))) =
     chan_refs x + sum_list (map msg_refs (inbox e))"
  by (simp_all add: chan_refs_def ac_simps)

lemma chan_refs_set_end:
  assumes "side < 2"
  shows "chan_refs (set_chan_end side e x) + sum_list (map msg_refs (inbox (chan_end x side))) =
     chan_refs x + sum_list (map msg_refs (inbox e))"
  using assms chan_refs_simps [of e x] by (cases "side = 0") (auto simp: less_2_cases_iff)

definition end_count :: "kobj multiset \<Rightarrow> nat \<Rightarrow> nat \<Rightarrow> nat" where
  "end_count R c side = count R (ChanEndObj c side)"

lemma chan_ok1_end:
  assumes "chan_ok1 (count R (ChanEndObj c 0)) (count R (ChanEndObj c 1)) x" and "side < 2"
  shows "end_ok (end_count R c side) (chan_end x side)"
    and "end_ok (end_count R c side) e \<Longrightarrow>
      chan_ok1 (count R (ChanEndObj c 0)) (count R (ChanEndObj c 1)) (set_chan_end side e x)"
    and "ch_allocated x \<Longrightarrow> peer_closed x (1 - side) \<longleftrightarrow> end_count R c side = 0"
    and "ch_allocated (set_chan_end side e x) = ch_allocated x"
  using assms by (auto simp: chan_ok1_def end_count_def less_2_cases_iff split: if_splits)

text \<open>A change of one end that keeps the accounting.\<close>

lemma ipc_inv_set_end:
  assumes inv: "ipc_inv vfs X s" and c: "c < length (chans s)" and side: "side < 2"
    and e: "end_ok (end_count (refs s + X) c side) e"
    and bal: "sum_list (map msg_refs (inbox e)) + Y =
      sum_list (map msg_refs (inbox (chan_end (chans s ! c) side))) + X"
  shows "ipc_inv vfs Y (upd_chan c (set_chan_end side e) s)"
proof -
  have ok: "chan_ok1 (count (refs s + X) (ChanEndObj c 0)) (count (refs s + X) (ChanEndObj c 1)) (chans s ! c)"
    using inv c by (simp add: ipc_inv_def chan_ok_def)
  note ce = chan_ok1_end [OF ok side]
  have "chan_refs (set_chan_end side e (chans s ! c)) + Y = chan_refs (chans s ! c) + X"
    using chan_refs_set_end [OF side] bal by (rule cancel_exchange)
  then show ?thesis unfolding upd_chan_def
    by (rule ipc_inv_set_chan [OF inv c]) (use ce(2) [OF e] ce(4) in simp_all)
qed

lemma upd_chan_let: "upd_chan c (\<lambda>x. let e = chan_end x side in set_chan_end side (f e) x) s =
  upd_chan c (set_chan_end side (f (chan_end (chans s ! c) side))) s"
  by (simp add: upd_chan_def)

lemma inv_end_ok:
  assumes "ipc_inv vfs X s" and "c < length (chans s)" and "side < 2"
  shows "end_ok (end_count (refs s + X) c side) (chan_end (chans s ! c) side)"
  using assms chan_ok1_end(1) [of "refs s + X" c "chans s ! c" side] by (simp add: ipc_inv_def chan_ok_def)

lemma ipc_inv_end_waits:
  assumes "ipc_inv vfs X s" and "c < length (chans s)" and "side < 2"
  shows "ipc_inv vfs X (upd_chan c (\<lambda>x. let e = chan_end x side in
      set_chan_end side (e\<lparr>send_wait := f (send_wait e)\<rparr>) x) s)"
    and "ipc_inv vfs X (upd_chan c (\<lambda>x. let e = chan_end x side in
      set_chan_end side (e\<lparr>recv_wait := f (recv_wait e)\<rparr>) x) s)"
  unfolding upd_chan_let
  by (rule ipc_inv_set_end [OF assms]; use inv_end_ok [OF assms] in \<open>simp add: end_ok_def\<close>)+

lemma channel_enqueue_inv:
  assumes inv: "ipc_inv vfs (X + msg_refs m) s" and c: "c < length (chans s)" and side: "side < 2"
    and room: "inbox_count (chan_end (chans s ! c) side) < CHAN_QUEUE_MAX"
    and held: "end_count (refs s + (X + msg_refs m)) c side \<noteq> 0" and m: "msg_ok m"
  shows "ipc_inv vfs X (channel_enqueue c side m s)"
  unfolding channel_enqueue_def upd_chan_let
  by (rule ipc_inv_set_end [OF inv c side])
    (use inv_end_ok [OF inv c side] room held m in \<open>auto simp: end_ok_def ac_simps\<close>)

lemma channel_dequeue_inv:
  assumes inv: "ipc_inv vfs X s" and c: "c < length (chans s)" and side: "side < 2"
    and some: "0 < inbox_count (chan_end (chans s ! c) side)"
  defines "m \<equiv> hd (inbox (chan_end (chans s ! c) side))"
  shows "msg_ok m" and "ipc_inv vfs (X + msg_refs m) (channel_dequeue c side s)"
proof -
  let ?e = "chan_end (chans s ! c) side"
  have ok: "end_ok (end_count (refs s + X) c side) ?e" by (rule inv_end_ok [OF inv c side])
  then obtain ms where ib: "inbox ?e = m # ms"
    using some by (cases "inbox ?e") (auto simp: end_ok_def m_def)
  then show "msg_ok m" using ok by (simp add: end_ok_def)
  show "ipc_inv vfs (X + msg_refs m) (channel_dequeue c side s)"
    unfolding channel_dequeue_def upd_chan_let
    by (rule ipc_inv_set_end [OF inv c side]) (use ok ib in \<open>auto simp: end_ok_def ac_simps\<close>)
qed

lemma chan_msg_free_undelivered_inv:
  assumes "ipc_inv vfs (X + msg_refs m) s" and "msg_ok m"
  shows "ipc_inv vfs X (chan_msg_free_undelivered m s)"
proof -
  have "ipc_inv vfs X (fold (\<lambda>r s. obj_ref_put (hr_kind r) (hr_obj r) s) rs s)"
    if "ipc_inv vfs (X + mset (map hr_obj rs)) s"
      and "\<forall>r\<in>set rs. hr_kind r = HANDLE_KIND_SURFACE \<and> (\<exists>i. hr_obj r = SurfaceObj i)" for rs s
    using that
  proof (induction rs arbitrary: s)
    case (Cons r rs)
    from Cons.prems(2) obtain i where r: "hr_kind r = HANDLE_KIND_SURFACE" "hr_obj r = SurfaceObj i" by auto
    have "ipc_inv vfs (add_mset (hr_obj r) (X + mset (map hr_obj rs))) s" using Cons.prems(1) by simp
    from obj_ref_put_inv [OF this r] Cons show ?case by simp
  qed simp
  then show ?thesis using assms by (simp add: chan_msg_free_undelivered_def msg_refs_def msg_ok_def)
qed

lemma chan_msgs_free_inv:
  assumes "ipc_inv vfs (X + sum_list (map msg_refs ms)) s" and "\<forall>m\<in>set ms. msg_ok m"
  shows "ipc_inv vfs X (fold chan_msg_free_undelivered ms s)"
  using assms
proof (induction ms arbitrary: s)
  case (Cons m ms)
  have "ipc_inv vfs (X + sum_list (map msg_refs ms) + msg_refs m) s"
    using Cons.prems(1) by (simp add: ac_simps)
  from chan_msg_free_undelivered_inv [OF this] Cons show ?case by simp
qed simp

section \<open>Closing an end\<close>

text \<open>Dropping the references of messages touches neither the tables nor the channels.\<close>

lemma surface_unref_commute:
  "surface_unref i (channel_free c s) = channel_free c (surface_unref i s)"
  "surface_unref i (set_slot p h x s) = set_slot p h x (surface_unref i s)"
  "surface_unref i (upd_chan c f s) = upd_chan c f (surface_unref i s)"
  by (simp_all add: surface_unref_def surface_free_object_def upd_surface_def channel_free_def
      upd_chan_def set_slot_def Let_def)

lemma chan_msg_free_commute:
  "chan_msg_free_undelivered m (channel_free c s) = channel_free c (chan_msg_free_undelivered m s)"
  "chan_msg_free_undelivered m (set_slot p h x s) = set_slot p h x (chan_msg_free_undelivered m s)"
proof -
  have "fold (\<lambda>r s. obj_ref_put (hr_kind r) (hr_obj r) s) rs (channel_free c s) =
      channel_free c (fold (\<lambda>r s. obj_ref_put (hr_kind r) (hr_obj r) s) rs s)"
    and "fold (\<lambda>r s. obj_ref_put (hr_kind r) (hr_obj r) s) rs (set_slot p h x s) =
      set_slot p h x (fold (\<lambda>r s. obj_ref_put (hr_kind r) (hr_obj r) s) rs s)" for rs
    by (induction rs arbitrary: s)
      (simp_all add: obj_ref_put_def surface_ref_put_def surface_unref_commute split: kobj.splits)
  then show "chan_msg_free_undelivered m (channel_free c s) = channel_free c (chan_msg_free_undelivered m s)"
    and "chan_msg_free_undelivered m (set_slot p h x s) = set_slot p h x (chan_msg_free_undelivered m s)"
    by (simp_all add: chan_msg_free_undelivered_def)
qed

lemma fold_msgs_commute:
  "fold chan_msg_free_undelivered ms (channel_free c s) = channel_free c (fold chan_msg_free_undelivered ms s)"
  "fold chan_msg_free_undelivered ms (set_slot p h x s) = set_slot p h x (fold chan_msg_free_undelivered ms s)"
  by (induction ms arbitrary: s) (simp_all add: chan_msg_free_commute)

text \<open>The channel with one end closed.\<close>

definition close_end :: "nat \<Rightarrow> channel \<Rightarrow> channel" where
  "close_end side x =
     (let p = chan_end x (1 - side);
          x1 = set_chan_end (1 - side) (p\<lparr>recv_wait := fst (wait_queue_wake_all (recv_wait p)),
                 send_wait := fst (wait_queue_wake_all (send_wait p))\<rparr>) (set_peer_closed (1 - side) x);
          e = chan_end x1 side
      in (set_chan_end side (e\<lparr>inbox := [], inbox_count := 0\<rparr>) x1)\<lparr>ch_refcount := ch_refcount x1 - 1\<rparr>)"

lemma close_end_facts:
  assumes "side < 2"
  shows "ch_refcount (close_end side x) = ch_refcount x - 1" "ch_allocated (close_end side x) = ch_allocated x"
    "chan_refs (close_end side x) + sum_list (map msg_refs (inbox (chan_end x side))) = chan_refs x"
  using assms by (auto simp: close_end_def Let_def less_2_cases_iff chan_refs_def ac_simps)

lemma channel_release_raw_end_eq:
  assumes "c < length (chans s)" and "side < 2"
  defines "x \<equiv> chans s ! c"
  shows "channel_release_raw_end c side s =
    fold chan_msg_free_undelivered (inbox (chan_end x side))
      (if ch_refcount x \<le> 1 then channel_free c (upd_chan c (close_end side) s) else upd_chan c (close_end side) s)"
proof -
  have "channel_release_raw_end c side s =
    (let s1 = upd_chan c (close_end side) s; s2 = fold chan_msg_free_undelivered (inbox (chan_end x side)) s1
     in if ch_refcount (chans s1 ! c) \<le> 0 then channel_free c s2 else s2)"
    unfolding channel_release_raw_end_def close_end_def [abs_def] x_def by (simp only: Let_def)
  moreover have "ch_refcount (chans (upd_chan c (close_end side) s) ! c) = ch_refcount x - 1"
    using assms(1) close_end_facts [OF assms(2)] by (simp add: upd_chan_def x_def)
  ultimately show ?thesis by (simp add: fold_msgs_commute Let_def)
qed

lemma chan_ok1_close:
  assumes "chan_ok1 n0 n1 x" and "side < 2" and "(if side = 0 then n0 else n1) = 1"
  shows "ch_allocated x" and
    "chan_ok1 (if side = 0 then 0 else n0) (if side = 0 then n1 else 0)
      ((close_end side x)\<lparr>ch_allocated := 1 < ch_refcount x\<rparr>)"
  using assms
  by (auto simp: chan_ok1_def close_end_def Let_def less_2_cases_iff end_ok_def split: if_splits)

lemma chan_ok_close:
  assumes ok: "chan_ok (add_mset (ChanEndObj c side) R) cs live"
  shows "c < length cs" "side < 2" "\<forall>m\<in>set (inbox (chan_end (cs ! c) side)). msg_ok m"
    "chan_ok R (cs[c := (close_end side (cs ! c))\<lparr>ch_allocated := 1 < ch_refcount (cs ! c)\<rparr>])
      (live - of_bool (ch_refcount (cs ! c) \<le> 1))"
proof -
  show c: "c < length cs" and side: "side < 2" using ok by (simp_all add: chan_ok_def)
  let ?n = "\<lambda>d. count (add_mset (ChanEndObj c side) R) (ChanEndObj c d)"
  have x: "chan_ok1 (?n 0) (?n 1) (cs ! c)" using ok c unfolding chan_ok_def by blast
  then have "count R (ChanEndObj c side) = 0"
    using side by (auto simp: chan_ok1_def less_2_cases_iff split: if_splits)
  then have n: "?n side = 1" "count R (ChanEndObj c side) = 0" by simp_all
  then have "(if side = 0 then ?n 0 else ?n 1) = 1" using side by (auto simp: less_2_cases_iff)
  note cl = chan_ok1_close [OF x side this]
  show "\<forall>m\<in>set (inbox (chan_end (cs ! c) side)). msg_ok m"
    using chan_ok1_end(1) [OF x side] by (simp add: end_ok_def)
  show "chan_ok R (cs[c := (close_end side (cs ! c))\<lparr>ch_allocated := 1 < ch_refcount (cs ! c)\<rparr>])
      (live - of_bool (ch_refcount (cs ! c) \<le> 1))"
  proof (rule chan_ok_update [OF ok c])
    show "chan_ok1 (count R (ChanEndObj c 0)) (count R (ChanEndObj c 1))
        ((close_end side (cs ! c))\<lparr>ch_allocated := 1 < ch_refcount (cs ! c)\<rparr>)"
      using cl(2) n side by (auto simp: less_2_cases_iff)
    show "d < 2" if "ChanEndObj c d \<in># R" for d using ok that by (auto simp: chan_ok_def)
  qed (use cl(1) in auto)
qed

lemma channel_release_raw_end_inv:
  assumes inv: "ipc_inv vfs (add_mset (ChanEndObj c side) X) s"
  shows "ipc_inv vfs X (channel_release_raw_end c side s)"
proof -
  let ?x = "chans s ! c" and ?ms = "inbox (chan_end (chans s ! c) side)"
  have "chan_ok (add_mset (ChanEndObj c side) (refs s + X)) (chans s) (chan_live s)"
    using inv by (simp add: ipc_inv_def)
  note cl = chan_ok_close [OF this]
  let ?y = "(close_end side ?x)\<lparr>ch_allocated := 1 < ch_refcount ?x\<rparr>"
  let ?t = "s\<lparr>chans := (chans s)[c := ?y], chan_live := chan_live s - of_bool (ch_refcount ?x \<le> 1)\<rparr>"
  have al: "ch_allocated ?x"
    using inv cl(1,2) by (auto simp: ipc_inv_def chan_ok_def chan_ok1_def less_2_cases_iff split: if_splits)
  have "(if ch_refcount ?x \<le> 1 then channel_free c (upd_chan c (close_end side) s)
      else upd_chan c (close_end side) s) = ?t"
  proof (cases "ch_refcount ?x \<le> 1")
    case True
    then show ?thesis using cl(1) by (simp add: channel_free_def upd_chan_def)
  next
    case False
    have "z\<lparr>ch_allocated := True\<rparr> = z" if "ch_allocated z" for z :: channel
      using that by (cases z) simp
    then have "?y = close_end side ?x" using False close_end_facts(2) [OF cl(2), of ?x] al by simp
    then show ?thesis using False by (simp add: upd_chan_def)
  qed
  then have eq: "channel_release_raw_end c side s = fold chan_msg_free_undelivered ?ms ?t"
    using channel_release_raw_end_eq [OF cl(1,2)] by simp
  have "chan_refs ?y = chan_refs (close_end side ?x)" by (simp add: chan_refs_def)
  then have "chan_refs ?y + (X + sum_list (map msg_refs ?ms)) = chan_refs ?x + X"
    unfolding close_end_facts(3) [OF cl(2), of ?x, symmetric] by (simp add: ac_simps)
  with refs_set_chan [OF cl(1), of ?y]
  have "refs (s\<lparr>chans := (chans s)[c := ?y]\<rparr>) + (X + sum_list (map msg_refs ?ms)) = refs s + X"
    by (rule cancel_exchange)
  then have R: "refs ?t + (X + sum_list (map msg_refs ?ms)) = refs s + X"
    by (simp only: refs_fields)
  have "ipc_inv vfs (X + sum_list (map msg_refs ?ms)) ?t"
    unfolding ipc_inv_def R using inv cl(4) by (simp add: ipc_inv_def)
  then show ?thesis unfolding eq by (rule chan_msgs_free_inv) (rule cl(3))
qed

lemma channel_release_commute:
  assumes "c < length (chans s)" and "side < 2"
  shows "channel_release_raw_end c side (set_slot p h x s) = set_slot p h x (channel_release_raw_end c side s)"
proof -
  have "upd_chan c (close_end side) (set_slot p h x s) = set_slot p h x (upd_chan c (close_end side) s)"
    and "channel_free c (set_slot p h x s) = set_slot p h x (channel_free c s)" for s
    by (simp_all add: upd_chan_def channel_free_def set_slot_def)
  then show ?thesis using assms
    by (simp add: channel_release_raw_end_eq fold_msgs_commute)
qed

section \<open>Operations on surfaces\<close>

lemma slot_set_slot [simp]:
  "p < length (tables s) \<Longrightarrow> h < length (tables s ! p) \<Longrightarrow> slot (set_slot p h x s) p h = x"
  by (simp add: slot_def)

lemma set_slot_twice [simp]: "set_slot p h x (set_slot p h y s) = set_slot p h x s"
  by (cases "p < length (tables s)") (simp_all add: set_slot_def list_update_beyond)

lemma slot_set_slot_other:
  assumes "q \<noteq> p \<or> k \<noteq> h"
  shows "slot (set_slot p h x s) q k = slot s q k"
  using assms by (cases "p < length (tables s)") (auto simp: slot_def nth_list_update list_update_beyond)

lemma upd_surface_tables [simp]:
  "tables (upd_surface i g s) = tables s" "slot (upd_surface i g s) p h = slot s p h"
  by (simp_all add: upd_surface_def slot_def)

lemma upd_surface_commute:
  "upd_surface i g (set_slot p h x s) = set_slot p h x (upd_surface i g s)"
  by (simp add: upd_surface_def set_slot_def)

lemma slot_bounds:
  assumes "ipc_inv vfs X s" and "p < length (tables s)"
  shows "length (tables s ! p) = OBJ_HANDLE_MAX"
  using assms tables_okD(1) by (simp add: ipc_inv_def)

lemma surface_create_inv:
  assumes inv: "ipc_inv vfs X s" and cl: "client < length (tables s)"
  shows "ipc_inv vfs X (snd (surface_create mem base client w h fmt n s))"
proof (cases "fmt \<noteq> 1 \<or> w = 0 \<or> h = 0 \<or> w > 8192 \<or> h > 8192 \<or> n < 2 \<or> n > 4 \<or> \<not> mem")
  case True
  then show ?thesis using inv by (auto simp: surface_create_def)
next
  case False
  let ?i = "length (surfaces s)" and ?f = "surface_new (Suc (length (surfaces s))) w h n"
  let ?s1 = "s\<lparr>surfaces := surfaces s @ [?f], surface_live := surface_live s + 1\<rparr>"
  let ?t1 = "s\<lparr>surfaces := surfaces s @ [?f\<lparr>sf_refcount := 1\<rparr>], surface_live := surface_live s + 1\<rparr>"
  have dead: "ipc_inv vfs X (surface_free_object ?i ?s1)"
    using ipc_inv_add_dead_surface [OF inv, of "?f\<lparr>sf_allocated := False\<rparr>"]
    by (simp add: surface_free_object_def upd_surface_def list_update_append)
  have live: "ipc_inv vfs (add_mset (SurfaceObj ?i) X) ?t1"
    by (rule ipc_inv_add_surface [OF inv]) (simp_all add: surface_new_def)
  have up: "upd_surface ?i (\<lambda>f. f\<lparr>sf_refcount := 1\<rparr>) ?s1 = ?t1"
    by (simp add: upd_surface_def list_update_append)
  obtain r t where a: "obj_handle_alloc client HANDLE_KIND_SURFACE (SurfaceObj ?i) ?s1 = (r, t)" by fastforce
  show ?thesis
  proof (cases r)
    case (Inl e)
    then have "t = ?s1" using a by (auto simp: obj_handle_alloc_def split: option.splits)
    with a Inl False dead show ?thesis by (simp add: surface_create_def Let_def)
  next
    case (Inr k)
    define nw where "nw = \<lparr>oh_kind = HANDLE_KIND_SURFACE, oh_obj = SurfaceObj ?i, map_base = 0, map_bytes = 0, oh_used = True\<rparr>"
    have k: "first_index (\<lambda>h. \<not> oh_used h) (tables s ! client) = Some k" and t: "t = set_slot client k nw ?s1"
      using a Inr by (auto simp: obj_handle_alloc_def nw_def split: option.splits)
    have "obj_handle_alloc client (kind_of (SurfaceObj ?i)) (SurfaceObj ?i) ?t1 = (Inr k, set_slot client k nw ?t1)"
      using k by (simp add: obj_handle_alloc_def nw_def)
    from obj_handle_alloc_inv [OF live _ this] cl have al: "ipc_inv vfs X (set_slot client k nw ?t1)" by simp
    have k32: "k < OBJ_HANDLE_MAX" using k slot_bounds [OF inv cl] by (simp add: first_index_Some)
    have "slot t client k = nw" using t cl k32 slot_bounds [OF inv cl] by simp
    then have eq: "upd_surface ?i (\<lambda>f. f\<lparr>sf_refcount := 1\<rparr>) (set_slot client k ((slot t client k)\<lparr>map_base := base, map_bytes := bb\<rparr>) t) =
        set_slot client k ((slot (set_slot client k nw ?t1) client k)\<lparr>map_base := base, map_bytes := bb\<rparr>) (set_slot client k nw ?t1)" for bb
      using cl k32 slot_bounds [OF inv cl] by (simp add: t upd_surface_commute up)
    have "ipc_inv vfs X (upd_surface ?i (\<lambda>f. f\<lparr>sf_refcount := 1\<rparr>) (set_slot client k ((slot t client k)\<lparr>map_base := base, map_bytes := bb\<rparr>) t))" for bb
      unfolding eq by (rule ipc_inv_map_slot [OF al]) (use cl k32 in simp_all)
    with a Inr False dead show ?thesis by (simp add: surface_create_def Let_def)
  qed
qed

lemma resolve_inv:
  assumes "ipc_inv vfs X s" and "p < length (tables s)" and "obj_handle_resolve s p handle k = obj" and "obj \<noteq> NullObj"
  shows "obj \<in># refs s" "kind_of obj = k" "nat handle < OBJ_HANDLE_MAX" "0 \<le> handle"
    "oh_used (slot s p (nat handle))" "oh_obj (slot s p (nat handle)) = obj"
proof -
  note r = resolve_cases [OF assms(3,4)]
  have tab: "tables_ok (tables s)" using assms(1) by (simp add: ipc_inv_def)
  show "obj \<in># refs s" using slot_in_refs [OF tab assms(2) r(2,3)] r(5) by simp
  show "kind_of obj = k" using tables_okD(2) [OF tab assms(2) r(2)] r(3-5) by (simp add: slot_ok_def)
qed (use resolve_cases [OF assms(3,4)] in simp_all)

lemma surface_map_inv:
  assumes "ipc_inv vfs X s" and "p < length (tables s)"
  shows "ipc_inv vfs X (snd (surface_map base p handle s))"
  using assms resolve_inv [OF assms refl, of handle HANDLE_KIND_SURFACE] ipc_inv_map_slot [OF assms, of "nat handle"]
  by (auto simp: surface_map_def Let_def split: kobj.splits)

lemma ipc_inv_upd_buffers:
  assumes inv: "ipc_inv vfs X s" and i: "i < length (surfaces s)"
  shows "ipc_inv vfs X (upd_surface i (\<lambda>f. f\<lparr>sf_buffers := b\<rparr>) s)"
proof -
  have ok: "surf_ok (refs s + X) (surfaces s) (surface_live s)" using inv by (simp add: ipc_inv_def)
  have "surf_ok1 n (f\<lparr>sf_buffers := b\<rparr>) = surf_ok1 n f" for n f by (simp add: surf_ok1_def)
  then have "surf_ok (refs s + X) ((surfaces s)[i := (surfaces s ! i)\<lparr>sf_buffers := b\<rparr>]) (surface_live s)"
    by (intro surf_ok_update [OF ok i]) (use ok i in \<open>simp_all add: surf_ok_def\<close>)
  then show ?thesis using inv by (simp add: ipc_inv_def upd_surface_def)
qed

lemma resolve_surface_bound:
  assumes "ipc_inv vfs X s" and "p < length (tables s)"
    and "obj_handle_resolve s p handle HANDLE_KIND_SURFACE = SurfaceObj i"
  shows "i < length (surfaces s)" and "SurfaceObj i \<in># refs s"
proof -
  show mem: "SurfaceObj i \<in># refs s" using resolve_inv(1) [OF assms(1-3)] by simp
  then show "i < length (surfaces s)" using assms(1) by (simp add: ipc_inv_def surf_ok_def)
qed

lemma surface_commit_inv:
  assumes "ipc_inv vfs X s" and "p < length (tables s)"
  shows "ipc_inv vfs X (snd (surface_commit p handle b s))"
proof -
  have seq: "ipc_inv vfs X (t\<lparr>surface_seq := k\<rparr>) = ipc_inv vfs X t" for t k by (simp add: ipc_inv_def)
  show ?thesis
    using assms(1) ipc_inv_upd_buffers [OF assms(1)] resolve_surface_bound [OF assms]
    by (auto simp: surface_commit_def Let_def seq split: kobj.splits)
qed

lemma surface_release_inv:
  assumes "ipc_inv vfs X s" and "p < length (tables s)"
  shows "ipc_inv vfs X (snd (surface_release p handle b s))"
  using assms(1) ipc_inv_upd_buffers [OF assms(1)] resolve_surface_bound [OF assms]
  by (auto simp: surface_release_def Let_def split: kobj.splits)

lemma surface_transfer_to_inv:
  assumes inv: "ipc_inv vfs X s" and src: "src < length (tables s)" and dst: "dst < length (tables s)"
  shows "ipc_inv vfs X (snd (surface_transfer_to base src handle dst s))"
proof (cases "obj_handle_resolve s src handle HANDLE_KIND_SURFACE")
  case (SurfaceObj i)
  note ib = resolve_surface_bound [OF inv src SurfaceObj]
  obtain r t where a: "obj_handle_alloc dst HANDLE_KIND_SURFACE (SurfaceObj i) s = (r, t)" by fastforce
  from inv dst a show ?thesis
  proof (cases rule: obj_handle_alloc_cases)
    case full
    then show ?thesis using inv a SurfaceObj by (simp add: surface_transfer_to_def)
  next
    case (slot k)
    define nw where "nw = \<lparr>oh_kind = HANDLE_KIND_SURFACE, oh_obj = SurfaceObj i, map_base = 0, map_bytes = 0, oh_used = True\<rparr>"
    have t: "t = set_slot dst k nw s" and sl: "slot t dst k = nw"
      using slot(4) dst slot(2) slot_bounds [OF inv dst] by (simp_all add: nw_def)
    have drop: "ipc_inv vfs X (obj_handle_drop dst k t)"
      using ipc_inv_set_slot [OF inv dst slot(2)] slot(3)
      by (simp add: obj_handle_drop_def t slot_ok_def slot_refs_def)
    have "ipc_inv vfs (add_mset (SurfaceObj i) X) (surface_ref_get i s)"
      using surface_ref_get_inv [OF inv] ib(2) by simp
    then have "ipc_inv vfs X (set_slot dst k (nw\<lparr>map_base := base, map_bytes := bb\<rparr>) (surface_ref_get i s))" for bb
      using ipc_inv_set_slot [of vfs "add_mset (SurfaceObj i) X" "surface_ref_get i s" dst k] dst slot(2,3)
      by (simp add: surface_ref_get_def nw_def slot_ok_def slot_refs_def)
    then show ?thesis using a SurfaceObj slot(1) drop sl
      by (simp add: surface_transfer_to_def t surface_ref_get_def upd_surface_commute)
  qed
qed (use inv in \<open>simp_all add: surface_transfer_to_def\<close>)

section \<open>Operations on channels\<close>

lemma ipc_inv_add_channel:
  assumes inv: "ipc_inv vfs X s"
  shows "ipc_inv vfs (add_mset (ChanEndObj (length (chans s)) 0) (add_mset (ChanEndObj (length (chans s)) 1) X))
    (channel_add 2 s)"
proof -
  let ?R = "refs s + X" and ?c = "length (chans s)"
  have ok: "chan_ok ?R (chans s) (chan_live s)" using inv by (simp add: ipc_inv_def)
  then have none: "count ?R (ChanEndObj ?c d) = 0" for d by (auto simp: chan_ok_def simp flip: not_in_iff)
  have new: "chan_ok1 1 1 (channel_new 2 k)" for k
    by (simp add: chan_ok1_def channel_new_def channel_end_new_def end_ok_def)
  have c: "chan_ok (add_mset (ChanEndObj ?c 0) (add_mset (ChanEndObj ?c 1) ?R))
      (chans s @ [channel_new 2 (Suc ?c)]) (chan_live s + 1)"
    unfolding chan_ok_def
  proof (intro conjI allI impI)
    fix j d
    assume m: "ChanEndObj j d \<in># add_mset (ChanEndObj ?c 0) (add_mset (ChanEndObj ?c 1) ?R)"
    have "ChanEndObj j d \<in># ?R \<Longrightarrow> j < ?c \<and> d < 2" using ok unfolding chan_ok_def by blast
    with m show "j < length (chans s @ [channel_new 2 (Suc ?c)])" and "d < 2" by auto
  next
    fix j
    assume "j < length (chans s @ [channel_new 2 (Suc ?c)])"
    then consider "j = ?c" | "j < ?c" by fastforce
    then show "chan_ok1 (count (add_mset (ChanEndObj ?c 0) (add_mset (ChanEndObj ?c 1) ?R)) (ChanEndObj j 0))
        (count (add_mset (ChanEndObj ?c 0) (add_mset (ChanEndObj ?c 1) ?R)) (ChanEndObj j 1))
        ((chans s @ [channel_new 2 (Suc ?c)]) ! j)"
    proof cases
      case 1
      then show ?thesis using none [of 0] none [of 1] new [of "Suc ?c"] by simp
    next
      case 2
      then show ?thesis using ok by (auto simp: chan_ok_def nth_append)
    qed
  qed (use ok in \<open>simp add: chan_ok_def channel_new_def\<close>)
  have R: "refs (channel_add 2 s) = refs s"
    by (simp add: channel_add_def refs_def channel_new_def channel_end_new_def chan_refs_def)
  show ?thesis unfolding ipc_inv_def R using inv c by (simp add: ipc_inv_def channel_add_def)
qed

lemma ipc_inv_add_dead_channel:
  assumes inv: "ipc_inv vfs X s" and x: "\<not> ch_allocated x" "chan_ok1 0 0 x"
  shows "ipc_inv vfs X (s\<lparr>chans := chans s @ [x]\<rparr>)"
proof -
  let ?R = "refs s + X" and ?c = "length (chans s)"
  have ok: "chan_ok ?R (chans s) (chan_live s)" using inv by (simp add: ipc_inv_def)
  then have none: "count ?R (ChanEndObj ?c d) = 0" for d by (auto simp: chan_ok_def simp flip: not_in_iff)
  have "chan_refs x = {#}" using x(2) by (simp add: chan_refs_def chan_ok1_def end_ok_def)
  then have R: "refs (s\<lparr>chans := chans s @ [x]\<rparr>) = refs s" by (simp add: refs_def)
  have "chan_ok ?R (chans s @ [x]) (chan_live s)"
    unfolding chan_ok_def
  proof (intro conjI allI impI)
    fix j d
    assume "ChanEndObj j d \<in># ?R"
    then have "j < ?c \<and> d < 2" using ok unfolding chan_ok_def by blast
    then show "j < length (chans s @ [x])" and "d < 2" by simp_all
  next
    fix j
    assume "j < length (chans s @ [x])"
    then consider "j = ?c" | "j < ?c" by fastforce
    then show "chan_ok1 (count ?R (ChanEndObj j 0)) (count ?R (ChanEndObj j 1)) ((chans s @ [x]) ! j)"
    proof cases
      case 1
      then show ?thesis using none [of 0] none [of 1] x(2) by simp
    next
      case 2
      then show ?thesis using ok by (simp add: chan_ok_def nth_append)
    qed
  qed (use ok x in \<open>simp add: chan_ok_def\<close>)
  then show ?thesis unfolding ipc_inv_def R using inv by (simp add: ipc_inv_def)
qed

lemma dead_channel_ok: "chan_ok1 0 0 ((channel_new rc k)\<lparr>ch_allocated := False\<rparr>)"
  by (simp add: chan_ok1_def channel_new_def channel_end_new_def end_ok_def)

lemma channel_free_add:
  "channel_free (length (chans s)) (channel_add rc s) =
     s\<lparr>chans := chans s @ [(channel_new rc (Suc (length (chans s))))\<lparr>ch_allocated := False\<rparr>]\<rparr>"
  by (simp add: channel_free_def channel_add_def upd_chan_def list_update_append)

lemma obj_handle_drop_inv:
  assumes "ipc_inv vfs X s" "p < length (tables s)" "h < OBJ_HANDLE_MAX" "oh_used (slot s p h)"
  shows "ipc_inv vfs (add_mset (oh_obj (slot s p h)) X) (obj_handle_drop p h s)"
  unfolding obj_handle_drop_def by (rule ipc_inv_clear_slot [OF assms]) simp

lemma channel_add_tables [simp]: "tables (channel_add rc s) = tables s"
  by (simp add: channel_add_def)

lemma channel_create_pair_inv:
  assumes inv: "ipc_inv vfs X s" and ow: "owner < length (tables s)"
  shows "ipc_inv vfs X (snd (channel_create_pair mem owner s))"
proof (cases mem)
  case True
  let ?c = "length (chans s)" and ?s1 = "channel_add 2 s"
  note inv1 = ipc_inv_add_channel [OF inv]
  have dead: "ipc_inv vfs X (channel_free ?c ?s1)"
    unfolding channel_free_add by (rule ipc_inv_add_dead_channel [OF inv]) (simp_all add: dead_channel_ok)
  obtain r t where a: "obj_handle_alloc owner HANDLE_KIND_CHANNEL (ChanEndObj ?c 0) ?s1 = (r, t)" by fastforce
  have ow1: "owner < length (tables ?s1)" using ow by simp
  from inv1 ow1 a show ?thesis
  proof (cases rule: obj_handle_alloc_cases)
    case full
    then show ?thesis using True a dead by (simp add: channel_create_pair_def Let_def)
  next
    case (slot h0)
    have inv2: "ipc_inv vfs (add_mset (ChanEndObj ?c 1) X) t"
      using obj_handle_alloc_inv [of vfs "ChanEndObj ?c 0" "add_mset (ChanEndObj ?c 1) X" ?s1 owner h0 t] inv1 ow1 a slot(1)
      by (simp add: add_mset_commute)
    have ow2: "owner < length (tables t)" using slot(4) ow by simp
    obtain r2 t2 where b: "obj_handle_alloc owner HANDLE_KIND_CHANNEL (ChanEndObj ?c 1) t = (r2, t2)" by fastforce
    from inv2 ow2 b show ?thesis
    proof (cases rule: obj_handle_alloc_cases)
      case full
      have "obj_handle_drop owner h0 t = set_slot owner h0 ((slot t owner h0)\<lparr>oh_used := False,
          oh_kind := HANDLE_KIND_NONE, oh_obj := NullObj\<rparr>) ?s1"
        by (simp add: obj_handle_drop_def slot(4))
      then have "channel_free ?c (obj_handle_drop owner h0 t) = set_slot owner h0 ((slot t owner h0)\<lparr>oh_used := False,
          oh_kind := HANDLE_KIND_NONE, oh_obj := NullObj\<rparr>) (channel_free ?c ?s1)"
        by (simp add: channel_free_def upd_chan_def set_slot_def)
      moreover have "ipc_inv vfs X (set_slot owner h0 ((slot t owner h0)\<lparr>oh_used := False,
          oh_kind := HANDLE_KIND_NONE, oh_obj := NullObj\<rparr>) (channel_free ?c ?s1))"
        by (rule ipc_inv_set_slot [OF dead])
          (use ow slot(2,3) in \<open>simp_all add: slot_ok_def slot_refs_def slot_def channel_free_def upd_chan_def\<close>)
      ultimately show ?thesis using True a b slot(1) full by (simp add: channel_create_pair_def Let_def)
    next
      case (slot h1)
      have "ipc_inv vfs X t2"
        using obj_handle_alloc_inv [of vfs "ChanEndObj ?c 1" X t owner h1 t2] inv2 ow2 b slot(1) by simp
      then show ?thesis using True a b \<open>r = Inr h0\<close> slot(1) by (simp add: channel_create_pair_def Let_def)
    qed
  qed
qed (use inv in \<open>simp add: channel_create_pair_def\<close>)

lemma set_slot_swap:
  assumes "p \<noteq> q \<or> h \<noteq> k"
  shows "set_slot p h x (set_slot q k y s) = set_slot q k y (set_slot p h x s)"
proof (cases "p = q")
  case True
  then show ?thesis using assms
    by (cases "q < length (tables s)") (simp_all add: set_slot_def list_update_swap list_update_beyond)
next
  case False
  then show ?thesis by (simp add: set_slot_def list_update_swap)
qed

lemma channel_transfer_end_to_inv:
  assumes inv: "ipc_inv vfs X s" and src: "src < length (tables s)" and dst: "dst < length (tables s)"
  shows "ipc_inv vfs X (snd (channel_transfer_end_to src handle dst s))"
proof (cases "obj_handle_resolve s src handle HANDLE_KIND_CHANNEL")
  case (ChanEndObj c side)
  have r: "nat handle < OBJ_HANDLE_MAX" "oh_used (slot s src (nat handle))"
    "oh_obj (slot s src (nat handle)) = ChanEndObj c side"
    using resolve_inv [OF inv src ChanEndObj] by simp_all
  obtain q t where a: "obj_handle_alloc dst HANDLE_KIND_CHANNEL (ChanEndObj c side) s = (q, t)" by fastforce
  from inv dst a show ?thesis
  proof (cases rule: obj_handle_alloc_cases)
    case full
    then show ?thesis using inv a ChanEndObj by (simp add: channel_transfer_end_to_def)
  next
    case (slot k)
    let ?h = "nat handle"
    have ne: "src \<noteq> dst \<or> ?h \<noteq> k" using r(2) slot(3) by auto
    define od where "od = (slot s src ?h)\<lparr>oh_used := False, oh_kind := HANDLE_KIND_NONE, oh_obj := NullObj\<rparr>"
    define nw where "nw = \<lparr>oh_kind = HANDLE_KIND_CHANNEL, oh_obj = ChanEndObj c side, map_base = 0, map_bytes = 0, oh_used = True\<rparr>"
    have "slot t src ?h = slot s src ?h" using ne slot(4) by (simp add: slot_set_slot_other)
    then have eq: "obj_handle_drop src ?h t = set_slot src ?h od (set_slot dst k nw s)"
      by (simp add: obj_handle_drop_def od_def nw_def slot(4))
    have "ipc_inv vfs (add_mset (ChanEndObj c side) X) (set_slot src ?h od s)"
      using ipc_inv_clear_slot [OF inv src r(1,2), of od] r(3) by (simp add: od_def)
    then have "ipc_inv vfs X (set_slot dst k nw (set_slot src ?h od s))"
      using ipc_inv_set_slot [of vfs "add_mset (ChanEndObj c side) X" "set_slot src ?h od s" dst k nw X] dst slot(2,3) ne
      by (auto simp: nw_def slot_ok_def slot_refs_def slot_set_slot_other)
    moreover have "set_slot dst k nw (set_slot src ?h od s) = set_slot src ?h od (set_slot dst k nw s)"
      using ne by (intro set_slot_swap) auto
    ultimately show ?thesis using a ChanEndObj slot(1) eq by (simp add: channel_transfer_end_to_def)
  qed
qed (use inv in \<open>simp_all add: channel_transfer_end_to_def\<close>)

section \<open>Sending and receiving\<close>

text \<open>
  The contract under which ancillary handles are counted: every handle passed is a surface
  (the only kind the code counts in transit), and no handle is moved twice in one message.
\<close>

definition send_ok :: "ipc \<Rightarrow> nat \<Rightarrow> (int \<times> bool) list \<Rightarrow> bool" where
  "send_ok s caller hnds \<longleftrightarrow>
     (\<forall>(hi, mv)\<in>set hnds. oh_kind (slot s caller (nat hi)) = HANDLE_KIND_SURFACE) \<and>
     distinct (map (nat \<circ> fst) (filter snd hnds))"

lemma move_handle_inv:
  assumes inv: "ipc_inv vfs X s" and p: "p < length (tables s)" and h: "h < OBJ_HANDLE_MAX"
    and used: "oh_used (slot s p h)"
  defines "t \<equiv> obj_handle_drop p h (surface_unmap_from_handle p h s)"
  shows "ipc_inv vfs (add_mset (oh_obj (slot s p h)) X) t"
    and "refs t + add_mset (oh_obj (slot s p h)) X = refs s + X"
    and "k \<noteq> h \<Longrightarrow> slot t p k = slot s p k" and "length (tables t) = length (tables s)" and "chans t = chans s"
proof -
  have h': "h < length (tables s ! p)" using h slot_bounds [OF inv p] by simp
  obtain x where t: "t = set_slot p h x s" and x: "\<not> oh_used x"
  proof (cases "map_base (slot s p h) = 0")
    case True
    then show ?thesis
      using that [of "(slot s p h)\<lparr>oh_used := False, oh_kind := HANDLE_KIND_NONE, oh_obj := NullObj\<rparr>"]
      by (simp add: t_def obj_handle_drop_def surface_unmap_from_handle_def)
  next
    case False
    then show ?thesis
      using that [of "(slot s p h)\<lparr>map_base := 0, map_bytes := 0, oh_used := False, oh_kind := HANDLE_KIND_NONE, oh_obj := NullObj\<rparr>"] p h'
      by (simp add: t_def obj_handle_drop_def surface_unmap_from_handle_def)
  qed
  show "ipc_inv vfs (add_mset (oh_obj (slot s p h)) X) t"
    unfolding t by (rule ipc_inv_clear_slot [OF inv p h used x])
  show "refs t + add_mset (oh_obj (slot s p h)) X = refs s + X"
    using refs_set_slot [OF p h', of x] used x by (simp add: t slot_refs_def)
  show "slot t p k = slot s p k" if "k \<noteq> h" using that by (simp add: t slot_set_slot_other)
  show "length (tables t) = length (tables s)" and "chans t = chans s" by (simp_all add: t)
qed

fun take_ok1 :: "ipc \<Rightarrow> kobj multiset \<Rightarrow> nat \<Rightarrow> (int \<times> bool) \<times> chan_handle_ref \<Rightarrow> bool" where
  "take_ok1 s X caller ((hi, mv), r) \<longleftrightarrow>
     hr_kind r = HANDLE_KIND_SURFACE \<and> (\<exists>i. hr_obj r = SurfaceObj i) \<and> hr_is_move r = mv \<and>
     hr_obj r \<in># refs s + X \<and>
     (mv \<longrightarrow> nat hi < OBJ_HANDLE_MAX \<and> oh_used (slot s caller (nat hi)) \<and> oh_obj (slot s caller (nat hi)) = hr_obj r)"

definition taken_ok :: "ipc \<Rightarrow> kobj multiset \<Rightarrow> nat \<Rightarrow> ((int \<times> bool) \<times> chan_handle_ref) list \<Rightarrow> bool" where
  "taken_ok s X caller prs \<longleftrightarrow> (\<forall>pr\<in>set prs. take_ok1 s X caller pr) \<and>
     distinct (map (nat \<circ> fst) (filter snd (map fst prs)))"

lemma take_ok1_mono:
  assumes "take_ok1 s X caller ((hi, mv), r)" and "hr_obj r \<in># refs s + X \<Longrightarrow> hr_obj r \<in># refs t + Y"
    and "mv \<Longrightarrow> slot t caller (nat hi) = slot s caller (nat hi)"
  shows "take_ok1 t Y caller ((hi, mv), r)"
  using assms by simp

lemma chan_take_handle_inv:
  assumes inv: "ipc_inv vfs X s" and ca: "caller < length (tables s)" and tk: "taken_ok s X caller (pr # prs)"
  defines "t \<equiv> chan_take_handle caller pr s" and "Y \<equiv> add_mset (hr_obj (snd pr)) X"
  shows "ipc_inv vfs Y t" "taken_ok t Y caller prs" "length (tables t) = length (tables s)" "chans t = chans s"
proof -
  obtain hi mv r where pr: "pr = ((hi, mv), r)" by (metis surj_pair)
  from tk pr obtain i where r: "hr_kind r = HANDLE_KIND_SURFACE" "hr_obj r = SurfaceObj i"
    "hr_is_move r = mv" "hr_obj r \<in># refs s + X" by (auto simp: taken_ok_def)
  have Y: "Y = add_mset (hr_obj r) X" by (simp add: Y_def pr)
  have dist: "distinct (map (nat \<circ> fst) (filter snd (map fst prs)))"
    using tk by (auto simp: taken_ok_def split: if_splits)
  have old: "take_ok1 s X caller ((hi', mv'), r')" if "((hi', mv'), r') \<in> set prs" for hi' mv' r'
    using tk that unfolding taken_ok_def by (meson list.set_intros(2))
  have "ipc_inv vfs Y t \<and> (\<forall>p\<in>set prs. take_ok1 t Y caller p) \<and> length (tables t) = length (tables s) \<and> chans t = chans s"
  proof (cases mv)
    case True
    have h: "nat hi < OBJ_HANDLE_MAX" "oh_used (slot s caller (nat hi))" "oh_obj (slot s caller (nat hi)) = hr_obj r"
      using tk pr True by (simp_all add: taken_ok_def)
    have t: "t = obj_handle_drop caller (nat hi) (surface_unmap_from_handle caller (nat hi) s)"
      using pr True r by (simp add: t_def chan_take_handle_def)
    note m = move_handle_inv [OF inv ca h(1,2), folded t, unfolded h(3), folded Y]
    have "take_ok1 t Y caller p" if p: "p \<in> set prs" for p
    proof -
      obtain hi' mv' r' where q: "p = ((hi', mv'), r')" by (metis surj_pair)
      have "nat hi \<notin> set (map (nat \<circ> fst) (filter snd (map fst prs)))"
        using tk pr True by (simp add: taken_ok_def)
      moreover have "mv' \<Longrightarrow> nat hi' \<in> set (map (nat \<circ> fst) (filter snd (map fst prs)))"
        using p q by (force simp: image_iff)
      ultimately have ne: "mv' \<Longrightarrow> nat hi' \<noteq> nat hi" by metis
      show ?thesis unfolding q
        by (rule take_ok1_mono [OF old [OF p [unfolded q]]]) (simp only: m(2), rule m(3) [OF ne])
    qed
    with m show ?thesis by simp
  next
    case False
    then have t: "t = surface_ref_get i s" using pr r by (simp add: t_def chan_take_handle_def obj_ref_get_def)
    have same: "refs t = refs s" "tables t = tables s" "chans t = chans s" "slot t p k = slot s p k" for p k
      by (simp_all add: t surface_ref_get_def upd_surface_def slot_def)
    have "take_ok1 t Y caller p" if p: "p \<in> set prs" for p
    proof -
      obtain hi' mv' r' where q: "p = ((hi', mv'), r')" by (metis surj_pair)
      show ?thesis unfolding q
        by (rule take_ok1_mono [OF old [OF p [unfolded q]]]) (auto simp: same Y)
    qed
    moreover have "ipc_inv vfs Y t" using surface_ref_get_inv [OF inv] r(2,4) by (simp add: t Y)
    ultimately show ?thesis using same by simp
  qed
  then show "ipc_inv vfs Y t" "taken_ok t Y caller prs" "length (tables t) = length (tables s)" "chans t = chans s"
    using dist by (simp_all add: taken_ok_def)
qed

lemma chan_take_handles_inv:
  assumes "ipc_inv vfs X s" and "caller < length (tables s)" and "taken_ok s X caller prs"
  shows "ipc_inv vfs (X + mset (map (hr_obj \<circ> snd) prs)) (fold (chan_take_handle caller) prs s) \<and>
    length (tables (fold (chan_take_handle caller) prs s)) = length (tables s) \<and>
    chans (fold (chan_take_handle caller) prs s) = chans s"
  using assms
proof (induction prs arbitrary: X s)
  case (Cons pr prs)
  note st = chan_take_handle_inv [OF Cons.prems]
  from Cons.IH [OF st(1) _ st(2)] st(3,4) Cons.prems(2) show ?case by simp
qed simp

lemma peer_open_held:
  assumes "ipc_inv vfs X s" and "c < length (chans s)" and "side < 2" and "ch_allocated (chans s ! c)"
    and "\<not> peer_closed (chans s ! c) side"
  shows "end_count (refs s + X) c (1 - side) \<noteq> 0"
proof -
  have ok: "chan_ok1 (count (refs s + X) (ChanEndObj c 0)) (count (refs s + X) (ChanEndObj c 1)) (chans s ! c)"
    using assms(1,2) by (simp add: ipc_inv_def chan_ok_def)
  have "1 - side < 2" and "1 - (1 - side) = side" using assms(3) by auto
  with chan_ok1_end(3) [OF ok, of "1 - side"] assms(4,5) show ?thesis by simp
qed

lemma chan_ok_held:
  assumes ok: "chan_ok R cs live" and mem: "ChanEndObj c side \<in># R"
  shows "c < length cs" "side < 2" "ch_allocated (cs ! c)"
proof -
  show c: "c < length cs" and side: "side < 2" using ok mem by (auto simp: chan_ok_def)
  have "count R (ChanEndObj c side) \<noteq> 0" using mem by (simp add: count_eq_zero_iff)
  moreover have "chan_ok1 (count R (ChanEndObj c 0)) (count R (ChanEndObj c 1)) (cs ! c)"
    using ok c by (simp add: chan_ok_def)
  ultimately show "ch_allocated (cs ! c)"
    using side mem by (auto simp: chan_ok1_def less_2_cases_iff dest: iffD2 [OF not_in_iff] split: if_splits)
qed

lemma resolve_channel:
  assumes "ipc_inv vfs X s" and "p < length (tables s)"
    and "obj_handle_resolve s p handle HANDLE_KIND_CHANNEL = ChanEndObj c side"
  shows "c < length (chans s)" "side < 2" "ch_allocated (chans s ! c)"
proof -
  have mem: "ChanEndObj c side \<in># refs s + X" using resolve_inv(1) [OF assms(1-3)] by simp
  have "chan_ok (refs s + X) (chans s) (chan_live s)" using assms(1) by (simp add: ipc_inv_def)
  from chan_ok_held [OF this mem] show "c < length (chans s)" "side < 2" "ch_allocated (chans s ! c)" .
qed

lemma channel_send_locked_inv:
  assumes inv: "ipc_inv vfs X s" and ca: "caller < length (tables s)"
    and c: "c < length (chans s)" "side < 2" "ch_allocated (chans s ! c)"
    and tk: "taken_ok s X caller (zip hnds (msg_handles m))" and len: "length hnds = length (msg_handles m)"
  shows "ipc_inv vfs X (snd (channel_send_locked t cancelled caller c side hnds m s))"
proof -
  have peer: "1 - side < 2" using c(2) by simp
  let ?t = "fold (chan_take_handle caller) (zip hnds (msg_handles m)) s"
  have mr: "mset (map (hr_obj \<circ> snd) (zip hnds (msg_handles m))) = msg_refs m"
    using len by (simp add: msg_refs_def flip: map_map)
  note h = chan_take_handles_inv [OF inv ca tk, unfolded mr]
  have mok: "msg_ok m"
    unfolding msg_ok_def
  proof
    fix r assume "r \<in> set (msg_handles m)"
    then obtain q where "(q, r) \<in> set (zip hnds (msg_handles m))" using len by (metis in_set_impl_in_set_zip2)
    then show "hr_kind r = HANDLE_KIND_SURFACE \<and> (\<exists>i. hr_obj r = SurfaceObj i)"
      using tk by (cases q) (auto simp: taken_ok_def)
  qed
  have "ipc_inv vfs X (channel_enqueue c (1 - side) m ?t)"
    if "\<not> peer_closed (chans s ! c) side" "inbox_count (chan_end (chans s ! c) (1 - side)) < CHAN_QUEUE_MAX"
    by (rule channel_enqueue_inv) (use h c peer mok that peer_open_held [of vfs "X + msg_refs m" ?t c side] in auto)
  then show ?thesis
    using inv ipc_inv_end_waits(1) [OF inv c(1) peer] by (auto simp: channel_send_locked_def Let_def)
qed

lemma prepare_taken_ok:
  assumes inv: "ipc_inv vfs X s" and ca: "caller < length (tables s)"
    and prep: "channel_send_prepare mem caller handle bytes hnds s = Inr (c, side, m)"
    and ok: "send_ok s caller hnds"
  shows "obj_handle_resolve s caller handle HANDLE_KIND_CHANNEL = ChanEndObj c side"
    and "m = \<lparr>msg_bytes = bytes, msg_handles = map (handle_ref_of s caller) hnds\<rparr>"
    and "taken_ok s X caller (zip hnds (msg_handles m))"
proof -
  show res: "obj_handle_resolve s caller handle HANDLE_KIND_CHANNEL = ChanEndObj c side"
    and m: "m = \<lparr>msg_bytes = bytes, msg_handles = map (handle_ref_of s caller) hnds\<rparr>"
    using prep by (auto simp: channel_send_prepare_def split: kobj.splits if_splits)
  have valid: "\<forall>(hi, mv)\<in>set hnds. nat hi < OBJ_HANDLE_MAX \<and> oh_used (slot s caller (nat hi))"
    using prep by (auto simp: channel_send_prepare_def list_ex_iff split: kobj.splits if_splits)
  have tab: "tables_ok (tables s)" using inv by (simp add: ipc_inv_def)
  have one: "take_ok1 s X caller (q, handle_ref_of s caller q)" if "q \<in> set hnds" for q
  proof -
    obtain hi mv where q: "q = (hi, mv)" by fastforce
    have v: "nat hi < OBJ_HANDLE_MAX" "oh_used (slot s caller (nat hi))"
      "oh_kind (slot s caller (nat hi)) = HANDLE_KIND_SURFACE"
      using valid ok that q by (auto simp: send_ok_def)
    have "oh_kind (slot s caller (nat hi)) = kind_of (oh_obj (slot s caller (nat hi)))"
      using tables_okD(2) [OF tab ca v(1)] v(2) by (simp add: slot_ok_def)
    with v(3) obtain i where "oh_obj (slot s caller (nat hi)) = SurfaceObj i"
      by (cases "oh_obj (slot s caller (nat hi))") auto
    then show ?thesis using q v slot_in_refs [OF tab ca v(1,2)] by (simp add: handle_ref_of_def)
  qed
  have z: "zip hnds (msg_handles m) = map (\<lambda>q. (q, handle_ref_of s caller q)) hnds"
    by (simp add: m zip_map2 zip_same_conv_map)
  show "taken_ok s X caller (zip hnds (msg_handles m))"
    unfolding taken_ok_def z using one ok by (auto simp: send_ok_def comp_def)
qed

lemma channel_send_inv:
  assumes inv: "ipc_inv vfs X s" and ca: "caller < length (tables s)" and ok: "send_ok s caller hnds"
  shows "ipc_inv vfs X (snd (channel_send t cancelled mem caller handle bytes hnds s))"
proof (cases "channel_send_prepare mem caller handle bytes hnds s")
  case (Inr a)
  obtain c side m where a: "a = (c, side, m)" by (cases a) auto
  note p = prepare_taken_ok [OF inv ca _ ok, of mem handle bytes c side m]
  have pr: "channel_send_prepare mem caller handle bytes hnds s = Inr (c, side, m)" using Inr a by simp
  note rc = resolve_channel [OF inv ca p(1) [OF pr]]
  have "length hnds = length (msg_handles m)" using p(2) [OF pr] by simp
  from channel_send_locked_inv [OF inv ca rc p(3) [OF pr] this] pr show ?thesis
    by (simp add: channel_send_def)
qed (use inv in \<open>simp add: channel_send_def\<close>)

lemma chan_install_handles_inv:
  assumes "ipc_inv vfs (X + mset (map hr_obj rs)) s" and "caller < length (tables s)"
    and "\<forall>r\<in>set rs. hr_kind r = HANDLE_KIND_SURFACE \<and> (\<exists>i. hr_obj r = SurfaceObj i)"
  shows "ipc_inv vfs X (snd (fold (chan_install_handle caller) rs (out, s)))"
  using assms
proof (induction rs arbitrary: out s)
  case (Cons r rs)
  from Cons.prems(3) obtain i where r: "hr_kind r = HANDLE_KIND_SURFACE" "hr_obj r = SurfaceObj i" by auto
  have inv: "ipc_inv vfs (add_mset (SurfaceObj i) (X + mset (map hr_obj rs))) s" using Cons.prems(1) r by simp
  obtain q t where a: "obj_handle_alloc caller HANDLE_KIND_SURFACE (SurfaceObj i) s = (q, t)" by fastforce
  from inv Cons.prems(2) a show ?case
  proof (cases rule: obj_handle_alloc_cases)
    case full
    have "ipc_inv vfs (X + mset (map hr_obj rs)) (obj_ref_put HANDLE_KIND_SURFACE (SurfaceObj i) s)"
      by (rule obj_ref_put_inv [OF inv]) simp_all
    moreover have "tables (obj_ref_put HANDLE_KIND_SURFACE (SurfaceObj i) s) = tables s"
      by (simp add: obj_ref_put_def surface_ref_put_def surface_unref_def surface_free_object_def Let_def)
    ultimately show ?thesis using Cons a full r by (simp add: chan_install_handle_def)
  next
    case (slot k)
    have "ipc_inv vfs (X + mset (map hr_obj rs)) t"
      using obj_handle_alloc_inv [OF inv Cons.prems(2)] a slot(1) by simp
    moreover have "length (tables t) = length (tables s)" using slot(4) by simp
    ultimately show ?thesis using Cons a slot(1) r by (simp add: chan_install_handle_def)
  qed
qed simp

lemma channel_recv_inv:
  assumes inv: "ipc_inv vfs X s" and ca: "caller < length (tables s)"
  shows "ipc_inv vfs X (snd (channel_recv t cancelled caller handle buflen s))"
proof (cases "obj_handle_resolve s caller handle HANDLE_KIND_CHANNEL")
  case (ChanEndObj c side)
  note rc = resolve_channel [OF inv ca ChanEndObj]
  let ?e = "chan_end (chans s ! c) side"
  have "ipc_inv vfs X (snd (fold (chan_install_handle caller) (msg_handles (hd (inbox ?e)))
      ([], channel_dequeue c side s)))" if "0 < inbox_count ?e"
  proof (rule chan_install_handles_inv)
    note d = channel_dequeue_inv [OF inv rc(1,2) that]
    show "ipc_inv vfs (X + mset (map hr_obj (msg_handles (hd (inbox ?e))))) (channel_dequeue c side s)"
      using d(2) by (simp add: msg_refs_def)
    show "\<forall>r\<in>set (msg_handles (hd (inbox ?e))). hr_kind r = HANDLE_KIND_SURFACE \<and> (\<exists>i. hr_obj r = SurfaceObj i)"
      using d(1) by (simp add: msg_ok_def)
  qed (use ca in \<open>simp add: channel_dequeue_def upd_chan_def\<close>)
  then show ?thesis using inv ChanEndObj ipc_inv_end_waits(2) [OF inv rc(1,2)]
    by (auto simp: channel_recv_def Let_def split: prod.splits)
qed (use inv in \<open>simp_all add: channel_recv_def\<close>)

end
