(* ===== verification/Ipc.thy ===== *)
theory Ipc
  imports Ipc_Refs
begin

text \<open>
  The communication layer as a whole.  The theory extends the reference accounting to
  endpoints, their names and pipes, closes it under every operation (\<open>ipc_step\<close>), and
  derives the properties of the layer.
\<close>

section \<open>The backlog of an endpoint\<close>

interpretation accept_ring: ring_queue accept_wf accept_q accept_head accept_count ENDPOINT_ACCEPT_MAX
  accept_put accept_get
proof
  fix e x e'
  show "accept_wf e \<Longrightarrow> length (accept_q e) = ENDPOINT_ACCEPT_MAX \<and> accept_head e < ENDPOINT_ACCEPT_MAX \<and>
      accept_count e \<le> ENDPOINT_ACCEPT_MAX"
    by (simp add: accept_wf_def)
  show "accept_wf (accept_put x e) \<and>
      accept_q (accept_put x e) = (accept_q e)[(accept_head e + accept_count e) mod ENDPOINT_ACCEPT_MAX := x] \<and>
      accept_head (accept_put x e) = accept_head e \<and> accept_count (accept_put x e) = Suc (accept_count e)"
    if "accept_wf e" and "accept_count e < ENDPOINT_ACCEPT_MAX"
    using that by (simp add: accept_wf_def accept_put_def)
  show "accept_wf e' \<and> x = accept_q e ! accept_head e \<and> accept_q e' = accept_q e \<and>
      accept_head e' = (accept_head e + 1) mod ENDPOINT_ACCEPT_MAX \<and> accept_count e' = accept_count e - 1"
    if "accept_wf e" and "0 < accept_count e" and "accept_get e = (x, e')"
    using that by (auto simp: accept_wf_def accept_get_def)
qed

lemma backlog_put:
  assumes "accept_wf e" and "accept_count e < ENDPOINT_ACCEPT_MAX"
  shows "accept_wf (accept_put x e)" "backlog (accept_put x e) = backlog e @ [x]"
  using accept_ring.put_law [OF assms(1), of x] assms(2) by (simp_all add: backlog_def)

lemma backlog_get:
  assumes "accept_wf e" and "0 < accept_count e" and "accept_get e = (x, e')"
  shows "accept_wf e'" "backlog e = x # backlog e'"
proof -
  have "ring_list (accept_q e) (accept_head e) (accept_count e) \<noteq> []"
    using assms(2) by (metis length_0_conv length_ring_list less_numeral_extra(3))
  from accept_ring.get_law [OF assms(1) this assms(3)] show "accept_wf e'" "backlog e = x # backlog e'"
    by (simp_all add: backlog_def)
qed

lemma backlog_fields [simp]:
  "backlog (e\<lparr>accept_wait := w\<rparr>) = backlog e" "backlog (e\<lparr>ep_unlinked := u\<rparr>) = backlog e"
  "backlog (e\<lparr>ep_allocated := a\<rparr>) = backlog e"
  "accept_wf (e\<lparr>accept_wait := w\<rparr>) = accept_wf e" "accept_wf (e\<lparr>ep_unlinked := u\<rparr>) = accept_wf e"
  "accept_wf (e\<lparr>ep_allocated := a\<rparr>) = accept_wf e"
  by (simp_all add: backlog_def accept_wf_def)

lemma accept_fields [simp]:
  "ep_allocated (accept_put x e) = ep_allocated e" "ep_path (accept_put x e) = ep_path e"
  "ep_allocated (snd (accept_get e)) = ep_allocated e" "ep_path (snd (accept_get e)) = ep_path e"
  by (simp_all add: accept_put_def accept_get_def)

lemma drain_backlog:
  assumes "accept_wf e" and "drain_queue (\<lambda>e. accept_count e = 0) accept_get (accept_count e) e = (xs, e')"
  shows "xs = backlog e" "accept_wf e'" "backlog e' = []" "ep_allocated e' = ep_allocated e" "ep_path e' = ep_path e"
proof -
  have "xs = take (accept_count e) (backlog e) \<and> accept_wf e' \<and> backlog e' = drop (accept_count e) (backlog e)"
    unfolding backlog_def by (rule accept_ring.drain_queue_spec [OF assms(1) _ assms(2)]) (simp flip: length_0_conv)
  moreover have "length (backlog e) = accept_count e" by (simp add: backlog_def)
  ultimately show "xs = backlog e" "accept_wf e'" "backlog e' = []" by simp_all
  have "ep_allocated e' = ep_allocated e \<and> ep_path e' = ep_path e"
    if "drain_queue (\<lambda>e. accept_count e = 0) accept_get n e = (xs, e')" for n e xs e'
    using that
  proof (induction n arbitrary: e xs)
    case (Suc n)
    show ?case
    proof (cases "accept_count e = 0")
      case False
      then obtain ys where "drain_queue (\<lambda>e. accept_count e = 0) accept_get n (snd (accept_get e)) = (ys, e')"
        using Suc.prems by (auto split: prod.splits)
      from Suc.IH [OF this] show ?thesis by simp
    qed (use Suc.prems in simp)
  qed simp
  with assms(2) show "ep_allocated e' = ep_allocated e" "ep_path e' = ep_path e" by blast+
qed

section \<open>Endpoints and their names\<close>

lemma epfs_ok_epts:
  assumes "epfs_ok vfs nodes es" and "length es \<le> length es'"
    and "\<And>i. i < length es \<Longrightarrow> ep_allocated (es ! i) \<Longrightarrow> ep_allocated (es' ! i) \<and> ep_path (es' ! i) = ep_path (es ! i)"
  shows "epfs_ok vfs nodes es'"
proof -
  have "node_ok vfs es' n" if "node_ok vfs es n" for n
    using that assms(2,3) unfolding node_ok_def by (metis (no_types, lifting) order_less_le_trans)
  with assms(1) show ?thesis by (simp add: epfs_ok_def)
qed

lemma ipc_inv_set_ept:
  assumes inv: "ipc_inv vfs X s" and e: "e < length (epts s)"
    and bal: "mset (backlog x) + Y = mset (backlog (epts s ! e)) + X"
    and x: "ept_ok1 (count (refs s + X) (EndpointObj e)) x"
    and al: "ep_allocated x = ep_allocated (epts s ! e)" "ep_path x = ep_path (epts s ! e)"
  shows "ipc_inv vfs Y (s\<lparr>epts := (epts s)[e := x]\<rparr>)"
proof -
  have R: "refs (s\<lparr>epts := (epts s)[e := x]\<rparr>) + Y = refs s + X"
    using refs_set_ept [OF e] bal by (rule cancel_exchange)
  have ok: "ept_ok (refs s + X) (epts s) (endpoint_live s)" using inv by (simp add: ipc_inv_def)
  have "ept_ok (refs s + X) ((epts s)[e := x]) (endpoint_live s)"
    by (rule ept_ok_update [OF ok e]) (use x al in simp_all)
  moreover have "epfs_ok vfs (epfs_nodes s) ((epts s)[e := x])"
    by (rule epfs_ok_epts [of vfs _ "epts s"]) (use inv al e in \<open>auto simp: ipc_inv_def nth_list_update\<close>)
  ultimately show ?thesis unfolding ipc_inv_def R using inv by (simp add: ipc_inv_def)
qed

lemma inv_ept_ok1:
  assumes "ipc_inv vfs X s" and "e < length (epts s)"
  shows "ept_ok1 (count (refs s + X) (EndpointObj e)) (epts s ! e)"
  using assms by (simp add: ipc_inv_def ept_ok_def)

lemma resolve_endpoint:
  assumes "ipc_inv vfs X s" and "p < length (tables s)"
    and "obj_handle_resolve s p handle HANDLE_KIND_ENDPOINT = EndpointObj i"
  shows "i < length (epts s)"
proof -
  have "EndpointObj i \<in># refs s" using resolve_inv(1) [OF assms(1-3)] by simp
  then show ?thesis using assms(1) by (simp add: ipc_inv_def ept_ok_def)
qed

lemma ipc_inv_ept_wait:
  assumes "ipc_inv vfs X s" and "i < length (epts s)"
  shows "ipc_inv vfs X (upd_ept i (\<lambda>e. e\<lparr>accept_wait := f e\<rparr>) s)"
    and "ipc_inv vfs X (upd_ept i (\<lambda>e. e\<lparr>ep_unlinked := u\<rparr>) s)"
  unfolding upd_ept_def
  by (rule ipc_inv_set_ept [OF assms]; use inv_ept_ok1 [OF assms] in \<open>simp add: ept_ok1_def\<close>)+

lemma release_end_obj_inv:
  assumes "ipc_inv vfs (add_mset x X) s" and "x = ChanEndObj c d"
  shows "ipc_inv vfs X (release_end_obj x s)"
  using assms channel_release_raw_end_inv by (simp add: release_end_obj_def)

lemma surface_unref_frame [simp]:
  "tables (surface_unref i s) = tables s" "epts (surface_unref i s) = epts s"
  "endpoint_live (surface_unref i s) = endpoint_live s" "epfs_nodes (surface_unref i s) = epfs_nodes s"
  by (simp_all add: surface_unref_def surface_free_object_def upd_surface_def Let_def)

lemma chan_msg_free_frame [simp]:
  "tables (chan_msg_free_undelivered m s) = tables s" "epts (chan_msg_free_undelivered m s) = epts s"
  "endpoint_live (chan_msg_free_undelivered m s) = endpoint_live s"
  "epfs_nodes (chan_msg_free_undelivered m s) = epfs_nodes s"
proof -
  have "tables (fold (\<lambda>r s. obj_ref_put (hr_kind r) (hr_obj r) s) rs s) = tables s \<and>
      epts (fold (\<lambda>r s. obj_ref_put (hr_kind r) (hr_obj r) s) rs s) = epts s \<and>
      endpoint_live (fold (\<lambda>r s. obj_ref_put (hr_kind r) (hr_obj r) s) rs s) = endpoint_live s \<and>
      epfs_nodes (fold (\<lambda>r s. obj_ref_put (hr_kind r) (hr_obj r) s) rs s) = epfs_nodes s" for rs
    by (induction rs arbitrary: s) (simp_all add: obj_ref_put_def surface_ref_put_def split: kobj.splits)
  from this [of "msg_handles m"] show "tables (chan_msg_free_undelivered m s) = tables s" "epts (chan_msg_free_undelivered m s) = epts s"
    "endpoint_live (chan_msg_free_undelivered m s) = endpoint_live s"
    "epfs_nodes (chan_msg_free_undelivered m s) = epfs_nodes s"
    by (simp_all add: chan_msg_free_undelivered_def)
qed

lemma chan_msgs_free_frame [simp]:
  "tables (fold chan_msg_free_undelivered ms s) = tables s" "epts (fold chan_msg_free_undelivered ms s) = epts s"
  "endpoint_live (fold chan_msg_free_undelivered ms s) = endpoint_live s"
  "epfs_nodes (fold chan_msg_free_undelivered ms s) = epfs_nodes s"
  by (induction ms arbitrary: s) simp_all

lemma channel_release_frame [simp]:
  "tables (channel_release_raw_end c d s) = tables s" "epts (channel_release_raw_end c d s) = epts s"
  "endpoint_live (channel_release_raw_end c d s) = endpoint_live s"
  "epfs_nodes (channel_release_raw_end c d s) = epfs_nodes s"
  by (simp_all add: channel_release_raw_end_def Let_def channel_free_def upd_chan_def)

lemma release_ends_frame [simp]:
  "tables (fold release_end_obj xs s) = tables s" "epts (fold release_end_obj xs s) = epts s"
  "endpoint_live (fold release_end_obj xs s) = endpoint_live s"
  "epfs_nodes (fold release_end_obj xs s) = epfs_nodes s"
  by (induction xs arbitrary: s) (simp_all add: release_end_obj_def split: kobj.splits)

lemma release_ends_inv:
  assumes "ipc_inv vfs (X + mset xs) s" and "\<forall>x\<in>set xs. \<exists>c. x = ChanEndObj c 1"
  shows "ipc_inv vfs X (fold release_end_obj xs s)"
  using assms
proof (induction xs arbitrary: s)
  case (Cons x xs)
  then obtain c where x: "x = ChanEndObj c 1" by auto
  have "ipc_inv vfs (add_mset x (X + mset xs)) s" using Cons.prems(1) by simp
  from release_end_obj_inv [OF this x] Cons show ?case by simp
qed simp

lemma endpoint_accept_inv:
  assumes inv: "ipc_inv vfs X s" and ca: "caller < length (tables s)"
  shows "ipc_inv vfs X (snd (endpoint_accept t cancelled caller handle s))"
proof (cases "obj_handle_resolve s caller handle HANDLE_KIND_ENDPOINT")
  case (EndpointObj i)
  note i = resolve_endpoint [OF inv ca EndpointObj]
  let ?e = "epts s ! i"
  note ok = inv_ept_ok1 [OF inv i]
  show ?thesis
  proof (cases "0 < accept_count ?e")
    case True
    obtain en e1 where g: "accept_get ?e = (en, e1)" by fastforce
    have wf: "accept_wf ?e" using ok by (simp add: ept_ok1_def)
    note b = backlog_get [OF wf True g]
    obtain c where en: "en = ChanEndObj c 1" using ok b(2) by (auto simp: ept_ok1_def)
    have e1: "ep_allocated e1 = ep_allocated ?e" "ep_path e1 = ep_path ?e"
      using accept_fields(3,4) [of ?e] g by simp_all
    have "ipc_inv vfs (add_mset en X) (s\<lparr>epts := (epts s)[i := e1]\<rparr>)"
      by (rule ipc_inv_set_ept [OF inv i]) (use ok b e1 in \<open>auto simp: ept_ok1_def\<close>)
    then have inv1: "ipc_inv vfs (add_mset en X) (upd_ept i (\<lambda>_. e1) s)" by (simp add: upd_ept_def)
    have ca1: "caller < length (tables (upd_ept i (\<lambda>_. e1) s))" using ca by (simp add: upd_ept_def)
    obtain r t where a: "obj_handle_alloc caller HANDLE_KIND_CHANNEL en (upd_ept i (\<lambda>_. e1) s) = (r, t)" by fastforce
    from inv1 ca1 a have "ipc_inv vfs X (case r of Inl _ \<Rightarrow> release_end_obj en t | Inr _ \<Rightarrow> t)"
    proof (cases rule: obj_handle_alloc_cases)
      case full
      then show ?thesis using release_end_obj_inv [OF inv1 en] by simp
    next
      case (slot h)
      then show ?thesis using obj_handle_alloc_inv [OF inv1 ca1, of h t] a en by simp
    qed
    then show ?thesis using EndpointObj True g a by (cases r) (simp_all add: endpoint_accept_def Let_def)
  next
    case False
    then show ?thesis using inv EndpointObj ipc_inv_ept_wait(1) [OF inv i, of "\<lambda>e. wait_queue_block t (accept_wait e)"]
      by (auto simp: endpoint_accept_def Let_def)
  qed
qed (use inv in \<open>simp_all add: endpoint_accept_def\<close>)

lemma find_child_Some:
  assumes "find_child nodes ino name = Some k"
  shows "k < length nodes" "en_used (nodes ! k)" "en_parent_ino (nodes ! k) = ino" "en_name (nodes ! k) = name"
  using assms by (auto simp: find_child_def first_index_Some split: if_splits)

lemma epfs_ok_free:
  assumes "epfs_ok vfs nodes es"
  shows "epfs_ok vfs (nodes[k := epfs_node_free]) es"
  unfolding epfs_ok_def
proof (intro conjI allI impI ballI)
  show "length (nodes[k := epfs_node_free]) = 64" using assms by (simp add: epfs_ok_def)
  show "node_ok vfs es n" if "n \<in> set (nodes[k := epfs_node_free])" for n
  proof -
    have "n = epfs_node_free \<or> n \<in> set nodes" using that set_update_subset_insert by fastforce
    then show ?thesis using assms by (auto simp: epfs_ok_def node_ok_def epfs_node_free_def)
  qed
  fix i j
  assume "i < length (nodes[k := epfs_node_free])" "j < length (nodes[k := epfs_node_free])"
    and "en_used (nodes[k := epfs_node_free] ! i) \<and> en_used (nodes[k := epfs_node_free] ! j) \<and>
      en_parent_ino (nodes[k := epfs_node_free] ! i) = en_parent_ino (nodes[k := epfs_node_free] ! j) \<and>
      en_name (nodes[k := epfs_node_free] ! i) = en_name (nodes[k := epfs_node_free] ! j)"
  then show "i = j"
    using assms by (cases "k = i"; cases "k = j") (auto simp: epfs_ok_def epfs_node_free_def)
qed

text \<open>Publishing a name: the new entry is the only one with its parent and name.\<close>

lemma epfs_create_endpoint_ok:
  assumes ok: "epfs_ok vfs nodes es" and cr: "epfs_create_endpoint dir name i nodes = Inr nodes'"
    and i: "i < length es" "ep_allocated (es ! i)" "split_parent (ep_path (es ! i)) = Inr (pp, name)"
    and dir: "vfs pp = Inr dir" "vn_epfs dir"
  shows "epfs_ok vfs nodes' es"
proof -
  define nw where "nw = \<lparr>en_type = EPFS_ENDPOINT, en_name = name, en_parent_ino = vn_ino dir, en_endpoint = i, en_used = True\<rparr>"
  obtain k where k: "first_index (\<lambda>n. \<not> en_used n) nodes = Some k" and nodes': "nodes' = nodes[k := nw]"
    and d: "vn_type dir = VFS_DT_DIR" "name \<noteq> []" "length name < EPFS_NAME_MAX"
    and none: "find_child nodes (vn_ino dir) name = None"
    using cr by (auto simp: epfs_create_endpoint_def nw_def split: if_splits option.splits)
  have fresh: "\<not> (en_used n \<and> en_parent_ino n = vn_ino dir \<and> en_name n = name)" if "n \<in> set nodes" for n
    using none d that by (auto simp: find_child_def first_index_None)
  have kl: "k < length nodes" using k by (simp add: first_index_Some)
  show ?thesis
    unfolding epfs_ok_def nodes'
  proof (intro conjI allI impI ballI)
    show "length (nodes[k := nw]) = 64" using ok by (simp add: epfs_ok_def)
    show "node_ok vfs es n" if "n \<in> set (nodes[k := nw])" for n
    proof -
      have "n = nw \<or> n \<in> set nodes" using that set_update_subset_insert by fastforce
      then show ?thesis using ok i dir d by (auto simp: epfs_ok_def node_ok_def nw_def)
    qed
    fix a b
    assume ab: "a < length (nodes[k := nw])" "b < length (nodes[k := nw])"
      and same: "en_used (nodes[k := nw] ! a) \<and> en_used (nodes[k := nw] ! b) \<and>
      en_parent_ino (nodes[k := nw] ! a) = en_parent_ino (nodes[k := nw] ! b) \<and>
      en_name (nodes[k := nw] ! a) = en_name (nodes[k := nw] ! b)"
    consider "a = k" "b = k" | "a = k" "b \<noteq> k" | "a \<noteq> k" "b = k" | "a \<noteq> k" "b \<noteq> k" by blast
    then show "a = b"
    proof cases
      case 2
      then show ?thesis using same fresh [of "nodes ! b"] ab kl by (simp add: nw_def)
    next
      case 3
      then show ?thesis using same fresh [of "nodes ! a"] ab kl by (simp add: nw_def)
    next
      case 4
      then show ?thesis using same ok ab by (auto simp: epfs_ok_def)
    qed simp
  qed
qed

text \<open>Taking the name back: the entry just created is the one removed.\<close>

lemma epfs_create_unlink:
  assumes ok: "epfs_ok vfs nodes es" and cr: "epfs_create_endpoint dir name i nodes = Inr nodes'"
  obtains ns where "epfs_unlink dir name nodes' = Inr ns" "epfs_ok vfs ns es"
proof -
  define nw where "nw = \<lparr>en_type = EPFS_ENDPOINT, en_name = name, en_parent_ino = vn_ino dir, en_endpoint = i, en_used = True\<rparr>"
  obtain k where k: "first_index (\<lambda>n. \<not> en_used n) nodes = Some k" and nodes': "nodes' = nodes[k := nw]"
    and d: "vn_type dir = VFS_DT_DIR" "name \<noteq> []" "length name < EPFS_NAME_MAX"
    and none: "find_child nodes (vn_ino dir) name = None"
    using cr by (auto simp: epfs_create_endpoint_def nw_def split: if_splits option.splits)
  have fresh: "\<not> (en_used n \<and> en_parent_ino n = vn_ino dir \<and> en_name n = name)" if "n \<in> set nodes" for n
    using none d that by (auto simp: find_child_def first_index_None)
  have kl: "k < length nodes" using k by (simp add: first_index_Some)
  have "find_child nodes' (vn_ino dir) name = Some k"
    using d fresh kl unfolding find_child_def nodes' by (auto simp: first_index_Some nw_def)
  then have "epfs_unlink dir name nodes' = Inr (nodes[k := epfs_node_free])"
    using d kl by (simp add: epfs_unlink_def nodes' nw_def)
  with that epfs_ok_free [OF ok] show thesis by blast
qed

lemma ipc_inv_add_endpoint:
  assumes inv: "ipc_inv vfs X s" and x: "ep_allocated x" "accept_wf x" "backlog x = []"
    and nodes: "epfs_ok vfs nodes (epts s @ [x])"
  shows "ipc_inv vfs (add_mset (EndpointObj (length (epts s))) X)
    (s\<lparr>epfs_nodes := nodes, epts := epts s @ [x], endpoint_live := endpoint_live s + 1\<rparr>)"
proof -
  let ?R = "refs s + X" and ?e = "length (epts s)"
  have ok: "ept_ok ?R (epts s) (endpoint_live s)" using inv by (simp add: ipc_inv_def)
  then have none: "count ?R (EndpointObj ?e) = 0" by (auto simp: ept_ok_def simp flip: not_in_iff)
  have "ept_ok (add_mset (EndpointObj ?e) ?R) (epts s @ [x]) (endpoint_live s + 1)"
    unfolding ept_ok_def
  proof (intro conjI allI impI)
    fix j
    assume "EndpointObj j \<in># add_mset (EndpointObj ?e) ?R"
    moreover have "EndpointObj j \<in># ?R \<Longrightarrow> j < ?e" using ok unfolding ept_ok_def by blast
    ultimately show "j < length (epts s @ [x])" by auto
  next
    fix j
    assume "j < length (epts s @ [x])"
    then consider "j = ?e" | "j < ?e" by fastforce
    then show "ept_ok1 (count (add_mset (EndpointObj ?e) ?R) (EndpointObj j)) ((epts s @ [x]) ! j)"
    proof cases
      case 1
      then show ?thesis using none x by (simp add: ept_ok1_def)
    next
      case 2
      then show ?thesis using ok by (auto simp: ept_ok_def nth_append)
    qed
  qed (use ok x in \<open>simp add: ept_ok_def\<close>)
  moreover have R: "refs (s\<lparr>epfs_nodes := nodes, epts := epts s @ [x], endpoint_live := endpoint_live s + 1\<rparr>) = refs s"
    using x(3) by (simp add: refs_def)
  ultimately show ?thesis unfolding ipc_inv_def R using inv nodes by (simp add: ipc_inv_def)
qed

lemma endpoint_new_facts [simp]:
  "ep_allocated (endpoint_new o' pid path)" "accept_wf (endpoint_new o' pid path)"
  "backlog (endpoint_new o' pid path) = []" "ep_path (endpoint_new o' pid path) = path"
  by (simp_all add: endpoint_new_def accept_wf_def backlog_def)

lemma ipc_inv_epfs:
  assumes "ipc_inv vfs X s" and "epfs_ok vfs ns (epts s)"
  shows "ipc_inv vfs X (s\<lparr>epfs_nodes := ns\<rparr>)"
  using assms by (simp add: ipc_inv_def)

lemma endpoint_listen_inv:
  assumes inv: "ipc_inv vfs X s" and ow: "owner < length (tables s)"
  shows "ipc_inv vfs X (snd (endpoint_listen vfs mem owner path s))"
proof (cases "\<exists>pp leaf parent nodes. split_parent path = Inr (pp, leaf) \<and> vfs pp = Inr parent \<and> vn_epfs parent \<and>
    length path < 64 \<and> mem \<and> epfs_create_endpoint parent leaf (length (epts s)) (epfs_nodes s) = Inr nodes")
  case False
  then show ?thesis using inv
    by (auto simp: endpoint_listen_def Let_def split: sum.splits prod.splits)
next
  case True
  then obtain pp leaf parent nodes where sp: "split_parent path = Inr (pp, leaf)" and v: "vfs pp = Inr parent" "vn_epfs parent"
    and g: "length path < 64" mem and cr: "epfs_create_endpoint parent leaf (length (epts s)) (epfs_nodes s) = Inr nodes"
    by blast
  let ?x = "endpoint_new owner (pids s ! owner) path" and ?s1 = "s\<lparr>epfs_nodes := nodes\<rparr>"
  let ?t = "s\<lparr>epfs_nodes := nodes, epts := epts s @ [?x], endpoint_live := endpoint_live s + 1\<rparr>"
  have "epfs_ok vfs (epfs_nodes s) (epts s @ [?x])"
    by (rule epfs_ok_epts [of vfs _ "epts s"]) (use inv in \<open>auto simp: ipc_inv_def nth_append\<close>)
  from epfs_create_endpoint_ok [OF this cr _ _ _ v] sp
  have "epfs_ok vfs nodes (epts s @ [?x])" by simp
  then have inv1: "ipc_inv vfs (add_mset (EndpointObj (length (epts s))) X) ?t"
    by (intro ipc_inv_add_endpoint [OF inv]) simp_all
  obtain r t where a: "obj_handle_alloc owner HANDLE_KIND_ENDPOINT (EndpointObj (length (epts s))) ?s1 = (r, t)" by fastforce
  show ?thesis
  proof (cases r)
    case (Inl e)
    then have t: "t = ?s1" using a by (auto simp: obj_handle_alloc_def split: option.splits)
    have "epfs_ok vfs (epfs_nodes s) (epts s)" using inv by (simp add: ipc_inv_def)
    then obtain ns where ns: "epfs_unlink parent leaf nodes = Inr ns" "epfs_ok vfs ns (epts s)"
      by (rule epfs_create_unlink [OF _ cr])
    have "ipc_inv vfs X (t\<lparr>epfs_nodes := ns\<rparr>)" using ipc_inv_epfs [OF inv ns(2)] by (simp add: t)
    with Inl t sp v g cr a ns(1) show ?thesis by (simp add: endpoint_listen_def Let_def)
  next
    case (Inr h)
    have a2: "obj_handle_alloc owner (kind_of (EndpointObj (length (epts s)))) (EndpointObj (length (epts s))) ?t =
        (Inr h, t\<lparr>epts := epts t @ [?x], endpoint_live := endpoint_live t + 1\<rparr>)"
      using a Inr by (auto simp: obj_handle_alloc_def set_slot_def split: option.splits)
    have "ipc_inv vfs X (t\<lparr>epts := epts t @ [?x], endpoint_live := endpoint_live t + 1\<rparr>)"
      by (rule obj_handle_alloc_inv [OF inv1 _ a2]) (use ow in simp_all)
    with Inr sp v g cr a show ?thesis by (simp add: endpoint_listen_def Let_def)
  qed
qed

section \<open>Releasing a handle\<close>

lemma epfs_unlink_Inr: "epfs_unlink dir name nodes = Inr ns \<Longrightarrow> \<exists>k. ns = nodes[k := epfs_node_free]"
  by (auto simp: epfs_unlink_def split: option.splits if_splits)

lemma epfs_unlink_removes:
  assumes ok: "epfs_ok vfs nodes es" and "split_parent (ep_path (es ! i)) = Inr (pp, leaf)"
    and "vfs pp = Inr parent" and "vn_epfs parent"
  defines "ns \<equiv> (case epfs_unlink parent leaf nodes of Inl _ \<Rightarrow> nodes | Inr ns \<Rightarrow> ns)"
  shows "epfs_ok vfs ns es" and "\<forall>n\<in>set ns. en_used n \<and> en_type n = EPFS_ENDPOINT \<longrightarrow> en_endpoint n \<noteq> i"
proof -
  show "epfs_ok vfs ns es"
    using ok epfs_ok_free [OF ok] by (cases "epfs_unlink parent leaf nodes") (auto simp: ns_def dest!: epfs_unlink_Inr)
  show "\<forall>n\<in>set ns. en_used n \<and> en_type n = EPFS_ENDPOINT \<longrightarrow> en_endpoint n \<noteq> i"
  proof (intro ballI impI notI)
    fix n
    assume n: "n \<in> set ns" "en_used n \<and> en_type n = EPFS_ENDPOINT" "en_endpoint n = i"
    have "node_ok vfs es n" using \<open>epfs_ok vfs ns es\<close> n(1) by (simp add: epfs_ok_def)
    then have nn: "en_name n = leaf" "en_parent_ino n = vn_ino parent" "vn_type parent = VFS_DT_DIR"
      "leaf \<noteq> []" "length leaf < EPFS_NAME_MAX"
      using n assms(2-4) by (auto simp: node_ok_def)
    obtain j where j: "j < length ns" "ns ! j = n" using n(1) by (metis in_set_conv_nth)
    have sub: "j < length nodes \<and> nodes ! j = n"
    proof -
      consider "ns = nodes" | k where "ns = nodes[k := epfs_node_free]"
        by (cases "epfs_unlink parent leaf nodes") (auto simp: ns_def dest!: epfs_unlink_Inr)
      then show ?thesis
      proof cases
        case (2 k)
        then have "j \<noteq> k" using j n(2) by (auto simp: epfs_node_free_def)
        then show ?thesis using 2 j by simp
      qed (use j in simp)
    qed
    obtain k where k: "find_child nodes (vn_ino parent) leaf = Some k"
      using sub n(2) nn by (cases "find_child nodes (vn_ino parent) leaf")
        (auto simp: find_child_def first_index_None dest!: nth_mem)
    note fk = find_child_Some [OF k]
    have "j = k" using ok sub fk n(2) nn by (auto simp: epfs_ok_def)
    then have "epfs_unlink parent leaf nodes = Inr (nodes[k := epfs_node_free])"
      using k nn n(2) sub by (simp add: epfs_unlink_def)
    then have "ns = nodes[k := epfs_node_free]" by (simp add: ns_def)
    then show False using j \<open>j = k\<close> n(2) sub by (auto simp: epfs_node_free_def)
  qed
qed

lemma ipc_inv_free_endpoint:
  assumes inv: "ipc_inv vfs (add_mset (EndpointObj i) X) s" and e: "backlog (epts s ! i) = []"
    and names: "\<forall>n\<in>set (epfs_nodes s). en_used n \<and> en_type n = EPFS_ENDPOINT \<longrightarrow> en_endpoint n \<noteq> i"
  shows "ipc_inv vfs X ((upd_ept i (\<lambda>e. e\<lparr>ep_allocated := False\<rparr>) s)\<lparr>endpoint_live := endpoint_live s - 1\<rparr>)"
proof -
  let ?R = "refs s + X" and ?x = "(epts s ! i)\<lparr>ep_allocated := False\<rparr>"
  have ok: "ept_ok (add_mset (EndpointObj i) ?R) (epts s) (endpoint_live s)" using inv by (simp add: ipc_inv_def)
  then have i: "i < length (epts s)" by (simp add: ept_ok_def)
  have ok1: "ept_ok1 (Suc (count ?R (EndpointObj i))) (epts s ! i)"
    using ok i by (auto simp: ept_ok_def)
  then have al: "ep_allocated (epts s ! i)" "count ?R (EndpointObj i) = 0"
    by (auto simp: ept_ok1_def split: if_splits)
  have "ept_ok ?R ((epts s)[i := ?x]) (endpoint_live s - 1)"
    by (rule ept_ok_update [OF ok i]) (use ok1 al e in \<open>auto simp: ept_ok1_def\<close>)
  moreover have "epfs_ok vfs (epfs_nodes s) ((epts s)[i := ?x])"
  proof -
    have "node_ok vfs ((epts s)[i := ?x]) n" if "n \<in> set (epfs_nodes s)" for n
    proof -
      have "node_ok vfs (epts s) n" using inv that by (simp add: ipc_inv_def epfs_ok_def)
      then show ?thesis using names that by (auto simp: node_ok_def)
    qed
    then show ?thesis using inv by (simp add: ipc_inv_def epfs_ok_def)
  qed
  moreover have "refs (s\<lparr>epts := (epts s)[i := ?x], endpoint_live := endpoint_live s - 1\<rparr>) = refs s"
    using refs_set_ept [OF i, of ?x] by simp
  ultimately show ?thesis using inv by (simp add: ipc_inv_def upd_ept_def)
qed

lemma endpoint_teardown_inv:
  assumes inv: "ipc_inv vfs X s" and p: "p < length (tables s)" "h < OBJ_HANDLE_MAX"
    and sl: "oh_used (slot s p h)" "oh_obj (slot s p h) = EndpointObj i" and x: "\<not> oh_used x"
  shows "ipc_inv vfs X (set_slot p h x (endpoint_teardown vfs i s))"
proof -
  have tab: "tables_ok (tables s)" using inv by (simp add: ipc_inv_def)
  have "EndpointObj i \<in># refs s" using slot_in_refs [OF tab p sl(1)] sl(2) by simp
  then have i: "i < length (epts s)" using inv by (simp add: ipc_inv_def ept_ok_def)
  define s1 where "s1 = upd_ept i (\<lambda>e. e\<lparr>ep_unlinked := True\<rparr>) s"
  define ns where "ns = (case split_parent (ep_path (epts s ! i)) of
       Inl _ \<Rightarrow> epfs_nodes s
     | Inr (pp, leaf) \<Rightarrow> (case vfs pp of Inl _ \<Rightarrow> epfs_nodes s
       | Inr parent \<Rightarrow> if vn_epfs parent then (case epfs_unlink parent leaf (epfs_nodes s) of
            Inl _ \<Rightarrow> epfs_nodes s | Inr ns \<Rightarrow> ns) else epfs_nodes s))"
  define s2 where "s2 = s1\<lparr>epfs_nodes := ns\<rparr>"
  define e3 where "e3 = snd (drain_queue (\<lambda>e. accept_count e = 0) accept_get (accept_count (epts s2 ! i)) (epts s2 ! i))"
  define dr where "dr = fst (drain_queue (\<lambda>e. accept_count e = 0) accept_get (accept_count (epts s2 ! i)) (epts s2 ! i))"
  define s3 where "s3 = upd_ept i (\<lambda>_. e3\<lparr>accept_wait := []\<rparr>) s2"
  define s4 where "s4 = fold release_end_obj dr s3"
  have s1: "epfs_nodes s1 = epfs_nodes s" "epts s1 ! i = (epts s ! i)\<lparr>ep_unlinked := True\<rparr>" "tables s1 = tables s"
    "length (epts s1) = length (epts s)"
    using i by (simp_all add: s1_def upd_ept_def)
  have td: "endpoint_teardown vfs i s = (upd_ept i (\<lambda>e. e\<lparr>ep_allocated := False\<rparr>) s4)\<lparr>endpoint_live := endpoint_live s4 - 1\<rparr>"
  proof -
    have "(case split_parent (ep_path (epts s ! i)) of
         Inl _ \<Rightarrow> s1
       | Inr (pp, leaf) \<Rightarrow> (case vfs pp of Inl _ \<Rightarrow> s1
         | Inr parent \<Rightarrow> if vn_epfs parent then (case epfs_unlink parent leaf (epfs_nodes s1) of
              Inl _ \<Rightarrow> s1 | Inr ns \<Rightarrow> s1\<lparr>epfs_nodes := ns\<rparr>) else s1)) = s2"
      by (simp add: s2_def ns_def s1(1) [symmetric] split: sum.splits)
    moreover have "endpoint_live s3 = endpoint_live s4" by (simp add: s4_def)
    ultimately show ?thesis
      unfolding endpoint_teardown_def Let_def s1_def [symmetric]
      by (simp add: case_prod_beta e3_def [symmetric] dr_def [symmetric] s3_def [symmetric] s4_def [symmetric])
  qed
  have inv1: "ipc_inv vfs X s1" unfolding s1_def by (rule ipc_inv_ept_wait(2) [OF inv i])
  have names1: "\<forall>n\<in>set (epfs_nodes s). en_used n \<and> en_type n = EPFS_ENDPOINT \<longrightarrow> en_endpoint n \<noteq> i"
    if "\<not> (\<exists>pp leaf parent. split_parent (ep_path (epts s ! i)) = Inr (pp, leaf) \<and> vfs pp = Inr parent \<and> vn_epfs parent)"
    using inv that by (force simp: ipc_inv_def epfs_ok_def node_ok_def)
  have ns: "epfs_ok vfs ns (epts s) \<and> (\<forall>n\<in>set ns. en_used n \<and> en_type n = EPFS_ENDPOINT \<longrightarrow> en_endpoint n \<noteq> i)"
  proof (cases "\<exists>pp leaf parent. split_parent (ep_path (epts s ! i)) = Inr (pp, leaf) \<and> vfs pp = Inr parent \<and> vn_epfs parent")
    case True
    then obtain pp leaf parent where c: "split_parent (ep_path (epts s ! i)) = Inr (pp, leaf)" "vfs pp = Inr parent" "vn_epfs parent"
      by blast
    have "epfs_ok vfs (epfs_nodes s) (epts s)" using inv by (simp add: ipc_inv_def)
    from epfs_unlink_removes [OF this c] c show ?thesis by (simp add: ns_def)
  next
    case False
    then have "ns = epfs_nodes s" by (auto simp: ns_def split: sum.splits)
    then show ?thesis using names1 [OF False] inv by (simp add: ipc_inv_def)
  qed
  have "epfs_ok vfs ns (epts s1)"
    by (rule epfs_ok_epts [of vfs _ "epts s"]) (use ns i in \<open>auto simp: s1_def upd_ept_def nth_list_update\<close>)
  then have inv2: "ipc_inv vfs X s2" unfolding s2_def by (rule ipc_inv_epfs [OF inv1])
  have i2: "i < length (epts s2)" using i s1(4) by (simp add: s2_def)
  note ok2 = inv_ept_ok1 [OF inv2 i2]
  have wf2: "accept_wf (epts s2 ! i)" using ok2 by (simp add: ept_ok1_def)
  note d = drain_backlog [OF wf2, of dr e3, unfolded dr_def e3_def, simplified, folded dr_def e3_def]
  have "ipc_inv vfs (X + mset dr) s3"
    unfolding s3_def upd_ept_def
    by (rule ipc_inv_set_ept [OF inv2 i2]) (use d ok2 in \<open>auto simp: ept_ok1_def\<close>)
  moreover have "\<forall>x\<in>set dr. \<exists>c. x = ChanEndObj c 1" using d(1) ok2 by (simp add: ept_ok1_def)
  ultimately have inv4: "ipc_inv vfs X s4" unfolding s4_def by (rule release_ends_inv)
  have f4: "tables s4 = tables s" "epfs_nodes s4 = ns" "epts s4 ! i = e3\<lparr>accept_wait := []\<rparr>"
    using i2 s1(3) by (simp_all add: s4_def s3_def s2_def upd_ept_def)
  have sl4: "slot s4 p h = slot s p h" by (simp add: slot_def f4)
  have inv5: "ipc_inv vfs (add_mset (EndpointObj i) X) (set_slot p h x s4)"
    using ipc_inv_clear_slot [OF inv4, of p h x] p sl x by (simp add: f4 sl4)
  have "set_slot p h x (endpoint_teardown vfs i s) =
      (upd_ept i (\<lambda>e. e\<lparr>ep_allocated := False\<rparr>) (set_slot p h x s4))
        \<lparr>endpoint_live := endpoint_live (set_slot p h x s4) - 1\<rparr>"
    unfolding td by (simp add: set_slot_def upd_ept_def)
  moreover have "ipc_inv vfs X ((upd_ept i (\<lambda>e. e\<lparr>ep_allocated := False\<rparr>) (set_slot p h x s4))
        \<lparr>endpoint_live := endpoint_live (set_slot p h x s4) - 1\<rparr>)"
    by (rule ipc_inv_free_endpoint [OF inv5]) (use f4 d(3) ns in simp_all)
  ultimately show ?thesis by simp
qed

lemma pipe_end_unused_inv:
  assumes inv: "ipc_inv vfs (add_mset (PipeEndObj i) X) s"
  shows "i < length (g_pipe_ends s)" "pe_used (g_pipe_ends s ! i)"
    "ipc_inv vfs X (upd_pipe_end i (\<lambda>e. e\<lparr>pe_used := False\<rparr>) s)"
proof -
  let ?R = "refs s + X"
  have ok: "pend_ok (add_mset (PipeEndObj i) ?R) (g_pipe_ends s)" using inv by (simp add: ipc_inv_def)
  then show i: "i < length (g_pipe_ends s)" by (simp add: pend_ok_def)
  have "count (add_mset (PipeEndObj i) ?R) (PipeEndObj i) = (if pe_used (g_pipe_ends s ! i) then 1 else 0)"
    using ok i unfolding pend_ok_def by blast
  then have n: "Suc (count ?R (PipeEndObj i)) = (if pe_used (g_pipe_ends s ! i) then 1 else 0)"
    by (simp only: count_add_mset if_True simp_thms)
  then show "pe_used (g_pipe_ends s ! i)" by (auto split: if_splits)
  have c0: "count ?R (PipeEndObj i) = 0" using n by (auto split: if_splits)
  have "pend_ok ?R ((g_pipe_ends s)[i := (g_pipe_ends s ! i)\<lparr>pe_used := False\<rparr>])"
  proof (rule pend_ok_update [OF ok i])
    show "count ?R (PipeEndObj i) = (if pe_used ((g_pipe_ends s ! i)\<lparr>pe_used := False\<rparr>) then 1 else 0)"
      unfolding c0 by simp
  qed auto
  then show "ipc_inv vfs X (upd_pipe_end i (\<lambda>e. e\<lparr>pe_used := False\<rparr>) s)"
    using inv by (simp add: ipc_inv_def upd_pipe_end_def)
qed

lemma ipc_inv_upd_pipe [simp]: "ipc_inv vfs X (upd_pipe k f s) = ipc_inv vfs X s"
  by (simp add: ipc_inv_def upd_pipe_def)

lemma pipe_release_inv:
  assumes "ipc_inv vfs (add_mset (PipeEndObj i) X) s"
  shows "ipc_inv vfs X (pipe_release_for_handle (PipeEndObj i) s)"
proof -
  note u = pipe_end_unused_inv [of vfs i X "upd_pipe k f s" for k f, simplified, OF assms]
  show ?thesis using pipe_end_unused_inv(2) [OF assms] u(3)
    by (simp add: pipe_release_for_handle_def Let_def)
qed

lemma obj_handle_free_inv:
  assumes inv: "ipc_inv vfs X s" and p: "owner < length (tables s)"
  shows "ipc_inv vfs X (obj_handle_free vfs owner handle s)"
proof (cases "handle < 0 \<or> handle \<ge> int OBJ_HANDLE_MAX \<or> \<not> oh_used (slot s owner (nat handle))")
  case True
  then show ?thesis using inv by (auto simp: obj_handle_free_def Let_def)
next
  case False
  define h where "h = nat handle"
  have h: "h < OBJ_HANDLE_MAX" and used: "oh_used (slot s owner h)" using False by (auto simp: h_def)
  have tab: "tables_ok (tables s)" using inv by (simp add: ipc_inv_def)
  have kind: "oh_kind (slot s owner h) = kind_of (oh_obj (slot s owner h))" "oh_obj (slot s owner h) \<noteq> NullObj"
    using tables_okD(2) [OF tab p h] used by (simp_all add: slot_ok_def)
  have nu: "\<not> oh_used obj_handle_clear" by (simp add: obj_handle_clear_def)
  note cl = ipc_inv_clear_slot [OF inv p h used nu]
  show ?thesis
  proof (cases "oh_obj (slot s owner h)")
    case (SurfaceObj i)
    have "ipc_inv vfs X (surface_unref i (set_slot owner h obj_handle_clear s))"
      by (rule surface_unref_inv) (use cl SurfaceObj in simp)
    then show ?thesis using False SurfaceObj kind
      by (simp add: obj_handle_free_def Let_def h_def [symmetric] surface_release_for_handle_def surface_unref_commute)
  next
    case (ChanEndObj c d)
    have cc: "ipc_inv vfs (add_mset (ChanEndObj c d) X) (set_slot owner h obj_handle_clear s)"
      using cl ChanEndObj by simp
    have b: "c < length (chans s)" "d < 2"
      using chan_ok_close(1,2) [of c d "refs (set_slot owner h obj_handle_clear s) + X" "chans s" "chan_live s"] cc
      by (simp_all add: ipc_inv_def)
    show ?thesis using False ChanEndObj kind channel_release_raw_end_inv [OF cc]
      by (simp add: obj_handle_free_def Let_def h_def [symmetric] channel_release_for_handle_def
          channel_release_commute [OF b])
  next
    case (EndpointObj i)
    show ?thesis using False EndpointObj kind endpoint_teardown_inv [OF inv p h used EndpointObj nu]
      by (simp add: obj_handle_free_def Let_def h_def [symmetric] endpoint_release_for_handle_def)
  next
    case (PipeEndObj i)
    have "ipc_inv vfs X (pipe_release_for_handle (PipeEndObj i) (set_slot owner h obj_handle_clear s))"
      by (rule pipe_release_inv) (use cl PipeEndObj in simp)
    moreover have "pipe_release_for_handle (PipeEndObj i) (set_slot owner h obj_handle_clear s) =
        set_slot owner h obj_handle_clear (pipe_release_for_handle (PipeEndObj i) s)"
      by (simp add: pipe_release_for_handle_def Let_def upd_pipe_end_def upd_pipe_def set_slot_def)
    ultimately show ?thesis using False PipeEndObj kind
      by (simp add: obj_handle_free_def Let_def h_def [symmetric])
  qed (use kind in simp)
qed

lemma obj_handle_free_tables:
  assumes "ipc_inv vfs X s" and "owner < length (tables s)"
  shows "length (tables (obj_handle_free vfs owner handle s)) = length (tables s)"
proof -
  have td: "tables (endpoint_teardown vfs i s) = tables s" for i s
    by (simp add: endpoint_teardown_def Let_def upd_ept_def case_prod_beta split: sum.splits)
  show ?thesis
    by (simp add: obj_handle_free_def Let_def surface_release_for_handle_def channel_release_for_handle_def
        endpoint_release_for_handle_def pipe_release_for_handle_def upd_pipe_def upd_pipe_end_def td
        split: handle_kind.splits kobj.splits)
qed

lemma obj_handles_release_all_inv:
  assumes "ipc_inv vfs X s" and "owner < length (tables s)"
  shows "ipc_inv vfs X (obj_handles_release_all vfs owner s)"
proof -
  have "ipc_inv vfs X (fold (\<lambda>i s. if oh_used (slot s owner i) then obj_handle_free vfs owner (int i) s else s) is s)"
    for "is" using assms
  proof (induction "is" arbitrary: s)
    case (Cons i "is")
    then show ?case using obj_handle_free_inv [OF Cons.prems] obj_handle_free_tables [OF Cons.prems] by simp
  qed simp
  then show ?thesis by (simp add: obj_handles_release_all_def)
qed

lemma channel_close_inv:
  assumes "ipc_inv vfs X s" and "caller < length (tables s)"
  shows "ipc_inv vfs X (snd (channel_close vfs caller handle s))"
    and "ipc_inv vfs X (snd (surface_destroy vfs caller handle s))"
  using assms obj_handle_free_inv [OF assms] by (simp_all add: channel_close_def surface_destroy_def)

section \<open>Connecting\<close>

lemma channel_ref_get_add:
  "channel_ref_get (length (chans s)) (channel_add rc s) = channel_add (rc + 1) s"
  by (simp add: channel_ref_get_def channel_add_def upd_chan_def channel_new_def list_update_append)

lemma channel_ref_get_commute:
  "channel_ref_get c (set_slot p h x s) = set_slot p h x (channel_ref_get c s)"
  by (simp add: channel_ref_get_def upd_chan_def set_slot_def)

text \<open>A connection whose server end was never queued is undone completely.\<close>

lemma release_unconnected:
  "\<exists>x. channel_release_raw_end (length (chans s)) 0 (channel_add 1 s) = s\<lparr>chans := chans s @ [x]\<rparr> \<and>
     \<not> ch_allocated x \<and> chan_ok1 0 0 x"
proof -
  let ?x = "(close_end 0 (channel_new 1 (Suc (length (chans s)))))\<lparr>ch_allocated := False\<rparr>"
  have "channel_release_raw_end (length (chans s)) 0 (channel_add 1 s) = s\<lparr>chans := chans s @ [?x]\<rparr>"
    by (subst channel_release_raw_end_eq)
      (simp_all add: channel_add_def channel_free_def upd_chan_def list_update_append channel_new_def channel_end_new_def)
  moreover have "chan_ok1 0 0 ?x"
    by (simp add: close_end_def Let_def channel_new_def channel_end_new_def chan_ok1_def end_ok_def)
  ultimately show ?thesis by (intro exI [of _ ?x]) simp
qed

lemma endpoint_connect_inv:
  assumes inv: "ipc_inv vfs X s" and ca: "caller < length (tables s)"
  shows "ipc_inv vfs X (snd (endpoint_connect vfs resolve mem caller path s))"
proof (cases "\<exists>vn i. resolve path = Inr vn \<and> vn_type vn = VFS_DT_ENDPOINT \<and> vn_epfs vn \<and>
    epfs_get_endpoint (epfs_nodes s) vn = Some i \<and> endpoint_alive s i \<and> mem")
  case False
  then show ?thesis using inv
    by (auto simp: endpoint_connect_def channel_create_raw_def split: sum.splits option.splits)
next
  case True
  then obtain vn i where vn: "resolve path = Inr vn" "vn_type vn = VFS_DT_ENDPOINT" "vn_epfs vn"
    "epfs_get_endpoint (epfs_nodes s) vn = Some i" "endpoint_alive s i" mem by blast
  let ?c = "length (chans s)" and ?s1 = "channel_add 1 s"
  have s1: "channel_ref_get ?c (channel_add 0 s) = ?s1" using channel_ref_get_add [of s 0] by simp
  obtain y where y: "channel_release_raw_end ?c 0 ?s1 = s\<lparr>chans := chans s @ [y]\<rparr>" "\<not> ch_allocated y" "chan_ok1 0 0 y"
    using release_unconnected by blast
  have dead: "ipc_inv vfs X (channel_release_raw_end ?c 0 ?s1)"
    unfolding y(1) by (rule ipc_inv_add_dead_channel [OF inv y(2,3)])
  obtain r t where a: "obj_handle_alloc caller HANDLE_KIND_CHANNEL (ChanEndObj ?c 0) ?s1 = (r, t)" by fastforce
  show ?thesis
  proof (cases r)
    case (Inl e)
    then have "t = ?s1" using a by (auto simp: obj_handle_alloc_def split: option.splits)
    then show ?thesis using vn s1 a Inl dead by (simp add: endpoint_connect_def channel_create_raw_def)
  next
    case (Inr ch)
    define nw where "nw = \<lparr>oh_kind = HANDLE_KIND_CHANNEL, oh_obj = ChanEndObj ?c 0, map_base = 0, map_bytes = 0, oh_used = True\<rparr>"
    have k: "first_index (\<lambda>h. \<not> oh_used h) (tables s ! caller) = Some ch" and t: "t = set_slot caller ch nw ?s1"
      using a Inr by (auto simp: obj_handle_alloc_def nw_def split: option.splits)
    have ch: "ch < OBJ_HANDLE_MAX" "\<not> oh_used (slot s caller ch)"
      using k slot_bounds [OF inv ca] by (simp_all add: first_index_Some slot_def)
    have slt: "slot t caller ch = nw" using t ca ch slot_bounds [OF inv ca] by simp
    have cl: "?c < length (chans ?s1)" by (simp add: channel_add_def)
    have "obj_handle_free vfs caller (int ch) t = set_slot caller ch obj_handle_clear (channel_release_raw_end ?c 0 ?s1)"
      using ch slt cl unfolding t
      by (simp add: obj_handle_free_def Let_def nw_def channel_release_for_handle_def channel_release_commute)
    moreover have "ipc_inv vfs X (set_slot caller ch obj_handle_clear (channel_release_raw_end ?c 0 ?s1))"
      by (rule ipc_inv_set_slot [OF dead])
        (use ca ch in \<open>simp_all add: y(1) slot_ok_def slot_refs_def obj_handle_clear_def slot_def\<close>)
    ultimately have undo: "ipc_inv vfs X (obj_handle_free vfs caller (int ch) t)" by simp
    have "channel_ref_get ?c t = set_slot caller ch nw (channel_add 2 s)"
      using channel_ref_get_add [of s 1] by (simp add: t channel_ref_get_commute)
    moreover have "ipc_inv vfs (add_mset (ChanEndObj ?c 1) X) (set_slot caller ch nw (channel_add 2 s))"
      by (rule ipc_inv_set_slot [OF ipc_inv_add_channel [OF inv]])
        (use ca ch in \<open>simp_all add: slot_ok_def slot_refs_def nw_def slot_def\<close>)
    ultimately have both: "ipc_inv vfs (add_mset (ChanEndObj ?c 1) X) (channel_ref_get ?c t)" by simp
    have ep: "epts (channel_ref_get ?c t) = epts s" "epts t = epts s"
      by (simp_all add: t channel_ref_get_def channel_add_def upd_chan_def)
    have i: "i < length (epts s)"
    proof -
      obtain n where n: "node_at_ino (epfs_nodes s) (vn_ino vn) = Some n" "en_type n = EPFS_ENDPOINT" "en_endpoint n = i"
        using vn(4) by (auto simp: epfs_get_endpoint_def split: if_splits option.splits)
      then have "n \<in> set (epfs_nodes s)" "en_used n"
        using inv by (auto simp: node_at_ino_def ipc_inv_def epfs_ok_def split: if_splits)
      then show ?thesis using inv n by (auto simp: ipc_inv_def epfs_ok_def node_ok_def)
    qed
    have push: "ipc_inv vfs X (upd_ept i (\<lambda>e. (accept_put (ChanEndObj ?c 1) e)
        \<lparr>accept_wait := fst (wait_queue_wake_one (accept_wait e))\<rparr>) (channel_ref_get ?c t))"
      if room: "accept_count (epts s ! i) < ENDPOINT_ACCEPT_MAX"
    proof -
      have i2: "i < length (epts (channel_ref_get ?c t))" using i ep by simp
      note ok = inv_ept_ok1 [OF both i2]
      have wf: "accept_wf (epts s ! i)" using ok ep by (simp add: ept_ok1_def)
      note b = backlog_put [OF wf room, of "ChanEndObj ?c 1"]
      have "\<not> ep_allocated (epts s ! i) \<Longrightarrow> False"
        using inv i vn(4) by (auto simp: ipc_inv_def epfs_ok_def node_ok_def epfs_get_endpoint_def node_at_ino_def
            split: if_splits option.splits)
      then show ?thesis unfolding upd_ept_def
        by (intro ipc_inv_set_ept [OF both i2]) (use ok b ep in \<open>auto simp: ept_ok1_def\<close>)
    qed
    show ?thesis using vn s1 a Inr undo push ep
      by (simp add: endpoint_connect_def channel_create_raw_def not_le)
  qed
qed

section \<open>Creating a pipe\<close>

lemma pend_ok_take:
  assumes ok: "pend_ok R es" and i: "i < length es" "\<not> pe_used (es ! i)" and x: "pe_used x"
  shows "pend_ok (add_mset (PipeEndObj i) R) (es[i := x])"
proof (rule pend_ok_update [OF ok i(1)])
  have "count R (PipeEndObj i) = 0" using ok i by (simp add: pend_ok_def)
  then show "count (add_mset (PipeEndObj i) R) (PipeEndObj i) = (if pe_used x then 1 else 0)"
    using x by simp
qed simp

lemma ipc_inv_pipe_ends:
  assumes "ipc_inv vfs X s" and "pend_ok (refs s + Y) es" and "\<And>R fs l. surf_ok (R + Y) fs l = surf_ok (R + X) fs l"
    "\<And>R cs l. chan_ok (R + Y) cs l = chan_ok (R + X) cs l" "\<And>R ee l. ept_ok (R + Y) ee l = ept_ok (R + X) ee l"
  shows "ipc_inv vfs Y (s\<lparr>g_pipe_ends := es\<rparr>)"
  using assms by (simp add: ipc_inv_def)

lemma ipc_inv_pipe_fields [simp]:
  "ipc_inv vfs X (s\<lparr>g_pipes := ps\<rparr>) = ipc_inv vfs X s"
  "ipc_inv vfs X (s\<lparr>g_next_pipe_id := k\<rparr>) = ipc_inv vfs X s"
  by (simp_all add: ipc_inv_def)

lemma pipe_create_inv:
  assumes inv: "ipc_inv vfs X s" and pr: "p < length (tables s)"
  shows "ipc_inv vfs X (snd (pipe_create vfs p s))"
proof (cases "\<exists>k re d. first_index (\<lambda>p. \<not> pipe_used p) (g_pipes s) = Some k \<and>
    first_index (\<lambda>e. \<not> pe_used e) (g_pipe_ends s) = Some re \<and>
    first_index (\<lambda>e. \<not> pe_used e) (drop (Suc re) (g_pipe_ends s)) = Some d")
  case False
  then show ?thesis using inv by (auto simp: pipe_create_def split: option.splits)
next
  case True
  then obtain k re d where f: "first_index (\<lambda>p. \<not> pipe_used p) (g_pipes s) = Some k"
    "first_index (\<lambda>e. \<not> pe_used e) (g_pipe_ends s) = Some re"
    "first_index (\<lambda>e. \<not> pe_used e) (drop (Suc re) (g_pipe_ends s)) = Some d" by blast
  define we where "we = Suc re + d"
  have re: "re < length (g_pipe_ends s)" "\<not> pe_used (g_pipe_ends s ! re)"
    and we: "we < length (g_pipe_ends s)" "\<not> pe_used (g_pipe_ends s ! we)" "we \<noteq> re"
    using f(2,3) by (auto simp: first_index_Some we_def nth_append)
  define er where "er = \<lparr>pe_pipe = k, pe_side = 0, pe_used = True\<rparr>"
  define ew where "ew = \<lparr>pe_pipe = k, pe_side = 1, pe_used = True\<rparr>"
  define s1 where "s1 = s\<lparr>g_pipes := (g_pipes s)[k := pipe_fresh (g_next_pipe_id s)],
     g_next_pipe_id := g_next_pipe_id s + 1, g_pipe_ends := (g_pipe_ends s)[re := er, we := ew]\<rparr>"
  let ?Xr = "add_mset (PipeEndObj re) X" and ?Xw = "add_mset (PipeEndObj we) (add_mset (PipeEndObj re) X)"
  have ok: "pend_ok (refs s + X) (g_pipe_ends s)" using inv by (simp add: ipc_inv_def)
  have "pend_ok (add_mset (PipeEndObj re) (refs s + X)) ((g_pipe_ends s)[re := er])"
    by (rule pend_ok_take [OF ok re]) (simp add: er_def)
  from pend_ok_take [OF this, of we ew] we have "pend_ok (refs s + ?Xw) ((g_pipe_ends s)[re := er, we := ew])"
    by (simp add: ew_def)
  then have "ipc_inv vfs ?Xw (s\<lparr>g_pipe_ends := (g_pipe_ends s)[re := er, we := ew]\<rparr>)"
    by (intro ipc_inv_pipe_ends [OF inv]) simp_all
  moreover have "s1 = (s\<lparr>g_pipe_ends := (g_pipe_ends s)[re := er, we := ew]\<rparr>)
      \<lparr>g_pipes := (g_pipes s)[k := pipe_fresh (g_next_pipe_id s)], g_next_pipe_id := g_next_pipe_id s + 1\<rparr>"
    by (simp add: s1_def)
  ultimately have inv1: "ipc_inv vfs ?Xw s1" by simp
  have pr1: "p < length (tables s1)" using pr by (simp add: s1_def)
  have def1: "pipe_create vfs p s = (case obj_handle_alloc p HANDLE_KIND_PIPE (PipeEndObj re) s1 of
        (Inl e, s2) \<Rightarrow>
          (Inl e, upd_pipe_end we (\<lambda>e. e\<lparr>pe_used := False\<rparr>) (upd_pipe_end re (\<lambda>e. e\<lparr>pe_used := False\<rparr>)
                    (upd_pipe k (\<lambda>p. pipe_unref_locked 1 (pipe_unref_locked 0 p)) s2)))
      | (Inr rh, s2) \<Rightarrow>
          (case obj_handle_alloc p HANDLE_KIND_PIPE (PipeEndObj we) s2 of
             (Inl e, s3) \<Rightarrow>
               (Inl e, upd_pipe_end we (\<lambda>e. e\<lparr>pe_used := False\<rparr>)
                         (upd_pipe k (pipe_unref_locked 1) (obj_handle_free vfs p (int rh) s3)))
           | (Inr wh, s3) \<Rightarrow> (Inr (rh, wh), s3)))"
    by (simp only: pipe_create_def f option.case Let_def s1_def we_def er_def ew_def)
  obtain r t where a: "obj_handle_alloc p HANDLE_KIND_PIPE (PipeEndObj re) s1 = (r, t)" by fastforce
  from inv1 pr1 a show ?thesis
  proof (cases rule: obj_handle_alloc_cases)
    case full
    have "ipc_inv vfs (add_mset (PipeEndObj re) (add_mset (PipeEndObj we) X))
        (upd_pipe k (\<lambda>p. pipe_unref_locked 1 (pipe_unref_locked 0 p)) t)"
      using inv1 full by (simp add: add_mset_commute)
    from pipe_end_unused_inv(3) [OF pipe_end_unused_inv(3) [OF this]] show ?thesis
      using a full by (simp add: def1)
  next
    case (slot rh)
    have inv2: "ipc_inv vfs (add_mset (PipeEndObj we) X) t"
      using obj_handle_alloc_inv [of vfs "PipeEndObj re" "add_mset (PipeEndObj we) X" s1 p rh t] inv1 pr1 a slot(1)
      by (simp add: add_mset_commute)
    have pr2: "p < length (tables t)" using slot(4) pr1 by simp
    obtain r2 t2 where b: "obj_handle_alloc p HANDLE_KIND_PIPE (PipeEndObj we) t = (r2, t2)" by fastforce
    from inv2 pr2 b show ?thesis
    proof (cases rule: obj_handle_alloc_cases)
      case full
      have "ipc_inv vfs (add_mset (PipeEndObj we) X) (upd_pipe k (pipe_unref_locked 1) (obj_handle_free vfs p (int rh) t))"
        using obj_handle_free_inv [OF inv2 pr2] by simp
      from pipe_end_unused_inv(3) [OF this] show ?thesis using a b slot(1) full by (simp add: def1)
    next
      case wh: (slot wh)
      have "ipc_inv vfs X t2"
        using obj_handle_alloc_inv [of vfs "PipeEndObj we" X t p wh t2] inv2 pr2 b wh(1) by simp
      then show ?thesis using a b slot(1) wh(1) by (simp add: def1)
    qed
  qed
qed

section \<open>Everything that can happen\<close>

text \<open>
  The layer at start: \<open>n\<close> processes with empty tables, no objects, the empty endpoint
  filesystem and all pipes free.
\<close>

definition ipc_init :: "nat list \<Rightarrow> ipc" where
  "ipc_init ps = \<lparr>tables = replicate (length ps) (replicate OBJ_HANDLE_MAX obj_handle_clear), pids = ps,
     surfaces = [], surface_live = 0, surface_seq = 0, chans = [], chan_live = 0, epts = [],
     endpoint_live = 0, epfs_nodes = epfs_init,
     g_pipes = replicate PIPE_MAX ((pipe_fresh 0)\<lparr>pipe_used := False\<rparr>),
     g_pipe_ends = replicate (2 * PIPE_MAX) \<lparr>pe_pipe = 0, pe_side = 0, pe_used = False\<rparr>,
     g_next_pipe_id = 1\<rparr>"

text \<open>
  One operation by process \<open>p\<close>.  A send carries surfaces only and moves no handle twice, the
  contract \<open>send_ok\<close>; its message is the one the handles give at the moment it is queued, so a
  handle is not closed between the building of the message and the end of the call.  All
  processes resolve paths by the same function \<open>vfs\<close>.  Every other operation takes any arguments,
  including bad ones.
\<close>

inductive ipc_step :: "(string \<Rightarrow> vnode res) \<Rightarrow> ipc \<Rightarrow> ipc \<Rightarrow> bool" for vfs where
  "p < length (tables s) \<Longrightarrow> ipc_step vfs s (snd (surface_create mem base p w h fmt n s))"
| "p < length (tables s) \<Longrightarrow> ipc_step vfs s (snd (surface_map base p handle s))"
| "p < length (tables s) \<Longrightarrow> ipc_step vfs s (snd (surface_commit p handle b s))"
| "p < length (tables s) \<Longrightarrow> ipc_step vfs s (snd (surface_release p handle b s))"
| "p < length (tables s) \<Longrightarrow> ipc_step vfs s (snd (surface_destroy vfs p handle s))"
| "p < length (tables s) \<Longrightarrow> q < length (tables s) \<Longrightarrow> ipc_step vfs s (snd (surface_transfer_to base p handle q s))"
| "p < length (tables s) \<Longrightarrow> ipc_step vfs s (snd (channel_create_pair mem p s))"
| "p < length (tables s) \<Longrightarrow> send_ok s p hnds \<Longrightarrow>
    ipc_step vfs s (snd (channel_send t cancelled mem p handle bytes hnds s))"
| "p < length (tables s) \<Longrightarrow> ipc_step vfs s (snd (channel_recv t cancelled p handle buflen s))"
| "p < length (tables s) \<Longrightarrow> ipc_step vfs s (snd (channel_close vfs p handle s))"
| "p < length (tables s) \<Longrightarrow> q < length (tables s) \<Longrightarrow> ipc_step vfs s (snd (channel_transfer_end_to p handle q s))"
| "p < length (tables s) \<Longrightarrow> ipc_step vfs s (snd (endpoint_listen vfs mem p path s))"
| "p < length (tables s) \<Longrightarrow> ipc_step vfs s (snd (endpoint_accept t cancelled p handle s))"
| "p < length (tables s) \<Longrightarrow> ipc_step vfs s (snd (endpoint_connect vfs resolve mem p path s))"
| "p < length (tables s) \<Longrightarrow> ipc_step vfs s (snd (pipe_create vfs p s))"
| "p < length (tables s) \<Longrightarrow> ipc_step vfs s (obj_handle_free vfs p handle s)"
| "p < length (tables s) \<Longrightarrow> ipc_step vfs s (obj_handles_release_all vfs p s)"
| "ipc_step vfs s (s\<lparr>pids := ps\<rparr>)"

inductive ipc_reachable :: "(string \<Rightarrow> vnode res) \<Rightarrow> ipc \<Rightarrow> bool" for vfs where
  init: "ipc_reachable vfs (ipc_init ps)"
| step: "ipc_reachable vfs s \<Longrightarrow> ipc_step vfs s t \<Longrightarrow> ipc_reachable vfs t"

lemma ipc_init_inv: "ipc_inv vfs {#} (ipc_init ps)"
proof -
  have R: "refs (ipc_init ps) = {#}"
  proof -
    have "sum_list (replicate k {#}) = {#}" for k by (induction k) simp_all
    moreover have "table_refs (replicate k obj_handle_clear) = {#}" for k
      by (induction k) (simp_all add: table_refs_def slot_refs_def obj_handle_clear_def)
    ultimately show ?thesis by (simp add: refs_def ipc_init_def)
  qed
  have "epfs_ok vfs epfs_init []"
  proof -
    let ?root = "\<lparr>en_type = EPFS_DIR, en_name = [], en_parent_ino = 0, en_endpoint = 0, en_used = True\<rparr>"
    have nth: "epfs_init ! i = (if i = 0 then ?root else epfs_node_free)" if "i < 64" for i
      using that by (auto simp: epfs_init_def nth_list_update)
    have len: "length epfs_init = 64" by (simp add: epfs_init_def)
    have "node_ok vfs [] n" if "n \<in> set epfs_init" for n
      using that nth len by (auto simp: in_set_conv_nth node_ok_def epfs_node_free_def split: if_splits)
    moreover have "i = j" if "i < 64" "j < 64" "en_used (epfs_init ! i)" "en_used (epfs_init ! j)" for i j
      using that nth by (auto simp: epfs_node_free_def split: if_splits)
    ultimately show ?thesis using len by (auto simp: epfs_ok_def)
  qed
  then show ?thesis unfolding ipc_inv_def R
    by (auto simp: ipc_init_def tables_ok_def slot_ok_def obj_handle_clear_def surf_ok_def chan_ok_def ept_ok_def pend_ok_def)
qed

lemma ipc_step_inv:
  assumes "ipc_step vfs s t" and "ipc_inv vfs {#} s"
  shows "ipc_inv vfs {#} t"
  using assms
proof cases
  case 18
  then show ?thesis using assms(2) by (simp add: ipc_inv_def)
qed (simp_all add: assms(2) surface_create_inv surface_map_inv surface_commit_inv surface_release_inv
    channel_close_inv surface_transfer_to_inv channel_create_pair_inv channel_send_inv channel_recv_inv
    channel_transfer_end_to_inv endpoint_listen_inv endpoint_accept_inv endpoint_connect_inv
    pipe_create_inv obj_handle_free_inv obj_handles_release_all_inv)

lemma ipc_reachable_inv: "ipc_reachable vfs s \<Longrightarrow> ipc_inv vfs {#} s"
  by (induction rule: ipc_reachable.induct) (auto intro: ipc_init_inv ipc_step_inv)

section \<open>Properties\<close>

text \<open>
  C1: exact reference counts.  Consider runs in which messages carry surface handles only, move no
  handle twice and have their handles kept open until they are queued, and in which all
  processes resolve paths in the same way.  In every state such a run reaches, an allocated
  surface's count is the number of references to it (handles of all processes plus handles in
  queued messages) and is positive, an allocated channel's count is the number of its ends still
  held by a handle or a backlog, an end has at most one holder, nothing refers to freed memory, and
  the live counts are the numbers of allocated objects: no use after free, no double release, no
  leak.  Each of the conditions matters: \<open>channel_double_move_dangles\<close>, \<open>channel_stale_send\<close> and
  \<open>endpoint_name_dangles\<close> are runs without them.
\<close>

theorem ipc_refcounts_exact:
  assumes "ipc_reachable vfs s"
  shows "(\<forall>i<length (surfaces s). if sf_allocated (surfaces s ! i)
            then sf_refcount (surfaces s ! i) = int (count (refs s) (SurfaceObj i)) \<and> SurfaceObj i \<in># refs s
            else SurfaceObj i \<notin># refs s) \<and>
    (\<forall>c<length (chans s). if ch_allocated (chans s ! c)
            then ch_refcount (chans s ! c) = int (count (refs s) (ChanEndObj c 0) + count (refs s) (ChanEndObj c 1)) \<and>
                 count (refs s) (ChanEndObj c 0) \<le> 1 \<and> count (refs s) (ChanEndObj c 1) \<le> 1 \<and> 0 < ch_refcount (chans s ! c)
            else ChanEndObj c 0 \<notin># refs s \<and> ChanEndObj c 1 \<notin># refs s) \<and>
    (\<forall>e<length (epts s). count (refs s) (EndpointObj e) = (if ep_allocated (epts s ! e) then 1 else 0)) \<and>
    surface_live s = int (length (filter sf_allocated (surfaces s))) \<and>
    chan_live s = int (length (filter ch_allocated (chans s))) \<and>
    endpoint_live s = int (length (filter ep_allocated (epts s)))"
proof -
  have inv: "ipc_inv vfs {#} s" by (rule ipc_reachable_inv [OF assms])
  then have sf: "surf_ok (refs s) (surfaces s) (surface_live s)" and ch: "chan_ok (refs s) (chans s) (chan_live s)"
    and ep: "ept_ok (refs s) (epts s) (endpoint_live s)" by (simp_all add: ipc_inv_def)
  have "if sf_allocated (surfaces s ! i)
      then sf_refcount (surfaces s ! i) = int (count (refs s) (SurfaceObj i)) \<and> SurfaceObj i \<in># refs s
      else SurfaceObj i \<notin># refs s" if "i < length (surfaces s)" for i
  proof -
    have "surf_ok1 (count (refs s) (SurfaceObj i)) (surfaces s ! i)" using sf that by (simp add: surf_ok_def)
    then show ?thesis by (auto simp: surf_ok1_def not_in_iff)
  qed
  moreover have "if ch_allocated (chans s ! c)
      then ch_refcount (chans s ! c) = int (count (refs s) (ChanEndObj c 0) + count (refs s) (ChanEndObj c 1)) \<and>
           count (refs s) (ChanEndObj c 0) \<le> 1 \<and> count (refs s) (ChanEndObj c 1) \<le> 1 \<and> 0 < ch_refcount (chans s ! c)
      else ChanEndObj c 0 \<notin># refs s \<and> ChanEndObj c 1 \<notin># refs s" if "c < length (chans s)" for c
  proof -
    have "chan_ok1 (count (refs s) (ChanEndObj c 0)) (count (refs s) (ChanEndObj c 1)) (chans s ! c)"
      using ch that by (simp add: chan_ok_def)
    moreover have "if ch_allocated x then ch_refcount x = int (n0 + n1) \<and> n0 \<le> 1 \<and> n1 \<le> 1 \<and> 0 < ch_refcount x
        else n0 = 0 \<and> n1 = 0" if "chan_ok1 n0 n1 x" for n0 n1 x
      using that by (auto simp: chan_ok1_def)
    ultimately show ?thesis unfolding not_in_iff by blast
  qed
  moreover have "count (refs s) (EndpointObj e) = (if ep_allocated (epts s ! e) then 1 else 0)"
    if "e < length (epts s)" for e
    using ep that by (simp add: ept_ok_def ept_ok1_def)
  moreover have "surface_live s = int (length (filter sf_allocated (surfaces s)))"
    "chan_live s = int (length (filter ch_allocated (chans s)))"
    "endpoint_live s = int (length (filter ep_allocated (epts s)))"
    using sf ch ep by (simp_all add: surf_ok_def chan_ok_def ept_ok_def)
  ultimately show ?thesis by blast
qed

text \<open>A directory resolution that knows one directory, the mount point of the endpoint filesystem.\<close>

definition vfs_example :: "string \<Rightarrow> vnode res" where
  "vfs_example path = (if path = ''/run'' then Inr \<lparr>vn_epfs = True, vn_ino = 1, vn_type = VFS_DT_DIR\<rparr> else Inl ENOENT)"

definition ipc_example :: ipc where
  "ipc_example = snd (surface_create True 4096 0 8 8 1 2 (snd (channel_create_pair True 0 (ipc_init [7, 9]))))"

lemma channel_create_pair_length [simp]:
  "length (tables (snd (channel_create_pair mem p s))) = length (tables s)"
  by (auto simp: channel_create_pair_def Let_def obj_handle_alloc_def channel_free_def upd_chan_def
      obj_handle_drop_def split: option.splits)

lemma ipc_example_reachable: "ipc_reachable vfs ipc_example"
  unfolding ipc_example_def
  by (rule ipc_reachable.step [OF ipc_reachable.step [OF ipc_reachable.init [of _ "[7, 9]"]]];
      rule ipc_step.intros) (simp_all add: ipc_init_def)

theorem ipc_refcounts_exact_witness:
  "surface_live ipc_example = int (length (filter sf_allocated (surfaces ipc_example)))"
  using ipc_refcounts_exact [OF ipc_example_reachable [of vfs_example]] by blast


text \<open>
  C15: no handle and no published name dangles.  In every state reached under the conditions of the
  step relation (messages carry surface handles only, move none twice and keep them open until
  queued; all processes resolve paths in the same way), a used handle has the kind of the object it
  points at, the object exists and is allocated, and a name in the endpoint filesystem leads to an
  endpoint that is allocated and still held by its owner's handle.
\<close>

theorem ipc_no_dangling:
  assumes "ipc_reachable vfs s" and "p < length (tables s)" and "h < OBJ_HANDLE_MAX" and "oh_used (slot s p h)"
  shows "(case oh_obj (slot s p h) of
      NullObj \<Rightarrow> False
    | SurfaceObj i \<Rightarrow> oh_kind (slot s p h) = HANDLE_KIND_SURFACE \<and> i < length (surfaces s) \<and> sf_allocated (surfaces s ! i)
    | ChanEndObj c side \<Rightarrow> oh_kind (slot s p h) = HANDLE_KIND_CHANNEL \<and> c < length (chans s) \<and> side < 2 \<and>
        ch_allocated (chans s ! c)
    | EndpointObj e \<Rightarrow> oh_kind (slot s p h) = HANDLE_KIND_ENDPOINT \<and> e < length (epts s) \<and> ep_allocated (epts s ! e)
    | PipeEndObj k \<Rightarrow> oh_kind (slot s p h) = HANDLE_KIND_PIPE \<and> k < length (g_pipe_ends s) \<and> pe_used (g_pipe_ends s ! k)) \<and>
    (\<forall>vn e. epfs_get_endpoint (epfs_nodes s) vn = Some e \<longrightarrow>
       e < length (epts s) \<and> ep_allocated (epts s ! e) \<and> EndpointObj e \<in># refs s)"
proof -
  have inv: "ipc_inv vfs {#} s" by (rule ipc_reachable_inv [OF assms(1)])
  then have tab: "tables_ok (tables s)" and sf: "surf_ok (refs s) (surfaces s) (surface_live s)"
    and ch: "chan_ok (refs s) (chans s) (chan_live s)" and ep: "ept_ok (refs s) (epts s) (endpoint_live s)"
    and pe: "pend_ok (refs s) (g_pipe_ends s)" and ns: "epfs_ok vfs (epfs_nodes s) (epts s)"
    by (simp_all add: ipc_inv_def)
  have mem: "oh_obj (slot s p h) \<in># refs s" by (rule slot_in_refs [OF tab assms(2-4)])
  have ok: "oh_kind (slot s p h) = kind_of (oh_obj (slot s p h))" "oh_obj (slot s p h) \<noteq> NullObj"
    using tables_okD(2) [OF tab assms(2,3)] assms(4) by (simp_all add: slot_ok_def)
  have "i < length (surfaces s) \<and> sf_allocated (surfaces s ! i)" if "SurfaceObj i \<in># refs s" for i
    using that sf by (auto simp: surf_ok_def surf_ok1_def dest: iffD2 [OF not_in_iff] split: if_splits)
  moreover have "c < length (chans s) \<and> d < 2 \<and> ch_allocated (chans s ! c)" if "ChanEndObj c d \<in># refs s" for c d
    using chan_ok_held [OF ch that] by simp
  moreover have live: "e < length (epts s) \<and> ep_allocated (epts s ! e)" if "EndpointObj e \<in># refs s" for e
    using that ep by (auto simp: ept_ok_def ept_ok1_def dest: iffD2 [OF not_in_iff] split: if_splits)
  moreover have "k < length (g_pipe_ends s) \<and> pe_used (g_pipe_ends s ! k)" if "PipeEndObj k \<in># refs s" for k
    using that pe by (auto simp: pend_ok_def dest: iffD2 [OF not_in_iff] split: if_splits)
  moreover have "e < length (epts s) \<and> ep_allocated (epts s ! e) \<and> EndpointObj e \<in># refs s"
    if get: "epfs_get_endpoint (epfs_nodes s) vn = Some e" for vn e
  proof -
    obtain n where n: "node_at_ino (epfs_nodes s) (vn_ino vn) = Some n" "en_type n = EPFS_ENDPOINT" "en_endpoint n = e"
      using get by (auto simp: epfs_get_endpoint_def split: if_splits option.splits)
    then have "n \<in> set (epfs_nodes s)" "en_used n"
      using ns by (auto simp: node_at_ino_def epfs_ok_def split: if_splits)
    then have e: "e < length (epts s)" "ep_allocated (epts s ! e)"
      using ns n by (auto simp: epfs_ok_def node_ok_def)
    have "count (refs s) (EndpointObj e) = 1" using ep e by (simp add: ept_ok_def ept_ok1_def)
    then have "EndpointObj e \<in># refs s" by (simp flip: count_greater_zero_iff)
    with e show ?thesis by simp
  qed
  ultimately show ?thesis using mem ok by (cases "oh_obj (slot s p h)") auto
qed

text \<open>The messages waiting at one end of a channel.\<close>

definition waiting :: "ipc \<Rightarrow> nat \<Rightarrow> nat \<Rightarrow> chan_msg list" where
  "waiting s c side = inbox (chan_end (chans s ! c) side)"

lemma chans_take_handles [simp]: "chans (fold (chan_take_handle caller) prs s) = chans s"
proof (induction prs arbitrary: s)
  case (Cons pr prs)
  have "chans (chan_take_handle caller pr s) = chans s"
    by (cases pr; cases "fst pr")
      (simp add: chan_take_handle_def obj_handle_drop_def surface_unmap_from_handle_def obj_ref_get_def
        surface_ref_get_def upd_surface_def split: kobj.splits)
  with Cons show ?case by simp
qed simp

lemma chans_install_handles [simp]: "chans (snd (fold (chan_install_handle caller) rs (out, s))) = chans s"
proof (induction rs arbitrary: out s)
  case (Cons r rs)
  obtain out' t where t: "chan_install_handle caller r (out, s) = (out', t)" by fastforce
  then have "chans t = chans s"
    by (auto simp: chan_install_handle_def obj_handle_alloc_def obj_ref_put_def surface_ref_put_def
        surface_unref_def surface_free_object_def upd_surface_def Let_def
        split: option.splits kobj.splits if_splits)
  with Cons [of out' t] t show ?case by simp
qed simp

lemma tables_obj_ref_put [simp]: "tables (obj_ref_put k obj s) = tables s"
  by (auto simp: obj_ref_put_def surface_ref_put_def surface_unref_def surface_free_object_def upd_surface_def Let_def
      split: kobj.splits)

text \<open>The new handles of a receiver point at the first objects of the message, in order.\<close>

lemma install_handles_full:
  assumes "first_index (\<lambda>h. \<not> oh_used h) (tables s ! p) = None"
  shows "fst (fold (chan_install_handle p) rs (out, s)) = out \<and> tables (snd (fold (chan_install_handle p) rs (out, s))) = tables s"
  using assms
proof (induction rs arbitrary: s)
  case (Cons r rs)
  have "chan_install_handle p r (out, s) = (out, obj_ref_put (hr_kind r) (hr_obj r) s)"
    using Cons.prems by (simp add: chan_install_handle_def obj_handle_alloc_def)
  then show ?case using Cons.IH [of "obj_ref_put (hr_kind r) (hr_obj r) s"] Cons.prems by simp
qed simp

lemma install_handles_objs:
  assumes "fold (chan_install_handle p) rs (out, s) = (out', t)" "p < length (tables s)"
  shows "\<exists>ns. out' = out @ ns \<and> map (\<lambda>h. oh_obj (slot t p h)) ns = take (length ns) (map hr_obj rs) \<and>
    (\<forall>h. h < length (tables s ! p) \<longrightarrow> oh_used (slot s p h) \<longrightarrow> slot t p h = slot s p h) \<and>
    (length ns < length rs \<longrightarrow> list_all oh_used (tables t ! p))"
  using assms
proof (induction rs arbitrary: out s)
  case Nil
  then show ?case by simp
next
  case (Cons r rs)
  show ?case
  proof (cases "first_index (\<lambda>h. \<not> oh_used h) (tables s ! p)")
    case None
    then have "out' = out" "tables t = tables s" using install_handles_full [OF None, of "r # rs" out] Cons.prems(1) by simp_all
    moreover have "list_all oh_used (tables s ! p)" using None by (auto simp: first_index_None list_all_iff)
    ultimately show ?thesis by (intro exI [of _ "[]"]) (simp add: slot_def)
  next
    case (Some i)
    let ?h = "\<lparr>oh_kind = hr_kind r, oh_obj = hr_obj r, map_base = 0, map_bytes = 0, oh_used = True\<rparr>"
    let ?s1 = "set_slot p i ?h s"
    have i: "i < length (tables s ! p)" "\<not> oh_used (slot s p i)" using Some by (auto simp: first_index_Some slot_def)
    have sl: "slot ?s1 p h = (if h = i then ?h else slot s p h)" if "h < length (tables s ! p)" for h
      using that Cons.prems(2) by (simp add: slot_def set_slot_def)
    have "chan_install_handle p r (out, s) = (out @ [i], ?s1)"
      using Some by (simp add: chan_install_handle_def obj_handle_alloc_def)
    then have "fold (chan_install_handle p) rs (out @ [i], ?s1) = (out', t)" using Cons.prems(1) by simp
    from Cons.IH [OF this] obtain ns where ns: "out' = (out @ [i]) @ ns"
        "map (\<lambda>h. oh_obj (slot t p h)) ns = take (length ns) (map hr_obj rs)"
        "\<And>h. h < length (tables s ! p) \<Longrightarrow> oh_used (slot ?s1 p h) \<Longrightarrow> slot t p h = slot ?s1 p h"
        "length ns < length rs \<longrightarrow> list_all oh_used (tables t ! p)"
      using Cons.prems(2) by (auto simp: set_slot_def)
    have "slot t p i = ?h" using ns(3) [OF i(1)] sl [OF i(1)] by simp
    moreover have "slot t p h = slot s p h" if h: "h < length (tables s ! p)" "oh_used (slot s p h)" for h
      using ns(3) [OF h(1)] sl [OF h(1)] h(2) i(2) by (auto split: if_splits)
    ultimately show ?thesis using ns(1,2,4) by (intro exI [of _ "i # ns"]) simp
  qed
qed

text \<open>
  C16: a channel delivers messages whole and in order.  Take an end whose handle resolves, in a
  reachable state.  A send either fails before the lock, with an error that is not the
  closed-pipe one and nothing changed, or its message has exactly the bytes and, in order, the
  objects of the handles it names; then it fails as closed exactly when the peer end is closed;
  otherwise it is queued, behind everything that waits, exactly when there is room, and else
  sleeps, or gives up when cancelled.  A receive with nothing waiting fails as closed exactly when
  the peer is closed and else sleeps or gives up; with something waiting it takes exactly the oldest
  message, unless its bytes do not fit the buffer, returns all its bytes, and the new handles
  point, in order, at the objects of the message, all of them unless the table is full.  No other
  queue of the channel changes.
\<close>

theorem channel_delivery:
  assumes "ipc_reachable vfs s" and "p < length (tables s)"
    and "obj_handle_resolve s p handle HANDLE_KIND_CHANNEL = ChanEndObj c side"
    and "channel_send t1 cancelled1 mem p handle bytes hnds s = (out1, s1)"
    and "channel_recv t2 cancelled2 p handle buflen s = (out2, s2)"
  shows "(case channel_send_prepare mem p handle bytes hnds s of
      Inl e \<Rightarrow> out1 = Done (Inl e) \<and> e \<noteq> EPIPE \<and> s1 = s
    | Inr (c', side', m) \<Rightarrow> (c', side') = (c, side) \<and> msg_bytes m = bytes \<and>
        map hr_obj (msg_handles m) = map (\<lambda>(h, _). oh_obj (slot s p (nat h))) hnds \<and>
        (out1 = Done (Inl EPIPE) \<longleftrightarrow> peer_closed (chans s ! c) side) \<and>
        (out1 = Done (Inr ()) \<longleftrightarrow> \<not> peer_closed (chans s ! c) side \<and> length (waiting s c (1 - side)) < CHAN_QUEUE_MAX) \<and>
        (out1 = Blocked \<longleftrightarrow> \<not> peer_closed (chans s ! c) side \<and> CHAN_QUEUE_MAX \<le> length (waiting s c (1 - side)) \<and> \<not> cancelled1) \<and>
        waiting s1 c (1 - side) = waiting s c (1 - side) @ (if out1 = Done (Inr ()) then [m] else []) \<and>
        waiting s1 c side = waiting s c side) \<and>
    (case waiting s c side of
      [] \<Rightarrow> out2 = (if peer_closed (chans s ! c) side then Done (Inl EPIPE) else if cancelled2 then Done (Inl ECANCELED) else Blocked) \<and>
        waiting s2 c side = [] \<and> waiting s2 c (1 - side) = waiting s c (1 - side)
    | m # ms \<Rightarrow> if buflen < length (msg_bytes m) then out2 = Done (Inl EMSGSIZE) \<and> s2 = s
        else waiting s2 c side = ms \<and> waiting s2 c (1 - side) = waiting s c (1 - side) \<and>
          (\<exists>nhs. out2 = Done (Inr (msg_bytes m, nhs)) \<and>
             map (\<lambda>h. oh_obj (slot s2 p h)) nhs = take (length nhs) (map hr_obj (msg_handles m)) \<and>
             (length nhs < length (msg_handles m) \<longrightarrow> list_all oh_used (tables s2 ! p))))"
proof -
  have inv: "ipc_inv vfs {#} s" by (rule ipc_reachable_inv [OF assms(1)])
  note rc = resolve_channel [OF inv assms(2,3)]
  have peer: "1 - side < 2" "1 - side \<noteq> side" using rc(2) by (auto simp: less_2_cases_iff)
  have ends: "chan_end (set_chan_end d e x) d' = (if d = d' then e else chan_end x d')" if "d < 2" "d' < 2" for d d' e x
    using that by (auto simp: less_2_cases_iff)
  have eo: "inbox_count (chan_end (chans s ! c) d) = length (waiting s c d)" if "d < 2" for d
    using inv_end_ok [OF inv rc(1) that] by (simp add: end_ok_def waiting_def)
  have send: "case channel_send_prepare mem p handle bytes hnds s of
      Inl e \<Rightarrow> out1 = Done (Inl e) \<and> e \<noteq> EPIPE \<and> s1 = s
    | Inr (c', side', m) \<Rightarrow> (c', side') = (c, side) \<and> msg_bytes m = bytes \<and>
        map hr_obj (msg_handles m) = map (\<lambda>(h, _). oh_obj (slot s p (nat h))) hnds \<and>
        (out1 = Done (Inl EPIPE) \<longleftrightarrow> peer_closed (chans s ! c) side) \<and>
        (out1 = Done (Inr ()) \<longleftrightarrow> \<not> peer_closed (chans s ! c) side \<and> length (waiting s c (1 - side)) < CHAN_QUEUE_MAX) \<and>
        (out1 = Blocked \<longleftrightarrow> \<not> peer_closed (chans s ! c) side \<and> CHAN_QUEUE_MAX \<le> length (waiting s c (1 - side)) \<and> \<not> cancelled1) \<and>
        waiting s1 c (1 - side) = waiting s c (1 - side) @ (if out1 = Done (Inr ()) then [m] else []) \<and>
        waiting s1 c side = waiting s c side"
  proof (cases "channel_send_prepare mem p handle bytes hnds s")
    case (Inl e)
    then have "e \<noteq> EPIPE" using assms(3) by (auto simp: channel_send_prepare_def split: if_splits)
    with Inl show ?thesis using assms(4) by (auto simp: channel_send_def)
  next
    case (Inr a)
    then have a: "a = (c, side, \<lparr>msg_bytes = bytes, msg_handles = map (handle_ref_of s p) hnds\<rparr>)"
      using assms(3) by (auto simp: channel_send_prepare_def split: if_splits)
    have h: "map hr_obj (map (handle_ref_of s p) hnds) = map (\<lambda>(h, _). oh_obj (slot s p (nat h))) hnds"
      by (auto simp: handle_ref_of_def)
    show ?thesis
      using assms(4) Inr h rc peer eo [OF peer(1)]
      by (auto simp: a channel_send_def channel_send_locked_def Let_def waiting_def channel_enqueue_def
          upd_chan_def ends split: if_splits)
  qed
  have recv: "case waiting s c side of
      [] \<Rightarrow> out2 = (if peer_closed (chans s ! c) side then Done (Inl EPIPE) else if cancelled2 then Done (Inl ECANCELED) else Blocked) \<and>
        waiting s2 c side = [] \<and> waiting s2 c (1 - side) = waiting s c (1 - side)
    | m # ms \<Rightarrow> if buflen < length (msg_bytes m) then out2 = Done (Inl EMSGSIZE) \<and> s2 = s
        else waiting s2 c side = ms \<and> waiting s2 c (1 - side) = waiting s c (1 - side) \<and>
          (\<exists>nhs. out2 = Done (Inr (msg_bytes m, nhs)) \<and>
             map (\<lambda>h. oh_obj (slot s2 p h)) nhs = take (length nhs) (map hr_obj (msg_handles m)) \<and>
             (length nhs < length (msg_handles m) \<longrightarrow> list_all oh_used (tables s2 ! p)))"
  proof (cases "waiting s c side")
    case Nil
    then have "inbox_count (chan_end (chans s ! c) side) = 0" using eo [OF rc(2)] by simp
    then show ?thesis using Nil assms(3,5) rc peer
      by (auto simp: channel_recv_def Let_def waiting_def upd_chan_def ends split: if_splits)
  next
    case (Cons m ms)
    then have ib: "inbox (chan_end (chans s ! c) side) = m # ms" by (simp add: waiting_def)
    have pos: "0 < inbox_count (chan_end (chans s ! c) side)" using eo [OF rc(2)] Cons by simp
    show ?thesis
    proof (cases "buflen < length (msg_bytes m)")
      case True
      then show ?thesis using Cons assms(3,5) ib pos by (auto simp: channel_recv_def Let_def)
    next
      case False
      obtain nhs t where f: "fold (chan_install_handle p) (msg_handles m) ([], channel_dequeue c side s) = (nhs, t)" by fastforce
      then have r: "out2 = Done (Inr (msg_bytes m, nhs))" "s2 = t"
        using False assms(3,5) ib pos by (auto simp: channel_recv_def Let_def split: prod.splits)
      have "chans t = chans (channel_dequeue c side s)"
        using chans_install_handles [of p "msg_handles m" "[]" "channel_dequeue c side s"] f by simp
      then have "waiting t c side = ms" "waiting t c (1 - side) = waiting s c (1 - side)"
        using rc peer ib by (auto simp: waiting_def channel_dequeue_def upd_chan_def ends Let_def)
      moreover have "p < length (tables (channel_dequeue c side s))" using assms(2) by (simp add: channel_dequeue_def upd_chan_def)
      from install_handles_objs [OF f this]
      have "map (\<lambda>h. oh_obj (slot t p h)) nhs = take (length nhs) (map hr_obj (msg_handles m)) \<and>
          (length nhs < length (msg_handles m) \<longrightarrow> list_all oh_used (tables t ! p))" by auto
      ultimately show ?thesis using r Cons False by simp
    qed
  qed
  from send recv show ?thesis by blast
qed

text \<open>The example state: process 0 holds both ends of a channel and a surface.\<close>

lemma first_index_clear: "first_index (\<lambda>h. \<not> oh_used h) (replicate (Suc n) obj_handle_clear) = Some 0"
  by (simp add: obj_handle_clear_def)

definition handle_example :: "kobj \<Rightarrow> nat \<Rightarrow> nat \<Rightarrow> obj_handle" where
  "handle_example obj base bytes =
     \<lparr>oh_kind = kind_of obj, oh_obj = obj, map_base = base, map_bytes = bytes, oh_used = True\<rparr>"

lemma ipc_example_eq:
  "ipc_example = (ipc_init [7, 9])\<lparr>
     tables := [handle_example (ChanEndObj 0 0) 0 0 # handle_example (ChanEndObj 0 1) 0 0 #
                handle_example (SurfaceObj 0) 4096 8192 # replicate 29 obj_handle_clear,
                replicate 32 obj_handle_clear],
     surfaces := [(surface_new 1 8 8 2)\<lparr>sf_refcount := 1\<rparr>], surface_live := 1,
     chans := [channel_new 2 1], chan_live := 1\<rparr>"
proof -
  have r: "replicate 32 x = x # x # x # replicate 29 x" for x :: obj_handle
    by (simp add: numeral_eq_Suc)
  show ?thesis
    unfolding ipc_example_def ipc_init_def channel_create_pair_def surface_create_def
    by (simp add: Let_def obj_handle_alloc_def r obj_handle_clear_def channel_add_def set_slot_def slot_def
        upd_surface_def handle_example_def surface_new_def)
qed

theorem ipc_no_dangling_witness:
  "oh_used (slot ipc_example 0 2) \<and> oh_obj (slot ipc_example 0 2) = SurfaceObj 0 \<and> sf_allocated (surfaces ipc_example ! 0)"
proof -
  have "oh_used (slot ipc_example 0 2)" "oh_obj (slot ipc_example 0 2) = SurfaceObj 0" "length (tables ipc_example) = 2"
    by (simp_all add: ipc_example_eq slot_def handle_example_def)
  with ipc_no_dangling [OF ipc_example_reachable, of 0 2] show ?thesis by simp
qed

theorem channel_delivery_witness:
  "\<exists>s1. channel_send 1 False True 0 0 [104, 105] [(2, False)] ipc_example = (Done (Inr ()), s1) \<and>
     waiting s1 0 1 = [\<lparr>msg_bytes = [104, 105], msg_handles = [\<lparr>hr_kind = HANDLE_KIND_SURFACE, hr_obj = SurfaceObj 0, hr_is_move = False\<rparr>]\<rparr>]"
proof -
  let ?m = "\<lparr>msg_bytes = [104, 105], msg_handles = [\<lparr>hr_kind = HANDLE_KIND_SURFACE, hr_obj = SurfaceObj 0, hr_is_move = False\<rparr>]\<rparr> :: chan_msg"
  have res: "obj_handle_resolve ipc_example 0 0 HANDLE_KIND_CHANNEL = ChanEndObj 0 0"
    by (simp add: obj_handle_resolve_def ipc_example_eq slot_def handle_example_def)
  have prep: "channel_send_prepare True 0 0 [104, 105] [(2, False)] ipc_example = Inr (0, 0, ?m)"
    unfolding channel_send_prepare_def res by (simp add: ipc_example_eq slot_def handle_example_def handle_ref_of_def)
  obtain out1 s1 where send: "channel_send 1 False True 0 0 [104, 105] [(2, False)] ipc_example = (out1, s1)" by fastforce
  obtain out2 s2 where recv: "channel_recv 2 False 0 0 10 ipc_example = (out2, s2)" by fastforce
  have w: "waiting ipc_example 0 (Suc 0) = []" "\<not> peer_closed0 (chans ipc_example ! 0)" "length (tables ipc_example) = 2"
    by (simp_all add: waiting_def ipc_example_eq channel_new_def channel_end_new_def)
  have "out1 = Done (Inr ()) \<and> waiting s1 0 1 = [?m]"
    using channel_delivery [OF ipc_example_reachable _ res send recv] unfolding prep by (simp add: w)
  then show ?thesis using send by blast
qed

definition dup_sent :: ipc where
  "dup_sent = snd (channel_send 1 False True 0 0 [] [(2, True), (2, True)] ipc_example)"

definition dup_received :: ipc where
  "dup_received = snd (channel_recv 2 False 0 1 64 dup_sent)"

definition dup_closed :: ipc where
  "dup_closed = obj_handle_free vfs_example 0 2 dup_received"

text \<open>
  C37: moving one handle twice in a message breaks the accounting.  The send accepts a message
  that names the same surface handle twice with the move flag; the receiver gets two handles
  for one counted reference, and closing the first frees the surface while the second handle
  still points at it.
\<close>

theorem channel_double_move_dangles:
  "fst (channel_send 1 False True 0 0 [] [(2, True), (2, True)] ipc_example) = Done (Inr ()) \<and>
   fst (channel_recv 2 False 0 1 64 dup_sent) = Done (Inr ([], [2, 3])) \<and>
   oh_used (slot dup_closed 0 3) \<and> oh_obj (slot dup_closed 0 3) = SurfaceObj 0 \<and>
   \<not> sf_allocated (surfaces dup_closed ! 0)"
proof -
  note ev = ipc_example_eq handle_example_def obj_handle_resolve_def slot_def set_slot_def Let_def
    channel_new_def channel_end_new_def surface_new_def obj_handle_clear_def
  let ?r = "\<lparr>hr_kind = HANDLE_KIND_SURFACE, hr_obj = SurfaceObj 0, hr_is_move = True\<rparr>"
  let ?m = "\<lparr>msg_bytes = [], msg_handles = [?r, ?r]\<rparr>"
  have prep: "channel_send_prepare True 0 0 [] [(2, True), (2, True)] ipc_example = Inr (0, 0, ?m)"
    by (simp add: channel_send_prepare_def handle_ref_of_def ev)
  have sent: "channel_send 1 False True 0 0 [] [(2, True), (2, True)] ipc_example = (Done (Inr ()), dup_sent)"
    unfolding dup_sent_def channel_send_def prep channel_send_locked_def by (simp add: ev)
  have r29: "replicate 29 x = x # replicate 28 x" for x :: obj_handle by (simp add: numeral_eq_Suc)
  have ds: "dup_sent = (ipc_init [7, 9])\<lparr>
     tables := [handle_example (ChanEndObj 0 0) 0 0 # handle_example (ChanEndObj 0 1) 0 0 #
                obj_handle_clear # replicate 29 obj_handle_clear, replicate 32 obj_handle_clear],
     surfaces := [(surface_new 1 8 8 2)\<lparr>sf_refcount := 1\<rparr>], surface_live := 1,
     chans := [(channel_new 2 1)\<lparr>end1 := channel_end_new\<lparr>inbox := [?m], inbox_count := 1\<rparr>\<rparr>], chan_live := 1\<rparr>"
    unfolding dup_sent_def channel_send_def prep channel_send_locked_def
    by (simp add: ev chan_take_handle_def surface_unmap_from_handle_def obj_handle_drop_def
        channel_enqueue_def upd_chan_def)
  have dr: "channel_recv 2 False 0 1 64 dup_sent = (Done (Inr ([], [2, 3])), (ipc_init [7, 9])\<lparr>
     tables := [handle_example (ChanEndObj 0 0) 0 0 # handle_example (ChanEndObj 0 1) 0 0 #
                handle_example (SurfaceObj 0) 0 0 # handle_example (SurfaceObj 0) 0 0 #
                replicate 28 obj_handle_clear, replicate 32 obj_handle_clear],
     surfaces := [(surface_new 1 8 8 2)\<lparr>sf_refcount := 1\<rparr>], surface_live := 1,
     chans := [channel_new 2 1], chan_live := 1\<rparr>)"
    unfolding channel_recv_def ds
    by (simp add: ev chan_install_handle_def obj_handle_alloc_def channel_dequeue_def upd_chan_def r29)
  have dc: "oh_used (slot dup_closed 0 3)" "oh_obj (slot dup_closed 0 3) = SurfaceObj 0"
    "\<not> sf_allocated (surfaces dup_closed ! 0)"
    unfolding dup_closed_def dup_received_def dr
    by (simp_all add: obj_handle_free_def ev surface_release_for_handle_def surface_unref_def upd_surface_def
        surface_free_object_def)
  from sent dr dc show ?thesis by simp
qed

text \<open>
  A message is built before the lock is taken and kept while its sender sleeps.  When another thread of
  the process closes the handle in between, the reference that is then taken is one to a freed
  surface: the relation \<open>ipc_step\<close> has only the attempts whose message is still what the handles name.
\<close>

lemma channel_stale_send:
  "\<exists>m. channel_send_prepare True 0 0 [] [(2, False)] ipc_example = Inr (0, 0, m) \<and>
     (let s = snd (channel_send_locked 1 False 0 0 0 [(2, False)] m (obj_handle_free vfs_example 0 2 ipc_example)) in
      fst (channel_send_locked 1 False 0 0 0 [(2, False)] m (obj_handle_free vfs_example 0 2 ipc_example)) = Done (Inr ()) \<and>
      waiting s 0 1 = [m] \<and> map hr_obj (msg_handles m) = [SurfaceObj 0] \<and> \<not> sf_allocated (surfaces s ! 0))"
proof -
  let ?m = "\<lparr>msg_bytes = [], msg_handles = [\<lparr>hr_kind = HANDLE_KIND_SURFACE, hr_obj = SurfaceObj 0, hr_is_move = False\<rparr>]\<rparr>"
  note ev = ipc_example_eq handle_example_def obj_handle_resolve_def slot_def set_slot_def Let_def
    channel_new_def channel_end_new_def surface_new_def obj_handle_clear_def
  have "channel_send_prepare True 0 0 [] [(2, False)] ipc_example = Inr (0, 0, ?m)"
    by (simp add: channel_send_prepare_def handle_ref_of_def ev)
  moreover have "fst (channel_send_locked 1 False 0 0 0 [(2, False)] ?m (obj_handle_free vfs_example 0 2 ipc_example)) = Done (Inr ())"
    "waiting (snd (channel_send_locked 1 False 0 0 0 [(2, False)] ?m (obj_handle_free vfs_example 0 2 ipc_example))) 0 1 = [?m]"
    "\<not> sf_allocated (surfaces (snd (channel_send_locked 1 False 0 0 0 [(2, False)] ?m (obj_handle_free vfs_example 0 2 ipc_example))) ! 0)"
    by (simp_all add: channel_send_locked_def obj_handle_free_def ev surface_release_for_handle_def surface_unref_def upd_surface_def
        surface_free_object_def chan_take_handle_def obj_ref_get_def surface_ref_get_def channel_enqueue_def upd_chan_def waiting_def)
  ultimately show ?thesis by (intro exI [of _ ?m]) (simp add: Let_def)
qed

text \<open>
  The name of an endpoint is removed by resolving its path again, in the namespace of whatever process
  runs the release.  When that process cannot resolve the directory, the name stays and leads to
  the freed endpoint.
\<close>

lemma endpoint_name_dangles:
  "\<exists>h s. endpoint_listen vfs_example True 0 ''/run/a'' (ipc_init [7, 9]) = (Inr h, s) \<and>
     (let t = obj_handle_free (\<lambda>_. Inl ENOENT) 0 (int h) s in
      epfs_get_endpoint (epfs_nodes t) \<lparr>vn_epfs = True, vn_ino = 2, vn_type = VFS_DT_ENDPOINT\<rparr> = Some 0 \<and> \<not> ep_allocated (epts t ! 0))"
proof -
  let ?n = "\<lparr>en_type = EPFS_ENDPOINT, en_name = ''a'', en_parent_ino = 1, en_endpoint = 0, en_used = True\<rparr>"
  let ?s = "(ipc_init [7, 9])\<lparr>epfs_nodes := epfs_init[1 := ?n],
    tables := [handle_example (EndpointObj 0) 0 0 # replicate 31 obj_handle_clear, replicate 32 obj_handle_clear],
    epts := [endpoint_new 0 7 ''/run/a''], endpoint_live := 1\<rparr>"
  have r: "replicate 32 x = x # replicate 31 x" for x :: obj_handle by (simp add: numeral_eq_Suc)
  have n: "epfs_init = \<lparr>en_type = EPFS_DIR, en_name = [], en_parent_ino = 0, en_endpoint = 0, en_used = True\<rparr> # epfs_node_free #
      replicate 62 epfs_node_free" by (simp add: epfs_init_def numeral_eq_Suc)
  have sp: "split_parent ''/run/a'' = Inr (''/run'', ''a'')" by (simp add: split_parent_def Let_def)
  have "find_child epfs_init 1 ''a'' = None"
    unfolding find_child_def by (auto simp: first_index_None n epfs_node_free_def)
  then have "epfs_create_endpoint \<lparr>vn_epfs = True, vn_ino = 1, vn_type = VFS_DT_DIR\<rparr> ''a'' 0 epfs_init = Inr (epfs_init[1 := ?n])"
    by (simp add: epfs_create_endpoint_def) (simp add: n epfs_node_free_def)
  then have "endpoint_listen vfs_example True 0 ''/run/a'' (ipc_init [7, 9]) = (Inr 0, ?s)"
    by (simp add: endpoint_listen_def sp vfs_example_def Let_def ipc_init_def obj_handle_alloc_def r obj_handle_clear_def
        set_slot_def handle_example_def)
  moreover have "epfs_nodes (obj_handle_free (\<lambda>_. Inl ENOENT) 0 0 ?s) = epfs_init[1 := ?n]"
    "\<not> ep_allocated (epts (obj_handle_free (\<lambda>_. Inl ENOENT) 0 0 ?s) ! 0)"
    by (simp_all add: obj_handle_free_def slot_def handle_example_def endpoint_release_for_handle_def endpoint_teardown_def
        endpoint_new_def sp upd_ept_def set_slot_def Let_def)
  moreover have "epfs_get_endpoint (epfs_init[1 := ?n]) \<lparr>vn_epfs = True, vn_ino = 2, vn_type = VFS_DT_ENDPOINT\<rparr> = Some 0"
    by (simp add: epfs_get_endpoint_def node_at_ino_def n)
  ultimately show ?thesis by (intro exI [of _ 0] exI [of _ ?s]) (simp add: Let_def)
qed

end
