(* ===== verification/Compress.thy ===== *)
theory Compress
  imports Prelude
begin

text \<open>
  The extent compressor of the filesystem, \<open>kernel/fs/embkfs/embkfs_compress.c\<close>.  Buffers are
  byte lists; positions and lengths are natural numbers, with the wrap-around of 32-bit
  arithmetic written out where a malformed stream can reach it.  The test \<open>pos + 4 <= src_len\<close>
  of the encoder is a 32-bit sum in the code and a natural number here: the two agree for extents
  shorter than \<open>2^32 - 4\<close> bytes, which the theorems on the encoder assume.  The hash table is a
  function from slots to the stored signed position.

  The theory shows that decompression inverts compression, that the decoder always ends, never
  leaves its buffers and yields exactly the requested number of bytes or an error, and that a
  destination of the advertised bound is always large enough.
\<close>

section \<open>Encoder\<close>

abbreviation (input) EMBKZ_MINMATCH :: nat where "EMBKZ_MINMATCH \<equiv> 4"
abbreviation (input) EMBKZ_MAX_OFFSET :: nat where "EMBKZ_MAX_OFFSET \<equiv> 65535"
abbreviation (input) EMBKZ_MAX_MATCH :: nat where "EMBKZ_MAX_MATCH \<equiv> 0x00FFFFFF"

definition embk_compress_bound :: "nat \<Rightarrow> nat" where
  "embk_compress_bound src_len = wrap32 (src_len + src_len div 255 + 16)"

definition read_u32le :: "u8 list \<Rightarrow> nat \<Rightarrow> u32" where
  "read_u32le src p = ucast (src ! p) OR push_bit 8 (ucast (src ! (p + 1))) OR
     push_bit 16 (ucast (src ! (p + 2))) OR push_bit 24 (ucast (src ! (p + 3)))"

definition hash4 :: "u32 \<Rightarrow> nat" where
  "hash4 x = unat (drop_bit 18 (x * 2654435761))"

function emit_length_ext :: "nat \<Rightarrow> u8 list" where
  "emit_length_ext len = (if len \<ge> 255 then 255 # emit_length_ext (len - 255) else [of_nat len])"
  by pat_completeness auto
termination
  by (relation "measure id") auto

declare emit_length_ext.simps [simp del]

fun match_length :: "u8 list \<Rightarrow> nat \<Rightarrow> nat \<Rightarrow> nat \<Rightarrow> nat" where
  "match_length src a b 0 = 0"
| "match_length src a b (Suc mx) =
     (if src ! a = src ! b then Suc (match_length src (Suc a) (Suc b) mx) else 0)"

text \<open>\<open>(int32_t)pos\<close> of a 32-bit position.\<close>

definition to_int32 :: "nat \<Rightarrow> int" where
  "to_int32 n = (if n < 2 ^ 31 then int n else int n - 2 ^ 32)"

text \<open>Appending to the destination, \<open>None\<close> when the bytes would not fit.\<close>

definition put_bytes :: "nat \<Rightarrow> u8 list \<Rightarrow> u8 list \<Rightarrow> u8 list option" where
  "put_bytes cap bs dst = (if length dst + length bs > cap then None else Some (dst @ bs))"

definition length_ext :: "nat \<Rightarrow> u8 list" where
  "length_ext n = (if n \<ge> 15 then emit_length_ext (n - 15) else [])"

text \<open>One sequence: token, literal extension, literals, offset, match extension.\<close>

definition emit_sequence :: "nat \<Rightarrow> u8 list \<Rightarrow> nat \<Rightarrow> nat \<Rightarrow> u8 list \<Rightarrow> u8 list option" where
  "emit_sequence cap lits offset mlen dst =
     (let lit_len = length lits;
          match_code = mlen - EMBKZ_MINMATCH;
          lit_nib = (if lit_len < 15 then lit_len else 15);
          match_nib = (if match_code < 15 then match_code else 15) in
      case put_bytes cap [of_nat (lit_nib * 16 + match_nib)] dst of
        None \<Rightarrow> None
      | Some d1 \<Rightarrow>
      case put_bytes cap (length_ext lit_len) d1 of
        None \<Rightarrow> None
      | Some d2 \<Rightarrow>
      case put_bytes cap lits d2 of
        None \<Rightarrow> None
      | Some d3 \<Rightarrow>
      case put_bytes cap [of_nat (offset mod 256), of_nat (offset div 256 mod 256)] d3 of
        None \<Rightarrow> None
      | Some d4 \<Rightarrow> put_bytes cap (length_ext match_code) d4)"

definition emit_final :: "nat \<Rightarrow> u8 list \<Rightarrow> u8 list \<Rightarrow> u8 list option" where
  "emit_final cap lits dst =
     (let lit_len = length lits; lit_nib = (if lit_len < 15 then lit_len else 15) in
      case put_bytes cap [of_nat (lit_nib * 16)] dst of
        None \<Rightarrow> None
      | Some d1 \<Rightarrow>
      case put_bytes cap (length_ext lit_len) d1 of
        None \<Rightarrow> None
      | Some d2 \<Rightarrow> put_bytes cap lits d2)"

text \<open>The offset and the length of the match found at \<open>pos\<close>, from the table's candidate.\<close>

definition find_match :: "u8 list \<Rightarrow> nat \<Rightarrow> int \<Rightarrow> nat \<times> nat" where
  "find_match src pos cand =
     (let max_match = min (length src - pos) EMBKZ_MAX_MATCH in
      if cand \<ge> 0 then
        let offset = nat ((int pos - cand) mod 2 ^ 32) in
        if offset \<ge> 1 \<and> offset \<le> EMBKZ_MAX_OFFSET then (offset, match_length src pos (nat cand) max_match)
        else (offset, 0)
      else (0, 0))"

text \<open>The main loop, from the position, the start of the pending literals, the table and the output.\<close>

function compress_loop ::
    "u8 list \<Rightarrow> nat \<Rightarrow> nat \<Rightarrow> nat \<Rightarrow> (nat \<Rightarrow> int) \<Rightarrow> u8 list \<Rightarrow> (u8 list \<times> nat) option" where
  "compress_loop src cap pos literal_start table dst =
     (if pos + EMBKZ_MINMATCH \<le> length src then
        let h = hash4 (read_u32le src pos);
            table1 = table(h := to_int32 pos);
            (offset, mlen) = find_match src pos (table h) in
        if mlen \<ge> EMBKZ_MINMATCH then
          (case emit_sequence cap (take (pos - literal_start) (drop literal_start src)) offset mlen dst of
             None \<Rightarrow> None
           | Some dst1 \<Rightarrow>
               let pos1 = pos + mlen;
                   table2 = (if pos1 + EMBKZ_MINMATCH \<le> length src
                             then table1(hash4 (read_u32le src (pos1 - 1)) := to_int32 (pos1 - 1))
                             else table1)
               in compress_loop src cap pos1 pos1 table2 dst1)
        else compress_loop src cap (pos + 1) literal_start table1 dst
      else Some (dst, literal_start))"
  by pat_completeness auto
termination
  by (relation "measure (\<lambda>(src, cap, pos, literal_start, table, dst). length src - pos)") auto

declare compress_loop.simps [simp del]

text \<open>\<open>mem\<close>: the hash table could be allocated.  \<open>None\<close> is the result false.\<close>

definition embk_compress :: "bool \<Rightarrow> u8 list \<Rightarrow> nat \<Rightarrow> u8 list option" where
  "embk_compress mem src dst_cap =
     (if length src < EMBKZ_MINMATCH + 1 then None
      else if \<not> mem then None
      else case compress_loop src dst_cap 0 0 (\<lambda>_. -1) [] of
        None \<Rightarrow> None
      | Some (dst, literal_start) \<Rightarrow>
          (case emit_final dst_cap (drop literal_start src) dst of
             None \<Rightarrow> None
           | Some d \<Rightarrow> if length d \<ge> length src then None else Some d))"

section \<open>Decoder\<close>

text \<open>The sum and the rest of the stream; \<open>None\<close> when the stream ends inside a length.\<close>

fun read_length_ext :: "u8 list \<Rightarrow> nat \<Rightarrow> (nat \<times> u8 list) option" where
  "read_length_ext [] tot = None"
| "read_length_ext (b # sp) tot =
     (let tot1 = wrap32 (tot + unat b) in
      if b \<noteq> 255 then Some (tot1, sp) else read_length_ext sp tot1)"

definition read_nibble :: "nat \<Rightarrow> u8 list \<Rightarrow> (nat \<times> u8 list) option" where
  "read_nibble nib sp =
     (if nib = 15 then map_option (\<lambda>(n, sp'). (wrap32 (15 + n), sp')) (read_length_ext sp 0)
      else Some (nib, sp))"

text \<open>
  The result of the decoder.  \<open>Overrun\<close> stands for a read behind the end of the stream or a copy
  that reads bytes not yet written or writes behind the end of the destination: C leaves what
  follows undefined.
\<close>

datatype decoded = Accepted "u8 list" | Rejected | Overrun

text \<open>The two copies into a destination of \<open>cap\<close> bytes of which \<open>out\<close> is written; \<open>None\<close> is an overrun.\<close>

definition copy_literals :: "nat \<Rightarrow> u8 list \<Rightarrow> nat \<Rightarrow> u8 list \<Rightarrow> (u8 list \<times> u8 list) option" where
  "copy_literals cap out lit_len sp =
     (if length sp < lit_len \<or> cap < length out + lit_len then None
      else Some (out @ take lit_len sp, drop lit_len sp))"

fun copy_match :: "nat \<Rightarrow> u8 list \<Rightarrow> nat \<Rightarrow> nat \<Rightarrow> u8 list option" where
  "copy_match cap out offset 0 = Some out"
| "copy_match cap out offset (Suc n) =
     (if cap \<le> length out \<or> offset = 0 \<or> length out < offset then None
      else copy_match cap (out @ [out ! (length out - offset)]) offset n)"

lemma read_length_ext_shorter: "read_length_ext sp tot = Some (n, sp') \<Longrightarrow> length sp' < length sp"
  by (induction sp tot rule: read_length_ext.induct) (auto simp: Let_def split: if_splits)

lemma read_nibble_shorter: "read_nibble nib sp = Some (n, sp') \<Longrightarrow> length sp' \<le> length sp"
  by (auto simp: read_nibble_def split: if_splits dest: read_length_ext_shorter)

lemma drop_two: "drop k sp = b0 # b1 # sp' \<Longrightarrow> length sp' + 2 + k = length sp"
  by (drule arg_cong [where f = length]) simp

function decompress_loop :: "u8 list \<Rightarrow> u8 list \<Rightarrow> nat \<Rightarrow> decoded" where
  "decompress_loop sp out expected =
     (if length out < expected then
        (case sp of
           [] \<Rightarrow> Rejected
         | token # sp1 \<Rightarrow>
             (case read_nibble (unat (drop_bit 4 token)) sp1 of
                None \<Rightarrow> Rejected
              | Some (lit_len, sp2) \<Rightarrow>
                  if expected - length out < lit_len then Rejected
                  else if length sp2 < lit_len then Rejected
                  else
                    (case copy_literals expected out lit_len sp2 of
                       None \<Rightarrow> Overrun
                     | Some (out1, sp3) \<Rightarrow>
                         if length out1 = expected then Accepted out1
                         else if length sp3 < 2 then Rejected
                         else
                           (case sp3 of
                              b0 # b1 # sp4 \<Rightarrow>
                                let offset = unat b0 + unat b1 * 256 in
                                if offset = 0 \<or> offset > length out1 then Rejected
                                else
                                  (case read_nibble (unat (token AND 15)) sp4 of
                                     None \<Rightarrow> Rejected
                                   | Some (match_nib, sp5) \<Rightarrow>
                                       let match_len = wrap32 (match_nib + EMBKZ_MINMATCH) in
                                       if expected - length out1 < match_len then Rejected
                                       else
                                         (case copy_match expected out1 offset match_len of
                                            None \<Rightarrow> Overrun
                                          | Some out2 \<Rightarrow> decompress_loop sp5 out2 expected))
                            | _ \<Rightarrow> Overrun))))
      else if length out = expected then Accepted out else Rejected)"
  by pat_completeness auto
termination
  by (relation "measure (\<lambda>(sp, out, expected). length sp)")
    (fastforce simp: copy_literals_def dest!: read_nibble_shorter drop_two split: if_splits)+

declare decompress_loop.simps [simp del]

definition embk_decompress :: "u8 list \<Rightarrow> nat \<Rightarrow> decoded" where
  "embk_decompress src expected_len = decompress_loop src [] expected_len"

text \<open>The copies of matches that stay inside what is written and inside the destination.\<close>

fun match_out :: "u8 list \<Rightarrow> nat \<Rightarrow> nat \<Rightarrow> u8 list" where
  "match_out out offset 0 = out"
| "match_out out offset (Suc n) = match_out (out @ [out ! (length out - offset)]) offset n"

lemma length_match_out [simp]: "length (match_out out offset n) = length out + n"
  by (induction out offset n rule: match_out.induct) auto

lemma copy_match_inside:
  "length out + n \<le> cap \<Longrightarrow> offset \<noteq> 0 \<Longrightarrow> offset \<le> length out \<Longrightarrow>
   copy_match cap out offset n = Some (match_out out offset n)"
  by (induction out offset n rule: match_out.induct) auto

lemma copy_literals_inside:
  "length out < n \<Longrightarrow> \<not> n - length out < k \<Longrightarrow> \<not> length sp < k \<Longrightarrow>
   copy_literals n out k sp = Some (out @ take k sp, drop k sp)"
  by (simp add: copy_literals_def)

text \<open>One round of the decoder, with the guards that make both copies safe.\<close>

lemma decompress_round:
  assumes "length out < n" "read_nibble (unat (drop_bit 4 token)) sp1 = Some (lit, sp2)"
    "\<not> n - length out < lit" "\<not> length sp2 < lit" "drop lit sp2 = b0 # b1 # sp4" "length out + lit \<noteq> n"
    "offset = unat b0 + unat b1 * 256" "offset \<noteq> 0" "offset \<le> length out + lit"
    "read_nibble (unat (token AND 15)) sp4 = Some (m, sp5)" "\<not> n - (length out + lit) < wrap32 (m + 4)"
  shows "decompress_loop (token # sp1) out n =
    decompress_loop sp5 (match_out (out @ take lit sp2) offset (wrap32 (m + 4))) n"
proof -
  have "copy_match n (out @ take lit sp2) offset (wrap32 (m + 4)) =
      Some (match_out (out @ take lit sp2) offset (wrap32 (m + 4)))"
    using assms(1,3,4,8,9,11) by (intro copy_match_inside) auto
  then show ?thesis
    unfolding decompress_loop.simps [of "_ # _"] using assms by (auto simp: Let_def copy_literals_inside)
qed

section \<open>Lengths\<close>

lemma length_emit_length_ext: "length (emit_length_ext n) = n div 255 + 1"
proof (induction n rule: emit_length_ext.induct)
  case (1 n)
  show ?case
  proof (cases "n \<ge> 255")
    case True
    then have "n div 255 = (n - 255) div 255 + 1" by (simp add: le_div_geq)
    with True 1 show ?thesis by (simp add: emit_length_ext.simps [of n])
  qed (simp add: emit_length_ext.simps [of n])
qed

lemma length_length_ext: "length (length_ext n) = (if n \<ge> 15 then (n - 15) div 255 + 1 else 0)"
  by (simp add: length_ext_def length_emit_length_ext)

lemma read_emit_length_ext:
  "tot + n < 2 ^ 32 \<Longrightarrow> read_length_ext (emit_length_ext n @ sp) tot = Some (tot + n, sp)"
proof (induction n arbitrary: tot rule: emit_length_ext.induct)
  case (1 n)
  show ?case
  proof (cases "n \<ge> 255")
    case True
    have "read_length_ext (emit_length_ext (n - 255) @ sp) (tot + 255) = Some (tot + n, sp)"
      using 1(1) [OF True, of "tot + 255"] 1(2) True by simp
    then show ?thesis using True 1(2) by (simp add: emit_length_ext.simps [of n] Let_def wrap32_def)
  next
    case False
    then have u: "unat (of_nat n :: u8) = n" by (simp add: unat_of_nat take_bit_nat_eq_self)
    then have "unat (of_nat n :: u8) \<noteq> unat (255 :: u8)" using False by simp
    then have "(of_nat n :: u8) \<noteq> 255" by metis
    then show ?thesis using False 1(2) u by (simp add: emit_length_ext.simps [of n] Let_def wrap32_def)
  qed
qed

lemma read_length_nibble:
  "n < 2 ^ 32 \<Longrightarrow> read_nibble (if n < 15 then n else 15) (length_ext n @ sp) = Some (n, sp)"
  by (auto simp: read_nibble_def length_ext_def read_emit_length_ext wrap32_def)

lemma token_nibbles:
  assumes "a < 16" "b < 16"
  shows "unat (drop_bit 4 (of_nat (a * 16 + b) :: u8)) = a" "unat ((of_nat (a * 16 + b) :: u8) AND 15) = b"
proof -
  have u: "unat (of_nat (a * 16 + b) :: u8) = a * 16 + b" using assms by (simp only: unat_of_nat) (simp add: take_bit_nat_eq_self)
  have m: "(15 :: nat) = mask 4" by (simp add: mask_eq_exp_minus_1)
  show "unat (drop_bit 4 (of_nat (a * 16 + b) :: u8)) = a"
    using assms by (simp only: unat_drop_bit_eq u) (simp add: drop_bit_eq_div)
  have "unat ((of_nat (a * 16 + b) :: u8) AND 15) = (a * 16 + b) AND 15" by (simp only: unsigned_and_eq u) simp
  also have "\<dots> = b" using assms by (simp only: m take_bit_eq_mask [symmetric]) (simp add: take_bit_eq_mod)
  finally show "unat ((of_nat (a * 16 + b) :: u8) AND 15) = b" .
qed

lemma offset_bytes:
  "n < 65536 \<Longrightarrow> unat (of_nat (n mod 256) :: u8) + unat (of_nat (n div 256 mod 256) :: u8) * 256 = n"
  by (simp add: unat_of_nat take_bit_nat_eq_self)

section \<open>Round trip\<close>

lemma put_bytes_Some: "put_bytes cap bs dst = Some d \<Longrightarrow> d = dst @ bs"
  by (auto simp: put_bytes_def split: if_splits)

text \<open>The bytes of one sequence, free of the capacity checks.\<close>

definition sequence_bytes :: "u8 list \<Rightarrow> nat \<Rightarrow> nat \<Rightarrow> u8 list" where
  "sequence_bytes lits offset mlen =
     of_nat ((if length lits < 15 then length lits else 15) * 16 +
             (if mlen - 4 < 15 then mlen - 4 else 15)) #
     length_ext (length lits) @ lits @
     [of_nat (offset mod 256), of_nat (offset div 256 mod 256)] @ length_ext (mlen - 4)"

lemma emit_sequence_Some:
  "emit_sequence cap lits offset mlen dst = Some d \<Longrightarrow> d = dst @ sequence_bytes lits offset mlen"
  by (auto simp: emit_sequence_def sequence_bytes_def Let_def dest!: put_bytes_Some split: option.splits)

lemma emit_final_Some:
  "emit_final cap lits dst = Some d \<Longrightarrow>
   d = dst @ of_nat ((if length lits < 15 then length lits else 15) * 16) # length_ext (length lits) @ lits"
  by (auto simp: emit_final_def Let_def dest!: put_bytes_Some split: option.splits)

lemma match_length_le: "match_length src a b mx \<le> mx"
  by (induction src a b mx rule: match_length.induct) auto

lemma match_length_eq: "i < match_length src a b mx \<Longrightarrow> src ! (a + i) = src ! (b + i)"
proof (induction src a b mx arbitrary: i rule: match_length.induct)
  case (2 src a b mx)
  then show ?case by (cases i) (auto split: if_splits)
qed simp

lemma match_out_take:
  assumes "c < p" "p + k \<le> length src" "\<And>i. i < k \<Longrightarrow> src ! (p + i) = src ! (c + i)"
  shows "match_out (take p src) (p - c) k = take (p + k) src"
  using assms
proof (induction k arbitrary: p c)
  case (Suc k)
  have "src ! p = src ! c" using Suc.prems(3) [of 0] by simp
  then have "take p src @ [take p src ! c] = take (Suc p) src"
    using Suc.prems(1,2) by (simp add: take_Suc_conv_app_nth)
  moreover have "match_out (take (Suc p) src) (Suc p - Suc c) k = take (Suc p + k) src"
  proof (rule Suc.IH)
    show "src ! (Suc p + i) = src ! (Suc c + i)" if "i < k" for i using Suc.prems(3) [of "Suc i"] that by simp
  qed (use Suc.prems in auto)
  ultimately show ?case using Suc.prems(1,2) by (simp add: min_def)
qed simp

lemma decode_sequence:
  assumes "length out + length lits + mlen \<le> n" "n < 2 ^ 32" "4 \<le> mlen"
    and "1 \<le> offset" "offset \<le> 65535" "offset \<le> length out + length lits"
  shows "decompress_loop (sequence_bytes lits offset mlen @ rest) out n =
         decompress_loop rest (match_out (out @ lits) offset mlen) n"
proof -
  define a where "a = (if length lits < 15 then length lits else 15)"
  define b where "b = (if mlen - 4 < 15 then mlen - 4 else 15)"
  have ab: "a < 16" "b < 16" by (auto simp: a_def b_def)
  let ?o = "[of_nat (offset mod 256), of_nat (offset div 256 mod 256)] :: u8 list"
  have r1: "read_nibble a (length_ext (length lits) @ lits @ ?o @ length_ext (mlen - 4) @ rest) =
      Some (length lits, lits @ ?o @ length_ext (mlen - 4) @ rest)"
    unfolding a_def by (rule read_length_nibble) (use assms in simp)
  have r2: "read_nibble b (length_ext (mlen - 4) @ rest) = Some (mlen - 4, rest)"
    unfolding b_def by (rule read_length_nibble) (use assms in simp)
  have off: "unat (of_nat (offset mod 256) :: u8) + unat (of_nat (offset div 256 mod 256) :: u8) * 256 = offset"
    by (rule offset_bytes) (use assms in simp)
  have s: "sequence_bytes lits offset mlen @ rest =
      of_nat (a * 16 + b) # length_ext (length lits) @ lits @ ?o @ length_ext (mlen - 4) @ rest"
    by (simp only: sequence_bytes_def a_def b_def append_Cons append_assoc)
  have w: "wrap32 (mlen - 4 + 4) = mlen" using assms by (simp add: wrap32_def)
  have g: "length out < n" "\<not> n - length out < length lits" "length out + length lits \<noteq> n"
    "\<not> n - (length out + length lits) < mlen"
    using assms(1,3) by linarith+
  note nib = token_nibbles [OF ab]
  have "decompress_loop (of_nat (a * 16 + b) # length_ext (length lits) @ lits @ ?o @ length_ext (mlen - 4) @ rest) out n =
      decompress_loop rest (match_out (out @ take (length lits) (lits @ ?o @ length_ext (mlen - 4) @ rest)) offset
        (wrap32 (mlen - 4 + 4))) n"
  proof (rule decompress_round [OF g(1) _ _ _ _ _ off [symmetric]])
    show "read_nibble (unat (drop_bit 4 (of_nat (a * 16 + b) :: u8)))
        (length_ext (length lits) @ lits @ ?o @ length_ext (mlen - 4) @ rest) =
        Some (length lits, lits @ ?o @ length_ext (mlen - 4) @ rest)" unfolding nib(1) by (rule r1)
    show "read_nibble (unat ((of_nat (a * 16 + b) :: u8) AND 15)) (length_ext (mlen - 4) @ rest) = Some (mlen - 4, rest)"
      unfolding nib(2) by (rule r2)
  qed (use g(2-4) w assms(4,6) in simp_all)
  then show ?thesis unfolding s w by simp
qed

lemma to_int32_le: "to_int32 n \<le> int n"
  by (simp add: to_int32_def)

lemma find_match_ok:
  assumes "find_match src pos cand = (offset, mlen)" "4 \<le> mlen" "cand < int pos" "pos \<le> length src" "length src < 2 ^ 32"
  shows "\<exists>c. c < pos \<and> offset = pos - c \<and> offset \<le> 65535 \<and> pos + mlen \<le> length src \<and>
    (\<forall>i<mlen. src ! (pos + i) = src ! (c + i))"
proof -
  have c: "cand \<ge> 0" using assms(1,2) by (auto simp: find_match_def Let_def split: if_splits)
  then have "(int pos - cand) mod 2 ^ 32 = int pos - cand" using assms(3-5) by simp
  then have o: "nat ((int pos - cand) mod 2 ^ 32) = pos - nat cand" using c assms(3) by simp
  have m: "mlen = match_length src pos (nat cand) (min (length src - pos) 0x00FFFFFF)" and "offset = pos - nat cand"
    and "offset \<le> 65535"
    using assms(1,2) c unfolding find_match_def Let_def o by (auto split: if_splits)
  moreover have "mlen \<le> length src - pos"
    using m match_length_le [of src pos "nat cand" "min (length src - pos) 0x00FFFFFF"] by simp
  then have "pos + mlen \<le> length src" using assms(4) by linarith
  moreover have "nat cand < pos" using assms(3) c by linarith
  moreover have "src ! (pos + i) = src ! (nat cand + i)" if "i < mlen" for i
    using match_length_eq that unfolding m by blast
  ultimately show ?thesis by blast
qed

definition decodes_to :: "u8 list \<Rightarrow> u8 list \<Rightarrow> nat \<Rightarrow> bool" where
  "decodes_to dst out n \<longleftrightarrow> (\<forall>rest. decompress_loop (dst @ rest) [] n = decompress_loop rest out n)"

lemma decodes_to_sequence:
  assumes "decodes_to dst (take ls src) (length src)" "find_match src pos cand = (offset, mlen)" "4 \<le> mlen"
    "cand < int pos" "ls \<le> pos" "pos \<le> length src" "length src < 2 ^ 32"
  shows "pos + mlen \<le> length src \<and>
    decodes_to (dst @ sequence_bytes (take (pos - ls) (drop ls src)) offset mlen) (take (pos + mlen) src) (length src)"
proof -
  obtain c where c: "c < pos" "offset = pos - c" "offset \<le> 65535" "pos + mlen \<le> length src"
    "\<And>i. i < mlen \<Longrightarrow> src ! (pos + i) = src ! (c + i)"
    using find_match_ok [OF assms(2-4,6,7)] by blast
  have t: "take ls src @ take (pos - ls) (drop ls src) = take pos src"
    using assms(5) take_add [of ls "pos - ls" src] by simp
  have "decompress_loop (sequence_bytes (take (pos - ls) (drop ls src)) offset mlen @ rest) (take ls src) (length src) =
      decompress_loop rest (take (pos + mlen) src) (length src)" for rest
  proof (subst decode_sequence)
    show "decompress_loop rest (match_out (take ls src @ take (pos - ls) (drop ls src)) offset mlen) (length src) =
        decompress_loop rest (take (pos + mlen) src) (length src)"
      unfolding t c(2) using match_out_take [OF c(1,4,5)] by simp
  qed (use assms c in auto)
  then show ?thesis using assms(1) c(4) by (simp add: decodes_to_def)
qed

lemma compress_loop_decodes:
  assumes "compress_loop src cap pos ls table dst = Some (d, ls')"
    and "ls \<le> pos" "ls \<le> length src" "pos \<le> length src" "length src < 2 ^ 32" "\<And>h. table h < int pos"
    and "decodes_to dst (take ls src) (length src)"
  shows "ls' \<le> length src \<and> decodes_to d (take ls' src) (length src)"
  using assms
proof (induction src cap pos ls table dst rule: compress_loop.induct)
  case (1 src cap pos ls table dst)
  show ?case
  proof (cases "pos + 4 \<le> length src")
    case False
    then show ?thesis using "1.prems" by (simp add: compress_loop.simps [of src cap pos])
  next
    case True
    obtain offset mlen where f: "find_match src pos (table (hash4 (read_u32le src pos))) = (offset, mlen)"
      by fastforce
    let ?t1 = "table(hash4 (read_u32le src pos) := to_int32 pos)"
    note lt = le_less_trans [OF to_int32_le]
    have t1: "?t1 h < int (pos + 1)" for h
      using "1.prems"(6) [of h] by (auto intro: lt)
    show ?thesis
    proof (cases "4 \<le> mlen")
      case False
      have e: "compress_loop src cap (pos + 1) ls ?t1 dst = Some (d, ls')"
        using "1.prems"(1) True f False by (simp add: compress_loop.simps [of src cap pos] Let_def)
      show ?thesis
        by (rule "1.IH"(2) [OF True refl refl f [symmetric] refl False e _ _ _ _ t1])
          (use "1.prems" True in auto)
    next
      case m: True
      obtain d1 where d1: "emit_sequence cap (take (pos - ls) (drop ls src)) offset mlen dst = Some d1"
        using "1.prems"(1) True f m by (auto simp: compress_loop.simps [of src cap pos] Let_def split: option.splits)
      let ?t2 = "if pos + mlen + 4 \<le> length src then ?t1(hash4 (read_u32le src (pos + mlen - 1)) := to_int32 (pos + mlen - 1)) else ?t1"
      have t2: "?t2 h < int (pos + mlen)" for h
        using t1 [of h] m to_int32_le [of "pos + mlen - 1"] by (auto split: if_splits)
      note seq = decodes_to_sequence [OF "1.prems"(7) f m "1.prems"(6,2,4,5)]
      have e: "compress_loop src cap (pos + mlen) (pos + mlen) ?t2 d1 = Some (d, ls')"
        using "1.prems"(1) True f m d1 by (simp add: compress_loop.simps [of src cap pos] Let_def)
      show ?thesis
        by (rule "1.IH"(1) [OF True refl refl f [symmetric] refl m d1 refl refl e _ _ _ _ t2])
          (use "1.prems" seq emit_sequence_Some [OF d1] in auto)
    qed
  qed
qed

lemma decode_final:
  assumes "length out + length lits = n" "n < 2 ^ 32"
  shows "decompress_loop (of_nat ((if length lits < 15 then length lits else 15) * 16) # length_ext (length lits) @ lits @ rest)
           out n = Accepted (out @ lits)"
proof (cases "lits = []")
  case True
  then show ?thesis using assms by (simp add: decompress_loop.simps [of "_ # _"])
next
  case False
  define a where "a = (if length lits < 15 then length lits else 15)"
  have a: "a < 16" by (simp add: a_def)
  have r: "read_nibble a (length_ext (length lits) @ lits @ rest) = Some (length lits, lits @ rest)"
    unfolding a_def by (rule read_length_nibble) (use assms in simp)
  have "unat (drop_bit 4 (of_nat (a * 16) :: u8)) = a" using token_nibbles(1) [OF a, of 0] by simp
  then show ?thesis
    unfolding a_def [symmetric] decompress_loop.simps [of "_ # _"] list.case
    using assms(1) r False by (auto simp add: Let_def copy_literals_def simp del: of_nat_mult)
qed

text \<open>
  C3: decompression inverts compression.  Whenever the compressor accepts an extent, its output
  is shorter than the extent, fits the destination, and decodes back to exactly the extent.
\<close>

theorem compress_roundtrip:
  assumes "embk_compress mem src dst_cap = Some out" and "length src + 4 < 2 ^ 32"
  shows "embk_decompress out (length src) = Accepted src \<and> length out < length src \<and> length out \<le> dst_cap"
proof -
  obtain d ls where l: "compress_loop src dst_cap 0 0 (\<lambda>_. -1) [] = Some (d, ls)"
    and f: "emit_final dst_cap (drop ls src) d = Some out" and s: "length out < length src"
    using assms(1) by (auto simp: embk_compress_def split: if_splits option.splits)
  have dec: "ls \<le> length src \<and> decodes_to d (take ls src) (length src)"
    by (rule compress_loop_decodes [OF l]) (use assms(2) in \<open>auto simp: decodes_to_def\<close>)
  have "decompress_loop (out @ []) [] (length src) = Accepted src"
  proof -
    have "decompress_loop (out @ []) [] (length src) = Accepted (take ls src @ drop ls src)"
      unfolding emit_final_Some [OF f] append_assoc append_Cons
      using dec decode_final [of "take ls src" "drop ls src" "length src" "[]"] assms(2) by (simp add: decodes_to_def)
    then show ?thesis by simp
  qed
  moreover have "length out \<le> dst_cap"
    using f by (auto simp: emit_final_def put_bytes_def Let_def split: option.splits if_splits)
  ultimately show ?thesis using s by (simp add: embk_decompress_def)
qed

lemma compress_example: "embk_compress True (replicate 20 7) 64 = Some [31, 7, 1, 0, 0, 0]"
  by code_simp

theorem compress_roundtrip_witness:
  "embk_compress True (replicate 20 7) 64 = Some [31, 7, 1, 0, 0, 0] \<and>
   embk_decompress [31, 7, 1, 0, 0, 0] 20 = Accepted (replicate 20 7)"
  using compress_roundtrip [OF compress_example] compress_example by simp

section \<open>The decoder on arbitrary streams\<close>

lemma read_length_ext_append:
  "read_length_ext sp tot = Some (n, sp') \<Longrightarrow> read_length_ext (sp @ rest) tot = Some (n, sp' @ rest)"
  by (induction sp tot rule: read_length_ext.induct) (auto simp: Let_def split: if_splits)

lemma read_nibble_append:
  "read_nibble nib sp = Some (n, sp') \<Longrightarrow> read_nibble nib (sp @ rest) = Some (n, sp' @ rest)"
  by (auto simp: read_nibble_def dest: read_length_ext_append split: if_splits)

lemma decompress_loop_exact:
  "decompress_loop sp out n \<noteq> Overrun \<and>
   (decompress_loop sp out n = Accepted res \<longrightarrow>
      length res = n \<and> decompress_loop (sp @ rest) out n = Accepted res)"
proof (induction sp out n rule: decompress_loop.induct)
  case (1 sp out n)
  note unf = decompress_loop.simps [of _ out n]
  show ?case
  proof (cases "length out < n")
    case False
    then show ?thesis by (auto simp: unf split: if_splits)
  next
    case lt: True
    show ?thesis
    proof (cases sp)
      case Nil
      then show ?thesis using lt by (simp add: unf)
    next
      case sp: (Cons token sp1)
      show ?thesis
      proof (cases "read_nibble (unat (drop_bit 4 token)) sp1")
        case None
        then show ?thesis using lt sp by (simp add: unf)
      next
        case r1: (Some z)
        obtain lit sp2 where z: "z = (lit, sp2)" by fastforce
        show ?thesis
        proof (cases "n - length out < lit \<or> length sp2 < lit \<or> length out + lit = n \<or> length sp2 < lit + 2")
          case True
          then show ?thesis using lt sp r1 z read_nibble_append [OF r1 [unfolded z], of rest]
            by (auto simp: unf copy_literals_inside)
        next
          case g: False
          then obtain b0 b1 sp4 where d: "drop lit sp2 = b0 # b1 # sp4"
            by (cases "drop lit sp2" rule: remdups_adj.cases) (auto dest: arg_cong [where f = length])
          note cl = copy_literals_inside [OF lt, of lit sp2]
          let ?off = "unat b0 + unat b1 * 256"
          show ?thesis
          proof (cases "?off = 0 \<or> length out + lit < ?off \<or> read_nibble (unat (token AND 15)) sp4 = None")
            case True
            then show ?thesis using lt sp r1 z g d by (auto simp: unf cl Let_def)
          next
            case g2: False
            then obtain m sp5 where r2: "read_nibble (unat (token AND 15)) sp4 = Some (m, sp5)" by fastforce
            note app = read_nibble_append [OF r1 [unfolded z], of rest] read_nibble_append [OF r2, of rest]
            show ?thesis
            proof (cases "n - (length out + lit) < wrap32 (m + 4)")
              case True
              then show ?thesis using lt sp r1 z g d g2 r2 by (auto simp: unf cl Let_def)
            next
              case g3: False
              let ?out2 = "match_out (out @ take lit sp2) ?off (wrap32 (m + 4))"
              have step: "decompress_loop sp out n = decompress_loop sp5 ?out2 n"
                unfolding sp by (rule decompress_round [OF lt r1 [unfolded z]]) (use g g2 g3 d r2 in auto)
              have "decompress_loop (token # sp1 @ rest) out n =
                  decompress_loop (sp5 @ rest) (match_out (out @ take lit (sp2 @ rest)) ?off (wrap32 (m + 4))) n"
                by (rule decompress_round [OF lt app(1) _ _ _ _ refl _ _ app(2)]) (use g g2 g3 d in auto)
              then have "decompress_loop (sp @ rest) out n = decompress_loop (sp5 @ rest) ?out2 n" using sp g by simp
              moreover have "copy_match n (out @ take lit sp2) ?off (wrap32 (m + 4)) = Some ?out2"
                by (rule copy_match_inside) (use lt g g2 g3 in auto)
              then have "decompress_loop sp5 ?out2 n \<noteq> Overrun \<and> (decompress_loop sp5 ?out2 n = Accepted res \<longrightarrow>
                  length res = n \<and> decompress_loop (sp5 @ rest) ?out2 n = Accepted res)"
                using g g2 g3 cl by (intro "1.IH" [OF lt sp r1 z [symmetric] _ _ cl refl _ _ d refl refl _ r2 refl refl]) auto
              ultimately show ?thesis using step by simp
            qed
          qed
        qed
      qed
    qed
  qed
qed

text \<open>
  C18: the decoder is safe and exact on every stream, well formed or not.  It always ends, and it
  never reads behind the stream, copies a byte that has not been written, or writes behind the
  destination of the requested length; when it accepts, it has produced exactly the requested
  number of bytes, and the bytes behind the part it consumed have no influence.
\<close>

theorem decompress_exact:
  "embk_decompress src expected_len \<noteq> Overrun \<and>
   (embk_decompress src expected_len = Accepted out \<longrightarrow>
      length out = expected_len \<and> embk_decompress (src @ rest) expected_len = Accepted out)"
  using decompress_loop_exact by (simp add: embk_decompress_def)

theorem decompress_exact_witness:
  "embk_decompress [31, 7, 1, 0, 0, 0] 20 = Accepted (replicate 20 7) \<and>
   embk_decompress [31, 7, 1, 0, 0, 0, 9, 9] 20 = Accepted (replicate 20 7)"
proof -
  have "embk_decompress [31, 7, 1, 0, 0, 0] 20 = Accepted (replicate 20 7)" by code_simp
  then show ?thesis using decompress_exact [of "[31, 7, 1, 0, 0, 0]" 20 _ "[9, 9]"] by simp
qed

section \<open>The advertised bound\<close>

lemma div_add_le: "a div c + b div c \<le> (a + b) div (c :: nat)"
  using div_add1_eq [of a b c] by linarith

lemma length_sequence_bytes:
  "length (sequence_bytes lits offset mlen) =
   3 + length lits + length (length_ext (length lits)) + length (length_ext (mlen - 4))"
  by (simp add: sequence_bytes_def)

lemma sequence_cost:
  assumes "4 \<le> mlen" "length dst \<le> ls + ls div 255"
  shows "length (dst @ sequence_bytes lits offset mlen) \<le> ls + length lits + mlen + (ls + length lits + mlen) div 255"
proof -
  define l where "l = length lits"
  have l: "length (length_ext l) \<le> 1 + l div 255" by (auto simp: length_length_ext intro: div_le_mono)
  have m: "length (length_ext (mlen - 4)) + 4 \<le> mlen"
    using assms(1) div_le_dividend [of "mlen - 4 - 15" 255] by (auto simp: length_length_ext)
  have "ls div 255 + l div 255 \<le> (ls + l + mlen) div 255"
    by (rule order_trans [OF div_add_le]) (simp add: div_le_mono)
  then show ?thesis
    using l m assms(2) by (simp add: length_sequence_bytes l_def [symmetric])
qed

lemma emit_sequence_fits:
  "length (dst @ sequence_bytes lits offset mlen) \<le> cap \<Longrightarrow>
   emit_sequence cap lits offset mlen dst = Some (dst @ sequence_bytes lits offset mlen)"
  by (simp add: emit_sequence_def sequence_bytes_def put_bytes_def Let_def)

lemma compress_loop_fits:
  assumes "length src + length src div 255 \<le> cap" "ls \<le> pos" "pos \<le> length src" "length src < 2 ^ 32"
    and "\<And>h. table h < int pos" "length dst \<le> ls + ls div 255"
  shows "\<exists>d ls'. compress_loop src cap pos ls table dst = Some (d, ls') \<and> ls' \<le> length src \<and>
    length d \<le> ls' + ls' div 255"
  using assms
proof (induction src cap pos ls table dst rule: compress_loop.induct)
  case (1 src cap pos ls table dst)
  show ?case
  proof (cases "pos + 4 \<le> length src")
    case False
    then show ?thesis using "1.prems" by (simp add: compress_loop.simps [of src cap pos])
  next
    case True
    obtain offset mlen where f: "find_match src pos (table (hash4 (read_u32le src pos))) = (offset, mlen)"
      by fastforce
    let ?t1 = "table(hash4 (read_u32le src pos) := to_int32 pos)"
    have t1: "?t1 h < int (pos + 1)" for h
      using "1.prems"(5) [of h] by (auto intro: le_less_trans [OF to_int32_le])
    show ?thesis
    proof (cases "4 \<le> mlen")
      case False
      have "\<exists>d ls'. compress_loop src cap (pos + 1) ls ?t1 dst = Some (d, ls') \<and> ls' \<le> length src \<and>
          length d \<le> ls' + ls' div 255"
        by (rule "1.IH"(2) [OF True refl refl f [symmetric] refl False "1.prems"(1) _ _ _ t1])
          (use "1.prems" True in auto)
      then show ?thesis using True f False by (simp add: compress_loop.simps [of src cap pos] Let_def)
    next
      case m: True
      let ?lits = "take (pos - ls) (drop ls src)"
      let ?t2 = "if pos + mlen + 4 \<le> length src then ?t1(hash4 (read_u32le src (pos + mlen - 1)) := to_int32 (pos + mlen - 1)) else ?t1"
      have t2: "?t2 h < int (pos + mlen)" for h
        using t1 [of h] m to_int32_le [of "pos + mlen - 1"] by (auto split: if_splits)
      have le: "pos + mlen \<le> length src" using find_match_ok [OF f m "1.prems"(5,3,4)] by blast
      have "ls + length ?lits + mlen = pos + mlen" using "1.prems"(2,3) by simp
      then have cost: "length (dst @ sequence_bytes ?lits offset mlen) \<le> pos + mlen + (pos + mlen) div 255"
        using sequence_cost [OF m "1.prems"(6), of ?lits offset] by simp
      have "pos + mlen + (pos + mlen) div 255 \<le> length src + length src div 255"
        using le by (intro add_mono div_le_mono) auto
      then have e: "emit_sequence cap ?lits offset mlen dst = Some (dst @ sequence_bytes ?lits offset mlen)"
        using cost "1.prems"(1) by (intro emit_sequence_fits) linarith
      have "\<exists>d ls'. compress_loop src cap (pos + mlen) (pos + mlen) ?t2 (dst @ sequence_bytes ?lits offset mlen) =
          Some (d, ls') \<and> ls' \<le> length src \<and> length d \<le> ls' + ls' div 255"
        by (rule "1.IH"(1) [OF True refl refl f [symmetric] refl m e refl refl "1.prems"(1) _ le "1.prems"(4) t2 cost]) simp
      then show ?thesis using True f m e by (simp add: compress_loop.simps [of src cap pos] Let_def)
    qed
  qed
qed

text \<open>
  C19: a destination of the advertised bound is always large enough.  For every extent whose bound
  does not wrap around at 32 bits, and every capacity of at least the bound, the encoder never
  runs out of room: its two stages produce a complete encoding of at most \<open>n + n / 255 + 2\<close>
  bytes.  The compressor returns this encoding, and it rejects the extent in exactly three
  cases: it has fewer than five bytes, the hash table could not be allocated, or the encoding is
  not shorter than the extent.
\<close>

theorem compress_bound_sufficient:
  assumes "embk_compress_bound (length src) \<le> dst_cap" and "length src + length src div 255 + 16 < 2 ^ 32"
  shows "\<exists>d ls enc. compress_loop src dst_cap 0 0 (\<lambda>_. -1) [] = Some (d, ls) \<and>
    emit_final dst_cap (drop ls src) d = Some enc \<and> length enc \<le> length src + length src div 255 + 2 \<and>
    embk_compress mem src dst_cap =
      (if length src < 5 \<or> \<not> mem \<or> length src \<le> length enc then None else Some enc)"
proof -
  have cap: "length src + length src div 255 + 16 \<le> dst_cap"
    using assms(1,2) by (simp add: embk_compress_bound_def wrap32_def)
  obtain d ls where l: "compress_loop src dst_cap 0 0 (\<lambda>_. -1) [] = Some (d, ls)" "ls \<le> length src"
      "length d \<le> ls + ls div 255"
    using compress_loop_fits [of src dst_cap 0 0 "\<lambda>_. -1" "[]"] cap assms(2) by auto
  define k where "k = length src - ls"
  have kk: "k + ls = length src" using l(2) by (simp add: k_def)
  let ?enc = "d @ of_nat ((if k < 15 then k else 15) * 16) # length_ext k @ drop ls src"
  have "length (length_ext k) \<le> 1 + k div 255" by (auto simp: length_length_ext intro: div_le_mono)
  moreover have "ls div 255 + k div 255 \<le> length src div 255" using l(2) div_add_le [of ls 255 k] by (simp add: k_def)
  ultimately have len: "length ?enc \<le> length src + length src div 255 + 2"
    using l(3) kk by (simp add: k_def [symmetric])
  then have "emit_final dst_cap (drop ls src) d = Some ?enc"
    using cap by (simp add: emit_final_def put_bytes_def Let_def k_def [symmetric])
  then show ?thesis using l len by (auto simp: embk_compress_def)
qed

theorem compress_bound_sufficient_witness:
  "embk_compress_bound 6 = 22 \<and> (\<exists>enc. length enc \<le> 8 \<and>
     embk_compress True [1, 2, 3, 4, 5, 6] 22 = (if 6 \<le> length enc then None else Some enc))"
proof -
  let ?s = "[1, 2, 3, 4, 5, 6] :: u8 list"
  have n: "length ?s = 6" "embk_compress_bound 6 = 22" by (simp_all add: embk_compress_bound_def wrap32_def)
  have "\<exists>d ls enc. compress_loop ?s 22 0 0 (\<lambda>_. -1) [] = Some (d, ls) \<and>
      emit_final 22 (drop ls ?s) d = Some enc \<and> length enc \<le> length ?s + length ?s div 255 + 2 \<and>
      embk_compress True ?s 22 = (if length ?s < 5 \<or> \<not> True \<or> length ?s \<le> length enc then None else Some enc)"
    by (rule compress_bound_sufficient) (simp_all only: n, simp_all)
  then obtain enc where "length enc \<le> 6 + 6 div 255 + 2"
    "embk_compress True ?s 22 = (if (6 :: nat) < 5 \<or> \<not> True \<or> 6 \<le> length enc then None else Some enc)"
    unfolding n(1) by blast
  moreover from this have "length enc \<le> 8" "embk_compress True ?s 22 = (if 6 \<le> length enc then None else Some enc)"
    by simp_all
  ultimately show ?thesis using n(2) by blast
qed

end
