(* ===== verification/Crc32c.thy ===== *)
theory Crc32c
  imports Prelude
begin

text \<open>
  The checksum of the filesystem, \<open>kernel/fs/embkfs/crc32c.c\<close>: the table built at start-up and
  the byte-at-a-time loop.  The theory shows that the table-driven loop computes the bitwise
  cyclic redundancy check, that a returned value can be fed back as the seed, and that the
  checksum detects every change confined to a window of 32 bits.
\<close>

unbundle bit_operations_syntax

abbreviation (input) EMBK_CRC32C_POLY :: u32 where "EMBK_CRC32C_POLY \<equiv> 0x82F63B78"

section \<open>Model\<close>

text \<open>One step of the inner loop of the table construction.\<close>

definition crc_bit :: "u32 \<Rightarrow> u32" where
  "crc_bit c = (if c AND 1 \<noteq> 0 then drop_bit 1 c XOR EMBK_CRC32C_POLY else drop_bit 1 c)"

definition crc_entry :: "u32 \<Rightarrow> u32" where
  "crc_entry n = (crc_bit ^^ 8) n"

definition embk_crc32c_init :: "u32 list" where
  "embk_crc32c_init = map (\<lambda>n. crc_entry (of_nat n)) [0..<256]"

definition crc_byte :: "u32 list \<Rightarrow> u32 \<Rightarrow> u8 \<Rightarrow> u32" where
  "crc_byte crc32c_table crc b =
     crc32c_table ! unat ((crc XOR ucast b) AND 0xFF) XOR drop_bit 8 crc"

definition embk_crc32c :: "u32 list \<Rightarrow> u8 list \<Rightarrow> u32 \<Rightarrow> u32" where
  "embk_crc32c crc32c_table data seed =
     foldl (crc_byte crc32c_table) (seed XOR 0xFFFFFFFF) data XOR 0xFFFFFFFF"

section \<open>The bitwise reference\<close>

text \<open>The register is fed one bit at a time, low bit first, and divided by the polynomial.\<close>

definition ref_byte :: "u32 \<Rightarrow> u8 \<Rightarrow> u32" where
  "ref_byte crc b = (crc_bit ^^ 8) (crc XOR ucast b)"

definition crc32c_reference :: "u8 list \<Rightarrow> u32 \<Rightarrow> u32" where
  "crc32c_reference data seed = NOT (foldl ref_byte (NOT seed) data)"

lemma crc_bit_xor: "crc_bit (x XOR y) = crc_bit x XOR crc_bit y"
proof -
  have a: "(z AND 1 \<noteq> 0) = bit z 0" for z :: u32 by (simp add: and_one_eq bit_0 odd_iff_mod_2_eq_one)
  have d: "drop_bit 1 (x XOR y) = drop_bit 1 x XOR drop_bit 1 y" by (rule drop_bit_xor)
  show ?thesis
    unfolding crc_bit_def a d bit_xor_iff by (simp add: ac_simps)
qed

lemma crc_bits_xor: "(crc_bit ^^ n) (x XOR y) = (crc_bit ^^ n) x XOR (crc_bit ^^ n) y"
  by (induction n) (simp_all add: crc_bit_xor)

lemma crc_bits_high: "take_bit n x = 0 \<Longrightarrow> (crc_bit ^^ n) x = drop_bit n x"
proof (induction n arbitrary: x)
  case (Suc n)
  have z: "\<not> bit x i" if "i < Suc n" for i
    using that Suc.prems by (metis bit_take_bit_iff bit_0_eq bot_apply bot_bool_def)
  have "x AND 1 = 0" using z [of 0] by (simp add: and_one_eq bit_0 even_iff_mod_2_eq_zero)
  then have b: "crc_bit x = drop_bit 1 x" by (simp add: crc_bit_def)
  have "take_bit n (drop_bit 1 x) = 0" by (rule bit_eqI) (use z in \<open>auto simp: bit_simps\<close>)
  then show ?case using Suc.IH [of "drop_bit 1 x"] by (simp add: funpow_swap1 b)
qed simp

lemma take_bit_push_drop: "x = take_bit n x XOR push_bit n (drop_bit n x)" for x :: u32
proof (rule bit_word_eqI)
  fix i assume "i < LENGTH(32)"
  then show "bit x i = bit (take_bit n x XOR push_bit n (drop_bit n x)) i"
    by (cases "i < n") (auto simp: bit_simps)
qed

lemma crc_bits_push: "(crc_bit ^^ n) (push_bit n (drop_bit n x)) = drop_bit n x"
proof (subst crc_bits_high)
  show "take_bit n (push_bit n (drop_bit n x)) = 0" by (simp add: take_bit_push_bit)
  show "drop_bit n (push_bit n (drop_bit n x)) = drop_bit n x"
    by (rule bit_word_eqI) (auto simp: bit_simps dest: bit_imp_le_length)
qed

lemma table_entry: "embk_crc32c_init ! unat (x AND 0xFF) = (crc_bit ^^ 8) (x AND 0xFF)"
proof -
  have low: "(0xFF :: u32) = mask 8" by (simp add: mask_eq_exp_minus_1)
  have "unat (x AND 0xFF) < 2 ^ 8"
    unfolding low take_bit_eq_mask [symmetric] by (simp only: unsigned_take_bit_eq take_bit_nat_less_exp)
  then have "unat (x AND 0xFF) < 256" by simp
  then show ?thesis by (simp add: embk_crc32c_init_def crc_entry_def)
qed

lemma crc_byte_reference: "crc_byte embk_crc32c_init crc b = ref_byte crc b"
proof -
  let ?x = "crc XOR ucast b"
  have low: "(0xFF :: u32) = mask 8" by (simp add: mask_eq_exp_minus_1)
  have split: "?x = (?x AND 0xFF) XOR push_bit 8 (drop_bit 8 ?x)"
    unfolding low take_bit_eq_mask [symmetric] by (rule take_bit_push_drop)
  have b: "drop_bit 8 (ucast b :: u32) = 0"
    by (rule bit_eqI) (auto simp: bit_simps dest: bit_imp_le_length)
  have hi: "(crc_bit ^^ 8) (push_bit 8 (drop_bit 8 ?x)) = drop_bit 8 crc"
    by (simp add: crc_bits_push b del: funpow.simps)
  have "ref_byte crc b = (crc_bit ^^ 8) (?x AND 0xFF) XOR (crc_bit ^^ 8) (push_bit 8 (drop_bit 8 ?x))"
    unfolding ref_byte_def by (subst split) (rule crc_bits_xor)
  then show ?thesis by (simp only: crc_byte_def table_entry hi)
qed

text \<open>
  C20: the table-driven checksum is the bitwise one.  For every input and seed, the loop over the
  table built at start-up computes the register of the bit-serial division by the Castagnoli
  polynomial, inverted before and after.
\<close>

theorem crc32c_table_correct: "embk_crc32c embk_crc32c_init data seed = crc32c_reference data seed"
proof -
  have "crc_byte embk_crc32c_init = ref_byte" by (intro ext) (rule crc_byte_reference)
  moreover have "y XOR 0xFFFFFFFF = NOT y" for y :: u32
  proof -
    have "(0xFFFFFFFF :: u32) = - 1" by simp
    then show ?thesis by (simp only:) simp
  qed
  ultimately show ?thesis by (simp only: embk_crc32c_def crc32c_reference_def)
qed

lemma crc_byte_init: "crc_byte embk_crc32c_init = ref_byte"
  by (intro ext) (rule crc_byte_reference)

text \<open>
  Checksums compose.  The value returned for a first part, fed back as the seed for the
  second, gives the checksum of the whole.
\<close>

theorem crc32c_continue:
  "embk_crc32c crc32c_table (a @ b) seed = embk_crc32c crc32c_table b (embk_crc32c crc32c_table a seed)"
  by (simp add: embk_crc32c_def xor.assoc)

section \<open>Detection of short bursts\<close>

lemma crc_bit_inj: "crc_bit x = crc_bit y \<Longrightarrow> x = y"
proof -
  assume eq: "crc_bit x = crc_bit y"
  define d where "d = x XOR y"
  have z: "crc_bit d = 0" by (simp add: d_def crc_bit_xor eq)
  have p: "bit (EMBK_CRC32C_POLY) 31" by simp
  have e: "d AND 1 = 0"
  proof (rule ccontr)
    assume "d AND 1 \<noteq> 0"
    then have "bit (drop_bit 1 d XOR EMBK_CRC32C_POLY) 31 = bit (0 :: u32) 31" using z by (simp add: crc_bit_def)
    then show False using p by (auto simp: bit_simps dest: bit_imp_le_length)
  qed
  then have s: "drop_bit 1 d = 0" using z by (simp add: crc_bit_def)
  have "d = 0"
  proof (rule bit_word_eqI)
    fix i assume "i < LENGTH(32)"
    show "bit d i = bit 0 i"
    proof (cases i)
      case 0
      then show ?thesis using e by (simp add: and_one_eq bit_0 odd_iff_mod_2_eq_one)
    next
      case (Suc k)
      then show ?thesis using arg_cong [OF s, of "\<lambda>w. bit w k"] by (simp add: bit_simps)
    qed
  qed
  then show "x = y" using word_xor_cancel_left [of x y x] by (simp add: d_def)
qed

lemma crc_bits_inj: "(crc_bit ^^ n) x = (crc_bit ^^ n) y \<Longrightarrow> x = y"
  by (induction n) (auto dest: crc_bit_inj)

lemma fold_ref_inj: "foldl ref_byte x s = foldl ref_byte y s \<Longrightarrow> x = y"
proof (induction s arbitrary: x y)
  case (Cons b s)
  then have "ref_byte x b = ref_byte y b" by simp
  then have "x XOR ucast b = y XOR ucast b" unfolding ref_byte_def by (rule crc_bits_inj)
  then show ?case by (simp add: word_xor_cancel_right)
qed simp

lemma le_word_inj:
  assumes "length x = length y" "length x \<le> 4" "(le_word x :: u32) = le_word y"
  shows "x = y"
proof (rule nth_equalityI [OF assms(1)])
  fix k assume k: "k < length x"
  show "x ! k = y ! k"
  proof (rule bit_word_eqI)
    fix i assume "i < LENGTH(8)"
    then have "(k * 8 + i) div 8 = k" "(k * 8 + i) mod 8 = i" "k * 8 + i < 32" using k assms(2) by auto
    then show "bit (x ! k) i = bit (y ! k) i"
      using bit_le_word [of x "k * 8 + i", where 'a = 32] bit_le_word [of y "k * 8 + i", where 'a = 32] assms k by auto
  qed
qed

lemma fold_ref_le_word:
  "length x \<le> 4 \<Longrightarrow> foldl ref_byte c x = (crc_bit ^^ (8 * length x)) (c XOR le_word x)"
proof (induction x arbitrary: c)
  case (Cons b x)
  have "drop_bit 8 (push_bit 8 (le_word x)) = (le_word x :: u32)"
  proof (rule bit_word_eqI)
    fix i assume "i < LENGTH(32)"
    show "bit (drop_bit 8 (push_bit 8 (le_word x)) :: u32) i = bit (le_word x :: u32) i"
      using Cons.prems by (auto simp: bit_simps bit_le_word)
  qed
  then have "(crc_bit ^^ 8) (push_bit 8 (le_word x)) = le_word x"
    using crc_bits_push [of 8 "push_bit 8 (le_word x)"] by simp
  then have h: "ref_byte c b XOR le_word x = (crc_bit ^^ 8) (c XOR le_word (b # x))"
    by (simp only: ref_byte_def le_word.simps crc_bits_xor xor.assoc)
  have "foldl ref_byte c (b # x) = (crc_bit ^^ (8 * length x)) (ref_byte c b XOR le_word x)"
    using Cons by simp
  also have "\<dots> = (crc_bit ^^ (8 * length x + 8)) (c XOR le_word (b # x))"
    by (simp only: h funpow_add comp_def)
  finally show ?case by (simp add: algebra_simps)
qed simp

text \<open>
  C21: bursts are detected.  Two blocks of equal length that differ only inside a window of at
  most four bytes never have the same checksum.
\<close>

theorem crc32c_detects:
  assumes "length x = length y" and "length x \<le> 4" and "x \<noteq> y"
  shows "embk_crc32c embk_crc32c_init (pre @ x @ post) seed \<noteq> embk_crc32c embk_crc32c_init (pre @ y @ post) seed"
proof
  assume eq: "embk_crc32c embk_crc32c_init (pre @ x @ post) seed = embk_crc32c embk_crc32c_init (pre @ y @ post) seed"
  define c where "c = foldl ref_byte (seed XOR 0xFFFFFFFF) pre"
  have "foldl ref_byte (foldl ref_byte c x) post = foldl ref_byte (foldl ref_byte c y) post"
    using eq by (simp add: c_def crc_byte_init embk_crc32c_def word_xor_cancel_right)
  then have "foldl ref_byte c x = foldl ref_byte c y" by (rule fold_ref_inj)
  then have "c XOR le_word x = c XOR le_word y"
    using assms(1,2) by (simp add: fold_ref_le_word) (rule crc_bits_inj)
  then have "(le_word x :: u32) = le_word y" by (simp add: word_xor_cancel_left)
  then show False using le_word_inj assms by blast
qed

theorem crc32c_detects_witness:
  "embk_crc32c embk_crc32c_init ([1] @ [2, 3] @ [4]) 0 \<noteq> embk_crc32c embk_crc32c_init ([1] @ [3, 2] @ [4]) 0"
  by (rule crc32c_detects) simp_all

end
