(* ===== verification/Hash.thy ===== *)
theory Hash
  imports Prelude
begin

text \<open>
  What SHA-1 and SHA-256 share: absorbing a byte stream in blocks of 64 bytes, the padding of the
  message, and the contract of a streaming hash context.  The two hash theories interpret the
  locale on the contexts of \<open>crypto/sha256.c\<close> and \<open>crypto/sha1.c\<close>, whose update loops differ.
\<close>

unbundle bit_operations_syntax

section \<open>Absorbing whole blocks\<close>

function absorb :: "('h \<Rightarrow> u8 list \<Rightarrow> 'h) \<Rightarrow> 'h \<Rightarrow> u8 list \<Rightarrow> 'h \<times> u8 list" where
  "absorb f h bs = (if 64 \<le> length bs then absorb f (f h (take 64 bs)) (drop 64 bs) else (h, bs))"
  by pat_completeness auto
termination
  by (relation "measure (\<lambda>(f, h, bs). length bs)") auto

declare absorb.simps [simp del]

lemma absorb_short [simp]: "length bs < 64 \<Longrightarrow> absorb f h bs = (h, bs)"
  by (simp add: absorb.simps)

lemma absorb_step: "64 \<le> length bs \<Longrightarrow> absorb f h bs = absorb f (f h (take 64 bs)) (drop 64 bs)"
  by (subst absorb.simps) simp

lemma absorb_block: "length b = 64 \<Longrightarrow> absorb f h (b @ bs) = absorb f (f h b) bs"
  by (simp add: absorb_step)

lemma absorb_rest: "length (snd (absorb f h bs)) = length bs mod 64"
proof (induction f h bs rule: absorb.induct)
  case (1 f h bs)
  show ?case
  proof (cases "64 \<le> length bs")
    case True
    then have "length bs mod 64 = (length bs - 64) mod 64" by (simp add: le_mod_geq)
    then show ?thesis using 1 True by (simp add: absorb_step [OF True])
  qed simp
qed

lemma absorb_append: "absorb f h (a @ b) = absorb f (fst (absorb f h a)) (snd (absorb f h a) @ b)"
proof (induction f h a rule: absorb.induct)
  case (1 f h a)
  show ?case
  proof (cases "64 \<le> length a")
    case True
    then have "absorb f h (a @ b) = absorb f (f h (take 64 a)) (drop 64 a @ b)" by (simp add: absorb_step)
    then show ?thesis using 1 True by (simp add: absorb_step [OF True])
  qed simp
qed

lemma absorb_blocks:
  "length bs mod 64 = 0 \<Longrightarrow>
   fst (absorb f h bs) = foldl f h (map (\<lambda>i. take 64 (drop (64 * i) bs)) [0..<length bs div 64])"
proof (induction f h bs rule: absorb.induct)
  case (1 f h bs)
  show ?case
  proof (cases "64 \<le> length bs")
    case True
    define k where "k = (length bs - 64) div 64"
    have k: "length bs div 64 = Suc k" using True by (simp add: k_def le_div_geq)
    have "(length bs - 64) mod 64 = 0" using True "1.prems" by (simp add: le_mod_geq)
    then have "fst (absorb f h bs) =
        foldl f (f h (take 64 bs)) (map (\<lambda>i. take 64 (drop (64 * i) (drop 64 bs))) [0..<k])"
      using 1 True by (simp add: absorb_step [OF True] k_def)
    moreover have "map (\<lambda>i. take 64 (drop (64 * i) bs)) [0..<Suc k] =
        take 64 bs # map (\<lambda>i. take 64 (drop (64 * i) (drop 64 bs))) [0..<k]"
      by (simp only: upt_conv_Cons [OF zero_less_Suc] map_Suc_upt [symmetric] list.map) (simp add: comp_def add.commute)
    ultimately show ?thesis by (simp only: k foldl_Cons)
  qed (use 1 in simp)
qed

section \<open>Padding\<close>

text \<open>Big-endian bytes of a length field and of the chaining words.\<close>

definition be64 :: "u64 \<Rightarrow> u8 list" where
  "be64 n = map (\<lambda>i. ucast (drop_bit (56 - 8 * i) n)) [0..<8]"

definition be32_bytes :: "u32 \<Rightarrow> u8 list" where
  "be32_bytes x = [ucast (drop_bit 24 x), ucast (drop_bit 16 x), ucast (drop_bit 8 x), ucast x]"

definition be32 :: "u8 \<Rightarrow> u8 \<Rightarrow> u8 \<Rightarrow> u8 \<Rightarrow> u32" where
  "be32 a b c d = push_bit 24 (ucast a) OR push_bit 16 (ucast b) OR push_bit 8 (ucast c) OR ucast d"

lemma length_be64 [simp]: "length (be64 n) = 8"
  by (simp add: be64_def)

text \<open>The number of zero bytes between the marker and the length field.\<close>

definition pad_len :: "nat \<Rightarrow> nat" where
  "pad_len n = (119 - n mod 64) mod 64"

text \<open>The padded message of FIPS 180-4 and the hash it defines.\<close>

definition md_pad :: "u8 list \<Rightarrow> u8 list" where
  "md_pad msg = msg @ [0x80] @ replicate (pad_len (length msg)) 0 @ be64 (of_nat (8 * length msg))"

definition md_hash :: "('h \<Rightarrow> u8 list \<Rightarrow> 'h) \<Rightarrow> 'h \<Rightarrow> u8 list \<Rightarrow> 'h" where
  "md_hash f h0 msg = fst (absorb f h0 (md_pad msg))"

lemma pad_len_56: "(n + 1 + pad_len n) mod 64 = 56"
proof -
  define m where "m = n mod 64"
  have m: "m < 64" by (simp add: m_def)
  have "(n + 1 + pad_len n) mod 64 = (m + 1 + (119 - m) mod 64) mod 64"
    unfolding pad_len_def m_def [symmetric] by (metis m_def mod_add_left_eq add.assoc)
  also have "\<dots> = (m + 1 + (119 - m)) mod 64" by (metis mod_add_right_eq)
  also have "m + 1 + (119 - m) = 120" using m by simp
  finally show ?thesis by simp
qed

lemma length_md_pad: "length (md_pad msg) mod 64 = 0"
proof -
  have "length (md_pad msg) = length msg + 1 + pad_len (length msg) + 8" by (simp add: md_pad_def)
  moreover have "(length msg + 1 + pad_len (length msg) + 8) mod 64 = (56 + 8) mod 64"
    by (metis mod_add_left_eq pad_len_56)
  ultimately show ?thesis by simp
qed

section \<open>Streaming contexts\<close>

locale streaming_hash =
  fixes compress :: "'h \<Rightarrow> u8 list \<Rightarrow> 'h"
    and iv :: 'h
    and start :: 'c
    and update :: "'c \<Rightarrow> u8 list \<Rightarrow> 'c"
    and pad_zeros :: "nat \<Rightarrow> 'c \<Rightarrow> 'c"
    and chain :: "'c \<Rightarrow> 'h"
    and buffered :: "'c \<Rightarrow> u8 list"
    and bits :: "'c \<Rightarrow> u64"
  assumes start: "chain start = iv" "buffered start = []" "bits start = 0"
    and update: "length (buffered c) < 64 \<Longrightarrow>
      (chain (update c d), buffered (update c d)) = absorb compress (chain c) (buffered c @ d)"
    and update_bits: "length (buffered c) < 64 \<Longrightarrow> bits (update c d) = bits c + of_nat (8 * length d)"
    and pad_zeros_0: "pad_zeros 0 c = c"
    and pad_zeros_Suc: "pad_zeros (Suc n) c =
      (if length (buffered c) = 56 then c else pad_zeros n (update c [0]))"
begin

lemma update_chain: "length (buffered c) < 64 \<Longrightarrow> chain (update c d) = fst (absorb compress (chain c) (buffered c @ d))"
  using update by (metis fst_conv)

lemma update_buffered: "length (buffered c) < 64 \<Longrightarrow> buffered (update c d) = snd (absorb compress (chain c) (buffered c @ d))"
  using update by (metis snd_conv)

lemma update_short: "length (buffered c) < 64 \<Longrightarrow> length (buffered (update c d)) < 64"
  by (simp add: update_buffered absorb_rest)

text \<open>A context that has been fed \<open>msg\<close> in any number of pieces.\<close>

definition fed :: "'c \<Rightarrow> u8 list \<Rightarrow> bool" where
  "fed c msg \<longleftrightarrow> (chain c, buffered c) = absorb compress iv msg \<and> bits c = of_nat (8 * length msg)"

lemma fed_start: "fed start []"
  by (simp add: fed_def start)

lemma fed_short: "fed c msg \<Longrightarrow> length (buffered c) = length msg mod 64"
  using absorb_rest [of compress iv msg] by (auto simp: fed_def dest: sym)

lemma fed_update:
  assumes "fed c msg"
  shows "fed (update c d) (msg @ d)"
proof -
  have len: "length (buffered c) < 64" using fed_short [OF assms] by simp
  have "absorb compress iv msg = (chain c, buffered c)" using assms by (simp add: fed_def)
  then have "absorb compress iv (msg @ d) = absorb compress (chain c) (buffered c @ d)"
    by (simp add: absorb_append [of compress iv msg])
  then show ?thesis using assms update [OF len, of d] update_bits [OF len, of d]
    by (simp add: fed_def algebra_simps)
qed

lemma fed_pieces: "fed c msg \<Longrightarrow> fed (foldl update c ds) (msg @ concat ds)"
proof (induction ds arbitrary: c msg)
  case (Cons d ds)
  then show ?case using Cons.IH [OF fed_update [OF Cons.prems, of d]] by simp
qed simp

lemma fed_pad_zeros:
  "fed c msg \<Longrightarrow> (length msg + k) mod 64 = 56 \<Longrightarrow> (\<And>j. j < k \<Longrightarrow> (length msg + j) mod 64 \<noteq> 56) \<Longrightarrow> k \<le> n \<Longrightarrow>
   fed (pad_zeros n c) (msg @ replicate k 0)"
proof (induction k arbitrary: c msg n)
  case 0
  then have "length (buffered c) = 56" using fed_short [OF 0(1)] by simp
  then have "pad_zeros n c = c" by (cases n) (simp_all add: pad_zeros_0 pad_zeros_Suc)
  then show ?case using 0 by simp
next
  case (Suc k)
  obtain m where n: "n = Suc m" using Suc.prems(4) by (cases n) auto
  have "length (buffered c) \<noteq> 56" using fed_short [OF Suc.prems(1)] Suc.prems(3) [of 0] by simp
  then have "pad_zeros n c = pad_zeros m (update c [0])" by (simp add: n pad_zeros_Suc)
  moreover have "fed (pad_zeros m (update c [0])) ((msg @ [0]) @ replicate k 0)"
  proof (rule Suc.IH)
    show "(length (msg @ [0]) + j) mod 64 \<noteq> 56" if "j < k" for j using Suc.prems(3) [of "Suc j"] that by simp
  qed (use Suc.prems n fed_update [OF Suc.prems(1), of "[0]"] in auto)
  ultimately show ?case by simp
qed

text \<open>Marker, zeros and length field turn a fed context into the hash of the message.\<close>

lemma finish:
  assumes "fed c msg"
  shows "chain (update (pad_zeros 64 (update c [0x80])) (be64 (bits c))) = md_hash compress iv msg"
proof -
  let ?k = "pad_len (length msg)"
  have k: "?k < 64" by (simp add: pad_len_def)
  have "fed (update c [0x80]) (msg @ [0x80])" by (rule fed_update [OF assms])
  moreover have "(length (msg @ [0x80]) + ?k) mod 64 = 56" using pad_len_56 [of "length msg"] by simp
  moreover have "(length (msg @ [0x80]) + j) mod 64 \<noteq> 56" if "j < ?k" for j
  proof
    assume "(length (msg @ [0x80]) + j) mod 64 = 56"
    then have "(length msg + 1 + ?k) mod 64 = (length msg + 1 + j) mod 64"
      using pad_len_56 [of "length msg"] by simp
    then have "64 dvd ?k - j" using that by (simp add: mod_eq_dvd_iff_nat)
    then show False using that k by (simp add: nat_dvd_not_less)
  qed
  ultimately have "fed (pad_zeros 64 (update c [0x80])) ((msg @ [0x80]) @ replicate ?k 0)"
    by (rule fed_pad_zeros) (use k in auto)
  from fed_update [OF this, of "be64 (bits c)"]
  have "fed (update (pad_zeros 64 (update c [0x80])) (be64 (bits c))) (md_pad msg)"
    using assms by (simp add: md_pad_def fed_def)
  then show ?thesis by (simp add: fed_def md_hash_def prod_eq_iff)
qed

lemma finish_pieces:
  "chain (update (pad_zeros 64 (update (foldl update start ds) [0x80])) (be64 (bits (foldl update start ds)))) =
   md_hash compress iv (concat ds)"
  using finish fed_pieces [OF fed_start] by simp

end

end
