(* ===== verification/Sha256.thy ===== *)
theory Sha256
  imports Hash
begin

text \<open>
  \<open>crypto/sha256.c\<close>, \<open>crypto/hmac.c\<close> and \<open>crypto/pbkdf2.c\<close>: the compression function, the
  streaming context, the keyed hash and the key derivation.  The context's \<open>buf\<close> and \<open>buf_len\<close>
  are the list of the buffered bytes; \<open>bitlen\<close> keeps its 64-bit width.

  The theory shows that streaming in any pieces is the hash of FIPS 180-4 over the padded
  message, that the constants are what the comment says, and that the keyed hash and the key
  derivation are the constructions of RFC 2104 and RFC 8018.
\<close>

unbundle bit_operations_syntax

section \<open>Model of sha256.c\<close>

definition sha256_K :: "u32 list" where
  "sha256_K = concat [
     [0x428a2f98, 0x71374491, 0xb5c0fbcf, 0xe9b5dba5],
     [0x3956c25b, 0x59f111f1, 0x923f82a4, 0xab1c5ed5],
     [0xd807aa98, 0x12835b01, 0x243185be, 0x550c7dc3],
     [0x72be5d74, 0x80deb1fe, 0x9bdc06a7, 0xc19bf174],
     [0xe49b69c1, 0xefbe4786, 0x0fc19dc6, 0x240ca1cc],
     [0x2de92c6f, 0x4a7484aa, 0x5cb0a9dc, 0x76f988da],
     [0x983e5152, 0xa831c66d, 0xb00327c8, 0xbf597fc7],
     [0xc6e00bf3, 0xd5a79147, 0x06ca6351, 0x14292967],
     [0x27b70a85, 0x2e1b2138, 0x4d2c6dfc, 0x53380d13],
     [0x650a7354, 0x766a0abb, 0x81c2c92e, 0x92722c85],
     [0xa2bfe8a1, 0xa81a664b, 0xc24b8b70, 0xc76c51a3],
     [0xd192e819, 0xd6990624, 0xf40e3585, 0x106aa070],
     [0x19a4c116, 0x1e376c08, 0x2748774c, 0x34b0bcb5],
     [0x391c0cb3, 0x4ed8aa4a, 0x5b9cca4f, 0x682e6ff3],
     [0x748f82ee, 0x78a5636f, 0x84c87814, 0x8cc70208],
     [0x90befffa, 0xa4506ceb, 0xbef9a3f7, 0xc67178f2]]"

definition rotr32 :: "u32 \<Rightarrow> nat \<Rightarrow> u32" where
  "rotr32 x n = drop_bit n x OR push_bit (32 - n) x"

definition sha256_extend :: "u32 list \<Rightarrow> nat \<Rightarrow> u32 list" where
  "sha256_extend w i =
     (let s0 = rotr32 (w ! (i - 15)) 7 XOR rotr32 (w ! (i - 15)) 18 XOR drop_bit 3 (w ! (i - 15));
          s1 = rotr32 (w ! (i - 2)) 17 XOR rotr32 (w ! (i - 2)) 19 XOR drop_bit 10 (w ! (i - 2))
      in w @ [w ! (i - 16) + s0 + w ! (i - 7) + s1])"

definition sha256_schedule :: "u8 list \<Rightarrow> u32 list" where
  "sha256_schedule block = foldl sha256_extend
     (map (\<lambda>i. be32 (block ! (i * 4)) (block ! (i * 4 + 1)) (block ! (i * 4 + 2)) (block ! (i * 4 + 3))) [0..<16])
     [16..<64]"

type_synonym sha256_vars = "u32 \<times> u32 \<times> u32 \<times> u32 \<times> u32 \<times> u32 \<times> u32 \<times> u32"

fun sha256_round :: "sha256_vars \<Rightarrow> u32 \<times> u32 \<Rightarrow> sha256_vars" where
  "sha256_round (a, b, c, d, e, f, g, h) (k, w) =
     (let S1 = rotr32 e 6 XOR rotr32 e 11 XOR rotr32 e 25;
          ch = (e AND f) XOR (NOT e AND g);
          temp1 = h + S1 + ch + k + w;
          S0 = rotr32 a 2 XOR rotr32 a 13 XOR rotr32 a 22;
          maj = (a AND b) XOR (a AND c) XOR (b AND c);
          temp2 = S0 + maj
      in (temp1 + temp2, a, b, c, d + temp1, e, f, g))"

definition sha256_transform :: "u32 list \<Rightarrow> u8 list \<Rightarrow> u32 list" where
  "sha256_transform st block =
     (let w = sha256_schedule block;
          (a, b, c, d, e, f, g, h) = foldl sha256_round
            (st ! 0, st ! 1, st ! 2, st ! 3, st ! 4, st ! 5, st ! 6, st ! 7)
            (map (\<lambda>i. (sha256_K ! i, w ! i)) [0..<64])
      in [st ! 0 + a, st ! 1 + b, st ! 2 + c, st ! 3 + d, st ! 4 + e, st ! 5 + f, st ! 6 + g, st ! 7 + h])"

record sha256_ctx =
  sha_state :: "u32 list"
  sha_bitlen :: u64
  sha_buf :: "u8 list"

definition sha256_H0 :: "u32 list" where
  "sha256_H0 = [0x6a09e667, 0xbb67ae85, 0x3c6ef372, 0xa54ff53a, 0x510e527f, 0x9b05688c, 0x1f83d9ab, 0x5be0cd19]"

definition sha256_init :: sha256_ctx where
  "sha256_init = \<lparr>sha_state = sha256_H0, sha_bitlen = 0, sha_buf = []\<rparr>"

text \<open>
  The loop of \<open>sha256_update\<close>.  Every round consumes at least one byte while the buffer is not
  full, so as many rounds as there are bytes are enough.
\<close>

fun sha256_feed :: "nat \<Rightarrow> sha256_ctx \<Rightarrow> u8 list \<Rightarrow> sha256_ctx" where
  "sha256_feed 0 c p = c"
| "sha256_feed (Suc fuel) c p =
     (if p = [] then c
      else
        let n = min (64 - length (sha_buf c)) (length p);
            c1 = c\<lparr>sha_buf := sha_buf c @ take n p, sha_bitlen := sha_bitlen c + of_nat n * 8\<rparr>;
            c2 = (if length (sha_buf c1) = 64
                  then c1\<lparr>sha_state := sha256_transform (sha_state c1) (sha_buf c1), sha_buf := []\<rparr>
                  else c1)
        in sha256_feed fuel c2 (drop n p))"

definition sha256_update :: "sha256_ctx \<Rightarrow> u8 list \<Rightarrow> sha256_ctx" where
  "sha256_update c data = sha256_feed (length data) c data"

text \<open>The zero padding of \<open>sha256_final\<close>; 64 rounds are enough to come to 56 buffered bytes.\<close>

fun sha256_pad_zeros :: "nat \<Rightarrow> sha256_ctx \<Rightarrow> sha256_ctx" where
  "sha256_pad_zeros 0 c = c"
| "sha256_pad_zeros (Suc fuel) c =
     (if length (sha_buf c) = 56 then c else sha256_pad_zeros fuel (sha256_update c [0]))"

definition sha256_final :: "sha256_ctx \<Rightarrow> u8 list" where
  "sha256_final c =
     (let bitlen = sha_bitlen c;
          c1 = sha256_update c [0x80];
          c2 = sha256_pad_zeros 64 c1;
          c3 = sha256_update c2 (be64 bitlen)
      in concat (map (\<lambda>i. be32_bytes (sha_state c3 ! i)) [0..<8]))"

definition sha256 :: "u8 list \<Rightarrow> u8 list" where
  "sha256 data = sha256_final (sha256_update sha256_init data)"

section \<open>Model of hmac.c and pbkdf2.c\<close>

definition hmac_key_block :: "u8 list \<Rightarrow> u8 list" where
  "hmac_key_block key =
     (if length key > 64 then sha256 key @ replicate 32 0 else key @ replicate (64 - length key) 0)"

definition hmac_sha256 :: "u8 list \<Rightarrow> u8 list \<Rightarrow> u8 list" where
  "hmac_sha256 key msg =
     (let key_block = hmac_key_block key;
          ipad = map (\<lambda>b. b XOR 0x36) key_block;
          opad = map (\<lambda>b. b XOR 0x5c) key_block;
          inner = sha256_final (sha256_update (sha256_update sha256_init ipad) msg)
      in sha256_final (sha256_update (sha256_update sha256_init opad) inner))"

definition xor_bytes :: "u8 list \<Rightarrow> u8 list \<Rightarrow> u8 list" where
  "xor_bytes xs ys = map2 (XOR) xs ys"

text \<open>The loop over \<open>iter\<close>: \<open>n\<close> further applications, accumulated in \<open>t\<close>.\<close>

fun pbkdf2_iterate :: "u8 list \<Rightarrow> nat \<Rightarrow> u8 list \<Rightarrow> u8 list \<Rightarrow> u8 list" where
  "pbkdf2_iterate password 0 u t = t"
| "pbkdf2_iterate password (Suc n) u t =
     (let u1 = hmac_sha256 password u in pbkdf2_iterate password n u1 (xor_bytes t u1))"

function pbkdf2_loop :: "u8 list \<Rightarrow> u8 list \<Rightarrow> nat \<Rightarrow> nat \<Rightarrow> u32 \<Rightarrow> u8 list" where
  "pbkdf2_loop password salt iterations remaining block_index =
     (if remaining > 0 then
        let u = hmac_sha256 password (salt @ be32_bytes block_index);
            t = pbkdf2_iterate password (iterations - 1) u u;
            n = (if remaining < 32 then remaining else 32)
        in take n t @ pbkdf2_loop password salt iterations (remaining - n) (block_index + 1)
      else [])"
  by pat_completeness auto
termination
  by (relation "measure (\<lambda>(password, salt, iterations, remaining, block_index). remaining)") auto

declare pbkdf2_loop.simps [simp del]

definition pbkdf2_hmac_sha256 :: "u8 list \<Rightarrow> u8 list \<Rightarrow> u32 \<Rightarrow> nat \<Rightarrow> u8 list" where
  "pbkdf2_hmac_sha256 password salt iterations out_len =
     pbkdf2_loop password (take 64 salt) (if iterations = 0 then 1 else unat iterations) out_len 1"


section \<open>Streaming\<close>

lemma sha256_feed_absorb:
  "length (sha_buf c) < 64 \<Longrightarrow> length p \<le> fuel \<Longrightarrow>
   (sha_state (sha256_feed fuel c p), sha_buf (sha256_feed fuel c p)) =
     absorb sha256_transform (sha_state c) (sha_buf c @ p) \<and>
   sha_bitlen (sha256_feed fuel c p) = sha_bitlen c + of_nat (8 * length p)"
proof (induction fuel c p rule: sha256_feed.induct)
  case (2 fuel c p)
  show ?case
  proof (cases "p = []")
    case False
    define n where "n = min (64 - length (sha_buf c)) (length p)"
    define c1 where "c1 = c\<lparr>sha_buf := sha_buf c @ take n p, sha_bitlen := sha_bitlen c + of_nat n * 8\<rparr>"
    define c2 where "c2 = (if length (sha_buf c1) = 64
      then c1\<lparr>sha_state := sha256_transform (sha_state c1) (sha_buf c1), sha_buf := []\<rparr> else c1)"
    have n: "0 < n" "n \<le> length p" "length (sha_buf c) + n \<le> 64"
      using False "2.prems"(1) by (auto simp: n_def min_def)
    have feed: "sha256_feed (Suc fuel) c p = sha256_feed fuel c2 (drop n p)"
      using False by (simp add: n_def c1_def c2_def Let_def)
    have b2: "length (sha_buf c2) < 64" using n by (simp add: c2_def c1_def)
    have IH: "(sha_state (sha256_feed fuel c2 (drop n p)), sha_buf (sha256_feed fuel c2 (drop n p))) =
        absorb sha256_transform (sha_state c2) (sha_buf c2 @ drop n p) \<and>
        sha_bitlen (sha256_feed fuel c2 (drop n p)) = sha_bitlen c2 + of_nat (8 * length (drop n p))"
      by (rule "2.IH" [OF False n_def c1_def c2_def b2]) (use n "2.prems"(2) in auto)
    have "absorb sha256_transform (sha_state c2) (sha_buf c2 @ drop n p) =
        absorb sha256_transform (sha_state c) (sha_buf c @ p)"
    proof (cases "length (sha_buf c @ take n p) = 64")
      case True
      then have "absorb sha256_transform (sha_state c) ((sha_buf c @ take n p) @ drop n p) =
          absorb sha256_transform (sha256_transform (sha_state c) (sha_buf c @ take n p)) (drop n p)"
        by (rule absorb_block)
      then show ?thesis using True by (simp add: c2_def c1_def)
    qed (simp add: c2_def c1_def)
    moreover have "sha_bitlen c2 + of_nat (8 * length (drop n p)) = sha_bitlen c + of_nat (8 * length p)"
    proof -
      have "sha_bitlen c2 = sha_bitlen c + of_nat (8 * n)" by (simp add: c2_def c1_def)
      moreover have "8 * n + 8 * length (drop n p) = 8 * length p" using n by simp
      then have "(of_nat (8 * length p) :: u64) = of_nat (8 * n) + of_nat (8 * length (drop n p))"
        by (simp only: of_nat_add [symmetric])
      ultimately show ?thesis by (simp only: add.assoc)
    qed
    ultimately show ?thesis using IH feed by simp
  qed (use 2 in simp)
qed simp

interpretation sha256_stream: streaming_hash sha256_transform sha256_H0 sha256_init sha256_update
  sha256_pad_zeros sha_state sha_buf sha_bitlen
proof
  fix c :: sha256_ctx and d
  assume "length (sha_buf c) < 64"
  then show "(sha_state (sha256_update c d), sha_buf (sha256_update c d)) =
      absorb sha256_transform (sha_state c) (sha_buf c @ d)"
    and "sha_bitlen (sha256_update c d) = sha_bitlen c + of_nat (8 * length d)"
    using sha256_feed_absorb [of c d "length d"] by (simp_all add: sha256_update_def)
qed (simp_all add: sha256_init_def)

definition words_be :: "u32 list \<Rightarrow> u8 list" where
  "words_be st = concat (map (\<lambda>i. be32_bytes (st ! i)) [0..<8])"

lemma sha256_final_fed: "sha256_final c = words_be (md_hash sha256_transform sha256_H0 msg)" if "sha256_stream.fed c msg"
  using sha256_stream.finish [OF that] by (simp add: sha256_final_def words_be_def Let_def)

lemma sha256_pieces:
  "sha256_final (foldl sha256_update sha256_init ds) = words_be (md_hash sha256_transform sha256_H0 (concat ds))"
  using sha256_final_fed sha256_stream.fed_pieces [OF sha256_stream.fed_start] by simp

lemma sha256_md_hash: "sha256 msg = words_be (md_hash sha256_transform sha256_H0 msg)"
  using sha256_pieces [of "[msg]"] by (simp add: sha256_def)

lemma sha256_two: "sha256_final (sha256_update (sha256_update sha256_init a) b) = sha256 (a @ b)"
  using sha256_pieces [of "[a, b]"] by (simp add: sha256_md_hash)

lemma length_sha256 [simp]: "length (sha256 msg) = 32"
  by (simp add: sha256_def sha256_final_def Let_def length_concat be32_bytes_def comp_def sum_list_triv)

text \<open>
  C22: streaming is hashing.  However a message is cut into the pieces passed to the update
  routine, the final digest is the FIPS 180-4 hash of the whole message: the compression function
  folded over the 64-byte blocks of the message with marker, zeros and 64-bit length appended.
\<close>

theorem sha256_streaming:
  "sha256_final (foldl sha256_update sha256_init ds) =
   words_be (foldl sha256_transform sha256_H0
     (map (\<lambda>i. take 64 (drop (64 * i) (md_pad (concat ds)))) [0..<length (md_pad (concat ds)) div 64]))"
  by (simp add: sha256_pieces md_hash_def absorb_blocks length_md_pad)

section \<open>Keyed hash and key derivation\<close>

text \<open>
  C24: the keyed hash is the construction of RFC 2104: with the key hashed down or zero-padded to
  a block of 64 bytes, the digest of outer pad and inner digest, the inner one over inner pad
  and message.
\<close>

theorem hmac_sha256_rfc2104:
  "hmac_sha256 key msg =
   (let k = (if length key > 64 then sha256 key else key);
        k0 = k @ replicate (64 - length k) 0
    in sha256 (map ((XOR) 0x5c) k0 @ sha256 (map ((XOR) 0x36) k0 @ msg)))"
proof -
  have c: "(\<lambda>b. b XOR n) = (XOR) n" for n :: u8 by (intro ext) (rule xor.commute)
  show ?thesis by (simp add: hmac_sha256_def hmac_key_block_def Let_def sha256_two c)
qed

lemma length_hmac_sha256 [simp]: "length (hmac_sha256 key msg) = 32"
  by (simp add: hmac_sha256_def Let_def sha256_two)

text \<open>RFC 8018: the chain \<open>U\<close> and the block function \<open>F\<close>.\<close>

primrec pbkdf2_U :: "u8 list \<Rightarrow> u8 list \<Rightarrow> nat \<Rightarrow> u8 list" where
  "pbkdf2_U P S 0 = hmac_sha256 P S"
| "pbkdf2_U P S (Suc j) = hmac_sha256 P (pbkdf2_U P S j)"

definition pbkdf2_F :: "u8 list \<Rightarrow> u8 list \<Rightarrow> nat \<Rightarrow> u32 \<Rightarrow> u8 list" where
  "pbkdf2_F P S c i =
     foldl xor_bytes (pbkdf2_U P (S @ be32_bytes i) 0) (map (pbkdf2_U P (S @ be32_bytes i)) [1..<c])"

lemma pbkdf2_iterate_U:
  "pbkdf2_iterate P n (pbkdf2_U P S j) t = foldl xor_bytes t (map (pbkdf2_U P S) [Suc j..<Suc j + n])"
proof (induction n arbitrary: j t)
  case (Suc n)
  show ?case using Suc.IH [of "Suc j"] by (simp add: Let_def upt_conv_Cons del: upt_Suc)
qed simp

lemma pbkdf2_block:
  "1 \<le> c \<Longrightarrow> pbkdf2_iterate P (c - 1) (hmac_sha256 P (S @ be32_bytes i)) (hmac_sha256 P (S @ be32_bytes i)) = pbkdf2_F P S c i"
  using pbkdf2_iterate_U [of P "c - 1" "S @ be32_bytes i" 0] by (simp add: pbkdf2_F_def)

lemma length_pbkdf2_F [simp]: "length (pbkdf2_F P S c i) = 32"
proof -
  have "length (foldl xor_bytes t (map (pbkdf2_U P S') js)) = 32" if "length t = 32" for t S' js
    using that
  proof (induction js arbitrary: t)
    case (Cons j js)
    have "length (pbkdf2_U P S' j) = 32" by (cases j) simp_all
    then show ?case using Cons by (simp add: xor_bytes_def)
  qed simp
  then show ?thesis by (simp add: pbkdf2_F_def)
qed

lemma pbkdf2_loop_blocks:
  "1 \<le> c \<Longrightarrow> pbkdf2_loop P S c n i = take n (concat (map (\<lambda>j. pbkdf2_F P S c (i + of_nat j)) [0..<(n + 31) div 32]))"
proof (induction P S c n i rule: pbkdf2_loop.induct)
  case (1 P S c n i)
  show ?case
  proof (cases "n > 0")
    case True
    define m where "m = (if n < 32 then n else 32)"
    have m: "0 < m" "m \<le> 32" "m \<le> n" "n \<noteq> m \<Longrightarrow> m = 32" using True by (auto simp: m_def)
    have blocks: "(n + 31) div 32 = Suc ((n - m + 31) div 32)"
    proof (cases "n < 32")
      case True
      then have "(n + 31) div 32 = 1" using \<open>n > 0\<close> by (intro div_nat_eqI) auto
      then show ?thesis using True by (simp add: m_def)
    next
      case False
      then have "n + 31 = n - 32 + 31 + 32" by simp
      then show ?thesis using False by (simp add: m_def)
    qed
    have shift: "map (\<lambda>j. pbkdf2_F P S c (i + of_nat j)) [0..<Suc k] =
        pbkdf2_F P S c i # map (\<lambda>j. pbkdf2_F P S c (i + 1 + of_nat j)) [0..<k]" for k
      by (simp only: upt_conv_Cons [OF zero_less_Suc] map_Suc_upt [symmetric] list.map) (simp add: comp_def algebra_simps)
    have "pbkdf2_loop P S c n i = take m (pbkdf2_F P S c i) @ pbkdf2_loop P S c (n - m) (i + 1)"
      using True pbkdf2_block [OF "1.prems", of P S i] by (simp add: pbkdf2_loop.simps [of P S c n] m_def Let_def)
    also have "\<dots> = take m (pbkdf2_F P S c i) @
        take (n - m) (concat (map (\<lambda>j. pbkdf2_F P S c (i + 1 + of_nat j)) [0..<(n - m + 31) div 32]))"
      using "1.IH" [OF True refl refl m_def "1.prems"] by simp
    also have "\<dots> = take n (concat (map (\<lambda>j. pbkdf2_F P S c (i + of_nat j)) [0..<(n + 31) div 32]))"
      unfolding blocks shift concat.simps take_append length_pbkdf2_F using m by (cases "n = m") auto
    finally show ?thesis .
  qed (simp add: pbkdf2_loop.simps [of P S c 0])
qed

text \<open>
  C25: the key derivation is PBKDF2 of RFC 8018 for salts of at most 64 bytes and a positive
  iteration count: the first \<open>out_len\<close> bytes of the blocks \<open>F(P, S, c, 1)\<close>, \<open>F(P, S, c, 2)\<close>
  and so on, exactly \<open>out_len\<close> of them.
\<close>

theorem pbkdf2_rfc8018:
  assumes "length salt \<le> 64" and "0 < iterations"
  shows "pbkdf2_hmac_sha256 password salt iterations out_len =
      take out_len (concat (map (\<lambda>j. pbkdf2_F password salt (unat iterations) (1 + of_nat j)) [0..<(out_len + 31) div 32])) \<and>
    length (pbkdf2_hmac_sha256 password salt iterations out_len) = out_len"
proof -
  have "1 \<le> unat iterations" using assms(2) by (simp add: unat_gt_0 word_neq_0_conv Suc_leI)
  note l = pbkdf2_loop_blocks [OF this, of password salt out_len 1]
  have "out_len \<le> 32 * ((out_len + 31) div 32)" by linarith
  moreover have "iterations \<noteq> 0" using assms(2) by auto
  ultimately show ?thesis using assms(1) l
    by (simp add: pbkdf2_hmac_sha256_def length_concat comp_def sum_list_triv mult.commute)
qed

theorem pbkdf2_rfc8018_witness: "length (pbkdf2_hmac_sha256 [1, 2] [3, 4] 2 40) = 40"
  by (rule conjunct2 [OF pbkdf2_rfc8018]) simp_all

section \<open>The constants\<close>

definition first_primes :: "nat list" where
  "first_primes = [
     2, 3, 5, 7, 11, 13, 17, 19, 23, 29, 31, 37, 41, 43, 47, 53,
     59, 61, 67, 71, 73, 79, 83, 89, 97, 101, 103, 107, 109, 113, 127, 131,
     137, 139, 149, 151, 157, 163, 167, 173, 179, 181, 191, 193, 197, 199, 211, 223,
     227, 229, 233, 239, 241, 251, 257, 263, 269, 271, 277, 281, 283, 293, 307, 311]"

text \<open>\<open>k\<close> is the first 32 bits of the fractional part of the \<open>r\<close>-th root of \<open>p\<close>.\<close>

definition root_fraction :: "nat \<Rightarrow> nat \<Rightarrow> u32 \<Rightarrow> bool" where
  "root_fraction r p k \<longleftrightarrow>
     (let m = length (filter (\<lambda>m. m ^ r \<le> p) [1, 2, 3, 4, 5, 6]); x = m * 2 ^ 32 + unat k in
      x ^ r \<le> p * 2 ^ (32 * r) \<and> p * 2 ^ (32 * r) < (x + 1) ^ r)"

text \<open>
  The constants are the ones of the standard.  The 64 round constants are the first 32 bits
  of the fractional parts of the cube roots of the first 64 primes, the initial state those of
  the square roots of the first eight.
\<close>

theorem sha256_constants:
  "list_all2 (root_fraction 3) first_primes sha256_K \<and>
   list_all2 (root_fraction 2) (take 8 first_primes) sha256_H0"
  unfolding first_primes_def sha256_K_def sha256_H0_def by (simp add: root_fraction_def Let_def)

section \<open>The compression function of the standard\<close>

text \<open>
  FIPS 180-4, sections 4.1.2 and 6.2.2: the six logical functions, the message schedule by
  recursion, and the round.
\<close>

definition fips_Ch :: "u32 \<Rightarrow> u32 \<Rightarrow> u32 \<Rightarrow> u32" where
  "fips_Ch x y z = (x AND y) OR (NOT x AND z)"

definition fips_Maj :: "u32 \<Rightarrow> u32 \<Rightarrow> u32 \<Rightarrow> u32" where
  "fips_Maj x y z = (x AND y) OR (x AND z) OR (y AND z)"

definition fips_Sigma :: "nat \<Rightarrow> nat \<Rightarrow> nat \<Rightarrow> u32 \<Rightarrow> u32" where
  "fips_Sigma i j k x = word_rotr i x XOR word_rotr j x XOR word_rotr k x"

definition fips_sigma :: "nat \<Rightarrow> nat \<Rightarrow> nat \<Rightarrow> u32 \<Rightarrow> u32" where
  "fips_sigma i j k x = word_rotr i x XOR word_rotr j x XOR drop_bit k x"

fun fips_W :: "u8 list \<Rightarrow> nat \<Rightarrow> u32" where
  "fips_W M t =
     (if t < 16 then be32 (M ! (4 * t)) (M ! (4 * t + 1)) (M ! (4 * t + 2)) (M ! (4 * t + 3))
      else fips_sigma 17 19 10 (fips_W M (t - 2)) + fips_W M (t - 7) +
           fips_sigma 7 18 3 (fips_W M (t - 15)) + fips_W M (t - 16))"

declare fips_W.simps [simp del]

fun fips_round :: "u8 list \<Rightarrow> sha256_vars \<Rightarrow> nat \<Rightarrow> sha256_vars" where
  "fips_round M (a, b, c, d, e, f, g, h) t =
     (let T1 = h + fips_Sigma 6 11 25 e + fips_Ch e f g + sha256_K ! t + fips_W M t;
          T2 = fips_Sigma 2 13 22 a + fips_Maj a b c
      in (T1 + T2, a, b, c, d + T1, e, f, g))"

definition fips_compress :: "u32 list \<Rightarrow> u8 list \<Rightarrow> u32 list" where
  "fips_compress H M =
     (let (a, b, c, d, e, f, g, h) =
        foldl (fips_round M) (H ! 0, H ! 1, H ! 2, H ! 3, H ! 4, H ! 5, H ! 6, H ! 7) [0..<64]
      in [a + H ! 0, b + H ! 1, c + H ! 2, d + H ! 3, e + H ! 4, f + H ! 5, g + H ! 6, h + H ! 7])"

lemma rotr32_rotr: "0 < n \<Longrightarrow> n < 32 \<Longrightarrow> rotr32 x n = word_rotr n x"
proof (rule bit_word_eqI)
  fix i assume n: "0 < n" "n < 32" and "i < LENGTH(32)"
  then have i: "i < 32" by simp
  show "bit (rotr32 x n) i = bit (word_rotr n x) i"
  proof (cases "i + n < 32")
    case True
    then show ?thesis using i n by (auto simp: rotr32_def bit_simps add.commute)
  next
    case False
    then have "(i + n) mod 32 = i + n - 32" using i n by (simp add: mod_if)
    moreover have "\<not> bit x (i + n)" using False bit_imp_le_length [of x "i + n"] by auto
    ultimately show ?thesis using i n False by (auto simp: rotr32_def bit_simps add.commute)
  qed
qed

lemma Ch_eq: "(e AND f) XOR (NOT e AND g) = fips_Ch e f g"
  unfolding fips_Ch_def by (rule bit_word_eqI) (auto simp: bit_simps)

lemma Maj_eq: "(a AND b) XOR (a AND c) XOR (b AND c) = fips_Maj a b c"
  unfolding fips_Maj_def by (rule bit_word_eqI) (auto simp: bit_simps)

lemma sha256_extend_W: "sha256_extend (map (fips_W M) [0..<16 + n]) (16 + n) = map (fips_W M) [0..<16 + Suc n]"
proof -
  have nth: "map (fips_W M) [0..<16 + n] ! j = fips_W M j" if "j < 16 + n" for j
    using that by (simp add: nth_map_upt)
  have W: "fips_W M (16 + n) = fips_W M n +
      (rotr32 (fips_W M (Suc n)) 7 XOR rotr32 (fips_W M (Suc n)) 18 XOR drop_bit 3 (fips_W M (Suc n))) +
      fips_W M (9 + n) +
      (rotr32 (fips_W M (14 + n)) 17 XOR rotr32 (fips_W M (14 + n)) 19 XOR drop_bit 10 (fips_W M (14 + n)))"
    by (subst fips_W.simps) (simp add: fips_sigma_def rotr32_rotr algebra_simps)
  have idx: "16 + n - 15 = Suc n" "16 + n - 2 = 14 + n" "16 + n - 16 = n" "16 + n - 7 = 9 + n" by simp_all
  have last: "[0..<16 + Suc n] = [0..<16 + n] @ [16 + n]" by (simp only: add_Suc_right upt_Suc) simp
  show ?thesis unfolding sha256_extend_def Let_def idx last map_append list.map W by (simp add: nth)
qed

lemma schedule_prefix:
  "foldl sha256_extend
     (map (\<lambda>i. be32 (M ! (i * 4)) (M ! (i * 4 + 1)) (M ! (i * 4 + 2)) (M ! (i * 4 + 3))) [0..<16]) [16..<16 + n] =
   map (fips_W M) [0..<16 + n]"
proof (induction n)
  case (Suc n)
  have "[16..<16 + Suc n] = [16..<16 + n] @ [16 + n]" by (simp only: add_Suc_right upt_Suc) simp
  then show ?case by (simp only: foldl_append Suc.IH foldl.simps sha256_extend_W)
qed (simp add: fips_W.simps mult.commute)

lemma sha256_schedule_W: "sha256_schedule M = map (fips_W M) [0..<64]"
  using schedule_prefix [of M 48] by (simp only: sha256_schedule_def) simp

lemma prod_cases8: "(\<And>a b c d e f g h. v = (a, b, c, d, e, f, g, h) \<Longrightarrow> P) \<Longrightarrow> P"
  by (metis surj_pair)

lemma sha256_round_fips: "sha256_round v (sha256_K ! t, fips_W M t) = fips_round M v t"
  by (cases v rule: prod_cases8) (simp add: Let_def Ch_eq Maj_eq fips_Sigma_def rotr32_rotr)

text \<open>
  C23: the compression function is the one of FIPS 180-4.  The unrolled schedule and the 64
  rounds, with shifts for rotations and exclusive-or forms of choice and majority, compute the
  standard's recursive schedule, rotations and logical functions on every block.
\<close>

theorem sha256_transform_fips: "sha256_transform st block = fips_compress st block"
proof -
  have "foldl sha256_round v (map (\<lambda>i. (sha256_K ! i, sha256_schedule block ! i)) [0..<64]) =
      foldl (fips_round block) v [0..<64]" for v
  proof -
    have "foldl sha256_round v (map (\<lambda>i. (sha256_K ! i, sha256_schedule block ! i)) is) = foldl (fips_round block) v is"
      if "set is \<subseteq> {..<64}" for "is"
      using that
    proof (induction "is" arbitrary: v)
      case (Cons i "is")
      then have "sha256_schedule block ! i = fips_W block i" by (simp add: sha256_schedule_W)
      then show ?case using Cons by (simp add: sha256_round_fips del: sha256_round.simps)
    qed simp
    then show ?thesis by (rule meta_mp) auto
  qed
  then show ?thesis by (simp add: sha256_transform_def fips_compress_def Let_def add.commute split: prod.splits)
qed

end
