(* ===== verification/Sha1.thy ===== *)
theory Sha1
  imports Hash
begin

text \<open>
  \<open>crypto/sha1.c\<close>: the compression function and the streaming context, whose update routine
  first completes a partial block, then hashes whole blocks from the caller's buffer and keeps
  the rest.  \<open>buf\<close> and \<open>n\<close> are the list of the buffered bytes.

  The theory shows that streaming in any pieces is the hash of FIPS 180-4 over the padded
  message and that the compression function is the standard's.
\<close>

unbundle bit_operations_syntax

section \<open>Model\<close>

definition rol :: "u32 \<Rightarrow> nat \<Rightarrow> u32" where
  "rol x n = push_bit n x OR drop_bit (32 - n) x"

definition sha1_extend :: "u32 list \<Rightarrow> nat \<Rightarrow> u32 list" where
  "sha1_extend w i = w @ [rol (w ! (i - 3) XOR w ! (i - 8) XOR w ! (i - 14) XOR w ! (i - 16)) 1]"

definition sha1_schedule :: "u8 list \<Rightarrow> u32 list" where
  "sha1_schedule p = foldl sha1_extend
     (map (\<lambda>i. be32 (p ! (i * 4)) (p ! (i * 4 + 1)) (p ! (i * 4 + 2)) (p ! (i * 4 + 3))) [0..<16]) [16..<80]"

type_synonym sha1_vars = "u32 \<times> u32 \<times> u32 \<times> u32 \<times> u32"

fun sha1_round :: "u32 list \<Rightarrow> sha1_vars \<Rightarrow> nat \<Rightarrow> sha1_vars" where
  "sha1_round w (a, b, d, e, f) i =
     (let (t, k) =
        (if i < 20 then ((b AND d) OR (NOT b AND e), 0x5A827999)
         else if i < 40 then (b XOR d XOR e, 0x6ED9EBA1)
         else if i < 60 then ((b AND d) OR (b AND e) OR (d AND e), 0x8F1BBCDC)
         else (b XOR d XOR e, 0xCA62C1D6));
          tmp = rol a 5 + t + f + k + w ! i
      in (tmp, a, rol b 30, d, e))"

definition sha1_block :: "u32 list \<Rightarrow> u8 list \<Rightarrow> u32 list" where
  "sha1_block h p =
     (let w = sha1_schedule p;
          (a, b, d, e, f) = foldl (sha1_round w) (h ! 0, h ! 1, h ! 2, h ! 3, h ! 4) [0..<80]
      in [h ! 0 + a, h ! 1 + b, h ! 2 + d, h ! 3 + e, h ! 4 + f])"

record sha1_ctx =
  sha1_h :: "u32 list"
  sha1_len :: u64
  sha1_buf :: "u8 list"

definition sha1_H0 :: "u32 list" where
  "sha1_H0 = [0x67452301, 0xEFCDAB89, 0x98BADCFE, 0x10325476, 0xC3D2E1F0]"

definition sha1_init :: sha1_ctx where
  "sha1_init = \<lparr>sha1_h = sha1_H0, sha1_len = 0, sha1_buf = []\<rparr>"

text \<open>The loop over whole blocks of the caller's buffer.\<close>

function sha1_blocks :: "u32 list \<Rightarrow> u8 list \<Rightarrow> u32 list \<times> u8 list" where
  "sha1_blocks h p = (if 64 \<le> length p then sha1_blocks (sha1_block h (take 64 p)) (drop 64 p) else (h, p))"
  by pat_completeness auto
termination
  by (relation "measure (\<lambda>(h, p). length p)") auto

declare sha1_blocks.simps [simp del]

definition sha1_update :: "sha1_ctx \<Rightarrow> u8 list \<Rightarrow> sha1_ctx" where
  "sha1_update c data =
     (let c0 = c\<lparr>sha1_len := sha1_len c + of_nat (length data)\<rparr>;
          (c1, p) =
            (if sha1_buf c0 \<noteq> [] then
               let n = min (64 - length (sha1_buf c0)) (length data);
                   b = sha1_buf c0 @ take n data
               in (if length b = 64 then c0\<lparr>sha1_h := sha1_block (sha1_h c0) b, sha1_buf := []\<rparr>
                   else c0\<lparr>sha1_buf := b\<rparr>,
                   drop n data)
             else (c0, data));
          (h, q) = sha1_blocks (sha1_h c1) p;
          c2 = c1\<lparr>sha1_h := h\<rparr>
      in if q \<noteq> [] then c2\<lparr>sha1_buf := q\<rparr> else c2)"

fun sha1_pad_zeros :: "nat \<Rightarrow> sha1_ctx \<Rightarrow> sha1_ctx" where
  "sha1_pad_zeros 0 c = c"
| "sha1_pad_zeros (Suc fuel) c =
     (if length (sha1_buf c) = 56 then c else sha1_pad_zeros fuel (sha1_update c [0]))"

definition sha1_final :: "sha1_ctx \<Rightarrow> u8 list" where
  "sha1_final c =
     (let bits = sha1_len c * 8;
          c1 = sha1_update c [0x80];
          c2 = sha1_pad_zeros 64 c1;
          c3 = sha1_update c2 (be64 bits)
      in concat (map (\<lambda>i. be32_bytes (sha1_h c3 ! i)) [0..<5]))"

definition sha1 :: "u8 list \<Rightarrow> u8 list" where
  "sha1 data = sha1_final (sha1_update sha1_init data)"

section \<open>Streaming\<close>

lemma sha1_blocks_absorb: "sha1_blocks h p = absorb sha1_block h p"
  by (induction h p rule: sha1_blocks.induct) (simp add: sha1_blocks.simps [of _ "_"] absorb.simps)

lemma sha1_update_absorb:
  assumes "length (sha1_buf c) < 64"
  shows "(sha1_h (sha1_update c d), sha1_buf (sha1_update c d)) = absorb sha1_block (sha1_h c) (sha1_buf c @ d)"
proof (cases "sha1_buf c = []")
  case True
  then show ?thesis by (auto simp: sha1_update_def Let_def sha1_blocks_absorb split: prod.splits)
next
  case False
  define n where "n = min (64 - length (sha1_buf c)) (length d)"
  define b where "b = sha1_buf c @ take n d"
  have split: "sha1_buf c @ d = b @ drop n d" by (simp add: b_def)
  have lb: "length (sha1_buf c) + min (length d) n = length b" by (simp add: b_def)
  show ?thesis
  proof (cases "length b = 64")
    case True
    then show ?thesis
      using False unfolding split absorb_block [OF True]
      by (auto simp: sha1_update_def Let_def sha1_blocks_absorb n_def [symmetric] b_def [symmetric] lb split: prod.splits)
  next
    case ne: False
    then have d: "n = length d" "length (sha1_buf c) + length d < 64" using assms by (auto simp: b_def n_def min_def split: if_splits)
    then show ?thesis
      using False by (simp add: sha1_update_def Let_def sha1_blocks_absorb n_def [symmetric])
  qed
qed

lemma sha1_update_len: "sha1_len (sha1_update c d) = sha1_len c + of_nat (length d)"
  by (auto simp: sha1_update_def Let_def split: prod.splits)

interpretation sha1_stream: streaming_hash sha1_block sha1_H0 sha1_init sha1_update
  sha1_pad_zeros sha1_h sha1_buf "\<lambda>c. sha1_len c * 8"
  by unfold_locales (simp_all add: sha1_init_def sha1_update_absorb sha1_update_len algebra_simps)

text \<open>
  C26: streaming is hashing, for SHA-1 too.  However a message is cut into pieces, the digest is
  the compression function folded over the 64-byte blocks of the padded message.
\<close>

theorem sha1_streaming:
  "sha1_final (foldl sha1_update sha1_init ds) =
   concat (map (\<lambda>i. be32_bytes (foldl sha1_block sha1_H0
     (map (\<lambda>i. take 64 (drop (64 * i) (md_pad (concat ds)))) [0..<length (md_pad (concat ds)) div 64]) ! i)) [0..<5])"
  using sha1_stream.finish_pieces [of ds]
  by (simp add: sha1_final_def Let_def md_hash_def absorb_blocks length_md_pad)

section \<open>The compression function of the standard\<close>

fun fips1_W :: "u8 list \<Rightarrow> nat \<Rightarrow> u32" where
  "fips1_W M t =
     (if t < 16 then be32 (M ! (4 * t)) (M ! (4 * t + 1)) (M ! (4 * t + 2)) (M ! (4 * t + 3))
      else word_rotl 1 (fips1_W M (t - 3) XOR fips1_W M (t - 8) XOR fips1_W M (t - 14) XOR fips1_W M (t - 16)))"

declare fips1_W.simps [simp del]

definition fips1_f :: "nat \<Rightarrow> u32 \<Rightarrow> u32 \<Rightarrow> u32 \<Rightarrow> u32" where
  "fips1_f t x y z =
     (if t < 20 then (x AND y) XOR (NOT x AND z)
      else if 40 \<le> t \<and> t < 60 then (x AND y) XOR (x AND z) XOR (y AND z)
      else x XOR y XOR z)"

definition fips1_K :: "nat \<Rightarrow> u32" where
  "fips1_K t = [0x5A827999, 0x6ED9EBA1, 0x8F1BBCDC, 0xCA62C1D6] ! (t div 20)"

fun fips1_round :: "u8 list \<Rightarrow> sha1_vars \<Rightarrow> nat \<Rightarrow> sha1_vars" where
  "fips1_round M (a, b, c, d, e) t =
     (word_rotl 5 a + fips1_f t b c d + e + fips1_K t + fips1_W M t, a, word_rotl 30 b, c, d)"

definition fips1_compress :: "u32 list \<Rightarrow> u8 list \<Rightarrow> u32 list" where
  "fips1_compress H M =
     (let (a, b, c, d, e) = foldl (fips1_round M) (H ! 0, H ! 1, H ! 2, H ! 3, H ! 4) [0..<80]
      in [a + H ! 0, b + H ! 1, c + H ! 2, d + H ! 3, e + H ! 4])"

lemma rol_rotl: "0 < n \<Longrightarrow> n < 32 \<Longrightarrow> rol x n = word_rotl n x"
proof (rule bit_word_eqI)
  fix i assume n: "0 < n" "n < 32" and "i < LENGTH(32)"
  then have i: "i < 32" by simp
  show "bit (rol x n) i = bit (word_rotl n x) i"
  proof (cases "i < n")
    case True
    then have "bit (word_rotl n x) i = bit x (i + (32 - n))" using i n by (simp add: bit_word_rotl_iff)
    moreover have "bit (rol x n) i = bit x (32 - n + i)" using i True by (simp add: rol_def bit_or_iff bit_push_bit_iff bit_drop_bit_eq)
    ultimately show ?thesis by (simp only: add.commute)
  next
    case False
    then have "(i + (32 - n)) mod 32 = i - n" using i n by (simp add: mod_if)
    then have "bit (word_rotl n x) i = bit x (i - n)" using i n by (simp add: bit_word_rotl_iff)
    moreover have "\<not> bit x (32 - n + i)" using False i n bit_imp_le_length [of x "32 - n + i"] by auto
    then have "bit (rol x n) i = bit x (i - n)"
      using i n False by (simp add: rol_def bit_or_iff bit_push_bit_iff bit_drop_bit_eq)
    ultimately show ?thesis by simp
  qed
qed

lemma sha1_extend_W: "sha1_extend (map (fips1_W M) [0..<16 + n]) (16 + n) = map (fips1_W M) [0..<16 + Suc n]"
proof -
  have nth: "map (fips1_W M) [0..<16 + n] ! j = fips1_W M j" if "j < 16 + n" for j
    using that by (simp add: nth_map_upt)
  have W: "fips1_W M (16 + n) = rol (fips1_W M (13 + n) XOR fips1_W M (8 + n) XOR fips1_W M (2 + n) XOR fips1_W M n) 1"
    by (subst fips1_W.simps) (simp add: rol_rotl)
  have idx: "16 + n - 3 = 13 + n" "16 + n - 8 = 8 + n" "16 + n - 16 = n" "16 + n - 14 = 2 + n" by simp_all
  have last: "[0..<16 + Suc n] = [0..<16 + n] @ [16 + n]" by (simp only: add_Suc_right upt_Suc) simp
  show ?thesis unfolding sha1_extend_def idx last map_append list.map W by (simp add: nth)
qed

lemma sha1_schedule_prefix:
  "foldl sha1_extend
     (map (\<lambda>i. be32 (M ! (i * 4)) (M ! (i * 4 + 1)) (M ! (i * 4 + 2)) (M ! (i * 4 + 3))) [0..<16]) [16..<16 + n] =
   map (fips1_W M) [0..<16 + n]"
proof (induction n)
  case (Suc n)
  have "[16..<16 + Suc n] = [16..<16 + n] @ [16 + n]" by (simp only: add_Suc_right upt_Suc) simp
  then show ?case by (simp only: foldl_append Suc.IH foldl.simps sha1_extend_W)
qed (simp add: fips1_W.simps mult.commute)

lemma sha1_schedule_W: "sha1_schedule M = map (fips1_W M) [0..<80]"
  using sha1_schedule_prefix [of M 64] by (simp only: sha1_schedule_def) simp

lemma sha1_f:
  "(b AND d) OR (NOT b AND e) = (b AND d) XOR (NOT b AND (e :: u32))"
  "(b AND d) OR (b AND e) OR (d AND e) = (b AND d) XOR (b AND e) XOR (d AND (e :: u32))"
  by (rule bit_word_eqI, auto simp: bit_simps)+

lemma sha1_round_fips:
  assumes "t < 80"
  shows "sha1_round (sha1_schedule M) v t = fips1_round M v t"
proof -
  obtain a b d e f where v: "v = (a, b, d, e, f)" by (metis surj_pair)
  have w: "sha1_schedule M ! t = fips1_W M t" using assms by (simp add: sha1_schedule_W)
  have q: "t div 20 = (if t < 20 then 0 else if t < 40 then 1 else if t < 60 then 2 else 3)"
    using assms by (auto intro: div_nat_eqI)
  have k: "fips1_K t = (if t < 20 then 0x5A827999 else if t < 40 then 0x6ED9EBA1 else if t < 60 then 0x8F1BBCDC else 0xCA62C1D6)"
    by (simp add: fips1_K_def q)
  show ?thesis by (simp add: v w k fips1_f_def Let_def rol_rotl sha1_f)
qed

text \<open>
  C27: the SHA-1 compression function is the one of FIPS 180-4, section 6.1: the standard's
  schedule, rotations, round functions and constants on every block.
\<close>

theorem sha1_block_fips: "sha1_block h p = fips1_compress h p"
proof -
  have "foldl (sha1_round (sha1_schedule p)) v ts = foldl (fips1_round p) v ts" if "set ts \<subseteq> {..<80}" for v ts
    using that by (induction ts arbitrary: v) (simp_all add: sha1_round_fips del: sha1_round.simps)
  then have "foldl (sha1_round (sha1_schedule p)) v [0..<80] = foldl (fips1_round p) v [0..<80]" for v
    by (rule meta_mp) auto
  then show ?thesis by (simp add: sha1_block_def fips1_compress_def Let_def add.commute split: prod.splits)
qed

end
