(* ===== verification/Aes.thy ===== *)
theory Aes
  imports Prelude
begin

text \<open>
  The block cipher \<open>crypto/aes.c\<close> and the storage mode \<open>crypto/xts.c\<close>.  A state and a block are
  lists of 16 bytes in the code's column order, a key schedule is the byte list \<open>round_keys\<close>.

  The theory shows that the substitution box is the one of the standard, that decryption inverts
  encryption for every key of both sizes, and that the storage mode round-trips every whole
  number of blocks, each block position with its own tweak.
\<close>

unbundle bit_operations_syntax

section \<open>Model of aes.c\<close>

text \<open>The two substitution tables, row by row.\<close>

definition sbox_rows :: "u8 list list" where
  "sbox_rows = [
     [0x63, 0x7c, 0x77, 0x7b, 0xf2, 0x6b, 0x6f, 0xc5, 0x30, 0x01, 0x67, 0x2b, 0xfe, 0xd7, 0xab, 0x76],
     [0xca, 0x82, 0xc9, 0x7d, 0xfa, 0x59, 0x47, 0xf0, 0xad, 0xd4, 0xa2, 0xaf, 0x9c, 0xa4, 0x72, 0xc0],
     [0xb7, 0xfd, 0x93, 0x26, 0x36, 0x3f, 0xf7, 0xcc, 0x34, 0xa5, 0xe5, 0xf1, 0x71, 0xd8, 0x31, 0x15],
     [0x04, 0xc7, 0x23, 0xc3, 0x18, 0x96, 0x05, 0x9a, 0x07, 0x12, 0x80, 0xe2, 0xeb, 0x27, 0xb2, 0x75],
     [0x09, 0x83, 0x2c, 0x1a, 0x1b, 0x6e, 0x5a, 0xa0, 0x52, 0x3b, 0xd6, 0xb3, 0x29, 0xe3, 0x2f, 0x84],
     [0x53, 0xd1, 0x00, 0xed, 0x20, 0xfc, 0xb1, 0x5b, 0x6a, 0xcb, 0xbe, 0x39, 0x4a, 0x4c, 0x58, 0xcf],
     [0xd0, 0xef, 0xaa, 0xfb, 0x43, 0x4d, 0x33, 0x85, 0x45, 0xf9, 0x02, 0x7f, 0x50, 0x3c, 0x9f, 0xa8],
     [0x51, 0xa3, 0x40, 0x8f, 0x92, 0x9d, 0x38, 0xf5, 0xbc, 0xb6, 0xda, 0x21, 0x10, 0xff, 0xf3, 0xd2],
     [0xcd, 0x0c, 0x13, 0xec, 0x5f, 0x97, 0x44, 0x17, 0xc4, 0xa7, 0x7e, 0x3d, 0x64, 0x5d, 0x19, 0x73],
     [0x60, 0x81, 0x4f, 0xdc, 0x22, 0x2a, 0x90, 0x88, 0x46, 0xee, 0xb8, 0x14, 0xde, 0x5e, 0x0b, 0xdb],
     [0xe0, 0x32, 0x3a, 0x0a, 0x49, 0x06, 0x24, 0x5c, 0xc2, 0xd3, 0xac, 0x62, 0x91, 0x95, 0xe4, 0x79],
     [0xe7, 0xc8, 0x37, 0x6d, 0x8d, 0xd5, 0x4e, 0xa9, 0x6c, 0x56, 0xf4, 0xea, 0x65, 0x7a, 0xae, 0x08],
     [0xba, 0x78, 0x25, 0x2e, 0x1c, 0xa6, 0xb4, 0xc6, 0xe8, 0xdd, 0x74, 0x1f, 0x4b, 0xbd, 0x8b, 0x8a],
     [0x70, 0x3e, 0xb5, 0x66, 0x48, 0x03, 0xf6, 0x0e, 0x61, 0x35, 0x57, 0xb9, 0x86, 0xc1, 0x1d, 0x9e],
     [0xe1, 0xf8, 0x98, 0x11, 0x69, 0xd9, 0x8e, 0x94, 0x9b, 0x1e, 0x87, 0xe9, 0xce, 0x55, 0x28, 0xdf],
     [0x8c, 0xa1, 0x89, 0x0d, 0xbf, 0xe6, 0x42, 0x68, 0x41, 0x99, 0x2d, 0x0f, 0xb0, 0x54, 0xbb, 0x16]]"

definition sbox :: "u8 list" where
  "sbox = concat sbox_rows"

definition inv_sbox_rows :: "u8 list list" where
  "inv_sbox_rows = [
     [0x52, 0x09, 0x6a, 0xd5, 0x30, 0x36, 0xa5, 0x38, 0xbf, 0x40, 0xa3, 0x9e, 0x81, 0xf3, 0xd7, 0xfb],
     [0x7c, 0xe3, 0x39, 0x82, 0x9b, 0x2f, 0xff, 0x87, 0x34, 0x8e, 0x43, 0x44, 0xc4, 0xde, 0xe9, 0xcb],
     [0x54, 0x7b, 0x94, 0x32, 0xa6, 0xc2, 0x23, 0x3d, 0xee, 0x4c, 0x95, 0x0b, 0x42, 0xfa, 0xc3, 0x4e],
     [0x08, 0x2e, 0xa1, 0x66, 0x28, 0xd9, 0x24, 0xb2, 0x76, 0x5b, 0xa2, 0x49, 0x6d, 0x8b, 0xd1, 0x25],
     [0x72, 0xf8, 0xf6, 0x64, 0x86, 0x68, 0x98, 0x16, 0xd4, 0xa4, 0x5c, 0xcc, 0x5d, 0x65, 0xb6, 0x92],
     [0x6c, 0x70, 0x48, 0x50, 0xfd, 0xed, 0xb9, 0xda, 0x5e, 0x15, 0x46, 0x57, 0xa7, 0x8d, 0x9d, 0x84],
     [0x90, 0xd8, 0xab, 0x00, 0x8c, 0xbc, 0xd3, 0x0a, 0xf7, 0xe4, 0x58, 0x05, 0xb8, 0xb3, 0x45, 0x06],
     [0xd0, 0x2c, 0x1e, 0x8f, 0xca, 0x3f, 0x0f, 0x02, 0xc1, 0xaf, 0xbd, 0x03, 0x01, 0x13, 0x8a, 0x6b],
     [0x3a, 0x91, 0x11, 0x41, 0x4f, 0x67, 0xdc, 0xea, 0x97, 0xf2, 0xcf, 0xce, 0xf0, 0xb4, 0xe6, 0x73],
     [0x96, 0xac, 0x74, 0x22, 0xe7, 0xad, 0x35, 0x85, 0xe2, 0xf9, 0x37, 0xe8, 0x1c, 0x75, 0xdf, 0x6e],
     [0x47, 0xf1, 0x1a, 0x71, 0x1d, 0x29, 0xc5, 0x89, 0x6f, 0xb7, 0x62, 0x0e, 0xaa, 0x18, 0xbe, 0x1b],
     [0xfc, 0x56, 0x3e, 0x4b, 0xc6, 0xd2, 0x79, 0x20, 0x9a, 0xdb, 0xc0, 0xfe, 0x78, 0xcd, 0x5a, 0xf4],
     [0x1f, 0xdd, 0xa8, 0x33, 0x88, 0x07, 0xc7, 0x31, 0xb1, 0x12, 0x10, 0x59, 0x27, 0x80, 0xec, 0x5f],
     [0x60, 0x51, 0x7f, 0xa9, 0x19, 0xb5, 0x4a, 0x0d, 0x2d, 0xe5, 0x7a, 0x9f, 0x93, 0xc9, 0x9c, 0xef],
     [0xa0, 0xe0, 0x3b, 0x4d, 0xae, 0x2a, 0xf5, 0xb0, 0xc8, 0xeb, 0xbb, 0x3c, 0x83, 0x53, 0x99, 0x61],
     [0x17, 0x2b, 0x04, 0x7e, 0xba, 0x77, 0xd6, 0x26, 0xe1, 0x69, 0x14, 0x63, 0x55, 0x21, 0x0c, 0x7d]]"

definition inv_sbox :: "u8 list" where
  "inv_sbox = concat inv_sbox_rows"

definition rcon :: "u8 list" where
  "rcon = [0x00, 0x01, 0x02, 0x04, 0x08, 0x10, 0x20, 0x40, 0x80, 0x1b, 0x36, 0x6c, 0xd8, 0xab, 0x4d]"

definition xtime :: "u8 \<Rightarrow> u8" where
  "xtime x = push_bit 1 x XOR (if x AND 0x80 \<noteq> 0 then 0x1b else 0x00)"

fun gmul_loop :: "nat \<Rightarrow> u8 \<Rightarrow> u8 \<Rightarrow> u8 \<Rightarrow> u8" where
  "gmul_loop 0 a b p = p"
| "gmul_loop (Suc n) a b p = gmul_loop n (xtime a) (drop_bit 1 b) (if b AND 1 \<noteq> 0 then p XOR a else p)"

definition gmul :: "u8 \<Rightarrow> u8 \<Rightarrow> u8" where
  "gmul a b = gmul_loop 8 a b 0"

definition sub_word :: "u8 list \<Rightarrow> u8 list" where
  "sub_word w = map (\<lambda>b. sbox ! unat b) w"

text \<open>One word of the key schedule, appended to the words before it.\<close>

definition key_word :: "nat \<Rightarrow> u8 list \<Rightarrow> nat \<Rightarrow> u8 list" where
  "key_word nk rk i =
     (let temp = take 4 (drop ((i - 1) * 4) rk);
          temp1 =
            (if i mod nk = 0 then
               let t = sub_word [temp ! 1, temp ! 2, temp ! 3, temp ! 0]
               in t[0 := t ! 0 XOR rcon ! (i div nk)]
             else if nk > 6 \<and> i mod nk = 4 then sub_word temp
             else temp)
      in rk @ map (\<lambda>k. rk ! ((i - nk) * 4 + k) XOR temp1 ! k) [0..<4])"

definition key_expand :: "u8 list \<Rightarrow> nat \<Rightarrow> nat \<Rightarrow> u8 list" where
  "key_expand key nk nr = foldl (key_word nk) (take (nk * 4) key) [nk..<4 * (nr + 1)]"

record aes256_ctx =
  round_keys256 :: "u8 list"

record aes128_ctx =
  round_keys128 :: "u8 list"

definition aes256_init :: "u8 list \<Rightarrow> aes256_ctx" where
  "aes256_init key = \<lparr>round_keys256 = key_expand key 8 14\<rparr>"

definition aes128_init :: "u8 list \<Rightarrow> aes128_ctx" where
  "aes128_init key = \<lparr>round_keys128 = key_expand key 4 10\<rparr>"

text \<open>The round key is the 16 bytes at the given offset of the schedule.\<close>

definition add_round_key :: "u8 list \<Rightarrow> nat \<Rightarrow> u8 list \<Rightarrow> u8 list" where
  "add_round_key rk off s = map (\<lambda>i. s ! i XOR rk ! (off + i)) [0..<16]"

definition sub_bytes :: "u8 list \<Rightarrow> u8 list" where
  "sub_bytes s = map (\<lambda>b. sbox ! unat b) s"

definition inv_sub_bytes :: "u8 list \<Rightarrow> u8 list" where
  "inv_sub_bytes s = map (\<lambda>b. inv_sbox ! unat b) s"

definition shift_rows :: "u8 list \<Rightarrow> u8 list" where
  "shift_rows s = s[1 := s ! 5, 5 := s ! 9, 9 := s ! 13, 13 := s ! 1,
                    2 := s ! 10, 10 := s ! 2, 6 := s ! 14, 14 := s ! 6,
                    15 := s ! 11, 11 := s ! 7, 7 := s ! 3, 3 := s ! 15]"

definition inv_shift_rows :: "u8 list \<Rightarrow> u8 list" where
  "inv_shift_rows s = s[13 := s ! 9, 9 := s ! 5, 5 := s ! 1, 1 := s ! 13,
                        2 := s ! 10, 10 := s ! 2, 6 := s ! 14, 14 := s ! 6,
                        3 := s ! 7, 7 := s ! 11, 11 := s ! 15, 15 := s ! 3]"

fun mix_column :: "u8 list \<Rightarrow> u8 list" where
  "mix_column [a0, a1, a2, a3] =
     [gmul a0 2 XOR gmul a1 3 XOR a2 XOR a3,
      a0 XOR gmul a1 2 XOR gmul a2 3 XOR a3,
      a0 XOR a1 XOR gmul a2 2 XOR gmul a3 3,
      gmul a0 3 XOR a1 XOR a2 XOR gmul a3 2]"
| "mix_column s = s"

fun inv_mix_column :: "u8 list \<Rightarrow> u8 list" where
  "inv_mix_column [a0, a1, a2, a3] =
     [gmul a0 14 XOR gmul a1 11 XOR gmul a2 13 XOR gmul a3 9,
      gmul a0 9 XOR gmul a1 14 XOR gmul a2 11 XOR gmul a3 13,
      gmul a0 13 XOR gmul a1 9 XOR gmul a2 14 XOR gmul a3 11,
      gmul a0 11 XOR gmul a1 13 XOR gmul a2 9 XOR gmul a3 14]"
| "inv_mix_column s = s"

definition mix_columns :: "u8 list \<Rightarrow> u8 list" where
  "mix_columns s = concat (map (\<lambda>c. mix_column (take 4 (drop (c * 4) s))) [0..<4])"

definition inv_mix_columns :: "u8 list \<Rightarrow> u8 list" where
  "inv_mix_columns s = concat (map (\<lambda>c. inv_mix_column (take 4 (drop (c * 4) s))) [0..<4])"

definition encrypt_block :: "u8 list \<Rightarrow> nat \<Rightarrow> u8 list \<Rightarrow> u8 list" where
  "encrypt_block rk nr inp =
     (let s = add_round_key rk 0 inp;
          s = foldl (\<lambda>s round. add_round_key rk (round * 16) (mix_columns (shift_rows (sub_bytes s)))) s [1..<nr]
      in add_round_key rk (nr * 16) (shift_rows (sub_bytes s)))"

definition decrypt_block :: "u8 list \<Rightarrow> nat \<Rightarrow> u8 list \<Rightarrow> u8 list" where
  "decrypt_block rk nr inp =
     (let s = add_round_key rk (nr * 16) inp;
          s = foldl (\<lambda>s round. inv_mix_columns (add_round_key rk (round * 16) (inv_sub_bytes (inv_shift_rows s))))
                s (rev [1..<nr])
      in add_round_key rk 0 (inv_sub_bytes (inv_shift_rows s)))"

definition aes256_encrypt_block :: "aes256_ctx \<Rightarrow> u8 list \<Rightarrow> u8 list" where
  "aes256_encrypt_block ctx inp = encrypt_block (round_keys256 ctx) 14 inp"

definition aes128_encrypt_block :: "aes128_ctx \<Rightarrow> u8 list \<Rightarrow> u8 list" where
  "aes128_encrypt_block ctx inp = encrypt_block (round_keys128 ctx) 10 inp"

definition aes256_decrypt_block :: "aes256_ctx \<Rightarrow> u8 list \<Rightarrow> u8 list" where
  "aes256_decrypt_block ctx inp = decrypt_block (round_keys256 ctx) 14 inp"

definition aes128_decrypt_block :: "aes128_ctx \<Rightarrow> u8 list \<Rightarrow> u8 list" where
  "aes128_decrypt_block ctx inp = decrypt_block (round_keys128 ctx) 10 inp"

section \<open>Model of xts.c\<close>

record aes_xts_ctx =
  xts_data :: aes256_ctx
  xts_tweak :: aes256_ctx

definition aes_xts_init :: "u8 list \<Rightarrow> u8 list \<Rightarrow> aes_xts_ctx" where
  "aes_xts_init data_key tweak_key = \<lparr>xts_data = aes256_init data_key, xts_tweak = aes256_init tweak_key\<rparr>"

text \<open>The shifting loop: each byte takes the carry of the one before.\<close>

fun shift_carry :: "u8 \<Rightarrow> u8 list \<Rightarrow> u8 list \<times> u8" where
  "shift_carry carry [] = ([], carry)"
| "shift_carry carry (b # bs) =
     (let (r, out) = shift_carry (drop_bit 7 b AND 1) bs in ((push_bit 1 b OR carry) # r, out))"

definition gf128_mul_alpha :: "u8 list \<Rightarrow> u8 list" where
  "gf128_mul_alpha t =
     (let (r, carry) = shift_carry 0 t in if carry \<noteq> 0 then r[0 := r ! 0 XOR 0x87] else r)"

definition block_number_to_tweak_input :: "u64 \<Rightarrow> u8 list" where
  "block_number_to_tweak_input block_number =
     map (\<lambda>i. ucast (drop_bit (8 * i) block_number)) [0..<8] @ replicate 8 0"

text \<open>
  The block loop of both directions, over the cipher \<open>f\<close>.  Bytes of \<open>out\<close> behind the last whole
  block keep their value.
\<close>

function xts_loop :: "(u8 list \<Rightarrow> u8 list) \<Rightarrow> u8 list \<Rightarrow> u8 list \<Rightarrow> u8 list \<Rightarrow> u8 list" where
  "xts_loop f t inp out =
     (if 16 \<le> length inp then
        let x = map2 (XOR) (take 16 inp) t;
            y = f x
        in map2 (XOR) y t @ xts_loop f (gf128_mul_alpha t) (drop 16 inp) (drop 16 out)
      else out)"
  by pat_completeness auto
termination
  by (relation "measure (\<lambda>(f, t, inp, out). length inp)") auto

declare xts_loop.simps [simp del]

definition aes_xts_encrypt :: "aes_xts_ctx \<Rightarrow> u64 \<Rightarrow> u8 list \<Rightarrow> u8 list \<Rightarrow> u8 list" where
  "aes_xts_encrypt ctx block_number inp out =
     xts_loop (aes256_encrypt_block (xts_data ctx))
       (aes256_encrypt_block (xts_tweak ctx) (block_number_to_tweak_input block_number)) inp out"

definition aes_xts_decrypt :: "aes_xts_ctx \<Rightarrow> u64 \<Rightarrow> u8 list \<Rightarrow> u8 list \<Rightarrow> u8 list" where
  "aes_xts_decrypt ctx block_number inp out =
     xts_loop (aes256_decrypt_block (xts_data ctx))
       (aes256_encrypt_block (xts_tweak ctx) (block_number_to_tweak_input block_number)) inp out"


section \<open>Substitution boxes\<close>

lemma nth_concat_rows:
  "list_all (\<lambda>r. length r = 16) rows \<Longrightarrow> n < 16 * length rows \<Longrightarrow> concat rows ! n = rows ! (n div 16) ! (n mod 16)"
proof (induction rows arbitrary: n)
  case (Cons r rows)
  show ?case
  proof (cases "n < 16")
    case False
    then have "n = n - 16 + 16" by simp
    then have d: "n div 16 = Suc ((n - 16) div 16)" "n mod 16 = (n - 16) mod 16"
      by (metis div_add_self2 Suc_eq_plus1 zero_neq_numeral, metis mod_add_self2)
    have "concat rows ! (n - 16) = rows ! ((n - 16) div 16) ! ((n - 16) mod 16)"
      using Cons False by (intro Cons.IH) auto
    then show ?thesis using Cons.prems(1) False d by (simp add: nth_append)
  qed (use Cons in \<open>simp add: nth_append\<close>)
qed simp

lemma inv_sbox_nth: "inv_sbox ! unat b = inv_sbox_rows ! (unat b div 16) ! (unat b mod 16)" for b :: u8
proof -
  have "unat b < 256" using unsigned_less [of b] by simp
  then show ?thesis unfolding inv_sbox_def by (intro nth_concat_rows) (simp_all add: inv_sbox_rows_def)
qed

lemma inv_sbox_table: "map (\<lambda>b. inv_sbox_rows ! (unat b div 16) ! (unat b mod 16)) sbox = map of_nat [0..<256]"
  by (simp add: sbox_def sbox_rows_def inv_sbox_rows_def upt_rec)

lemma inv_sbox_sbox [simp]: "inv_sbox ! unat (sbox ! unat b) = b" for b :: u8
proof -
  have b: "unat b < 256" using unsigned_less [of b] by simp
  have l: "length sbox = 256" by (simp add: sbox_def sbox_rows_def)
  have "map (\<lambda>b. inv_sbox_rows ! (unat b div 16) ! (unat b mod 16)) sbox ! unat b = map of_nat [0..<256] ! unat b"
    by (simp only: inv_sbox_table)
  then show ?thesis using b l by (simp add: inv_sbox_nth)
qed

section \<open>Column mixing\<close>

lemma xtime_xor: "xtime (x XOR y) = xtime x XOR xtime y"
proof -
  have a: "(z AND 0x80 \<noteq> 0) = bit z 7" for z :: u8
    using word_and_single_bit [of 7 z] by simp
  show ?thesis unfolding xtime_def a bit_xor_iff by (simp add: ac_simps)
qed

lemma gmul_consts:
  "gmul a 2 = xtime a" "gmul a 3 = a XOR xtime a"
  "gmul a 9 = a XOR xtime (xtime (xtime a))"
  "gmul a 11 = a XOR xtime a XOR xtime (xtime (xtime a))"
  "gmul a 13 = a XOR xtime (xtime a) XOR xtime (xtime (xtime a))"
  "gmul a 14 = xtime a XOR xtime (xtime a) XOR xtime (xtime (xtime a))"
proof -
  have e: "gmul a b = gmul_loop (Suc (Suc (Suc (Suc (Suc (Suc (Suc (Suc 0)))))))) a b 0" for b
    by (simp add: gmul_def numeral_eq_Suc del: gmul_loop.simps)
  show "gmul a 2 = xtime a" "gmul a 3 = a XOR xtime a"
    "gmul a 9 = a XOR xtime (xtime (xtime a))"
    "gmul a 11 = a XOR xtime a XOR xtime (xtime (xtime a))"
    "gmul a 13 = a XOR xtime (xtime a) XOR xtime (xtime (xtime a))"
    "gmul a 14 = xtime a XOR xtime (xtime a) XOR xtime (xtime (xtime a))"
    unfolding e by (simp_all add: xor.assoc)
qed

lemma inv_mix_column_mix_column: "length s = 4 \<Longrightarrow> inv_mix_column (mix_column s) = s"
proof -
  assume "length s = 4"
  then obtain a b c d where s: "s = [a, b, c, d]"
    by (auto simp: numeral_eq_Suc length_Suc_conv)
  show ?thesis unfolding s by (simp add: gmul_consts xtime_xor ac_simps)
qed

section \<open>Decryption inverts encryption\<close>

lemma length_16_cases:
  assumes "length s = 16"
  obtains a0 a1 a2 a3 a4 a5 a6 a7 a8 a9 aa ab ac ad ae af
  where "s = [a0, a1, a2, a3, a4, a5, a6, a7, a8, a9, aa, ab, ac, ad, ae, af]"
  using assms by (auto simp: numeral_eq_Suc length_Suc_conv)

lemma upt_4: "[0..<4] = [0, 1, 2, 3]"
  by (simp add: upt_rec)

lemma add_round_key_twice [simp]: "length s = 16 \<Longrightarrow> add_round_key rk off (add_round_key rk off s) = s"
  by (rule nth_equalityI) (simp_all add: add_round_key_def xor.assoc)

lemma length_add_round_key [simp]: "length (add_round_key rk off s) = 16"
  by (simp add: add_round_key_def)

lemma length_sub_bytes [simp]: "length (sub_bytes s) = length s"
  by (simp add: sub_bytes_def)

lemma length_shift_rows [simp]: "length (shift_rows s) = length s"
  by (simp add: shift_rows_def)

lemma inv_sub_bytes_sub_bytes [simp]: "inv_sub_bytes (sub_bytes s) = s"
  by (simp add: inv_sub_bytes_def sub_bytes_def comp_def)

lemma inv_shift_rows_shift_rows [simp]: "length s = 16 \<Longrightarrow> inv_shift_rows (shift_rows s) = s"
  by (erule length_16_cases) (simp add: inv_shift_rows_def shift_rows_def)

lemma length_mix_column: "length s = 4 \<Longrightarrow> length (mix_column s) = 4"
  by (auto simp: numeral_eq_Suc length_Suc_conv)

lemma mix_columns_4:
  assumes "length a = 4" "length b = 4" "length c = 4" "length d = 4"
  shows "mix_columns (a @ b @ c @ d) = mix_column a @ mix_column b @ mix_column c @ mix_column d"
    and "inv_mix_columns (a @ b @ c @ d) = inv_mix_column a @ inv_mix_column b @ inv_mix_column c @ inv_mix_column d"
  using assms by (simp_all add: mix_columns_def inv_mix_columns_def upt_4)

lemma columns_16:
  assumes "length s = 16"
  obtains a b c d where "s = a @ b @ c @ d" "length a = 4" "length b = 4" "length c = 4" "length d = 4"
proof
  have "drop 8 s = take 4 (drop 8 s) @ drop 12 s" using append_take_drop_id [of 4 "drop 8 s"] by simp
  moreover have "drop 4 s = take 4 (drop 4 s) @ drop 8 s" using append_take_drop_id [of 4 "drop 4 s"] by simp
  ultimately show "s = take 4 s @ take 4 (drop 4 s) @ take 4 (drop 8 s) @ drop 12 s"
    by (metis append_take_drop_id)
qed (use assms in auto)

lemma length_mix_columns [simp]: "length s = 16 \<Longrightarrow> length (mix_columns s) = 16"
  by (erule columns_16) (simp add: mix_columns_4 length_mix_column)

lemma inv_mix_columns_mix_columns [simp]: "length s = 16 \<Longrightarrow> inv_mix_columns (mix_columns s) = s"
  by (erule columns_16) (simp add: mix_columns_4 length_mix_column inv_mix_column_mix_column)

abbreviation (input) enc_round :: "u8 list \<Rightarrow> u8 list \<Rightarrow> nat \<Rightarrow> u8 list" where
  "enc_round rk \<equiv> \<lambda>s round. add_round_key rk (round * 16) (mix_columns (shift_rows (sub_bytes s)))"

abbreviation (input) dec_round :: "u8 list \<Rightarrow> u8 list \<Rightarrow> nat \<Rightarrow> u8 list" where
  "dec_round rk \<equiv> \<lambda>s round. inv_mix_columns (add_round_key rk (round * 16) (inv_sub_bytes (inv_shift_rows s)))"

lemma length_enc_rounds: "length s = 16 \<Longrightarrow> length (foldl (enc_round rk) s rs) = 16"
  by (induction rs arbitrary: s) auto

text \<open>
  The decryption rounds undo the encryption rounds between the two substitution layers: what
  enters each is the state before, respectively after, shifting and substituting.
\<close>

lemma dec_rounds:
  "length s = 16 \<Longrightarrow>
   foldl (dec_round rk) (shift_rows (sub_bytes (foldl (enc_round rk) s rs))) (rev rs) = shift_rows (sub_bytes s)"
proof (induction rs arbitrary: s rule: rev_induct)
  case (snoc r rs)
  then show ?case by (simp add: length_enc_rounds)
qed simp

lemma decrypt_encrypt_block:
  assumes "length inp = 16"
  shows "decrypt_block rk nr (encrypt_block rk nr inp) = inp"
proof -
  define s where "s = add_round_key rk 0 inp"
  have l: "length s = 16" by (simp add: s_def)
  have "decrypt_block rk nr (encrypt_block rk nr inp) =
      add_round_key rk 0 (inv_sub_bytes (inv_shift_rows
        (foldl (dec_round rk) (shift_rows (sub_bytes (foldl (enc_round rk) s [1..<nr]))) (rev [1..<nr]))))"
    by (simp add: decrypt_block_def encrypt_block_def Let_def s_def length_enc_rounds)
  also have "\<dots> = add_round_key rk 0 s" by (simp only: dec_rounds [OF l]) (simp add: l)
  finally show ?thesis using assms by (simp add: s_def)
qed

lemma length_encrypt_block [simp]: "length (encrypt_block rk nr inp) = 16"
  by (simp add: encrypt_block_def Let_def)

text \<open>
  C28: decryption inverts encryption.  For every AES-256 and AES-128 key and every block of 16
  bytes, decrypting the encrypted block gives the block back.
\<close>

theorem aes_roundtrip:
  assumes "length inp = 16"
  shows "aes256_decrypt_block (aes256_init key) (aes256_encrypt_block (aes256_init key) inp) = inp \<and>
    aes128_decrypt_block (aes128_init key') (aes128_encrypt_block (aes128_init key') inp) = inp"
  using decrypt_encrypt_block [OF assms]
  by (simp add: aes256_decrypt_block_def aes256_encrypt_block_def aes128_decrypt_block_def aes128_encrypt_block_def)

theorem aes_roundtrip_witness:
  "aes128_decrypt_block (aes128_init (replicate 16 1)) (aes128_encrypt_block (aes128_init (replicate 16 1)) (replicate 16 2)) =
   replicate 16 2"
  using aes_roundtrip [of "replicate 16 2"] by simp

section \<open>The tweak sequence\<close>

lemma shift_carry_length: "length (fst (shift_carry k bs)) = length bs"
  by (induction k bs rule: shift_carry.induct) (auto simp: split_def Let_def)

lemma shift_carry_out: "snd (shift_carry k bs) = (if bs = [] then k else drop_bit 7 (last bs) AND 1)"
  by (induction k bs rule: shift_carry.induct) (auto simp: split_def Let_def)

lemma bit_push_1: "bit (push_bit 1 w) i \<longleftrightarrow> 0 < i \<and> i < LENGTH('a) \<and> bit w (i - 1)" for w :: "'a :: len word"
  unfolding bit_push_bit_iff by auto

lemma carry_bit: "bit (drop_bit 7 b AND 1 :: u8) i \<longleftrightarrow> i = 0 \<and> bit b 7"
  by (auto simp: bit_simps)

lemma shift_carry_bit:
  "k = 0 \<or> k = 1 \<Longrightarrow> j < length bs \<Longrightarrow> i < 8 \<Longrightarrow>
   bit (fst (shift_carry k bs) ! j) i =
     (if i > 0 then bit (bs ! j) (i - 1) else if j > 0 then bit (bs ! (j - 1)) 7 else k = 1)"
proof (induction k bs arbitrary: j rule: shift_carry.induct)
  case (2 k b bs)
  have c: "drop_bit 7 b AND 1 = 0 \<or> drop_bit 7 b AND 1 = 1"
    by (auto simp: and_one_eq)
  have c1: "drop_bit 7 b AND 1 = 1 \<longleftrightarrow> bit b 7"
    using arg_cong [of "drop_bit 7 b AND 1" 1 "\<lambda>w. bit w 0"] arg_cong [of "drop_bit 7 b AND 1" 0 "\<lambda>w. bit w 0"] c carry_bit [of b 0]
    by auto
  have h: "fst (shift_carry k (b # bs)) = (push_bit 1 b OR k) # fst (shift_carry (drop_bit 7 b AND 1) bs)"
    by (simp add: split_def Let_def)
  show ?case
  proof (cases j)
    case 0
    have k: "bit k i \<longleftrightarrow> k = 1 \<and> i = 0" using "2.prems"(1) by (auto simp: bit_simps bit_1_iff)
    show ?thesis unfolding h 0 nth_Cons_0 bit_or_iff bit_push_1 k using "2.prems"(3) by auto
  next
    case (Suc m)
    have "bit (fst (shift_carry (drop_bit 7 b AND 1) bs) ! m) i =
      (if i > 0 then bit (bs ! m) (i - 1) else if m > 0 then bit (bs ! (m - 1)) 7 else drop_bit 7 b AND 1 = 1)"
      by (rule "2.IH" [OF c]) (use "2.prems" Suc in auto)
    then show ?thesis unfolding h by (cases m) (auto simp: Suc c1)
  qed
qed simp

lemma length_gf128_mul_alpha [simp]: "length (gf128_mul_alpha t) = length t"
  by (auto simp: gf128_mul_alpha_def Let_def shift_carry_length split_def)

text \<open>
  C30: the tweak step is multiplication by the primitive element.  On the 128-bit number the 16
  bytes denote in little-endian order, it shifts left by one and, when the top bit falls out,
  adds the reduction polynomial \<open>x^7 + x^2 + x + 1\<close>.
\<close>

theorem gf128_mul_alpha_correct:
  assumes "length t = 16"
  shows "(le_word (gf128_mul_alpha t) :: 128 word) =
    push_bit 1 (le_word t) XOR (if bit (le_word t :: 128 word) 127 then 0x87 else 0)"
proof (rule bit_word_eqI)
  fix i assume "i < LENGTH(128)"
  then have i: "i < 128" by simp
  define j where "j = i div 8"
  define m where "m = i mod 8"
  have jm: "j < 16" "m < 8" "i = j * 8 + m" using i by (auto simp: j_def m_def)
  let ?r = "fst (shift_carry 0 t)"
  have top: "bit (le_word t :: 128 word) 127 \<longleftrightarrow> bit (t ! 15) 7" using assms by (simp add: bit_le_word)
  have "last t = t ! 15" using assms by (simp add: last_conv_nth flip: length_0_conv)
  then have out: "snd (shift_carry 0 t) \<noteq> 0 \<longleftrightarrow> bit (t ! 15) 7"
    using assms carry_bit [of "t ! 15" 0] and_one_eq [of "drop_bit 7 (t ! 15)"]
    by (auto simp: shift_carry_out bit_0 and_one_eq odd_iff_mod_2_eq_one split: if_splits)
  have r: "gf128_mul_alpha t = (if bit (t ! 15) 7 then ?r[0 := ?r ! 0 XOR 0x87] else ?r)"
    using out by (simp add: gf128_mul_alpha_def Let_def split_def)
  have rb: "bit (?r ! j) m = (if m > 0 then bit (t ! j) (m - 1) else j > 0 \<and> bit (t ! (j - 1)) 7)"
    using shift_carry_bit [of 0 j t m] jm assms by simp
  have sh: "bit (push_bit 1 (le_word t) :: 128 word) i =
      (if m > 0 then bit (t ! j) (m - 1) else j > 0 \<and> bit (t ! (j - 1)) 7)"
  proof (cases "m > 0")
    case True
    then have e: "i - 1 = j * 8 + (m - 1)" and "i > 0" using jm by auto
    then have "(i - 1) div 8 = j" "(i - 1) mod 8 = m - 1" unfolding e using jm by auto
    then show ?thesis unfolding bit_push_1 using \<open>i > 0\<close> True i jm(1,2) assms by (auto simp: bit_le_word)
  next
    case False
    show ?thesis
    proof (cases j)
      case (Suc k)
      then have "i - 1 = k * 8 + 7" "i > 0" using False jm by auto
      then show ?thesis unfolding bit_push_1 using False Suc i jm(1,2) assms by (auto simp: bit_le_word)
    qed (use False jm in \<open>simp only: bit_push_1, simp\<close>)
  qed
  have poly: "bit (0x87 :: 128 word) i \<longleftrightarrow> j = 0 \<and> bit (0x87 :: u8) m"
  proof -
    have "(0x87 :: 128 word) = ucast (0x87 :: u8)" by simp
    then have "bit (0x87 :: 128 word) i \<longleftrightarrow> bit (0x87 :: u8) i" using i by (simp only: bit_ucast_iff) simp
    then show ?thesis using jm bit_imp_le_length [of "0x87 :: u8" i] by (cases j) auto
  qed
  have rhs: "bit (w XOR (if B then 0x87 else 0)) i = (bit w i \<noteq> (B \<and> bit (0x87 :: 128 word) i))" for B and w :: "128 word"
    by (cases B) (simp_all only: bit_xor_iff if_True if_False bit_0_eq bot_apply bot_bool_def simp_thms)
  have "bit (le_word (gf128_mul_alpha t) :: 128 word) i = bit (gf128_mul_alpha t ! j) m"
    using i assms jm(1) by (simp add: bit_le_word j_def [symmetric] m_def [symmetric])
  also have "\<dots> = (bit (?r ! j) m \<noteq> (bit (t ! 15) 7 \<and> j = 0 \<and> bit (0x87 :: u8) m))"
    using assms by (auto simp: r nth_list_update shift_carry_length bit_xor_iff)
  finally show "bit (le_word (gf128_mul_alpha t) :: 128 word) i =
      bit (push_bit 1 (le_word t) XOR (if bit (le_word t :: 128 word) 127 then 0x87 else 0) :: 128 word) i"
    unfolding rhs sh poly top rb .
qed

theorem gf128_mul_alpha_correct_witness:
  "(le_word (gf128_mul_alpha (replicate 16 0x80)) :: 128 word) = push_bit 1 (le_word (replicate 16 0x80)) XOR 0x87"
proof -
  have "bit (le_word (replicate 16 0x80) :: 128 word) 127" by (simp add: bit_le_word nth_replicate)
  then show ?thesis using gf128_mul_alpha_correct [of "replicate 16 0x80"] by simp
qed

section \<open>The storage mode\<close>

lemma map2_xor_twice: "length x \<le> length t \<Longrightarrow> map2 (XOR) (map2 (XOR) x t) t = x" for x :: "u8 list"
  by (rule nth_equalityI) (simp_all add: xor.assoc)

lemma xts_loop_step:
  "16 \<le> length inp \<Longrightarrow> xts_loop f t inp out =
   map2 (XOR) (f (map2 (XOR) (take 16 inp) t)) t @ xts_loop f (gf128_mul_alpha t) (drop 16 inp) (drop 16 out)"
  by (subst xts_loop.simps) (simp add: Let_def)

lemma xts_loop_short: "length inp < 16 \<Longrightarrow> xts_loop f t inp out = out"
  by (subst xts_loop.simps) simp

lemma xts_loop_inverse:
  assumes "\<And>x. length x = 16 \<Longrightarrow> g (f x) = x" and "\<And>x. length (f x) = 16"
  shows "length t = 16 \<Longrightarrow> length inp = 16 * n \<Longrightarrow> length out = length inp \<Longrightarrow> length out2 = length inp \<Longrightarrow>
    xts_loop g t (xts_loop f t inp out) out2 = inp \<and> length (xts_loop f t inp out) = length inp"
proof (induction n arbitrary: t inp out out2)
  case (Suc n)
  define c where "c = map2 (XOR) (f (map2 (XOR) (take 16 inp) t)) t"
  define r where "r = xts_loop f (gf128_mul_alpha t) (drop 16 inp) (drop 16 out)"
  have c: "length c = 16" using assms(2) Suc.prems by (simp add: c_def)
  have e: "xts_loop f t inp out = c @ r" using Suc.prems by (simp add: xts_loop_step c_def r_def)
  have IH: "xts_loop g (gf128_mul_alpha t) r (drop 16 out2) = drop 16 inp \<and> length r = length (drop 16 inp)"
    unfolding r_def by (rule Suc.IH) (use Suc.prems in auto)
  have "map2 (XOR) (g (map2 (XOR) c t)) t = take 16 inp"
    using Suc.prems assms by (simp add: c_def map2_xor_twice)
  then have "xts_loop g t (c @ r) out2 = take 16 inp @ drop 16 inp"
    using c IH by (simp add: xts_loop_step)
  then show ?case using e c IH Suc.prems by simp
qed (simp add: xts_loop_short)

lemma aes256_block_inverse:
  "length x = 16 \<Longrightarrow> aes256_decrypt_block ctx (aes256_encrypt_block ctx x) = x"
  "length (aes256_encrypt_block ctx x) = 16"
  by (simp_all add: aes256_decrypt_block_def aes256_encrypt_block_def decrypt_encrypt_block)

text \<open>
  C31: decryption of a stored extent gives the plaintext back.  For every pair of keys, block
  number and plaintext of a whole number of cipher blocks, decrypting what was encrypted under
  the same block number is the identity, and the length is kept.
\<close>

theorem aes_xts_roundtrip:
  assumes "length inp mod 16 = 0" and "length out = length inp" and "length out2 = length inp"
  shows "aes_xts_decrypt (aes_xts_init k1 k2) block (aes_xts_encrypt (aes_xts_init k1 k2) block inp out) out2 = inp \<and>
    length (aes_xts_encrypt (aes_xts_init k1 k2) block inp out) = length inp"
proof -
  have "length inp = 16 * (length inp div 16)" using assms(1) by (metis add.right_neutral mult_div_mod_eq)
  then show ?thesis
    unfolding aes_xts_decrypt_def aes_xts_encrypt_def
    using assms(2,3) by (intro xts_loop_inverse) (simp_all add: aes256_block_inverse)
qed

theorem aes_xts_roundtrip_witness:
  "aes_xts_decrypt (aes_xts_init [1] [2]) 7 (aes_xts_encrypt (aes_xts_init [1] [2]) 7 (replicate 32 5) (replicate 32 0)) (replicate 32 0) =
   replicate 32 5"
  by (rule conjunct1 [OF aes_xts_roundtrip]) simp_all

lemma xts_loop_block:
  "(\<And>x. length (f x) = 16) \<Longrightarrow> length t = 16 \<Longrightarrow> 16 * j + 16 \<le> length inp \<Longrightarrow>
   take 16 (drop (16 * j) (xts_loop f t inp out)) =
     (let tj = (gf128_mul_alpha ^^ j) t in map2 (XOR) (f (map2 (XOR) (take 16 (drop (16 * j) inp)) tj)) tj)"
proof (induction j arbitrary: t inp out)
  case 0
  then show ?case by (simp add: xts_loop_step)
next
  case (Suc j)
  let ?c = "map2 (XOR) (f (map2 (XOR) (take 16 inp) t)) t"
  have c: "length ?c = 16" using Suc.prems by simp
  have "take 16 (drop (16 * Suc j) (xts_loop f t inp out)) =
      take 16 (drop (16 * j) (xts_loop f (gf128_mul_alpha t) (drop 16 inp) (drop 16 out)))"
    using Suc.prems c by (simp add: xts_loop_step)
  also have "\<dots> = (let tj = (gf128_mul_alpha ^^ j) (gf128_mul_alpha t)
      in map2 (XOR) (f (map2 (XOR) (take 16 (drop (16 * j) (drop 16 inp))) tj)) tj)"
    by (rule Suc.IH) (use Suc.prems in auto)
  finally show ?case by (simp add: funpow_swap1 add.commute)
qed

text \<open>
  C32: each cipher block is encrypted under its own tweak.  Block \<open>j\<close> of an encrypted extent is
  \<open>E(P xor T) xor T\<close> with the tweak \<open>T\<close> the encrypted block number multiplied \<open>j\<close> times by the
  primitive element: it depends on no other plaintext block, and its position enters it.
\<close>

theorem aes_xts_encrypt_block:
  assumes "16 * j + 16 \<le> length inp"
  shows "take 16 (drop (16 * j) (aes_xts_encrypt ctx block inp out)) =
    (let T = (gf128_mul_alpha ^^ j) (aes256_encrypt_block (xts_tweak ctx) (block_number_to_tweak_input block));
         P = take 16 (drop (16 * j) inp)
     in map2 (XOR) (aes256_encrypt_block (xts_data ctx) (map2 (XOR) P T)) T)"
  unfolding aes_xts_encrypt_def Let_def
  by (rule xts_loop_block [unfolded Let_def]) (simp_all add: aes256_block_inverse(2) assms)

theorem aes_xts_encrypt_block_witness:
  "take 16 (drop 16 (aes_xts_encrypt (aes_xts_init [1] [2]) 7 (replicate 16 0 @ replicate 16 9) (replicate 32 0))) =
   (let T = gf128_mul_alpha (aes256_encrypt_block (aes256_init [2]) (block_number_to_tweak_input 7))
    in map2 (XOR) (aes256_encrypt_block (aes256_init [1]) (map2 (XOR) (replicate 16 9) T)) T)"
  using aes_xts_encrypt_block [of 1 "replicate 16 0 @ replicate 16 9" "aes_xts_init [1] [2]" 7 "replicate 32 0"]
  by (simp add: aes_xts_init_def Let_def)


section \<open>The substitution box of the standard\<close>

text \<open>The affine map of FIPS 197, section 5.1.1, and its inverse.\<close>

definition rotl8 :: "nat \<Rightarrow> u8 \<Rightarrow> u8" where
  "rotl8 n y = push_bit n y OR drop_bit (8 - n) y"

definition fips_affine :: "u8 \<Rightarrow> u8" where
  "fips_affine y = y XOR rotl8 1 y XOR rotl8 2 y XOR rotl8 3 y XOR rotl8 4 y XOR 0x63"

definition fips_unaffine :: "u8 \<Rightarrow> u8" where
  "fips_unaffine s = rotl8 1 s XOR rotl8 3 s XOR rotl8 6 s XOR 0x05"

definition sbox_entry_ok :: "u8 \<Rightarrow> u8 \<Rightarrow> bool" where
  "sbox_entry_ok x s \<longleftrightarrow> fips_affine (fips_unaffine s) = s \<and>
     (if x = 0 then fips_unaffine s = 0 else gmul x (fips_unaffine s) = 1)"

lemma gmul_8: "gmul a b = gmul_loop (Suc (Suc (Suc (Suc (Suc (Suc (Suc (Suc 0)))))))) a b 0"
  by (simp add: gmul_def numeral_eq_Suc del: gmul_loop.simps)

lemma sbox_entries: "list_all2 sbox_entry_ok (map of_nat [0..<256]) sbox"
  by (simp add: sbox_def sbox_rows_def upt_rec sbox_entry_ok_def fips_affine_def fips_unaffine_def rotl8_def
      gmul_8 xtime_def)

text \<open>
  C29: the substitution table is the one of FIPS 197.  Every entry is the affine map applied to
  the multiplicative inverse of its index in the field of 256 elements, the inverse of 0 taken
  to be 0.
\<close>

theorem sbox_fips197: "\<exists>y. sbox ! unat x = fips_affine y \<and> (if x = 0 then y = 0 else gmul x y = 1)"
proof -
  have x: "unat x < 256" using unsigned_less [of x] by simp
  have "sbox_entry_ok (map of_nat [0..<256] ! unat x) (sbox ! unat x)"
    by (rule list_all2_nthD [OF sbox_entries]) (simp add: x)
  then have "sbox_entry_ok x (sbox ! unat x)" using x by simp
  then show ?thesis unfolding sbox_entry_ok_def by metis
qed

end
