(* ===== verification/Kheap.thy ===== *)
theory Kheap
  imports Prelude
begin

text \<open>
  The kernel heap, \<open>kernel/mm/kheap.c\<close>, with the public wrappers of \<open>kernel/mm/kmalloc.c\<close>.

  The doubly linked list of all blocks is the list \<open>kh_blocks\<close> in list order; a block carries its
  address, sz, use flag and the two canaries.  A slab pool's intrusive free list is the list of
  the addresses on it.  What the page allocator and the mapper answer to the page requests of
  \<open>heap_grow\<close> is the list \<open>kh_pages\<close>, consumed from the front: True for a page allocated and
  mapped, False (or the end of the list) for a failure.  Sizes wrap at 64 bits where the code
  computes with them; addresses stay below \<open>2^64\<close> because the window above the heap base holds
  more pages than memory has.  The contents of allocated memory are not modelled.
\<close>

section \<open>State\<close>

abbreviation (input) KHEAP_BASE :: nat where "KHEAP_BASE \<equiv> 0xFFFFFF8000000000"
abbreviation (input) KHEAP_CANARY_HEAD :: nat where "KHEAP_CANARY_HEAD \<equiv> 0xDEADBEEFCAFEBABE"
abbreviation (input) KHEAP_CANARY_TAIL :: nat where "KHEAP_CANARY_TAIL \<equiv> 0xCAFEBABEDEADBEEF"
abbreviation (input) HEADER :: nat where "HEADER \<equiv> 40"
abbreviation (input) OVERHEAD :: nat where "OVERHEAD \<equiv> 48"
abbreviation (input) MIN_BLOCK_SIZE :: nat where "MIN_BLOCK_SIZE \<equiv> 64"
abbreviation (input) SLAB_MAX_RANGES :: nat where "SLAB_MAX_RANGES \<equiv> 1024"
abbreviation (input) SLAB_REGION_BYTES :: nat where "SLAB_REGION_BYTES \<equiv> 65536"
abbreviation (input) HEAP_PAGE :: nat where "HEAP_PAGE \<equiv> 4096"

record kblock =
  kb_addr :: nat
  kb_size :: nat
  kb_used :: bool
  kb_canary :: nat
  kb_tail :: nat

record slab_pool =
  sp_obj_size :: nat
  sp_free :: "nat list"
  sp_total :: nat
  sp_used :: nat

record slab_range =
  sr_start :: nat
  sr_end :: nat
  sr_pool :: nat

definition slab_sizes :: "nat list" where
  "slab_sizes = [16, 32, 64, 128, 256, 512, 1024]"

record kheap =
  kh_blocks :: "kblock list"
  kh_end :: nat
  kh_total :: nat
  kh_used :: nat
  kh_count :: nat
  kh_pools :: "slab_pool list"
  kh_ranges :: "slab_range list"
  kh_pages :: "bool list"

text \<open>
  What an allocation gives: a pointer, NULL, a fault on unmapped memory, or, in the model only,
  the end of the recursion budget.
\<close>

datatype kptr = Ptr nat | Null | Fault | OutOfFuel

section \<open>Slab registry\<close>

text \<open>The bisection: the number of regions that start at or below \<open>a\<close>, within \<open>[lo, hi)\<close>.\<close>

function slab_bisect :: "slab_range list \<Rightarrow> nat \<Rightarrow> nat \<Rightarrow> nat \<Rightarrow> nat" where
  "slab_bisect rs a lo hi =
     (if lo < hi then
        let mid = lo + (hi - lo) div 2 in
        if sr_start (rs ! mid) \<le> a then slab_bisect rs a (mid + 1) hi else slab_bisect rs a lo mid
      else lo)"
  by pat_completeness auto
termination
  by (relation "measure (\<lambda>(rs, a, lo, hi). hi - lo)") auto

declare slab_bisect.simps [simp del]

definition slab_range_lookup :: "slab_range list \<Rightarrow> nat \<Rightarrow> nat option" where
  "slab_range_lookup rs a =
     (let lo = slab_bisect rs a 0 (length rs) in
      if lo = 0 then None
      else if a < sr_end (rs ! (lo - 1)) then Some (sr_pool (rs ! (lo - 1))) else None)"

text \<open>Insertion from the back, as the shifting loop does it.\<close>

definition slab_range_insert :: "slab_range \<Rightarrow> slab_range list \<Rightarrow> slab_range list" where
  "slab_range_insert r rs =
     (let after = takeWhile (\<lambda>x. sr_start x > sr_start r) (rev rs) in
      rev (drop (length after) (rev rs)) @ r # rev after)"

definition slab_class_for :: "nat \<Rightarrow> nat option" where
  "slab_class_for sz = first_index (\<lambda>s. sz \<le> s) slab_sizes"

section \<open>Blocks\<close>

definition align_up :: "nat \<Rightarrow> nat \<Rightarrow> nat" where
  "align_up sz align = wrap64 (sz + align - 1) div align * align"

definition total_block_size :: "nat \<Rightarrow> nat" where
  "total_block_size sz = wrap64 (align_up sz 16 + OVERHEAD)"

definition kblock_free :: "nat \<Rightarrow> nat \<Rightarrow> kblock" where
  "kblock_free addr sz =
     \<lparr>kb_addr = addr, kb_size = sz, kb_used = False, kb_canary = 0, kb_tail = KHEAP_CANARY_TAIL\<rparr>"

text \<open>First fit: the block taken, whether it was split, and the new list.\<close>

fun take_fit :: "nat \<Rightarrow> kblock list \<Rightarrow> (kblock \<times> bool \<times> kblock list) option" where
  "take_fit need [] = None"
| "take_fit need (b # bs) =
     (if \<not> kb_used b \<and> kb_size b \<ge> need then
        let leftover = kb_size b - need in
        if leftover \<ge> MIN_BLOCK_SIZE then
          let a = b\<lparr>kb_size := need, kb_used := True, kb_canary := KHEAP_CANARY_HEAD, kb_tail := KHEAP_CANARY_TAIL\<rparr>
          in Some (a, True, a # kblock_free (kb_addr b + need) leftover # bs)
        else
          let a = b\<lparr>kb_used := True, kb_canary := KHEAP_CANARY_HEAD, kb_tail := KHEAP_CANARY_TAIL\<rparr>
          in Some (a, False, a # bs)
      else map_option (\<lambda>(a, split, bs'). (a, split, b # bs')) (take_fit need bs))"

text \<open>The page loop of \<open>heap_grow\<close>: pages obtained before a failure stay mapped.\<close>

fun grow_pages :: "nat \<Rightarrow> kheap \<Rightarrow> bool \<times> kheap" where
  "grow_pages 0 h = (True, h)"
| "grow_pages (Suc n) h =
     (case kh_pages h of
        True # rest \<Rightarrow> grow_pages n (h\<lparr>kh_pages := rest, kh_end := kh_end h + HEAP_PAGE\<rparr>)
      | False # rest \<Rightarrow> (False, h\<lparr>kh_pages := rest\<rparr>)
      | [] \<Rightarrow> (False, h))"

definition grow_count :: "nat \<Rightarrow> nat" where
  "grow_count bytes = wrap64 (bytes + HEAP_PAGE - 1) div HEAP_PAGE"

definition heap_grow :: "nat \<Rightarrow> kheap \<Rightarrow> nat option \<times> kheap" where
  "heap_grow bytes h =
     (let pages = grow_count bytes; (ok, h1) = grow_pages pages h in
      if ok then (Some (kh_end h), h1\<lparr>kh_total := wrap64 (kh_total h1 + pages * HEAP_PAGE)\<rparr>) else (None, h1))"

section \<open>Allocation\<close>

text \<open>Growing a pool over the allocator \<open>alloc\<close> of its region.\<close>

definition kheap_slab_grow_locked :: "(nat \<Rightarrow> kheap \<Rightarrow> kptr \<times> kheap) \<Rightarrow> nat \<Rightarrow> kheap \<Rightarrow> kptr \<times> kheap" where
  "kheap_slab_grow_locked alloc c h =
     (if length (kh_ranges h) \<ge> SLAB_MAX_RANGES then (Null, h)
      else
        let obj = sp_obj_size (kh_pools h ! c);
            objs = max (SLAB_REGION_BYTES div obj) 8 in
        case alloc (objs * obj) h of
          (Ptr region, h1) \<Rightarrow>
            let pool = kh_pools h1 ! c;
                r = \<lparr>sr_start = region, sr_end = region + objs * obj, sr_pool = c\<rparr> in
            (Null, h1\<lparr>kh_ranges := slab_range_insert r (kh_ranges h1),
                kh_pools := (kh_pools h1)[c := pool\<lparr>
                  sp_free := rev (map (\<lambda>i. region + i * obj) [0..<objs]) @ sp_free pool,
                  sp_total := sp_total pool + objs\<rparr>]\<rparr>)
        | (res, h1) \<Rightarrow> (res, h1))"

definition kheap_slab_pop :: "nat \<Rightarrow> kheap \<Rightarrow> kptr \<times> kheap" where
  "kheap_slab_pop c h =
     (let pool = kh_pools h ! c in
      case sp_free pool of
        [] \<Rightarrow> (Null, h)
      | obj # rest \<Rightarrow>
          (Ptr obj, h\<lparr>kh_pools := (kh_pools h)[c := pool\<lparr>sp_free := rest, sp_used := sp_used pool + 1\<rparr>]\<rparr>))"

definition kheap_slab_alloc_locked :: "(nat \<Rightarrow> kheap \<Rightarrow> kptr \<times> kheap) \<Rightarrow> nat \<Rightarrow> kheap \<Rightarrow> kptr \<times> kheap" where
  "kheap_slab_alloc_locked alloc c h =
     (if sp_free (kh_pools h ! c) = [] then
        case kheap_slab_grow_locked alloc c h of
          (Null, h1) \<Rightarrow> kheap_slab_pop c h1
        | (res, h1) \<Rightarrow> (res, h1)
      else kheap_slab_pop c h)"

text \<open>The first-fit path and the appended block after a successful growth.\<close>

definition kheap_take :: "kblock \<Rightarrow> bool \<Rightarrow> kblock list \<Rightarrow> kheap \<Rightarrow> kptr \<times> kheap" where
  "kheap_take a split bs h =
     (Ptr (kb_addr a + HEADER),
      h\<lparr>kh_blocks := bs, kh_count := kh_count h + (if split then 1 else 0),
        kh_used := wrap64 (kh_used h + kb_size a - OVERHEAD)\<rparr>)"

definition kheap_append :: "nat \<Rightarrow> nat \<Rightarrow> kheap \<Rightarrow> kheap" where
  "kheap_append addr sz h =
     h\<lparr>kh_blocks := kh_blocks h @ [kblock_free addr sz], kh_count := kh_count h + 1\<rparr>"

text \<open>The walk over the block list, and the growth with the retry \<open>alloc\<close> when nothing fits.\<close>

definition kheap_first_fit :: "(nat \<Rightarrow> kheap \<Rightarrow> kptr \<times> kheap) \<Rightarrow> nat \<Rightarrow> kheap \<Rightarrow> kptr \<times> kheap" where
  "kheap_first_fit alloc sz h =
     (let need = total_block_size sz in
      case take_fit need (kh_blocks h) of
        Some (a, split, bs) \<Rightarrow> kheap_take a split bs h
      | None \<Rightarrow>
          (case heap_grow need h of
             (None, h2) \<Rightarrow> (Null, h2)
           | (Some addr, h2) \<Rightarrow>
               if grow_count need = 0 then (Fault, h2)
               else alloc sz (kheap_append addr (grow_count need * HEAP_PAGE) h2)))"

text \<open>
  \<open>kheap_alloc_locked\<close>.  It calls itself for a slab region and after growing the heap; the
  first argument bounds the depth of these calls.
\<close>

primrec kheap_alloc_n :: "nat \<Rightarrow> nat \<Rightarrow> kheap \<Rightarrow> kptr \<times> kheap" where
  "kheap_alloc_n 0 = (\<lambda>sz h. (OutOfFuel, h))"
| "kheap_alloc_n (Suc n) = (\<lambda>sz h.
     if sz = 0 then (Null, h)
     else
       case (case slab_class_for sz of
               None \<Rightarrow> (Null, h)
             | Some c \<Rightarrow> kheap_slab_alloc_locked (kheap_alloc_n n) c h) of
         (Null, h1) \<Rightarrow> kheap_first_fit (kheap_alloc_n n) sz h1
       | (res, h1) \<Rightarrow> (res, h1))"

definition kheap_alloc_locked :: "nat \<Rightarrow> kheap \<Rightarrow> kptr \<times> kheap" where
  "kheap_alloc_locked = kheap_alloc_n 5"

definition kheap_alloc :: "nat \<Rightarrow> kheap \<Rightarrow> kptr \<times> kheap" where
  "kheap_alloc sz h = kheap_alloc_locked sz h"

definition kheap_calloc :: "nat \<Rightarrow> nat \<Rightarrow> kheap \<Rightarrow> kptr \<times> kheap" where
  "kheap_calloc count sz h = kheap_alloc (wrap64 (count * sz)) h"

definition kmalloc :: "nat \<Rightarrow> kheap \<Rightarrow> kptr \<times> kheap" where
  "kmalloc sz h = kheap_alloc sz h"

definition kcalloc :: "nat \<Rightarrow> nat \<Rightarrow> kheap \<Rightarrow> kptr \<times> kheap" where
  "kcalloc count sz h =
     (if count \<noteq> 0 \<and> sz > (2 ^ 64 - 1) div count then (Null, h) else kheap_calloc count sz h)"

section \<open>Initialisation\<close>

definition kheap_slab_init :: "slab_pool list" where
  "kheap_slab_init = map (\<lambda>s. \<lparr>sp_obj_size = s, sp_free = [], sp_total = 0, sp_used = 0\<rparr>) slab_sizes"

text \<open>\<open>None\<close>: the first page could not be had and the kernel halts.\<close>

definition kheap_init :: "bool list \<Rightarrow> kheap option" where
  "kheap_init pages =
     (case heap_grow HEAP_PAGE \<lparr>kh_blocks = [], kh_end = KHEAP_BASE, kh_total = 0, kh_used = 0, kh_count = 0,
         kh_pools = kheap_slab_init, kh_ranges = [], kh_pages = pages\<rparr> of
        (None, h) \<Rightarrow> None
      | (Some base, h) \<Rightarrow> Some (h\<lparr>kh_blocks := [kblock_free base HEAP_PAGE], kh_count := 1\<rparr>))"

section \<open>Release\<close>

definition kheap_slab_free_locked :: "nat \<Rightarrow> nat \<Rightarrow> kheap \<Rightarrow> kheap" where
  "kheap_slab_free_locked c obj h =
     (let pool = kh_pools h ! c in
      h\<lparr>kh_pools := (kh_pools h)[c := pool\<lparr>sp_free := obj # sp_free pool,
          sp_used := wrap64 (sp_used pool + 2 ^ 64 - 1)\<rparr>]\<rparr>)"

text \<open>Merging a block with its free successor, then with its free predecessor.\<close>

fun coalesce_next :: "kblock \<Rightarrow> kblock list \<Rightarrow> kblock \<times> kblock list" where
  "coalesce_next b [] = (b, [])"
| "coalesce_next b (n # bs) =
     (if \<not> kb_used n then (b\<lparr>kb_size := kb_size b + kb_size n, kb_tail := KHEAP_CANARY_TAIL\<rparr>, bs) else (b, n # bs))"

definition coalesce_prev :: "kblock list \<Rightarrow> kblock \<Rightarrow> kblock list" where
  "coalesce_prev pre b =
     (if pre \<noteq> [] \<and> \<not> kb_used (last pre)
      then butlast pre @ [(last pre)\<lparr>kb_size := kb_size (last pre) + kb_size b, kb_tail := KHEAP_CANARY_TAIL\<rparr>]
      else pre @ [b])"

datatype free_result = Freed | Ignored | Corrupted | Wild

text \<open>
  \<open>Wild\<close>: the pointer is neither in a slab region nor behind a block header, and the code reads
  whatever lies before it.  \<open>Corrupted\<close>: a canary does not match, or the block is not in use;
  the code reports it and changes nothing.
\<close>

definition kheap_free_locked :: "nat \<Rightarrow> kheap \<Rightarrow> free_result \<times> kheap" where
  "kheap_free_locked ptr h =
     (if ptr = 0 then (Ignored, h)
      else case slab_range_lookup (kh_ranges h) ptr of
        Some c \<Rightarrow> (Freed, kheap_slab_free_locked c ptr h)
      | None \<Rightarrow>
          (case dropWhile (\<lambda>b. kb_addr b + HEADER \<noteq> ptr) (kh_blocks h) of
             [] \<Rightarrow> (Wild, h)
           | b # post \<Rightarrow>
               let pre = takeWhile (\<lambda>b. kb_addr b + HEADER \<noteq> ptr) (kh_blocks h) in
               if kb_canary b \<noteq> KHEAP_CANARY_HEAD then (Corrupted, h)
               else if kb_tail b \<noteq> KHEAP_CANARY_TAIL then (Corrupted, h)
               else if \<not> kb_used b then (Corrupted, h)
               else
                 let b1 = b\<lparr>kb_used := False, kb_canary := 0\<rparr>;
                     (b2, post1) = coalesce_next b1 post;
                     bs = coalesce_prev pre b2 @ post1 in
                 (Freed, h\<lparr>kh_blocks := bs,
                    kh_used := wrap64 (kh_used h + 2 ^ 64 - (kb_size b - OVERHEAD)),
                    kh_count := kh_count h - (length (kh_blocks h) - length bs)\<rparr>)))"

definition kheap_free :: "nat \<Rightarrow> kheap \<Rightarrow> free_result \<times> kheap" where
  "kheap_free ptr h = kheap_free_locked ptr h"

definition kfree :: "nat \<Rightarrow> kheap \<Rightarrow> free_result \<times> kheap" where
  "kfree ptr h = kheap_free ptr h"

section \<open>Resizing\<close>

text \<open>In-place growth into the free successor; \<open>None\<close> when it is not possible.\<close>

definition kheap_try_expand_locked :: "kblock \<Rightarrow> kblock list \<Rightarrow> nat \<Rightarrow> (kblock list \<times> bool) option" where
  "kheap_try_expand_locked b post new_size =
     (case post of
        [] \<Rightarrow> None
      | n # rest \<Rightarrow>
          if kb_used n then None
          else
            let new_total = total_block_size new_size; combined = wrap64 (kb_size b + kb_size n) in
            if combined < new_total then None
            else
              let new_block_size = sub64 combined (sub64 new_total (kb_size b)) in
              if new_block_size \<ge> MIN_BLOCK_SIZE
              then Some (b\<lparr>kb_size := new_total, kb_tail := KHEAP_CANARY_TAIL\<rparr> #
                         kblock_free (kb_addr b + new_total) new_block_size # rest, False)
              else Some (b\<lparr>kb_size := combined, kb_tail := KHEAP_CANARY_TAIL\<rparr> # rest, True))"

definition kheap_realloc :: "nat \<Rightarrow> nat \<Rightarrow> kheap \<Rightarrow> kptr \<times> kheap" where
  "kheap_realloc ptr new_size h =
     (if ptr = 0 then kheap_alloc new_size h
      else if new_size = 0 then (Null, snd (kheap_free ptr h))
      else case slab_range_lookup (kh_ranges h) ptr of
        Some c \<Rightarrow>
          if new_size \<le> slab_sizes ! c then (Ptr ptr, h)
          else (case kheap_alloc_locked new_size h of
                  (Ptr p, h1) \<Rightarrow> (Ptr p, kheap_slab_free_locked c ptr h1)
                | (res, h1) \<Rightarrow> (res, h1))
      | None \<Rightarrow>
          (case dropWhile (\<lambda>b. kb_addr b + HEADER \<noteq> ptr) (kh_blocks h) of
             [] \<Rightarrow> (Fault, h)
           | b # post \<Rightarrow>
               let pre = takeWhile (\<lambda>b. kb_addr b + HEADER \<noteq> ptr) (kh_blocks h) in
               if new_size \<le> kb_size b - OVERHEAD then (Ptr ptr, h)
               else case kheap_try_expand_locked b post new_size of
                 Some (bs, absorbed) \<Rightarrow>
                   (Ptr ptr, h\<lparr>kh_blocks := pre @ bs, kh_count := kh_count h - (if absorbed then 1 else 0)\<rparr>)
               | None \<Rightarrow>
                   (case kheap_alloc new_size h of
                      (Ptr p, h1) \<Rightarrow> (Ptr p, snd (kheap_free ptr h1))
                    | (res, h1) \<Rightarrow> (res, h1))))"

definition krealloc :: "nat \<Rightarrow> nat \<Rightarrow> kheap \<Rightarrow> kptr \<times> kheap" where
  "krealloc ptr new_size h = kheap_realloc ptr new_size h"

text \<open>\<open>kheap_check\<close>: does the walk end without finding a damaged canary?\<close>

definition kheap_check :: "kheap \<Rightarrow> bool" where
  "kheap_check h = list_all (\<lambda>b. (kb_used b \<longrightarrow> kb_canary b = KHEAP_CANARY_HEAD) \<and> kb_tail b = KHEAP_CANARY_TAIL) (kh_blocks h)"

definition kheap_slab_stats_get :: "kheap \<Rightarrow> nat \<times> nat \<times> nat" where
  "kheap_slab_stats_get h =
     (sum_list (map sp_total (kh_pools h)), sum_list (map sp_used (kh_pools h)), length (kh_ranges h))"

end
