(* ===== verification/Kheap_Inv.thy ===== *)
theory Kheap_Inv
  imports Kheap
begin

text \<open>
  The data structures of the kernel heap: the order of the block list and what first fit and
  coalescing do to it, the sorted registry of slab regions and its bisection, and the areas that
  are handed out, which every step on a pool or on the block list changes by the one area it is
  about.
\<close>

section \<open>Blocks\<close>

definition canaries_ok :: "kblock \<Rightarrow> bool" where
  "canaries_ok b \<longleftrightarrow> kb_tail b = KHEAP_CANARY_TAIL \<and> (kb_used b \<longrightarrow> kb_canary b = KHEAP_CANARY_HEAD)"

text \<open>The blocks lie one behind the other between two addresses.\<close>

fun blocks_ok :: "nat \<Rightarrow> kblock list \<Rightarrow> nat \<Rightarrow> bool" where
  "blocks_ok lo [] hi \<longleftrightarrow> lo \<le> hi"
| "blocks_ok lo (b # bs) hi \<longleftrightarrow>
     lo \<le> kb_addr b \<and> OVERHEAD \<le> kb_size b \<and> canaries_ok b \<and> blocks_ok (kb_addr b + kb_size b) bs hi"

text \<open>Address and size of the used blocks.\<close>

definition used_blocks :: "kblock list \<Rightarrow> (nat \<times> nat) set" where
  "used_blocks bs = (\<lambda>b. (kb_addr b, kb_size b)) ` {b \<in> set bs. kb_used b}"

definition sizes :: "kblock list \<Rightarrow> nat" where
  "sizes bs = sum_list (map kb_size bs)"

definition user_bytes :: "kblock list \<Rightarrow> nat" where
  "user_bytes bs = sum_list (map (\<lambda>b. if kb_used b then kb_size b - OVERHEAD else 0) bs)"

lemma used_blocks_simps [simp]:
  "used_blocks [] = {}"
  "used_blocks (b # bs) = (if kb_used b then insert (kb_addr b, kb_size b) (used_blocks bs) else used_blocks bs)"
  "used_blocks (xs @ ys) = used_blocks xs \<union> used_blocks ys"
  by (auto simp: used_blocks_def)

lemma sizes_simps [simp]:
  "sizes [] = 0" "sizes (b # bs) = kb_size b + sizes bs" "sizes (xs @ ys) = sizes xs + sizes ys"
  by (simp_all add: sizes_def)

lemma user_bytes_simps [simp]:
  "user_bytes [] = 0"
  "user_bytes (b # bs) = (if kb_used b then kb_size b - OVERHEAD else 0) + user_bytes bs"
  "user_bytes (xs @ ys) = user_bytes xs + user_bytes ys"
  by (simp_all add: user_bytes_def)

lemma kblock_free_simps [simp]:
  "kb_addr (kblock_free a s) = a" "kb_size (kblock_free a s) = s" "\<not> kb_used (kblock_free a s)"
  "canaries_ok (kblock_free a s)" "kb_tail (kblock_free a s) = KHEAP_CANARY_TAIL"
  by (simp_all add: kblock_free_def canaries_ok_def)

lemma blocks_ok_le: "blocks_ok lo bs hi \<Longrightarrow> lo \<le> hi"
  by (induction lo bs hi rule: blocks_ok.induct) auto

lemma blocks_ok_lower: "blocks_ok lo bs hi \<Longrightarrow> lo' \<le> lo \<Longrightarrow> blocks_ok lo' bs hi"
  by (cases bs) auto

lemma blocks_ok_upper: "blocks_ok lo bs hi \<Longrightarrow> hi \<le> hi' \<Longrightarrow> blocks_ok lo bs hi'"
  by (induction lo bs hi rule: blocks_ok.induct) auto

lemma blocks_ok_append: "blocks_ok lo (xs @ ys) hi \<longleftrightarrow> (\<exists>m. blocks_ok lo xs m \<and> blocks_ok m ys hi)"
proof (induction xs arbitrary: lo)
  case Nil
  then show ?case by (auto intro: blocks_ok_lower)
qed auto

lemma used_blocks_bounds:
  "blocks_ok lo bs hi \<Longrightarrow> (a, s) \<in> used_blocks bs \<Longrightarrow> lo \<le> a \<and> a + s \<le> hi \<and> OVERHEAD \<le> s"
proof (induction lo bs hi rule: blocks_ok.induct)
  case (2 lo b bs hi)
  show ?case
  proof (cases "(a, s) \<in> used_blocks bs")
    case True
    then show ?thesis using 2 by auto
  next
    case False
    then have "a = kb_addr b" "s = kb_size b" using "2.prems" by (auto split: if_splits)
    then show ?thesis using "2.prems"(1) blocks_ok_le by auto
  qed
qed simp

lemma used_blocks_disjoint:
  "blocks_ok lo bs hi \<Longrightarrow> (a, s) \<in> used_blocks bs \<Longrightarrow> (a', s') \<in> used_blocks bs \<Longrightarrow>
   (a, s) = (a', s') \<or> a + s \<le> a' \<or> a' + s' \<le> a"
proof (induction lo bs hi rule: blocks_ok.induct)
  case (2 lo b bs hi)
  note ok = "2.prems"(1)
  have bs: "blocks_ok (kb_addr b + kb_size b) bs hi" using ok by simp
  have first: "kb_addr b + kb_size b \<le> x" if "(x, y) \<in> used_blocks bs" for x y
    using used_blocks_bounds [OF bs that] by blast
  show ?case using "2.prems" "2.IH" [OF bs] first by (fastforce split: if_splits)
qed simp

lemma used_blocks_fun:
  "blocks_ok lo bs hi \<Longrightarrow> (a, s) \<in> used_blocks bs \<Longrightarrow> (a, s') \<in> used_blocks bs \<Longrightarrow> s = s'"
  using used_blocks_disjoint [of lo bs hi a s a s'] used_blocks_bounds [of lo bs hi a s]
    used_blocks_bounds [of lo bs hi a s'] by auto

section \<open>First fit\<close>

lemma take_fit_ok:
  assumes "take_fit need bs = Some (a, split, bs')" "OVERHEAD \<le> need" "blocks_ok lo bs hi"
  shows "blocks_ok lo bs' hi \<and> need \<le> kb_size a \<and> used_blocks bs' = insert (kb_addr a, kb_size a) (used_blocks bs) \<and>
    (\<forall>s. (kb_addr a, s) \<notin> used_blocks bs) \<and> sizes bs' = sizes bs \<and>
    user_bytes bs' = user_bytes bs + (kb_size a - OVERHEAD) \<and> length bs' = length bs + (if split then 1 else 0)"
  using assms
proof (induction need bs arbitrary: a split bs' lo rule: take_fit.induct)
  case (2 need b bs)
  note ok = "2.prems"(3)
  have bs: "blocks_ok (kb_addr b + kb_size b) bs hi" using ok by simp
  have first: "kb_addr b + kb_size b \<le> x" if "(x, y) \<in> used_blocks bs" for x y
    using used_blocks_bounds [OF bs that] by blast
  show ?case
  proof (cases "\<not> kb_used b \<and> kb_size b \<ge> need")
    case True
    have fresh: "(kb_addr b, s) \<notin> used_blocks bs" for s using first [of "kb_addr b" s] ok by auto
    show ?thesis
      using "2.prems" True bs ok fresh by (auto simp: Let_def canaries_ok_def split: if_splits)
  next
    case False
    then obtain bs1 where r: "take_fit need bs = Some (a, split, bs1)" "bs' = b # bs1"
      using "2.prems"(1) by (auto split: if_splits)
    note IH = "2.IH" [OF False r(1) "2.prems"(2) bs]
    have "(kb_addr a, kb_size a) \<in> used_blocks bs1" using IH by simp
    then have "kb_addr b + kb_size b \<le> kb_addr a" using IH used_blocks_bounds by blast
    then have "kb_addr a \<noteq> kb_addr b" using ok by auto
    then show ?thesis using IH r(2) ok by auto
  qed
qed simp

lemma take_fit_None: "take_fit need bs = None \<longleftrightarrow> (\<forall>b\<in>set bs. kb_used b \<or> kb_size b < need)"
  by (induction need bs rule: take_fit.induct) (auto simp: Let_def)

section \<open>Coalescing\<close>

lemma coalesce_next_ok:
  assumes "blocks_ok lo (b # post) hi" "\<not> kb_used b" "coalesce_next b post = (b2, post1)"
  shows "blocks_ok lo (b2 # post1) hi \<and> used_blocks (b2 # post1) = used_blocks (b # post) \<and>
    sizes (b2 # post1) = sizes (b # post) \<and> user_bytes (b2 # post1) = user_bytes (b # post) \<and> \<not> kb_used b2 \<and>
    length post1 \<le> length post \<and> length post \<le> Suc (length post1)"
proof (cases post)
  case (Cons n bs)
  have "blocks_ok (kb_addr b + (kb_size b + kb_size n)) bs hi" if "\<not> kb_used n"
    using assms(1) Cons by (auto elim: blocks_ok_lower)
  then show ?thesis using assms Cons by (auto simp: canaries_ok_def split: if_splits)
qed (use assms in auto)

lemma coalesce_prev_ok:
  assumes "blocks_ok lo pre m" "blocks_ok m [b] m'" "\<not> kb_used b"
  shows "blocks_ok lo (coalesce_prev pre b) m' \<and> used_blocks (coalesce_prev pre b) = used_blocks pre \<and>
    sizes (coalesce_prev pre b) = sizes pre + kb_size b \<and> user_bytes (coalesce_prev pre b) = user_bytes pre \<and>
    length (coalesce_prev pre b) \<le> Suc (length pre) \<and> length pre \<le> length (coalesce_prev pre b)"
proof (cases "pre \<noteq> [] \<and> \<not> kb_used (last pre)")
  case True
  define p where "p = last pre"
  define q where "q = butlast pre"
  have pre: "pre = q @ [p]" using True by (simp add: p_def q_def)
  have np: "\<not> kb_used p" using True by (simp add: p_def)
  obtain k where k: "blocks_ok lo q k" "blocks_ok k [p] m" using assms(1) by (auto simp: pre blocks_ok_append)
  have "blocks_ok k [p\<lparr>kb_size := kb_size p + kb_size b, kb_tail := KHEAP_CANARY_TAIL\<rparr>] m'"
    using k(2) assms(2) by (auto simp: canaries_ok_def)
  then have "blocks_ok lo (q @ [p\<lparr>kb_size := kb_size p + kb_size b, kb_tail := KHEAP_CANARY_TAIL\<rparr>]) m'"
    using k(1) by (auto simp: blocks_ok_append)
  moreover have "coalesce_prev pre b = q @ [p\<lparr>kb_size := kb_size p + kb_size b, kb_tail := KHEAP_CANARY_TAIL\<rparr>]"
    using True by (simp add: coalesce_prev_def p_def q_def)
  ultimately show ?thesis using np by (simp add: pre)
next
  case False
  then have "coalesce_prev pre b = pre @ [b]" by (auto simp: coalesce_prev_def)
  then show ?thesis using assms by (auto simp: blocks_ok_append)
qed

text \<open>Freeing one used block of a list.\<close>

lemma free_block_ok:
  assumes "blocks_ok lo (pre @ b # post) hi" "kb_used b"
    and "coalesce_next (b\<lparr>kb_used := False, kb_canary := 0\<rparr>) post = (b2, post1)"
  shows "blocks_ok lo (coalesce_prev pre b2 @ post1) hi \<and>
    used_blocks (coalesce_prev pre b2 @ post1) = used_blocks (pre @ b # post) - {(kb_addr b, kb_size b)} \<and>
    sizes (coalesce_prev pre b2 @ post1) = sizes (pre @ b # post) \<and>
    user_bytes (coalesce_prev pre b2 @ post1) + (kb_size b - OVERHEAD) = user_bytes (pre @ b # post) \<and>
    length (coalesce_prev pre b2 @ post1) \<le> length (pre @ b # post)"
proof -
  let ?b1 = "b\<lparr>kb_used := False, kb_canary := 0\<rparr>"
  obtain m where m: "blocks_ok lo pre m" "blocks_ok m (b # post) hi" using assms(1) by (auto simp: blocks_ok_append)
  have "blocks_ok m (?b1 # post) hi" using m(2) by (auto simp: canaries_ok_def)
  moreover have "\<not> kb_used ?b1" by simp
  ultimately have nx: "blocks_ok m (b2 # post1) hi" "used_blocks (b2 # post1) = used_blocks (?b1 # post)"
      "sizes (b2 # post1) = sizes (?b1 # post)" "user_bytes (b2 # post1) = user_bytes (?b1 # post)" "\<not> kb_used b2"
      "length post1 \<le> length post"
    using coalesce_next_ok assms(3) by blast+
  obtain m' where m': "blocks_ok m [b2] m'" "blocks_ok m' post1 hi"
    using nx(1) blocks_ok_append [of m "[b2]" post1 hi] by auto
  note pv = coalesce_prev_ok [OF m(1) m'(1) nx(5)]
  have "(kb_addr b, s) \<notin> used_blocks pre \<and> (kb_addr b, s) \<notin> used_blocks post" for s
  proof -
    have "kb_addr b + kb_size b \<le> kb_addr b" if "(kb_addr b, s) \<in> used_blocks post"
      using used_blocks_bounds [OF _ that, of "kb_addr b + kb_size b" hi] m(2) by simp
    moreover have "kb_addr b + s \<le> kb_addr b" "OVERHEAD \<le> s" if "(kb_addr b, s) \<in> used_blocks pre"
      using used_blocks_bounds [OF m(1) that] m(2) by auto
    ultimately show ?thesis using m(2) by auto
  qed
  then have "used_blocks (pre @ post) = used_blocks (pre @ b # post) - {(kb_addr b, kb_size b)}"
    using assms(2) by auto
  moreover have "blocks_ok lo (coalesce_prev pre b2 @ post1) hi" using pv m'(2) by (auto simp: blocks_ok_append)
  moreover have "used_blocks (coalesce_prev pre b2 @ post1) = used_blocks (pre @ post)" using pv nx by simp
  moreover have "sizes (coalesce_prev pre b2 @ post1) = sizes (pre @ b # post)" using pv nx by simp
  moreover have "user_bytes (coalesce_prev pre b2 @ post1) + (kb_size b - OVERHEAD) = user_bytes (pre @ b # post)"
    using pv nx assms(2) by simp
  moreover have "length (coalesce_prev pre b2 @ post1) \<le> length (pre @ b # post)" using pv nx by simp
  ultimately show ?thesis by blast
qed

section \<open>The slab registry\<close>

definition ranges_sorted :: "slab_range list \<Rightarrow> bool" where
  "ranges_sorted rs \<longleftrightarrow> sorted_wrt (\<lambda>x y. sr_end x \<le> sr_start y) rs \<and> (\<forall>r\<in>set rs. sr_start r < sr_end r)"

lemma ranges_sorted_nth:
  "ranges_sorted rs \<Longrightarrow> i < j \<Longrightarrow> j < length rs \<Longrightarrow> sr_end (rs ! i) \<le> sr_start (rs ! j)"
  by (auto simp: ranges_sorted_def sorted_wrt_iff_nth_less)

lemma ranges_sorted_start:
  assumes "ranges_sorted rs" "i \<le> j" "j < length rs"
  shows "sr_start (rs ! i) \<le> sr_start (rs ! j)"
proof (cases "i = j")
  case False
  then have "sr_end (rs ! i) \<le> sr_start (rs ! j)" using ranges_sorted_nth assms by simp
  moreover have "rs ! i \<in> set rs" using assms(2,3) by simp
  then have "sr_start (rs ! i) < sr_end (rs ! i)" using assms(1) by (auto simp: ranges_sorted_def)
  ultimately show ?thesis by simp
qed simp

lemma slab_bisect_spec:
  assumes "ranges_sorted rs" "lo \<le> hi" "hi \<le> length rs"
    and "\<And>i. i < lo \<Longrightarrow> sr_start (rs ! i) \<le> a" "\<And>i. hi \<le> i \<Longrightarrow> i < length rs \<Longrightarrow> a < sr_start (rs ! i)"
  shows "slab_bisect rs a lo hi \<le> length rs \<and> (\<forall>i. i < slab_bisect rs a lo hi \<longrightarrow> sr_start (rs ! i) \<le> a) \<and>
    (\<forall>i. slab_bisect rs a lo hi \<le> i \<longrightarrow> i < length rs \<longrightarrow> a < sr_start (rs ! i))"
  using assms
proof (induction rs a lo hi rule: slab_bisect.induct)
  case (1 rs a lo hi)
  show ?case
  proof (cases "lo < hi")
    case True
    define mid where "mid = lo + (hi - lo) div 2"
    have mid: "lo \<le> mid" "mid < hi" using True by (auto simp: mid_def)
    show ?thesis
    proof (cases "sr_start (rs ! mid) \<le> a")
      case le: True
      have low: "sr_start (rs ! i) \<le> a" if "i < mid + 1" for i
        using ranges_sorted_start [OF "1.prems"(1), of i mid] that mid "1.prems"(3) le by auto
      have "slab_bisect rs a lo hi = slab_bisect rs a (mid + 1) hi"
        using True le by (simp add: slab_bisect.simps [of rs a lo hi] mid_def Let_def)
      then show ?thesis
        using "1.IH"(1) [OF True mid_def le "1.prems"(1) _ "1.prems"(3) low "1.prems"(5)] mid by simp
    next
      case gt: False
      have high: "a < sr_start (rs ! i)" if "mid \<le> i" "i < length rs" for i
        using ranges_sorted_start [OF "1.prems"(1) that] gt by simp
      have "slab_bisect rs a lo hi = slab_bisect rs a lo mid"
        using True gt by (simp add: slab_bisect.simps [of rs a lo hi] mid_def Let_def)
      then show ?thesis
        using "1.IH"(2) [OF True mid_def gt "1.prems"(1) mid(1) _ "1.prems"(4) high] mid "1.prems"(3) by simp
    qed
  next
    case False
    then have "slab_bisect rs a lo hi = lo" by (simp add: slab_bisect.simps [of rs a lo hi])
    then show ?thesis using "1.prems" False by auto
  qed
qed

lemma slab_range_lookup_iff:
  assumes "ranges_sorted rs"
  shows "slab_range_lookup rs a = Some c \<longleftrightarrow> (\<exists>r\<in>set rs. sr_start r \<le> a \<and> a < sr_end r \<and> sr_pool r = c)"
proof -
  define k where "k = slab_bisect rs a 0 (length rs)"
  have k: "k \<le> length rs" "\<And>i. i < k \<Longrightarrow> sr_start (rs ! i) \<le> a"
      "\<And>i. k \<le> i \<Longrightarrow> i < length rs \<Longrightarrow> a < sr_start (rs ! i)"
    using slab_bisect_spec [OF assms, of 0 "length rs" a] by (auto simp: k_def)
  have only: "i = k - 1 \<and> 0 < k" if "i < length rs" "sr_start (rs ! i) \<le> a" "a < sr_end (rs ! i)" for i
  proof -
    have "i < k" using k(3) [of i] that by (meson leD not_le)
    moreover have "\<not> i < k - 1"
    proof
      assume lt: "i < k - 1"
      then have "sr_end (rs ! i) \<le> sr_start (rs ! (k - 1))" using ranges_sorted_nth [OF assms lt] k(1) by simp
      also have "\<dots> \<le> a" using k(2) lt by simp
      finally show False using that(3) by simp
    qed
    ultimately show ?thesis by simp
  qed
  have "slab_range_lookup rs a = Some c \<longleftrightarrow> 0 < k \<and> a < sr_end (rs ! (k - 1)) \<and> sr_pool (rs ! (k - 1)) = c"
    by (simp add: slab_range_lookup_def Let_def k_def [symmetric])
  also have "\<dots> \<longleftrightarrow> (\<exists>i<length rs. sr_start (rs ! i) \<le> a \<and> a < sr_end (rs ! i) \<and> sr_pool (rs ! i) = c)"
  proof
    assume "0 < k \<and> a < sr_end (rs ! (k - 1)) \<and> sr_pool (rs ! (k - 1)) = c"
    then show "\<exists>i<length rs. sr_start (rs ! i) \<le> a \<and> a < sr_end (rs ! i) \<and> sr_pool (rs ! i) = c"
      using k(1,2) by (intro exI [of _ "k - 1"]) auto
  qed (use only in blast)
  finally show ?thesis by (simp add: in_set_conv_nth Bex_def) metis
qed

lemma slab_range_insert_snoc:
  "slab_range_insert r [] = [r]"
  "slab_range_insert r (rs @ [x]) =
     (if sr_start x > sr_start r then slab_range_insert r rs @ [x] else rs @ [x, r])"
  by (simp_all add: slab_range_insert_def Let_def)

lemma set_slab_range_insert [simp]: "set (slab_range_insert r rs) = insert r (set rs)"
  by (induction rs rule: rev_induct) (auto simp: slab_range_insert_snoc)

lemma length_filter_insert:
  "length (filter P (slab_range_insert r rs)) = length (filter P rs) + (if P r then 1 else 0)"
  by (induction rs rule: rev_induct) (auto simp: slab_range_insert_snoc)

lemma length_slab_range_insert [simp]: "length (slab_range_insert r rs) = Suc (length rs)"
  using length_filter_insert [of "\<lambda>_. True"] by simp

lemma ranges_sorted_snoc:
  "ranges_sorted (rs @ [x]) \<longleftrightarrow> ranges_sorted rs \<and> sr_start x < sr_end x \<and> (\<forall>r\<in>set rs. sr_end r \<le> sr_start x)"
  by (auto simp: ranges_sorted_def sorted_wrt_append)

lemma ranges_sorted_insert:
  assumes "ranges_sorted rs" "sr_start r < sr_end r"
    and "\<And>x. x \<in> set rs \<Longrightarrow> sr_end x \<le> sr_start r \<or> sr_end r \<le> sr_start x"
  shows "ranges_sorted (slab_range_insert r rs)"
  using assms
proof (induction rs rule: rev_induct)
  case Nil
  then show ?case by (simp add: slab_range_insert_snoc ranges_sorted_def)
next
  case (snoc x rs)
  have x: "sr_end x \<le> sr_start r \<or> sr_end r \<le> sr_start x" using snoc.prems(3) by simp
  have lx: "sr_start x < sr_end x" and srt: "ranges_sorted rs" and below: "\<And>y. y \<in> set rs \<Longrightarrow> sr_end y \<le> sr_start x"
    using snoc.prems(1) by (auto simp: ranges_sorted_snoc)
  show ?case
  proof (cases "sr_start x > sr_start r")
    case True
    then have "sr_end r \<le> sr_start x" using x lx by linarith
    moreover have "ranges_sorted (slab_range_insert r rs)" by (rule snoc.IH) (use snoc.prems srt in auto)
    ultimately show ?thesis using True lx below by (auto simp: slab_range_insert_snoc ranges_sorted_snoc)
  next
    case False
    then have xr: "sr_end x \<le> sr_start r" using x snoc.prems(2) by linarith
    have "sr_end y \<le> sr_start r" if "y \<in> set rs" for y using below [OF that] lx xr by linarith
    then have "ranges_sorted ((rs @ [x]) @ [r])"
      unfolding ranges_sorted_snoc [of "rs @ [x]"] using snoc.prems xr by auto
    then show ?thesis using False by (simp add: slab_range_insert_snoc)
  qed
qed


section \<open>Areas handed out\<close>

definition areas_ok :: "(nat \<times> nat) set \<Rightarrow> bool" where
  "areas_ok U \<longleftrightarrow> (\<forall>a s. (a, s) \<in> U \<longrightarrow> OVERHEAD \<le> s) \<and>
     (\<forall>a s a' s'. (a, s) \<in> U \<longrightarrow> (a', s') \<in> U \<longrightarrow> (a, s) = (a', s') \<or> a + s \<le> a' \<or> a' + s' \<le> a)"

lemma blocks_ok_areas: "blocks_ok lo bs hi \<Longrightarrow> areas_ok (used_blocks bs)"
  unfolding areas_ok_def using used_blocks_bounds used_blocks_disjoint by blast

lemma areas_ok_size: "areas_ok U \<Longrightarrow> (a, s) \<in> U \<Longrightarrow> OVERHEAD \<le> s"
  by (simp add: areas_ok_def)

lemma areas_okD:
  assumes "areas_ok U" "(a, s) \<in> U" "(a', s') \<in> U" "a' < a + s" "a < a' + s'"
  shows "a = a' \<and> s = s'"
  using assms unfolding areas_ok_def by (metis leD prod.inject)

definition range_objs :: "slab_range \<Rightarrow> nat set" where
  "range_objs r = (\<lambda>i. sr_start r + i * slab_sizes ! sr_pool r) ` {..<SLAB_REGION_BYTES div slab_sizes ! sr_pool r}"

definition range_ok :: "(nat \<times> nat) set \<Rightarrow> slab_range \<Rightarrow> bool" where
  "range_ok U r \<longleftrightarrow> sr_pool r < 7 \<and> sr_end r = sr_start r + SLAB_REGION_BYTES \<and>
     (\<exists>a s. (a, s) \<in> U \<and> sr_start r = a + HEADER \<and> sr_end r + 8 \<le> a + s)"

definition pool_ok :: "slab_range list \<Rightarrow> nat \<Rightarrow> slab_pool \<Rightarrow> bool" where
  "pool_ok rs c p \<longleftrightarrow> sp_obj_size p = slab_sizes ! c \<and> distinct (sp_free p) \<and>
     (\<forall>q\<in>set (sp_free p). \<exists>r\<in>set rs. sr_pool r = c \<and> q \<in> range_objs r) \<and>
     sp_used p + length (sp_free p) = sp_total p \<and>
     sp_total p = length (filter (\<lambda>r. sr_pool r = c) rs) * (SLAB_REGION_BYTES div slab_sizes ! c)"

definition slab_inv :: "(nat \<times> nat) set \<Rightarrow> slab_pool list \<Rightarrow> slab_range list \<Rightarrow> bool" where
  "slab_inv U pools rs \<longleftrightarrow> length pools = 7 \<and> length rs \<le> SLAB_MAX_RANGES \<and> ranges_sorted rs \<and>
     (\<forall>r\<in>set rs. range_ok U r) \<and> (\<forall>c<7. pool_ok rs c (pools ! c))"

definition handed :: "(nat \<times> nat) set \<Rightarrow> slab_pool list \<Rightarrow> slab_range list \<Rightarrow> (nat \<times> nat) set" where
  "handed U pools rs =
     {(a + HEADER, s - OVERHEAD) |a s. (a, s) \<in> U \<and> a + HEADER \<notin> sr_start ` set rs} \<union>
     {(p, slab_sizes ! sr_pool r) |p r. r \<in> set rs \<and> p \<in> range_objs r \<and> p \<notin> set (sp_free (pools ! sr_pool r))}"

lemma slab_size_cases:
  assumes "c < 7"
  shows "slab_sizes ! c \<in> {16, 32, 64, 128, 256, 512, 1024}"
proof -
  have "c = 0 \<or> c = 1 \<or> c = 2 \<or> c = 3 \<or> c = 4 \<or> c = 5 \<or> c = 6" using assms by linarith
  then show ?thesis by (auto simp: slab_sizes_def)
qed

lemma slab_objs: "c < 7 \<Longrightarrow> 0 < slab_sizes ! c \<and> SLAB_REGION_BYTES div slab_sizes ! c * slab_sizes ! c = SLAB_REGION_BYTES \<and>
    8 \<le> SLAB_REGION_BYTES div slab_sizes ! c \<and> SLAB_REGION_BYTES div slab_sizes ! c \<le> 4096"
  using slab_size_cases [of c] by auto

lemma range_objs_bounds:
  assumes "p \<in> range_objs r" "range_ok U r"
  shows "sr_start r \<le> p \<and> p + slab_sizes ! sr_pool r \<le> sr_end r"
proof -
  let ?o = "slab_sizes ! sr_pool r"
  note so = slab_objs [of "sr_pool r"]
  obtain i where i: "p = sr_start r + i * ?o" "i < SLAB_REGION_BYTES div ?o" using assms(1) by (auto simp: range_objs_def)
  have "Suc i * ?o \<le> SLAB_REGION_BYTES div ?o * ?o" using i(2) by (intro mult_le_mono1) simp
  then show ?thesis using i(1) so assms(2) by (auto simp: range_ok_def)
qed

lemma range_objs_disjoint:
  assumes "p \<in> range_objs r" "q \<in> range_objs r"
  shows "p = q \<or> p + slab_sizes ! sr_pool r \<le> q \<or> q + slab_sizes ! sr_pool r \<le> p"
proof -
  let ?o = "slab_sizes ! sr_pool r"
  obtain i j where ij: "p = sr_start r + i * ?o" "q = sr_start r + j * ?o" using assms by (auto simp: range_objs_def)
  have "i < j \<Longrightarrow> Suc i * ?o \<le> j * ?o" "j < i \<Longrightarrow> Suc j * ?o \<le> i * ?o" by (intro mult_le_mono1, simp)+
  then show ?thesis using ij by (cases i j rule: linorder_cases) auto
qed

lemma slab_invD:
  assumes "slab_inv U pools rs"
  shows "length pools = 7" "ranges_sorted rs" "\<And>r. r \<in> set rs \<Longrightarrow> range_ok U r" "\<And>c. c < 7 \<Longrightarrow> pool_ok rs c (pools ! c)"
    "length rs \<le> SLAB_MAX_RANGES"
  using assms by (auto simp: slab_inv_def)

text \<open>Two regions that share an address are the same.\<close>

lemma range_unique:
  assumes "ranges_sorted rs" "r \<in> set rs" "r' \<in> set rs" "sr_start r \<le> p" "p < sr_end r" "sr_start r' \<le> p" "p < sr_end r'"
  shows "r = r'"
proof -
  obtain i j where ij: "i < length rs" "rs ! i = r" "j < length rs" "rs ! j = r'" using assms(2,3) by (auto simp: in_set_conv_nth)
  have "i = j"
    using ranges_sorted_nth [OF assms(1), of i j] ranges_sorted_nth [OF assms(1), of j i] ij assms(4-7)
    by (cases i j rule: linorder_cases) auto
  then show ?thesis using ij by simp
qed

text \<open>Every area handed out lies in the user part of a used block; a general one fills its own.\<close>

lemma handed_cases:
  assumes "slab_inv U pools rs" "areas_ok U" "(p, n) \<in> handed U pools rs"
  obtains (general) a s where "(a, s) \<in> U" "p = a + HEADER" "n = s - OVERHEAD" "a + HEADER \<notin> sr_start ` set rs"
    "p + n + 8 = a + s"
  | (slab) a s r where "(a, s) \<in> U" "r \<in> set rs" "p \<in> range_objs r" "n = slab_sizes ! sr_pool r"
    "sr_start r = a + HEADER" "sr_start r \<le> p" "p + n \<le> sr_end r" "sr_end r + 8 \<le> a + s"
    "p \<notin> set (sp_free (pools ! sr_pool r))"
proof -
  consider (g) a s where "(a, s) \<in> U" "p = a + HEADER" "n = s - OVERHEAD" "a + HEADER \<notin> sr_start ` set rs" |
    (s) r where "r \<in> set rs" "p \<in> range_objs r" "n = slab_sizes ! sr_pool r" "p \<notin> set (sp_free (pools ! sr_pool r))"
    using assms(3) unfolding handed_def by blast
  then show thesis
  proof cases
    case g
    then have "OVERHEAD \<le> s" using assms(2) by (auto simp: areas_ok_def)
    then show thesis using g general by simp
  next
    case s
    note ok = slab_invD(3) [OF assms(1) s(1)]
    then show thesis using s range_objs_bounds [OF s(2) ok] slab by (auto simp: range_ok_def)
  qed
qed

lemma handed_host:
  assumes "slab_inv U pools rs" "areas_ok U" "(p, n) \<in> handed U pools rs"
  obtains a s where "(a, s) \<in> U" "a + HEADER \<le> p" "p + n + 8 \<le> a + s"
  using assms by (cases rule: handed_cases) (fastforce dest: that)+

lemma hosts_disjoint:
  assumes "areas_ok U" "(a, s) \<in> U" "(a', s') \<in> U" "a + HEADER \<le> p" "p + n + 8 \<le> a + s" "a' + HEADER \<le> q" "q + m + 8 \<le> a' + s'"
  shows "(a = a' \<and> s = s') \<or> p + n \<le> q \<or> q + m \<le> p"
proof -
  have "(a, s) = (a', s') \<or> a + s \<le> a' \<or> a' + s' \<le> a" using assms(1-3) unfolding areas_ok_def by blast
  then show ?thesis using assms(4-7) by auto
qed

lemma handed_disjoint:
  assumes "slab_inv U pools rs" "areas_ok U" "(p, n) \<in> handed U pools rs" "(q, m) \<in> handed U pools rs"
  shows "(p, n) = (q, m) \<or> p + n \<le> q \<or> q + m \<le> p"
  using assms(1,2,3)
proof (cases rule: handed_cases)
  case pg: (general a s)
  show ?thesis using assms(1,2,4)
  proof (cases rule: handed_cases)
    case qg: (general a' s')
    then show ?thesis using pg hosts_disjoint [OF assms(2) pg(1) qg(1), of p n q m] by auto
  next
    case qs: (slab a' s' r)
    have "a \<noteq> a'" using pg(4) qs(2,5) by (metis image_eqI)
    then show ?thesis using pg qs hosts_disjoint [OF assms(2) pg(1) qs(1), of p n q m] by auto
  qed
next
  case ps: (slab a s r)
  show ?thesis using assms(1,2,4)
  proof (cases rule: handed_cases)
    case qg: (general a' s')
    have "a \<noteq> a'" using qg(4) ps(2,5) by (metis image_eqI)
    then show ?thesis using ps qg hosts_disjoint [OF assms(2) ps(1) qg(1), of p n q m] by auto
  next
    case qs: (slab a' s' r')
    show ?thesis
    proof (cases "a = a'")
      case True
      have "sr_end r = sr_start r + SLAB_REGION_BYTES" "sr_end r' = sr_start r' + SLAB_REGION_BYTES"
        using slab_invD(3) [OF assms(1)] ps(2) qs(2) by (auto simp: range_ok_def)
      then have "r = r'" using range_unique [OF slab_invD(2) [OF assms(1)] ps(2) qs(2), of "sr_start r"] True ps(5) qs(5) by simp
      then show ?thesis using range_objs_disjoint ps(3,4) qs(3,4) by auto
    next
      case False
      then show ?thesis using ps qs hosts_disjoint [OF assms(2) ps(1) qs(1), of p n q m] by auto
    qed
  qed
qed

section \<open>Effect of the elementary steps\<close>

lemma pool_index: "c < 7 \<Longrightarrow> slab_inv U pools rs \<Longrightarrow> c < length pools"
  by (simp add: slab_inv_def)

text \<open>A block more: general allocation.\<close>

lemma slab_inv_mono: "slab_inv U pools rs \<Longrightarrow> U \<subseteq> U' \<Longrightarrow> slab_inv U' pools rs"
  by (fastforce simp: slab_inv_def range_ok_def)

lemma start_not_fresh:
  assumes "slab_inv U pools rs" "\<And>s. (a, s) \<notin> U"
  shows "a + HEADER \<notin> sr_start ` set rs"
proof
  assume "a + HEADER \<in> sr_start ` set rs"
  then obtain r where r: "r \<in> set rs" "sr_start r = a + HEADER" by auto
  obtain a' s' where "(a', s') \<in> U" "sr_start r = a' + HEADER" using slab_invD(3) [OF assms(1) r(1)] by (auto simp: range_ok_def)
  then show False using r(2) assms(2) by auto
qed

lemma handed_add_block:
  assumes "slab_inv U pools rs" "\<And>s. (a, s) \<notin> U"
  shows "handed (insert (a, s) U) pools rs = insert (a + HEADER, s - OVERHEAD) (handed U pools rs)"
  using start_not_fresh [OF assms] by (auto simp: handed_def)

lemma handed_fresh_block:
  assumes "slab_inv U pools rs" "areas_ok (insert (a, s) U)" "\<And>s. (a, s) \<notin> U"
  shows "(a + HEADER, n) \<notin> handed U pools rs"
proof
  assume h: "(a + HEADER, n) \<in> handed U pools rs"
  have ok: "areas_ok U" using assms(2) by (auto simp: areas_ok_def)
  obtain b t where b: "(b, t) \<in> U" "b + HEADER \<le> a + HEADER" "a + HEADER + n + 8 \<le> b + t"
    using handed_host [OF assms(1) ok h] by blast
  have "OVERHEAD \<le> s" using assms(2) by (auto simp: areas_ok_def)
  then have "b = a \<and> t = s" using areas_okD [OF assms(2), of b t a s] b by auto
  then show False using b(1) assms(3) by auto
qed

text \<open>A block less: general release.\<close>

lemma slab_inv_remove:
  assumes "slab_inv U pools rs" "a + HEADER \<notin> sr_start ` set rs"
  shows "slab_inv (U - {(a, s)}) pools rs"
proof -
  have "range_ok (U - {(a, s)}) r" if rr: "r \<in> set rs" for r
  proof -
    obtain a' s' where r: "(a', s') \<in> U" "sr_start r = a' + HEADER" "sr_end r + 8 \<le> a' + s'"
      "sr_pool r < 7" "sr_end r = sr_start r + SLAB_REGION_BYTES"
      using slab_invD(3) [OF assms(1) rr] by (auto simp: range_ok_def)
    have "a' \<noteq> a" using r(2) assms(2) rr by (metis image_eqI)
    then show ?thesis using r by (auto simp: range_ok_def)
  qed
  then show ?thesis using assms(1) by (simp add: slab_inv_def)
qed

lemma handed_remove_block:
  assumes "slab_inv U pools rs" "areas_ok U" "(a, s) \<in> U" "a + HEADER \<notin> sr_start ` set rs"
  shows "handed (U - {(a, s)}) pools rs = handed U pools rs - {(a + HEADER, s - OVERHEAD)}"
proof -
  have uniq: "s' = s" if "(a, s') \<in> U" for s'
    using areas_okD [OF assms(2,3) that] areas_ok_size [OF assms(2,3)] areas_ok_size [OF assms(2) that] by simp
  have r: "slab_inv (U - {(a, s)}) pools rs" by (rule slab_inv_remove [OF assms(1,4)])
  have ins: "insert (a, s) (U - {(a, s)}) = U" using assms(3) by auto
  have "(a, s') \<notin> U - {(a, s)}" for s' using uniq by auto
  then show ?thesis
    using handed_add_block [OF r, of a s] handed_fresh_block [OF r, of a s] assms(2) ins by simp
qed

text \<open>Taking an object from a pool and putting one back.\<close>

lemma pool_ok_update:
  assumes "slab_inv U pools rs" "c < 7" "pool_ok rs c p"
  shows "slab_inv U (pools[c := p]) rs"
  using assms by (auto simp: slab_inv_def nth_list_update)

lemma handed_pool:
  assumes "slab_inv U pools rs" "c < 7"
  shows "(q, n) \<in> handed U (pools[c := p]) rs \<longleftrightarrow>
    (\<exists>a s. q = a + HEADER \<and> n = s - OVERHEAD \<and> (a, s) \<in> U \<and> a + HEADER \<notin> sr_start ` set rs) \<or>
    (\<exists>r\<in>set rs. n = slab_sizes ! sr_pool r \<and> q \<in> range_objs r \<and>
       q \<notin> set (sp_free (if sr_pool r = c then p else pools ! sr_pool r)))"
  using pool_index [OF assms(2,1)] by (auto simp: handed_def nth_list_update split: if_splits)

lemma range_obj_inside:
  assumes "slab_inv U pools rs" "r \<in> set rs" "p \<in> range_objs r"
  shows "sr_start r \<le> p" "p < sr_end r"
proof -
  note ok = slab_invD(3) [OF assms(1,2)]
  have "0 < slab_sizes ! sr_pool r" using ok slab_objs [of "sr_pool r"] by (auto simp: range_ok_def)
  then show "sr_start r \<le> p" "p < sr_end r" using range_objs_bounds [OF assms(3) ok] by auto
qed

lemma handed_slab:
  assumes "slab_inv U pools rs" "areas_ok U" "r \<in> set rs" "p \<in> range_objs r"
  shows "(p, n) \<in> handed U pools rs \<longleftrightarrow> n = slab_sizes ! sr_pool r \<and> p \<notin> set (sp_free (pools ! sr_pool r))"
proof
  note ins = range_obj_inside [OF assms(1,3,4)]
  assume "(p, n) \<in> handed U pools rs"
  with assms(1,2) show "n = slab_sizes ! sr_pool r \<and> p \<notin> set (sp_free (pools ! sr_pool r))"
  proof (cases rule: handed_cases)
    case (general a s)
    obtain b t where b: "(b, t) \<in> U" "sr_start r = b + HEADER" "sr_end r + 8 \<le> b + t"
      using slab_invD(3) [OF assms(1,3)] by (auto simp: range_ok_def)
    have "OVERHEAD \<le> s" using assms(2) general(1) by (auto simp: areas_ok_def)
    then have "b = a" using areas_okD [OF assms(2) b(1) general(1)] b ins general(2) by auto
    then show ?thesis using general(4) b(2) assms(3) by (metis image_eqI)
  next
    case (slab a s r')
    have "r' = r"
      using range_unique [OF slab_invD(2) [OF assms(1)] slab(2) assms(3)] ins range_obj_inside [OF assms(1) slab(2,3)] by blast
    then show ?thesis using slab by simp
  qed
qed (use assms in \<open>auto simp: handed_def\<close>)

lemma handed_other:
  assumes "slab_inv U pools rs" "c < 7" "\<And>r. r \<in> set rs \<Longrightarrow> sr_pool r = c \<Longrightarrow> q \<in> range_objs r \<Longrightarrow>
      q \<in> set (sp_free p) \<longleftrightarrow> q \<in> set (sp_free (pools ! c))"
  shows "(q, n) \<in> handed U (pools[c := p]) rs \<longleftrightarrow> (q, n) \<in> handed U pools rs"
proof -
  have "(q, n) \<in> handed U (pools[c := p]) rs \<longleftrightarrow> (q, n) \<in> handed U (pools[c := pools ! c]) rs"
    unfolding handed_pool [OF assms(1,2)]
    by (intro arg_cong2 [where f = "(\<or>)"] refl bex_cong) (use assms(3) in auto)
  then show ?thesis by simp
qed

lemma slab_pop:
  assumes "slab_inv U pools rs" "areas_ok U" "c < 7" "sp_free (pools ! c) = obj # rest"
    and "pools' = pools[c := (pools ! c)\<lparr>sp_free := rest, sp_used := sp_used (pools ! c) + 1\<rparr>]"
  shows "slab_inv U pools' rs \<and> handed U pools' rs = insert (obj, slab_sizes ! c) (handed U pools rs) \<and>
    (\<forall>n. (obj, n) \<notin> handed U pools rs)"
proof -
  let ?p = "(pools ! c)\<lparr>sp_free := rest, sp_used := sp_used (pools ! c) + 1\<rparr>"
  have pok: "pool_ok rs c (pools ! c)" by (rule slab_invD(4) [OF assms(1,3)])
  then have "pool_ok rs c ?p" using assms(4) by (auto simp: pool_ok_def)
  then have inv: "slab_inv U pools' rs" unfolding assms(5) by (rule pool_ok_update [OF assms(1,3)])
  obtain r where r: "r \<in> set rs" "sr_pool r = c" "obj \<in> range_objs r" using pok assms(4) by (auto simp: pool_ok_def)
  have c': "pools' ! c = ?p" using pool_index [OF assms(3,1)] by (simp add: assms(5))
  have old: "(obj, n) \<notin> handed U pools rs" for n
    using handed_slab [OF assms(1,2) r(1,3)] r(2) assms(4) by simp
  have new: "(obj, n) \<in> handed U pools' rs \<longleftrightarrow> n = slab_sizes ! c" for n
    using handed_slab [OF inv assms(2) r(1,3)] r(2) c' pok assms(4) by (auto simp: pool_ok_def)
  have other: "(q, n) \<in> handed U pools' rs \<longleftrightarrow> (q, n) \<in> handed U pools rs" if "q \<noteq> obj" for q n
    unfolding assms(5) by (rule handed_other [OF assms(1,3)]) (use that assms(4) in auto)
  have "handed U pools' rs = insert (obj, slab_sizes ! c) (handed U pools rs)"
  proof (rule set_eqI)
    fix x
    show "x \<in> handed U pools' rs \<longleftrightarrow> x \<in> insert (obj, slab_sizes ! c) (handed U pools rs)"
      using new old other by (cases x; cases "fst x = obj") auto
  qed
  then show ?thesis using inv old by blast
qed

text \<open>The objects of a pool's regions are as many as the pool counts.\<close>

lemma free_room:
  assumes "slab_inv U pools rs" "r \<in> set rs" "obj \<in> range_objs r" "obj \<notin> set (sp_free (pools ! sr_pool r))"
  shows "length (sp_free (pools ! sr_pool r)) < sp_total (pools ! sr_pool r)"
proof -
  let ?c = "sr_pool r"
  let ?rs = "filter (\<lambda>r. sr_pool r = ?c) rs"
  let ?n = "SLAB_REGION_BYTES div slab_sizes ! ?c"
  have c: "?c < 7" using slab_invD(3) [OF assms(1,2)] by (simp add: range_ok_def)
  have pok: "pool_ok rs ?c (pools ! ?c)" by (rule slab_invD(4) [OF assms(1) c])
  let ?A = "\<Union>r\<in>set ?rs. range_objs r"
  have fin: "finite ?A" by (auto simp: range_objs_def)
  have "card ?A \<le> (\<Sum>r\<in>set ?rs. card (range_objs r))" by (rule card_UN_le) simp
  also have "\<dots> \<le> (\<Sum>r\<in>set ?rs. ?n)"
    by (rule sum_mono) (auto simp: range_objs_def intro: order_trans [OF card_image_le])
  also have "\<dots> \<le> length ?rs * ?n" by (simp only: sum_constant of_nat_id) (rule mult_le_mono1 [OF card_length])
  finally have "card ?A \<le> sp_total (pools ! ?c)" using pok by (simp add: pool_ok_def)
  moreover have "insert obj (set (sp_free (pools ! ?c))) \<subseteq> ?A"
    using pok assms(2,3) by (auto simp: pool_ok_def)
  then have "card (insert obj (set (sp_free (pools ! ?c)))) \<le> card ?A" by (rule card_mono [OF fin])
  moreover have "card (insert obj (set (sp_free (pools ! ?c)))) = Suc (length (sp_free (pools ! ?c)))"
    using pok assms(4) by (simp add: pool_ok_def distinct_card)
  ultimately show ?thesis by simp
qed

lemma slab_push:
  assumes "slab_inv U pools rs" "areas_ok U" "r \<in> set rs" "obj \<in> range_objs r" "obj \<notin> set (sp_free (pools ! sr_pool r))"
    and "pools' = pools[sr_pool r := (pools ! sr_pool r)\<lparr>sp_free := obj # sp_free (pools ! sr_pool r),
      sp_used := sp_used (pools ! sr_pool r) - 1\<rparr>]"
  shows "slab_inv U pools' rs \<and> handed U pools' rs = handed U pools rs - {(obj, slab_sizes ! sr_pool r)} \<and>
    0 < sp_used (pools ! sr_pool r)"
proof -
  let ?c = "sr_pool r"
  let ?p = "(pools ! ?c)\<lparr>sp_free := obj # sp_free (pools ! ?c), sp_used := sp_used (pools ! ?c) - 1\<rparr>"
  have c: "?c < 7" using slab_invD(3) [OF assms(1,3)] by (simp add: range_ok_def)
  have pok: "pool_ok rs ?c (pools ! ?c)" by (rule slab_invD(4) [OF assms(1) c])
  have pos: "0 < sp_used (pools ! ?c)"
    using free_room [OF assms(1,3,4,5)] pok by (auto simp: pool_ok_def)
  then have "pool_ok rs ?c ?p" using pok assms(3,4,5) by (auto simp: pool_ok_def)
  then have inv: "slab_inv U pools' rs" unfolding assms(6) by (rule pool_ok_update [OF assms(1) c])
  have c': "pools' ! ?c = ?p" using pool_index [OF c assms(1)] by (simp add: assms(6))
  have new: "(obj, n) \<notin> handed U pools' rs" for n
    using handed_slab [OF inv assms(2,3,4)] c' by simp
  have old: "(obj, n) \<in> handed U pools rs \<longleftrightarrow> n = slab_sizes ! ?c" for n
    using handed_slab [OF assms(1-4)] assms(5) by simp
  have other: "(q, n) \<in> handed U pools' rs \<longleftrightarrow> (q, n) \<in> handed U pools rs" if "q \<noteq> obj" for q n
    unfolding assms(6) by (rule handed_other [OF assms(1) c]) (use that in auto)
  have "handed U pools' rs = handed U pools rs - {(obj, slab_sizes ! ?c)}"
  proof (rule set_eqI)
    fix x
    show "x \<in> handed U pools' rs \<longleftrightarrow> x \<in> handed U pools rs - {(obj, slab_sizes ! ?c)}"
      using new old other by (cases x; cases "fst x = obj") auto
  qed
  then show ?thesis using inv pos by blast
qed

text \<open>Carving a new region: all its objects are free, so nothing is handed out.\<close>

lemma slab_extend:
  assumes inv: "slab_inv U pools rs" and len: "length rs < SLAB_MAX_RANGES" and c: "c < 7"
    and areas: "areas_ok (insert (a, s) U)" and fresh: "\<And>s. (a, s) \<notin> U" and s: "SLAB_REGION_BYTES + OVERHEAD \<le> s"
    and r: "r = \<lparr>sr_start = a + HEADER, sr_end = a + HEADER + SLAB_REGION_BYTES, sr_pool = c\<rparr>"
    and n: "n = SLAB_REGION_BYTES div slab_sizes ! c"
    and p: "p = (pools ! c)\<lparr>sp_free := rev (map (\<lambda>i. a + HEADER + i * slab_sizes ! c) [0..<n]) @ sp_free (pools ! c),
      sp_total := sp_total (pools ! c) + n\<rparr>"
  shows "slab_inv (insert (a, s) U) (pools[c := p]) (slab_range_insert r rs) \<and>
    handed (insert (a, s) U) (pools[c := p]) (slab_range_insert r rs) = handed U pools rs"
proof -
  let ?U = "insert (a, s) U"
  let ?rs = "slab_range_insert r rs"
  have o: "0 < slab_sizes ! c" using slab_objs [OF c] by simp
  have objs: "set (map (\<lambda>i. a + HEADER + i * slab_sizes ! c) [0..<n]) = range_objs r"
    by (auto simp: range_objs_def r n)
  have apart: "sr_end x \<le> sr_start r \<or> sr_end r \<le> sr_start x" if x: "x \<in> set rs" for x
  proof -
    obtain b t where b: "(b, t) \<in> U" "sr_start x = b + HEADER" "sr_end x + 8 \<le> b + t"
      using slab_invD(3) [OF inv x] by (auto simp: range_ok_def)
    have "b \<noteq> a" using b(1) fresh by auto
    then show ?thesis using hosts_disjoint [OF areas, of b t a s "sr_start x" "sr_end x - sr_start x" "a + HEADER" SLAB_REGION_BYTES]
      b s slab_invD(3) [OF inv x] by (auto simp: r range_ok_def)
  qed
  have new_ok: "range_ok ?U r" using s c by (auto simp: range_ok_def r)
  have outside: "q \<notin> range_objs r" if q: "x \<in> set rs" "q \<in> range_objs x" for q x
  proof
    assume "q \<in> range_objs r"
    then have "sr_start r \<le> q \<and> q + slab_sizes ! sr_pool r \<le> sr_end r"
      using range_objs_bounds [OF _ new_ok] by blast
    then have "sr_start r \<le> q" "q < sr_end r" using o by (auto simp: r)
    then show False using apart [OF q(1)] range_obj_inside [OF inv q] by auto
  qed
  have srt: "ranges_sorted ?rs" by (rule ranges_sorted_insert [OF slab_invD(2) [OF inv]]) (use apart r in auto)
  have rok: "range_ok ?U x" if "x \<in> set ?rs" for x
  proof (cases "x = r")
    case True
    then show ?thesis using new_ok by simp
  next
    case False
    then have "range_ok U x" using that slab_invD(3) [OF inv] by simp
    then show ?thesis by (auto simp: range_ok_def)
  qed
  have pok: "pool_ok ?rs d (pools[c := p] ! d)" if d: "d < 7" for d
  proof (cases "d = c")
    case False
    have "pool_ok rs d (pools ! d)" by (rule slab_invD(4) [OF inv d])
    then show ?thesis using False by (auto simp: pool_ok_def length_filter_insert r)
  next
    case True
    note old = slab_invD(4) [OF inv c]
    have "distinct (map (\<lambda>i. a + HEADER + i * slab_sizes ! c) [0..<n])" using o by (simp add: distinct_map inj_on_def)
    moreover have "set (sp_free (pools ! c)) \<inter> range_objs r = {}" using old outside by (auto simp: pool_ok_def)
    ultimately have "pool_ok ?rs c p"
      using old objs unfolding pool_ok_def p
      by (auto simp: length_filter_insert r n algebra_simps)
    then show ?thesis using True pool_index [OF c inv] by simp
  qed
  have inv': "slab_inv ?U (pools[c := p]) ?rs"
    using slab_invD(1) [OF inv] len srt rok pok by (simp add: slab_inv_def)
  have free: "q \<in> set (sp_free (pools[c := p] ! sr_pool x)) \<longleftrightarrow> q \<in> set (sp_free (pools ! sr_pool x))"
    if "x \<in> set rs" "q \<in> range_objs x" for q x
    using outside [OF that] objs pool_index [OF c inv] by (cases "sr_pool x = c") (auto simp: p)
  have new: "q \<in> set (sp_free (pools[c := p] ! sr_pool r))" if "q \<in> range_objs r" for q
    using that objs pool_index [OF c inv] by (auto simp: p r)
  have starts: "b + HEADER \<in> sr_start ` set ?rs \<longleftrightarrow> b = a \<or> b + HEADER \<in> sr_start ` set rs" for b
    by (auto simp: r)
  have "handed ?U (pools[c := p]) ?rs = handed U pools rs"
    unfolding handed_def starts using free new fresh by (fastforce simp: r)
  then show ?thesis using inv' by blast
qed

end
