(* ===== verification/Kheap_Alloc.thy ===== *)
theory Kheap_Alloc
  imports Kheap_Inv
begin

text \<open>
  Correctness of the kernel heap: the invariant of the heap and its preservation by every
  operation except in-place growth.  The allocator hands out memory nobody holds, a release
  returns exactly the released area, and the recursion of the allocator ends; in-place growth is
  shown to break the invariant.
\<close>

section \<open>The invariant of the heap\<close>

definition heap_areas :: "kheap \<Rightarrow> (nat \<times> nat) set" where
  "heap_areas h = handed (used_blocks (kh_blocks h)) (kh_pools h) (kh_ranges h)"

definition kheap_inv :: "kheap \<Rightarrow> bool" where
  "kheap_inv h \<longleftrightarrow> blocks_ok KHEAP_BASE (kh_blocks h) (kh_end h) \<and> kh_count h = length (kh_blocks h) \<and>
     kh_used h = user_bytes (kh_blocks h) \<and> kh_total h = sizes (kh_blocks h) \<and>
     kh_end h + HEAP_PAGE * length (kh_pages h) \<le> 2 ^ 64 \<and>
     slab_inv (used_blocks (kh_blocks h)) (kh_pools h) (kh_ranges h)"

lemma kheap_invD:
  assumes "kheap_inv h"
  shows "blocks_ok KHEAP_BASE (kh_blocks h) (kh_end h)" "kh_count h = length (kh_blocks h)"
    "kh_used h = user_bytes (kh_blocks h)" "kh_total h = sizes (kh_blocks h)"
    "kh_end h + HEAP_PAGE * length (kh_pages h) \<le> 2 ^ 64"
    "slab_inv (used_blocks (kh_blocks h)) (kh_pools h) (kh_ranges h)" "areas_ok (used_blocks (kh_blocks h))"
  using assms blocks_ok_areas by (auto simp: kheap_inv_def)

lemma sizes_le: "blocks_ok lo bs hi \<Longrightarrow> lo + sizes bs \<le> hi"
  by (induction lo bs hi rule: blocks_ok.induct) auto

lemma user_bytes_le: "user_bytes bs \<le> sizes bs"
  by (induction bs) auto

text \<open>The pages a growth takes, and why one can fail.\<close>

definition short_of_pages :: "nat \<Rightarrow> kheap \<Rightarrow> bool" where
  "short_of_pages n h \<longleftrightarrow> False \<in> set (kh_pages h) \<or> length (kh_pages h) < n"

lemma grow_pages_spec:
  "grow_pages n h = (ok, h') \<Longrightarrow> \<exists>m ps. h' = h\<lparr>kh_pages := ps, kh_end := kh_end h + HEAP_PAGE * m\<rparr> \<and>
     length ps + m \<le> length (kh_pages h) \<and> (if ok then m = n else short_of_pages n h)"
proof (induction n h arbitrary: ok h' rule: grow_pages.induct)
  case (1 h)
  then show ?case by (intro exI [of _ 0] exI [of _ "kh_pages h"]) simp
next
  case (2 n h)
  consider "kh_pages h = []" | rest where "kh_pages h = False # rest" | rest where "kh_pages h = True # rest"
    by (metis (full_types) neq_Nil_conv)
  then show ?case
  proof cases
    case 1
    then show ?thesis using "2.prems" by (intro exI [of _ 0] exI [of _ "[]"]) (auto simp: short_of_pages_def)
  next
    case 2
    then show ?thesis
      using "2.prems" by (intro exI [of _ 0] exI [of _ rest]) (auto simp: short_of_pages_def)
  next
    case 3
    obtain m ps where "h' = h\<lparr>kh_pages := ps, kh_end := kh_end h + HEAP_PAGE + HEAP_PAGE * m\<rparr>"
      "length ps + m \<le> length rest" "if ok then m = n else short_of_pages n (h\<lparr>kh_pages := rest\<rparr>)"
      using "2.IH" [OF 3 _ , of ok h'] "2.prems" 3 by (auto simp: short_of_pages_def split: if_splits)
    then show ?thesis using 3
      by (intro exI [of _ "Suc m"] exI [of _ ps]) (auto simp: short_of_pages_def split: if_splits)
  qed
qed

lemma need_bounds:
  assumes "sz + 4160 \<le> 2 ^ 64"
  shows "sz + OVERHEAD \<le> total_block_size sz" "0 < grow_count (total_block_size sz)"
    "total_block_size sz \<le> grow_count (total_block_size sz) * HEAP_PAGE"
proof -
  define n where "n = (sz + 15) div 16 * 16"
  have n: "sz \<le> n" "n \<le> sz + 15" unfolding n_def by linarith+
  then have need: "total_block_size sz = n + 48"
    using assms by (simp add: total_block_size_def align_up_def wrap64_def n_def add.commute)
  have g: "grow_count (n + 48) = (n + 48 + 4095) div 4096"
    unfolding grow_count_def wrap64_def using n assms by simp
  show "sz + OVERHEAD \<le> total_block_size sz" unfolding need using n by simp
  show "0 < grow_count (total_block_size sz)" unfolding need g by linarith
  show "total_block_size sz \<le> grow_count (total_block_size sz) * HEAP_PAGE" unfolding need g by linarith
qed

text \<open>What an allocation from the block list does.\<close>

definition block_taken :: "nat \<Rightarrow> kheap \<Rightarrow> nat \<Rightarrow> kheap \<Rightarrow> bool" where
  "block_taken sz h p h' \<longleftrightarrow> kh_pools h' = kh_pools h \<and> kh_ranges h' = kh_ranges h \<and> kheap_inv h' \<and>
     (\<exists>a s. p = a + HEADER \<and> sz + OVERHEAD \<le> s \<and> (\<forall>t. (a, t) \<notin> used_blocks (kh_blocks h)) \<and>
        used_blocks (kh_blocks h') = insert (a, s) (used_blocks (kh_blocks h)))"

lemma kheap_take_ok:
  assumes inv: "kheap_inv h" and fit: "take_fit need (kh_blocks h) = Some (a, split, bs)" and need: "sz + OVERHEAD \<le> need"
  shows "\<exists>p h'. kheap_take a split bs h = (Ptr p, h') \<and> block_taken sz h p h'"
proof -
  note D = kheap_invD [OF inv]
  note t = take_fit_ok [OF fit _ D(1)]
  have ok: "blocks_ok KHEAP_BASE bs (kh_end h)" using t need by simp
  have "kh_used h + kb_size a - OVERHEAD = user_bytes bs" using t need D(3) by simp
  moreover have "user_bytes bs < 2 ^ 64" using user_bytes_le [of bs] sizes_le [OF ok] D(5) by simp
  ultimately have used: "wrap64 (kh_used h + kb_size a - OVERHEAD) = user_bytes bs" by (simp add: wrap64_def)
  have sl: "slab_inv (used_blocks bs) (kh_pools h) (kh_ranges h)"
    by (rule slab_inv_mono [OF D(6)]) (use t need in auto)
  let ?h = "snd (kheap_take a split bs h)"
  have "kheap_inv ?h" using D ok used sl t need by (auto simp: kheap_inv_def kheap_take_def)
  then have "block_taken sz h (kb_addr a + HEADER) ?h"
    unfolding block_taken_def
    by (intro conjI exI [of _ "kb_addr a"] exI [of _ "kb_size a"]) (use t need in \<open>auto simp: kheap_take_def\<close>)
  then show ?thesis by (auto simp: kheap_take_def)
qed

text \<open>Growing the heap by pages, with the block that is appended for them.\<close>

lemma heap_grow_None:
  assumes inv: "kheap_inv h" and g: "heap_grow need h = (None, h2)"
  shows "kheap_inv h2 \<and> kh_blocks h2 = kh_blocks h \<and> kh_pools h2 = kh_pools h \<and> kh_ranges h2 = kh_ranges h \<and>
    short_of_pages (grow_count need) h"
proof -
  have g': "grow_pages (grow_count need) h = (False, h2)"
    using g by (auto simp: heap_grow_def Let_def split: prod.splits if_splits)
  obtain m ps where h2: "h2 = h\<lparr>kh_pages := ps, kh_end := kh_end h + HEAP_PAGE * m\<rparr>"
    "length ps + m \<le> length (kh_pages h)" "short_of_pages (grow_count need) h"
    using grow_pages_spec [OF g'] by auto
  have "blocks_ok KHEAP_BASE (kh_blocks h) (kh_end h2)"
    by (rule blocks_ok_upper [OF kheap_invD(1) [OF inv]]) (simp add: h2)
  then show ?thesis using kheap_invD [OF inv] h2 by (auto simp: kheap_inv_def)
qed

lemma heap_grow_Some:
  assumes inv: "kheap_inv h" and g: "heap_grow need h = (Some addr, h2)" and pos: "0 < grow_count need"
    and h3: "h3 = kheap_append addr (grow_count need * HEAP_PAGE) h2"
  shows "kheap_inv h3 \<and> kh_blocks h3 = kh_blocks h @ [kblock_free addr (grow_count need * HEAP_PAGE)] \<and>
    kh_pools h3 = kh_pools h \<and> kh_ranges h3 = kh_ranges h"
proof -
  note D = kheap_invD [OF inv]
  let ?n = "grow_count need"
  obtain h1 where g': "grow_pages ?n h = (True, h1)" and addr: "addr = kh_end h"
    and h2: "h2 = h1\<lparr>kh_total := wrap64 (kh_total h1 + ?n * HEAP_PAGE)\<rparr>"
    using g by (auto simp: heap_grow_def Let_def split: prod.splits if_splits)
  obtain ps where h1: "h1 = h\<lparr>kh_pages := ps, kh_end := kh_end h + HEAP_PAGE * ?n\<rparr>"
    "length ps + ?n \<le> length (kh_pages h)"
    using grow_pages_spec [OF g'] by auto
  have ok: "blocks_ok KHEAP_BASE (kh_blocks h3) (kh_end h3)"
    using D(1) pos by (auto simp: h3 kheap_append_def h2 h1 addr blocks_ok_append)
  have "kh_total h + ?n * HEAP_PAGE = sizes (kh_blocks h3)" using D(4) by (simp add: h3 kheap_append_def h2 h1)
  moreover have "kh_end h3 + HEAP_PAGE * length (kh_pages h3) \<le> 2 ^ 64"
    using D(5) h1(2) by (simp add: h3 kheap_append_def h2 h1(1))
  ultimately have "kheap_inv h3"
    using D ok sizes_le [OF ok] by (auto simp: kheap_inv_def h3 kheap_append_def h2 h1(1) wrap64_def)
  then show ?thesis by (simp add: h3 kheap_append_def h2 h1)
qed

text \<open>A request above the slab classes: two levels of the recursion are enough.\<close>

lemma kheap_first_fit_ok:
  assumes inv: "kheap_inv h" and sz: "sz + 4160 \<le> 2 ^ 64"
    and rec: "\<And>h3. kheap_inv h3 \<Longrightarrow> kh_pools h3 = kh_pools h \<Longrightarrow> kh_ranges h3 = kh_ranges h \<Longrightarrow>
      used_blocks (kh_blocks h3) = used_blocks (kh_blocks h) \<Longrightarrow> take_fit (total_block_size sz) (kh_blocks h3) \<noteq> None \<Longrightarrow>
      P (alloc sz h3)"
    and taken: "\<And>p h'. block_taken sz h p h' \<Longrightarrow> P (Ptr p, h')"
    and failed: "\<And>h'. kheap_inv h' \<Longrightarrow> kh_blocks h' = kh_blocks h \<Longrightarrow> kh_pools h' = kh_pools h \<Longrightarrow> kh_ranges h' = kh_ranges h \<Longrightarrow>
      take_fit (total_block_size sz) (kh_blocks h) = None \<Longrightarrow>
      short_of_pages (grow_count (total_block_size sz)) h \<Longrightarrow> P (Null, h')"
  shows "P (kheap_first_fit alloc sz h)"
proof (cases "take_fit (total_block_size sz) (kh_blocks h)")
  case (Some x)
  obtain a split bs where x: "x = (a, split, bs)" by (cases x)
  obtain p h' where "kheap_take a split bs h = (Ptr p, h')" "block_taken sz h p h'"
    using kheap_take_ok [OF inv Some [unfolded x] need_bounds(1) [OF sz]] by blast
  then show ?thesis using Some x taken by (simp add: kheap_first_fit_def)
next
  case None
  obtain o1 h2 where g: "heap_grow (total_block_size sz) h = (o1, h2)" by fastforce
  note nb = need_bounds [OF sz]
  show ?thesis
  proof (cases o1)
    case None1: None
    show ?thesis using failed heap_grow_None [OF inv g [unfolded None1]] None g None1 by (simp add: kheap_first_fit_def)
  next
    case (Some addr)
    let ?n = "grow_count (total_block_size sz)"
    let ?h3 = "kheap_append addr (?n * HEAP_PAGE) h2"
    note s = heap_grow_Some [OF inv g [unfolded Some] nb(2) refl]
    have "take_fit (total_block_size sz) (kh_blocks ?h3) \<noteq> None" using s nb(3) by (simp add: take_fit_None)
    then have "P (alloc sz ?h3)" using rec s by simp
    then show ?thesis using None g Some nb(2) by (simp add: kheap_first_fit_def)
  qed
qed

definition block_result :: "nat \<Rightarrow> kheap \<Rightarrow> kptr \<times> kheap \<Rightarrow> bool" where
  "block_result sz h r \<longleftrightarrow>
     (case r of
        (Ptr p, h') \<Rightarrow> block_taken sz h p h'
      | (Null, h') \<Rightarrow> kheap_inv h' \<and> kh_blocks h' = kh_blocks h \<and> kh_pools h' = kh_pools h \<and> kh_ranges h' = kh_ranges h \<and>
          short_of_pages (grow_count (total_block_size sz)) h
      | _ \<Rightarrow> False)"

lemma kheap_large:
  assumes inv: "kheap_inv h" and sz: "sz + 4160 \<le> 2 ^ 64" "0 < sz" "slab_class_for sz = None"
  shows "block_result sz h (kheap_alloc_n (Suc (Suc n)) sz h)"
proof -
  have fit: "\<exists>p h'. kheap_alloc_n (Suc n) sz h3 = (Ptr p, h') \<and> block_taken sz h3 p h'"
    if h3: "kheap_inv h3" and fits: "take_fit (total_block_size sz) (kh_blocks h3) \<noteq> None" for h3
  proof -
    obtain a split bs where f: "take_fit (total_block_size sz) (kh_blocks h3) = Some (a, split, bs)" using fits by auto
    show ?thesis using kheap_take_ok [OF h3 f need_bounds(1) [OF sz(1)]] f sz(2,3) by (simp add: kheap_first_fit_def)
  qed
  have "block_result sz h (kheap_first_fit (kheap_alloc_n (Suc n)) sz h)"
    by (rule kheap_first_fit_ok [OF inv sz(1)])
      (use fit in \<open>fastforce simp: block_result_def block_taken_def simp del: kheap_alloc_n.simps\<close>)+
  then show ?thesis using sz(2,3) by simp
qed

text \<open>What any allocation does: the new area is disjoint from all others because it is an area of the new heap.\<close>

definition alloc_result :: "nat \<Rightarrow> kheap \<Rightarrow> kptr \<times> kheap \<Rightarrow> bool" where
  "alloc_result sz h r \<longleftrightarrow>
     (case r of
        (Ptr p, h') \<Rightarrow> kheap_inv h' \<and>
          (\<exists>n\<ge>sz. (\<forall>k. (p, k) \<notin> heap_areas h) \<and> heap_areas h' = insert (p, n) (heap_areas h))
      | (Null, h') \<Rightarrow> kheap_inv h' \<and> heap_areas h' = heap_areas h \<and>
          short_of_pages (17 + grow_count (total_block_size sz)) h
      | _ \<Rightarrow> False)"

lemma short_of_pages_mono: "short_of_pages n h \<Longrightarrow> n \<le> m \<Longrightarrow> short_of_pages m h"
  by (auto simp: short_of_pages_def)

lemma block_taken_result:
  assumes "kheap_inv h" "block_taken sz h p h'"
  shows "alloc_result sz h (Ptr p, h')"
proof -
  obtain a s where a: "p = a + HEADER" "sz + OVERHEAD \<le> s" "\<And>t. (a, t) \<notin> used_blocks (kh_blocks h)"
      "used_blocks (kh_blocks h') = insert (a, s) (used_blocks (kh_blocks h))"
    and h': "kh_pools h' = kh_pools h" "kh_ranges h' = kh_ranges h" "kheap_inv h'"
    using assms(2) by (auto simp: block_taken_def)
  note D = kheap_invD [OF assms(1)]
  have "areas_ok (insert (a, s) (used_blocks (kh_blocks h)))" using kheap_invD(7) [OF h'(3)] a(4) by simp
  then have "(p, k) \<notin> heap_areas h" for k
    unfolding heap_areas_def a(1) by (rule handed_fresh_block [OF D(6)]) (rule a(3))
  moreover have "heap_areas h' = insert (p, s - OVERHEAD) (heap_areas h)"
    unfolding heap_areas_def a(1,4) h'(1,2) by (rule handed_add_block [OF D(6) a(3)])
  moreover have "sz \<le> s - OVERHEAD" using a(2) by simp
  ultimately show ?thesis using h'(3) by (auto simp: alloc_result_def)
qed

lemma region_request: "slab_class_for 65536 = None" "grow_count (total_block_size 65536) = 17"
  by (simp_all add: slab_class_for_def slab_sizes_def grow_count_def total_block_size_def align_up_def wrap64_def)

lemma kheap_slab_grow_ok:
  assumes inv: "kheap_inv h" and c: "c < 7"
  shows "\<exists>h'. kheap_slab_grow_locked (kheap_alloc_n (Suc (Suc n))) c h = (Null, h') \<and> kheap_inv h' \<and> heap_areas h' = heap_areas h \<and>
    (sp_free (kh_pools h' ! c) \<noteq> [] \<or>
     kh_pools h' = kh_pools h \<and> kh_blocks h' = kh_blocks h \<and> kh_ranges h' = kh_ranges h \<and>
     (length (kh_ranges h) \<ge> SLAB_MAX_RANGES \<and> h' = h \<or> short_of_pages 17 h))"
proof (cases "length (kh_ranges h) \<ge> SLAB_MAX_RANGES")
  case True
  then show ?thesis using inv by (simp add: kheap_slab_grow_locked_def)
next
  case False
  note D = kheap_invD [OF inv]
  define obj where "obj = slab_sizes ! c"
  define objs where "objs = SLAB_REGION_BYTES div obj"
  have so: "0 < obj" "objs * obj = SLAB_REGION_BYTES" "8 \<le> objs" using slab_objs [OF c] by (simp_all add: obj_def objs_def)
  have po: "sp_obj_size (kh_pools h ! c) = obj" using slab_invD(4) [OF D(6) c] by (simp add: pool_ok_def obj_def)
  obtain res h1 where al: "kheap_alloc_n (Suc (Suc n)) SLAB_REGION_BYTES h = (res, h1)" by fastforce
  have br: "block_result SLAB_REGION_BYTES h (res, h1)"
    using kheap_large [OF inv _ _ region_request(1), of n] al by simp
  have mx: "max (SLAB_REGION_BYTES div obj) 8 = objs" using so(3) by (simp add: objs_def)
  show ?thesis
  proof (cases "\<exists>p. res = Ptr p")
    case True
    then obtain p where p: "res = Ptr p" ..
    have bt: "block_taken SLAB_REGION_BYTES h p h1" using br p by (simp add: block_result_def)
    obtain a s where a: "p = a + HEADER" "SLAB_REGION_BYTES + OVERHEAD \<le> s" "\<And>t. (a, t) \<notin> used_blocks (kh_blocks h)"
        "used_blocks (kh_blocks h1) = insert (a, s) (used_blocks (kh_blocks h))"
      and h1: "kh_pools h1 = kh_pools h" "kh_ranges h1 = kh_ranges h" "kheap_inv h1"
      using bt by (auto simp: block_taken_def)
    have ar: "areas_ok (insert (a, s) (used_blocks (kh_blocks h)))" using kheap_invD(7) [OF h1(3)] a(4) by simp
    have lr: "length (kh_ranges h) < SLAB_MAX_RANGES" using False by simp
    define r where "r = \<lparr>sr_start = a + HEADER, sr_end = a + HEADER + SLAB_REGION_BYTES, sr_pool = c\<rparr>"
    define q where "q = (kh_pools h ! c)\<lparr>sp_free := rev (map (\<lambda>i. a + HEADER + i * slab_sizes ! c) [0..<objs]) @ sp_free (kh_pools h ! c),
      sp_total := sp_total (kh_pools h ! c) + objs\<rparr>"
    define h' where "h' = h1\<lparr>kh_ranges := slab_range_insert r (kh_ranges h1), kh_pools := (kh_pools h1)[c := q]\<rparr>"
    note ext = slab_extend [OF D(6) lr c ar a(3) a(2) r_def objs_def [unfolded obj_def] q_def]
    have "kheap_slab_grow_locked (kheap_alloc_n (Suc (Suc n))) c h = (Null, h')"
      using False al p so mx po h1 a(1)
      by (simp add: kheap_slab_grow_locked_def Let_def h'_def q_def r_def obj_def del: kheap_alloc_n.simps)
    moreover have "kheap_inv h'" using kheap_invD [OF h1(3)] ext a(4) h1 by (simp add: kheap_inv_def h'_def)
    moreover have "heap_areas h' = heap_areas h" using ext by (simp add: heap_areas_def h'_def h1 a(4))
    moreover have "sp_free (kh_pools h' ! c) \<noteq> []"
      using pool_index [OF c D(6)] so(3) by (simp add: h'_def h1 q_def)
    ultimately show ?thesis by blast
  next
    case no: False
    then have "res = Null" "kheap_inv h1" "kh_blocks h1 = kh_blocks h" "kh_pools h1 = kh_pools h" "kh_ranges h1 = kh_ranges h"
        "short_of_pages 17 h"
      using br region_request(2) by (auto simp: block_result_def split: kptr.splits)
    then show ?thesis using False al so mx po
      by (simp add: kheap_slab_grow_locked_def Let_def heap_areas_def del: kheap_alloc_n.simps)
  qed
qed

lemma alloc_result_Ptr:
  "alloc_result sz h1 (Ptr p, h') \<Longrightarrow> heap_areas h1 = heap_areas h \<Longrightarrow> alloc_result sz h (Ptr p, h')"
  by (simp add: alloc_result_def)

lemma kheap_slab_pop_ok:
  assumes "kheap_inv h" "c < 7" "sp_free (kh_pools h ! c) \<noteq> []" "sz \<le> slab_sizes ! c"
  shows "\<exists>p h'. kheap_slab_pop c h = (Ptr p, h') \<and> alloc_result sz h (Ptr p, h')"
proof -
  note D = kheap_invD [OF assms(1)]
  obtain obj rest where f: "sp_free (kh_pools h ! c) = obj # rest" using assms(3) by (cases "sp_free (kh_pools h ! c)") auto
  note pop = slab_pop [OF D(6,7) assms(2) f refl]
  let ?h = "snd (kheap_slab_pop c h)"
  have r: "kheap_slab_pop c h = (Ptr obj, ?h)" by (simp add: kheap_slab_pop_def f Let_def)
  have "kheap_inv ?h" using D pop f by (simp add: kheap_inv_def kheap_slab_pop_def Let_def)
  moreover have "heap_areas ?h = insert (obj, slab_sizes ! c) (heap_areas h)" "\<And>k. (obj, k) \<notin> heap_areas h"
    using pop f by (simp_all add: heap_areas_def kheap_slab_pop_def Let_def)
  ultimately show ?thesis using r assms(4) by (auto simp: alloc_result_def)
qed

text \<open>The slab attempt: an object, or nothing changed but the page supply.\<close>

definition slab_result :: "nat \<Rightarrow> kheap \<Rightarrow> kptr \<times> kheap \<Rightarrow> bool" where
  "slab_result sz h r \<longleftrightarrow>
     (case r of
        (Ptr p, h') \<Rightarrow> alloc_result sz h (Ptr p, h')
      | (Null, h') \<Rightarrow> kheap_inv h' \<and> heap_areas h' = heap_areas h \<and> kh_blocks h' = kh_blocks h \<and> (h' = h \<or> short_of_pages 17 h)
      | _ \<Rightarrow> False)"

lemma kheap_slab_alloc_ok:
  assumes inv: "kheap_inv h" and c: "c < 7" "sz \<le> slab_sizes ! c"
  shows "slab_result sz h (kheap_slab_alloc_locked (kheap_alloc_n (Suc (Suc n))) c h)"
proof (cases "sp_free (kh_pools h ! c) = []")
  case False
  then show ?thesis using kheap_slab_pop_ok [OF inv c(1) False c(2)] by (auto simp: kheap_slab_alloc_locked_def slab_result_def)
next
  case True
  obtain h1 where g: "kheap_slab_grow_locked (kheap_alloc_n (Suc (Suc n))) c h = (Null, h1)" "kheap_inv h1" "heap_areas h1 = heap_areas h"
    "sp_free (kh_pools h1 ! c) \<noteq> [] \<or> kh_pools h1 = kh_pools h \<and> kh_blocks h1 = kh_blocks h \<and> (h1 = h \<or> short_of_pages 17 h)"
    using kheap_slab_grow_ok [OF inv c(1), of n] by blast
  have r: "kheap_slab_alloc_locked (kheap_alloc_n (Suc (Suc n))) c h = kheap_slab_pop c h1"
    using True g(1) by (simp add: kheap_slab_alloc_locked_def)
  show ?thesis
  proof (cases "sp_free (kh_pools h1 ! c) = []")
    case False
    then show ?thesis using kheap_slab_pop_ok [OF g(2) c(1) False c(2)] alloc_result_Ptr [OF _ g(3)]
      unfolding r by (auto simp: slab_result_def)
  next
    case none: True
    then show ?thesis using g unfolding r by (auto simp: slab_result_def kheap_slab_pop_def Let_def)
  qed
qed

lemma slab_class_for_Some: "slab_class_for sz = Some c \<Longrightarrow> c < 7 \<and> sz \<le> slab_sizes ! c"
  unfolding slab_class_for_def first_index_Some by (simp add: slab_sizes_def)

lemma slab_attempt:
  assumes "kheap_inv h"
  shows "slab_result sz h (case slab_class_for sz of None \<Rightarrow> (Null, h)
    | Some c \<Rightarrow> kheap_slab_alloc_locked (kheap_alloc_n (Suc (Suc n))) c h)"
proof (cases "slab_class_for sz")
  case (Some c)
  then show ?thesis using kheap_slab_alloc_ok [OF assms] slab_class_for_Some [OF Some] by simp
qed (simp add: slab_result_def assms)

lemma kheap_alloc_step:
  assumes inv: "kheap_inv h" and sz: "0 < sz" and slab: "\<And>p h'. alloc_result sz h (Ptr p, h') \<Longrightarrow> P (Ptr p, h')"
    and fit: "\<And>h1. kheap_inv h1 \<Longrightarrow> heap_areas h1 = heap_areas h \<Longrightarrow> kh_blocks h1 = kh_blocks h \<Longrightarrow>
      h1 = h \<or> short_of_pages 17 h \<Longrightarrow> P (kheap_first_fit (kheap_alloc_n (Suc (Suc n))) sz h1)"
  shows "P (kheap_alloc_n (Suc (Suc (Suc n))) sz h)"
proof -
  obtain res h1 where r: "(case slab_class_for sz of None \<Rightarrow> (Null, h)
    | Some c \<Rightarrow> kheap_slab_alloc_locked (kheap_alloc_n (Suc (Suc n))) c h) = (res, h1)" by fastforce
  have sr: "slab_result sz h (res, h1)" using slab_attempt [OF inv, of sz n] r by simp
  have eq: "kheap_alloc_n (Suc (Suc (Suc n))) sz h =
      (case (res, h1) of (Null, h1) \<Rightarrow> kheap_first_fit (kheap_alloc_n (Suc (Suc n))) sz h1 | (res, h1) \<Rightarrow> (res, h1))"
    unfolding kheap_alloc_n.simps(2) [of "Suc (Suc n)"] using r sz by simp
  show ?thesis using sr fit slab unfolding eq by (cases res) (auto simp: slab_result_def)
qed

lemma kheap_first_fit_taken:
  assumes "kheap_inv h" "sz + 4160 \<le> 2 ^ 64" "take_fit (total_block_size sz) (kh_blocks h) \<noteq> None"
  shows "\<exists>p h'. kheap_first_fit alloc sz h = (Ptr p, h') \<and> alloc_result sz h (Ptr p, h')"
proof -
  obtain a split bs where f: "take_fit (total_block_size sz) (kh_blocks h) = Some (a, split, bs)" using assms(3) by auto
  show ?thesis using kheap_take_ok [OF assms(1) f need_bounds(1) [OF assms(2)]] block_taken_result [OF assms(1)] f
    by (auto simp: kheap_first_fit_def)
qed

lemma kheap_alloc_fits:
  assumes "kheap_inv h" "0 < sz" "sz + 4160 \<le> 2 ^ 64" "take_fit (total_block_size sz) (kh_blocks h) \<noteq> None"
  shows "\<exists>p h'. kheap_alloc_n (Suc (Suc (Suc n))) sz h = (Ptr p, h') \<and> alloc_result sz h (Ptr p, h')"
proof (rule kheap_alloc_step [OF assms(1,2)])
  fix h1
  assume h1: "kheap_inv h1" "heap_areas h1 = heap_areas h" "kh_blocks h1 = kh_blocks h"
  show "\<exists>p h'. kheap_first_fit (kheap_alloc_n (Suc (Suc n))) sz h1 = (Ptr p, h') \<and> alloc_result sz h (Ptr p, h')"
    using kheap_first_fit_taken [OF h1(1) assms(3)] assms(4) h1(3) alloc_result_Ptr [OF _ h1(2)] by metis
qed blast

text \<open>The whole allocator with the recursion depth the model fixes.\<close>

lemma kheap_alloc_ok:
  assumes inv: "kheap_inv h" and sz: "0 < sz" "sz + 4160 \<le> 2 ^ 64"
  shows "alloc_result sz h (kheap_alloc sz h)"
proof -
  have "alloc_result sz h (kheap_first_fit (kheap_alloc_n (Suc (Suc (Suc (Suc 0))))) sz h1)"
    if h1: "kheap_inv h1" "heap_areas h1 = heap_areas h" "kh_blocks h1 = kh_blocks h" "h1 = h \<or> short_of_pages 17 h" for h1
  proof (rule kheap_first_fit_ok [OF h1(1) sz(2)])
    fix h3
    assume h3: "kheap_inv h3" "kh_pools h3 = kh_pools h1" "kh_ranges h3 = kh_ranges h1"
      "used_blocks (kh_blocks h3) = used_blocks (kh_blocks h1)" "take_fit (total_block_size sz) (kh_blocks h3) \<noteq> None"
    have "heap_areas h3 = heap_areas h" using h3 h1(2) by (simp add: heap_areas_def)
    then show "alloc_result sz h (kheap_alloc_n (Suc (Suc (Suc (Suc 0)))) sz h3)"
      using kheap_alloc_fits [OF h3(1) sz h3(5), of "Suc 0"] alloc_result_Ptr by auto
  next
    fix p h'
    assume "block_taken sz h1 p h'"
    then show "alloc_result sz h (Ptr p, h')" using block_taken_result [OF h1(1)] alloc_result_Ptr [OF _ h1(2)] by blast
  next
    fix h'
    assume h': "kheap_inv h'" "kh_blocks h' = kh_blocks h1" "kh_pools h' = kh_pools h1" "kh_ranges h' = kh_ranges h1"
      "short_of_pages (grow_count (total_block_size sz)) h1"
    have "short_of_pages (17 + grow_count (total_block_size sz)) h"
      using h1(4) h'(5) short_of_pages_mono by fastforce
    then show "alloc_result sz h (Null, h')" using h' h1(2) by (simp add: alloc_result_def heap_areas_def)
  qed
  then show ?thesis
    using kheap_alloc_step [OF inv sz(1), of "alloc_result sz h" "Suc (Suc 0)"]
    by (simp add: kheap_alloc_def kheap_alloc_locked_def eval_nat_numeral del: kheap_alloc_n.simps)
qed

section \<open>Release\<close>

lemma wrap64_dec: "0 < x \<Longrightarrow> x \<le> 2 ^ 64 \<Longrightarrow> wrap64 (x + 2 ^ 64 - 1) = x - 1"
  unfolding wrap64_def by (cases x) auto

lemma kheap_slab_free_ok:
  assumes inv: "kheap_inv h" and r: "r \<in> set (kh_ranges h)" "p \<in> range_objs r" "p \<notin> set (sp_free (kh_pools h ! sr_pool r))"
  shows "kheap_inv (kheap_slab_free_locked (sr_pool r) p h) \<and>
    heap_areas (kheap_slab_free_locked (sr_pool r) p h) = heap_areas h - {(p, slab_sizes ! sr_pool r)}"
proof -
  note D = kheap_invD [OF inv]
  let ?c = "sr_pool r"
  let ?q = "kh_pools h ! ?c"
  note push = slab_push [OF D(6,7) r refl]
  have c: "?c < 7" using slab_invD(3) [OF D(6) r(1)] by (simp add: range_ok_def)
  have pok: "pool_ok (kh_ranges h) ?c ?q" by (rule slab_invD(4) [OF D(6) c])
  have "length (filter (\<lambda>r. sr_pool r = ?c) (kh_ranges h)) \<le> 1024"
    using slab_invD(5) [OF D(6)] by (auto intro: order_trans [OF length_filter_le])
  then have "sp_total ?q \<le> 1024 * 4096"
    using pok slab_objs [OF c] unfolding pool_ok_def by (auto intro: order_trans [OF mult_le_mono])
  then have "wrap64 (sp_used ?q + 2 ^ 64 - 1) = sp_used ?q - 1"
    using push pok by (intro wrap64_dec) (auto simp: pool_ok_def)
  then have eq: "kheap_slab_free_locked ?c p h =
      h\<lparr>kh_pools := (kh_pools h)[?c := ?q\<lparr>sp_free := p # sp_free ?q, sp_used := sp_used ?q - 1\<rparr>]\<rparr>"
    by (simp add: kheap_slab_free_locked_def Let_def)
  show ?thesis using push D unfolding eq by (simp add: kheap_inv_def heap_areas_def)
qed

lemma blocks_find:
  assumes "blocks_ok lo bs hi" "b \<in> set bs"
  shows "takeWhile (\<lambda>x. kb_addr x + HEADER \<noteq> kb_addr b + HEADER) bs @ b #
      drop (Suc (length (takeWhile (\<lambda>x. kb_addr x + HEADER \<noteq> kb_addr b + HEADER) bs))) bs = bs \<and>
    dropWhile (\<lambda>x. kb_addr x + HEADER \<noteq> kb_addr b + HEADER) bs =
      b # drop (Suc (length (takeWhile (\<lambda>x. kb_addr x + HEADER \<noteq> kb_addr b + HEADER) bs))) bs"
  using assms
proof (induction bs arbitrary: lo)
  case (Cons x bs)
  show ?case
  proof (cases "kb_addr x = kb_addr b")
    case True
    have "x = b"
    proof (rule ccontr)
      assume "x \<noteq> b"
      then obtain xs ys where "bs = xs @ b # ys" using Cons.prems(2) by (auto dest: split_list)
      then obtain m where "blocks_ok (kb_addr x + kb_size x) xs m" "m \<le> kb_addr b"
        using Cons.prems(1) by (auto simp: blocks_ok_append)
      then show False using blocks_ok_le [of "kb_addr x + kb_size x" xs m] Cons.prems(1) True by auto
    qed
    then show ?thesis by simp
  next
    case False
    then show ?thesis using Cons by auto
  qed
qed simp

lemma kheap_block_free_ok:
  assumes inv: "kheap_inv h" and a: "(a, s) \<in> used_blocks (kh_blocks h)" "a + HEADER \<notin> sr_start ` set (kh_ranges h)"
    and none: "slab_range_lookup (kh_ranges h) (a + HEADER) = None"
  shows "\<exists>h'. kheap_free_locked (a + HEADER) h = (Freed, h') \<and> kheap_inv h' \<and>
    heap_areas h' = heap_areas h - {(a + HEADER, s - OVERHEAD)}"
proof -
  note D = kheap_invD [OF inv]
  obtain b where b: "b \<in> set (kh_blocks h)" "kb_used b" "kb_addr b = a" "kb_size b = s" using a(1) by (auto simp: used_blocks_def)
  define pre where "pre = takeWhile (\<lambda>x. kb_addr x + HEADER \<noteq> a + HEADER) (kh_blocks h)"
  define post where "post = drop (Suc (length pre)) (kh_blocks h)"
  have sp: "kh_blocks h = pre @ b # post" and dw: "dropWhile (\<lambda>x. kb_addr x + HEADER \<noteq> a + HEADER) (kh_blocks h) = b # post"
    using blocks_find [OF D(1) b(1)] unfolding b(3) pre_def post_def by auto
  obtain b2 post1 where cn: "coalesce_next (b\<lparr>kb_used := False, kb_canary := 0\<rparr>) post = (b2, post1)" by fastforce
  note fb = free_block_ok [OF D(1) [unfolded sp] b(2) cn]
  have can: "kb_canary b = KHEAP_CANARY_HEAD" "kb_tail b = KHEAP_CANARY_TAIL"
    using D(1) b(2) unfolding sp by (auto simp: blocks_ok_append canaries_ok_def)
  let ?bs = "coalesce_prev pre b2 @ post1"
  define h' where "h' = h\<lparr>kh_blocks := ?bs, kh_used := wrap64 (kh_used h + 2 ^ 64 - (kb_size b - OVERHEAD)),
      kh_count := kh_count h - (length (kh_blocks h) - length ?bs)\<rparr>"
  have "kheap_free_locked (a + HEADER) h = (Freed, h')"
    using none dw can b(2) cn by (simp add: kheap_free_locked_def h'_def pre_def Let_def)
  moreover have "user_bytes ?bs + (kb_size b - OVERHEAD) = kh_used h" using fb D(3) sp by simp
  then have "kh_used h + 2 ^ 64 - (kb_size b - OVERHEAD) = user_bytes ?bs + 2 ^ 64" by linarith
  then have "wrap64 (kh_used h + 2 ^ 64 - (kb_size b - OVERHEAD)) = user_bytes ?bs"
    using user_bytes_le [of ?bs] fb sizes_le [OF D(1)] D(5) sp by (simp add: wrap64_def)
  moreover have "used_blocks ?bs = used_blocks (kh_blocks h) - {(a, s)}" using fb b sp by simp
  moreover have "slab_inv (used_blocks (kh_blocks h) - {(a, s)}) (kh_pools h) (kh_ranges h)" by (rule slab_inv_remove [OF D(6) a(2)])
  moreover have "handed (used_blocks (kh_blocks h) - {(a, s)}) (kh_pools h) (kh_ranges h) = heap_areas h - {(a + HEADER, s - OVERHEAD)}"
    unfolding heap_areas_def by (rule handed_remove_block [OF D(6,7) a])
  ultimately show ?thesis
    using D fb sp by (auto simp: kheap_inv_def heap_areas_def h'_def)
qed

lemma general_not_slab:
  assumes inv: "kheap_inv h" and a: "(a, s) \<in> used_blocks (kh_blocks h)" "a + HEADER \<notin> sr_start ` set (kh_ranges h)"
  shows "slab_range_lookup (kh_ranges h) (a + HEADER) = None"
proof (rule ccontr)
  note D = kheap_invD [OF inv]
  assume "slab_range_lookup (kh_ranges h) (a + HEADER) \<noteq> None"
  then obtain r where r: "r \<in> set (kh_ranges h)" "sr_start r \<le> a + HEADER" "a + HEADER < sr_end r"
    using slab_range_lookup_iff [OF slab_invD(2) [OF D(6)]] by fastforce
  obtain b t where b: "(b, t) \<in> used_blocks (kh_blocks h)" "sr_start r = b + HEADER" "sr_end r + 8 \<le> b + t"
    using slab_invD(3) [OF D(6) r(1)] by (auto simp: range_ok_def)
  have "b = a" using areas_okD [OF D(7) b(1) a(1)] areas_ok_size [OF D(7) a(1)] b r by auto
  then show False using b(2) r(1) a(2) by (metis image_eqI)
qed

lemma heap_areas_bounds:
  assumes "kheap_inv h" "(p, n) \<in> heap_areas h"
  shows "KHEAP_BASE + HEADER \<le> p \<and> p + n + 8 \<le> kh_end h"
proof -
  note D = kheap_invD [OF assms(1)]
  obtain a s where "(a, s) \<in> used_blocks (kh_blocks h)" "a + HEADER \<le> p" "p + n + 8 \<le> a + s"
    using handed_host [OF D(6,7) assms(2) [unfolded heap_areas_def]] by blast
  then show ?thesis using used_blocks_bounds [OF D(1)] by fastforce
qed

lemma heap_areas_disjoint:
  assumes "kheap_inv h" "(p, n) \<in> heap_areas h" "(q, m) \<in> heap_areas h"
  shows "(p, n) = (q, m) \<or> p + n \<le> q \<or> q + m \<le> p"
  using handed_disjoint [OF kheap_invD(6,7) [OF assms(1)]] assms(2,3) unfolding heap_areas_def by blast

lemma kheap_free_ok:
  assumes inv: "kheap_inv h" and a: "(p, n) \<in> heap_areas h"
  shows "\<exists>h'. kheap_free p h = (Freed, h') \<and> kheap_inv h' \<and> heap_areas h' = heap_areas h - {(p, n)}"
proof -
  note D = kheap_invD [OF inv]
  from D(6,7) a [unfolded heap_areas_def] show ?thesis
  proof (cases rule: handed_cases)
    case (general a s)
    then show ?thesis
      using kheap_block_free_ok [OF inv general(1,4) general_not_slab [OF inv general(1,4)]] by (simp add: kheap_free_def)
  next
    case (slab a s r)
    have "p < sr_end r" using range_obj_inside [OF D(6) slab(2,3)] by simp
    then have "slab_range_lookup (kh_ranges h) p = Some (sr_pool r)"
      using slab_range_lookup_iff [OF slab_invD(2) [OF D(6)]] slab(2,6) by blast
    moreover have "p \<noteq> 0" using heap_areas_bounds [OF inv a] by simp
    ultimately show ?thesis using kheap_slab_free_ok [OF inv slab(2,3,9)] slab(4)
      by (simp add: kheap_free_def kheap_free_locked_def)
  qed
qed

lemma heap_areas_fun:
  assumes inv: "kheap_inv h" and n: "(p, n) \<in> heap_areas h" and m: "(p, m) \<in> heap_areas h"
  shows "n = m"
proof -
  note D = kheap_invD [OF inv]
  from D(6,7) n [unfolded heap_areas_def] show ?thesis
  proof (cases rule: handed_cases)
    case (slab a s r)
    then show ?thesis using handed_slab [OF D(6,7) slab(2,3)] m by (simp add: heap_areas_def)
  next
    case g: (general a s)
    from D(6,7) m [unfolded heap_areas_def] show ?thesis
    proof (cases rule: handed_cases)
      case (slab a s r)
      then show ?thesis using handed_slab [OF D(6,7) slab(2,3)] n by (simp add: heap_areas_def)
    next
      case (general a' s')
      then show ?thesis using g used_blocks_fun [OF D(1), of a s s'] by simp
    qed
  qed
qed

section \<open>Reachable heaps\<close>

lemma kheap_init_ok:
  assumes "kheap_init pages = Some h" "length pages \<le> 2 ^ 27"
  shows "kheap_inv h \<and> heap_areas h = {}"
proof -
  have "grow_count HEAP_PAGE = 1" by (simp add: grow_count_def wrap64_def)
  then obtain rest where pg: "pages = True # rest"
    and h: "h = \<lparr>kh_blocks = [kblock_free KHEAP_BASE HEAP_PAGE], kh_end = KHEAP_BASE + HEAP_PAGE, kh_total = HEAP_PAGE,
      kh_used = 0, kh_count = 1, kh_pools = kheap_slab_init, kh_ranges = [], kh_pages = rest\<rparr>"
    using assms(1) by (auto simp: kheap_init_def heap_grow_def Let_def wrap64_def split: list.splits bool.splits)
  have len: "length slab_sizes = 7" by (simp add: slab_sizes_def)
  have "pool_ok [] c (kheap_slab_init ! c)" if "c < 7" for c
    using that len by (simp add: pool_ok_def kheap_slab_init_def)
  then have "slab_inv {} kheap_slab_init []"
    by (simp add: slab_inv_def ranges_sorted_def kheap_slab_init_def len)
  then show ?thesis using assms(2) pg by (simp add: h kheap_inv_def heap_areas_def handed_def)
qed

text \<open>
  The heap as its clients use it: \<open>H\<close> records what has been handed out and not released, with
  the size that was asked for.
\<close>

inductive kheap_reach :: "(nat \<Rightarrow> nat option) \<Rightarrow> kheap \<Rightarrow> bool" where
  init: "kheap_init pages = Some h \<Longrightarrow> length pages \<le> 2 ^ 27 \<Longrightarrow> kheap_reach Map.empty h"
| malloc: "kheap_reach H h \<Longrightarrow> sz + 4160 \<le> 2 ^ 64 \<Longrightarrow> kmalloc sz h = (Ptr p, h') \<Longrightarrow> kheap_reach (H(p \<mapsto> sz)) h'"
| malloc_null: "kheap_reach H h \<Longrightarrow> sz + 4160 \<le> 2 ^ 64 \<Longrightarrow> kmalloc sz h = (Null, h') \<Longrightarrow> kheap_reach H h'"
| calloc: "kheap_reach H h \<Longrightarrow> count * sz + 4160 \<le> 2 ^ 64 \<Longrightarrow> kcalloc count sz h = (Ptr p, h') \<Longrightarrow>
    kheap_reach (H(p \<mapsto> count * sz)) h'"
| free: "kheap_reach H h \<Longrightarrow> H p = Some n \<Longrightarrow> kfree p h = (res, h') \<Longrightarrow> kheap_reach (H(p := None)) h'"
| free_null: "kheap_reach H h \<Longrightarrow> kfree 0 h = (res, h') \<Longrightarrow> kheap_reach H h'"

text \<open>What is held corresponds to the areas of the heap.\<close>

definition held_ok :: "(nat \<Rightarrow> nat option) \<Rightarrow> kheap \<Rightarrow> bool" where
  "held_ok H h \<longleftrightarrow> kheap_inv h \<and> fst ` heap_areas h = dom H \<and> (\<forall>p n. (p, n) \<in> heap_areas h \<longrightarrow> the (H p) \<le> n)"

lemma held_area:
  assumes "held_ok H h" "H p = Some n"
  obtains m where "(p, m) \<in> heap_areas h" "n \<le> m"
proof -
  have "p \<in> fst ` heap_areas h" using assms by (auto simp: held_ok_def)
  then show thesis using assms that by (fastforce simp: held_ok_def)
qed

lemma kmalloc_zero: "kmalloc 0 h = (Null, h)"
  by (simp add: kmalloc_def kheap_alloc_def kheap_alloc_locked_def eval_nat_numeral)

lemma kmalloc_result: "held_ok H h \<Longrightarrow> 0 < sz \<Longrightarrow> sz + 4160 \<le> 2 ^ 64 \<Longrightarrow> alloc_result sz h (kmalloc sz h)"
  using kheap_alloc_ok by (simp add: held_ok_def kmalloc_def)

lemma kmalloc_held:
  assumes H: "held_ok H h" and sz: "sz + 4160 \<le> 2 ^ 64" and r: "kmalloc sz h = (Ptr p, h')"
  shows "held_ok (H(p \<mapsto> sz)) h' \<and> H p = None"
proof -
  have "0 < sz" using r kmalloc_zero by (cases sz) auto
  then obtain n where "kheap_inv h'" "sz \<le> n" "\<forall>k. (p, k) \<notin> heap_areas h" "heap_areas h' = insert (p, n) (heap_areas h)"
    using kmalloc_result [OF H _ sz] r by (auto simp: alloc_result_def)
  moreover have "H p = None" using calculation(3) held_area [OF H] by (cases "H p") blast+
  ultimately show ?thesis using H by (auto simp: held_ok_def)
qed

lemma kmalloc_null_held:
  assumes H: "held_ok H h" and sz: "sz + 4160 \<le> 2 ^ 64" and r: "kmalloc sz h = (Null, h')"
  shows "held_ok H h'"
proof (cases "sz = 0")
  case True
  then show ?thesis using H r kmalloc_zero by simp
next
  case False
  then show ?thesis using kmalloc_result [OF H _ sz] r H by (simp add: alloc_result_def held_ok_def)
qed

lemma kcalloc_kmalloc:
  assumes "count * sz + 4160 \<le> 2 ^ 64"
  shows "kcalloc count sz h = kmalloc (count * sz) h"
proof -
  have "sz \<le> (2 ^ 64 - 1) div count" if "count \<noteq> 0"
    using assms that by (subst less_eq_div_iff_mult_less_eq) (auto simp: mult.commute)
  then show ?thesis using assms by (auto simp: kcalloc_def kheap_calloc_def kmalloc_def wrap64_def)
qed

lemma kfree_held:
  assumes H: "held_ok H h" and p: "H p = Some n"
  shows "\<exists>h'. kfree p h = (Freed, h') \<and> held_ok (H(p := None)) h'"
proof -
  obtain m where m: "(p, m) \<in> heap_areas h" using held_area [OF H p] by blast
  have inv: "kheap_inv h" using H by (simp add: held_ok_def)
  obtain h' where h': "kheap_free p h = (Freed, h')" "kheap_inv h'" "heap_areas h' = heap_areas h - {(p, m)}"
    using kheap_free_ok [OF inv m] by blast
  have "q \<noteq> p" if "(q, k) \<in> heap_areas h'" for q k using that h'(3) heap_areas_fun [OF inv m] by auto
  then have "fst ` heap_areas h' = fst ` heap_areas h - {p}" using h'(3) by force
  moreover have "the ((H(p := None)) q) \<le> k" if "(q, k) \<in> heap_areas h'" for q k
    using that \<open>\<And>q k. (q, k) \<in> heap_areas h' \<Longrightarrow> q \<noteq> p\<close> [OF that] h'(3) H by (auto simp: held_ok_def)
  ultimately show ?thesis using h' H by (auto simp: held_ok_def kfree_def)
qed

lemma kfree_null: "kfree 0 h = (Ignored, h)"
  by (simp add: kfree_def kheap_free_def kheap_free_locked_def)

lemma kheap_reach_held: "kheap_reach H h \<Longrightarrow> held_ok H h"
proof (induction rule: kheap_reach.induct)
  case (init pages h)
  then show ?case using kheap_init_ok by (simp add: held_ok_def)
next
  case (calloc H h count sz p h')
  then show ?case using kmalloc_held [OF calloc.IH calloc.hyps(2)] kcalloc_kmalloc [OF calloc.hyps(2)]
    by (simp del: fun_upd_apply)
next
  case (free H h p n res h')
  then show ?case using kfree_held [OF free.IH free.hyps(2)] by (auto simp del: fun_upd_apply)
qed (auto simp: kfree_null simp del: fun_upd_apply dest: kmalloc_held kmalloc_null_held)

lemma blocks_ok_canaries: "blocks_ok lo bs hi \<Longrightarrow> b \<in> set bs \<Longrightarrow> canaries_ok b"
  by (induction lo bs hi rule: blocks_ok.induct) auto

text \<open>Evaluation of concrete runs.\<close>

lemma kheap_alloc_depth: "kheap_alloc_locked = kheap_alloc_n (Suc (Suc (Suc (Suc (Suc 0)))))"
  by (simp add: kheap_alloc_locked_def eval_nat_numeral del: kheap_alloc_n.simps)


lemmas kheap_run = kheap_init_def heap_grow_def grow_count_def wrap64_def kmalloc_def kheap_alloc_def kheap_alloc_depth
  slab_class_for_def slab_sizes_def kheap_first_fit_def total_block_size_def align_up_def kheap_take_def
  kheap_append_def kblock_free_def Let_def


text \<open>A small run: one page for the heap, one allocation, and its release.\<close>

definition heap0 :: kheap where "heap0 = the (kheap_init [True, True])"
definition heap1 :: kheap where "heap1 = snd (kmalloc 2000 heap0)"
definition heap2 :: kheap where "heap2 = snd (kfree (KHEAP_BASE + HEADER) heap1)"

lemma heap0_init: "kheap_init [True, True] = Some heap0"
  by (simp add: heap0_def kheap_run)

lemma heap1_malloc: "kmalloc 2000 heap0 = (Ptr (KHEAP_BASE + HEADER), heap1)"
  by (simp add: heap1_def heap0_def kheap_run)

lemma reach0: "kheap_reach Map.empty heap0"
  by (rule kheap_reach.init [OF heap0_init]) simp

lemma reach1: "kheap_reach [KHEAP_BASE + HEADER \<mapsto> 2000] heap1"
  using kheap_reach.malloc [OF reach0 _ heap1_malloc] by simp

lemma upd_release: "[p \<mapsto> n](p := None) = Map.empty"
  by (rule ext) simp

lemma reach2: "kheap_reach Map.empty heap2"
proof -
  have "kfree (KHEAP_BASE + HEADER) heap1 = (fst (kfree (KHEAP_BASE + HEADER) heap1), heap2)" by (simp add: heap2_def)
  from kheap_reach.free [OF reach1 _ this, of 2000] show ?thesis by (simp only: upd_release fun_upd_same)
qed

section \<open>Properties\<close>

text \<open>
  C5: for a kernel that boots with at most \<open>2^27\<close> pages for its heap, and whatever sequence of
  allocations, zeroed allocations and releases of held pointers its clients run, each request of
  at most \<open>2^64 - 4160\<close> bytes, the areas they hold, each with the bytes asked for, are pairwise
  disjoint and lie between the heap base and the end of the mapped heap, no canary is damaged, and
  the counters of used and total bytes and of blocks are those of the block list.  Larger
  requests and \<open>krealloc\<close> are left out: the size of the block wraps around for the former, and
  the latter can make allocations overlap.
\<close>

theorem kheap_sound:
  assumes "kheap_reach H h"
  shows "(\<forall>p n q m. H p = Some n \<and> H q = Some m \<and> p \<noteq> q \<longrightarrow> p + n \<le> q \<or> q + m \<le> p) \<and>
    (\<forall>p n. H p = Some n \<longrightarrow> KHEAP_BASE + HEADER \<le> p \<and> p + n \<le> kh_end h) \<and> kheap_check h \<and>
    kh_used h = user_bytes (kh_blocks h) \<and> kh_total h = sizes (kh_blocks h) \<and> kh_count h = length (kh_blocks h)"
proof -
  note H = kheap_reach_held [OF assms]
  have inv: "kheap_inv h" using H by (simp add: held_ok_def)
  have "p + n \<le> q \<or> q + m \<le> p" if pq: "H p = Some n" "H q = Some m" "p \<noteq> q" for p n q m
  proof -
    obtain n' where n': "(p, n') \<in> heap_areas h" "n \<le> n'" using held_area [OF H pq(1)] .
    obtain m' where m': "(q, m') \<in> heap_areas h" "m \<le> m'" using held_area [OF H pq(2)] .
    show ?thesis using heap_areas_disjoint [OF inv n'(1) m'(1)] n'(2) m'(2) pq(3) by auto
  qed
  moreover have "KHEAP_BASE + HEADER \<le> p \<and> p + n \<le> kh_end h" if p: "H p = Some n" for p n
  proof -
    obtain m where m: "(p, m) \<in> heap_areas h" "n \<le> m" using held_area [OF H p] .
    show ?thesis using heap_areas_bounds [OF inv m(1)] m(2) by simp
  qed
  moreover have "kheap_check h"
    using blocks_ok_canaries [OF kheap_invD(1) [OF inv]] by (auto simp: kheap_check_def list_all_iff canaries_ok_def)
  ultimately show ?thesis using kheap_invD(2-4) [OF inv] by blast
qed

theorem kheap_sound_witness:
  "kheap_reach [KHEAP_BASE + HEADER \<mapsto> 2000] heap1 \<and> KHEAP_BASE + HEADER + 2000 \<le> kh_end heap1 \<and> kheap_check heap1"
proof -
  note s = kheap_sound [OF reach1]
  have "KHEAP_BASE + HEADER + 2000 \<le> kh_end heap1"
    using s [THEN conjunct2, THEN conjunct1, rule_format, of "KHEAP_BASE + HEADER" 2000] by simp
  then show ?thesis using s reach1 by blast
qed

text \<open>
  C7: an allocation of at most \<open>2^64 - 4160\<close> bytes always ends within the recursion depth and never
  runs into unmapped memory.  It gives a pointer to an area of at least the bytes asked for that
  lies in the mapped heap and is disjoint from every area held, and adds exactly this area to
  those in use; or it gives NULL and leaves the areas in use as they are, which happens only for a
  request of 0 bytes, or when a page was refused, or when fewer than the pages of one slab
  region and of the request itself were left.
\<close>

theorem kmalloc_live:
  assumes "kheap_reach H h" "sz + 4160 \<le> 2 ^ 64"
  shows "(\<exists>p n h'. kmalloc sz h = (Ptr p, h') \<and> 0 < sz \<and> sz \<le> n \<and> KHEAP_BASE + HEADER \<le> p \<and> p + n \<le> kh_end h' \<and>
      (\<forall>q m. H q = Some m \<longrightarrow> p + n \<le> q \<or> q + m \<le> p) \<and> heap_areas h' = insert (p, n) (heap_areas h)) \<or>
    (\<exists>h'. kmalloc sz h = (Null, h') \<and> heap_areas h' = heap_areas h \<and>
      (sz = 0 \<or> False \<in> set (kh_pages h) \<or> length (kh_pages h) < 17 + grow_count (total_block_size sz)))"
proof (cases "sz = 0")
  case True
  then show ?thesis by (simp add: kmalloc_zero)
next
  case False
  note H = kheap_reach_held [OF assms(1)]
  obtain r h' where r: "kmalloc sz h = (r, h')" by fastforce
  have ar: "alloc_result sz h (r, h')" using kmalloc_result [OF H _ assms(2)] False r by simp
  show ?thesis
  proof (cases r)
    case (Ptr p)
    then obtain n where n: "kheap_inv h'" "sz \<le> n" "\<forall>k. (p, k) \<notin> heap_areas h" "heap_areas h' = insert (p, n) (heap_areas h)"
      using ar by (auto simp: alloc_result_def)
    have "p + n \<le> q \<or> q + m \<le> p" if q: "H q = Some m" for q m
    proof -
      obtain m' where m': "(q, m') \<in> heap_areas h" "m \<le> m'" using held_area [OF H q] .
      then show ?thesis using heap_areas_disjoint [OF n(1), of p n q m'] n(3,4) by fastforce
    qed
    then show ?thesis using r Ptr False n heap_areas_bounds [OF n(1), of p n]
      by (intro disjI1 exI [of _ p] exI [of _ n] exI [of _ h']) simp
  next
    case Null
    then show ?thesis using r ar by (auto simp: alloc_result_def short_of_pages_def)
  qed (use ar in \<open>auto simp: alloc_result_def\<close>)
qed

theorem kmalloc_live_witness:
  "kheap_reach Map.empty heap0 \<and> (\<exists>n h'. kmalloc 2000 heap0 = (Ptr (KHEAP_BASE + HEADER), h') \<and> 2000 \<le> n \<and>
     KHEAP_BASE + HEADER + n \<le> kh_end h' \<and> (KHEAP_BASE + HEADER, n) \<in> heap_areas h')"
  using kmalloc_live [OF reach0, of 2000] heap1_malloc reach0 by auto

text \<open>
  C8: releasing a held pointer succeeds: the canaries are found intact, and the size class of a slab
  object or the block is found.  Exactly the area of this pointer, of at least the bytes held, is
  taken out of the areas in use; every other area stays as it is.
\<close>

theorem kfree_exact:
  assumes "kheap_reach H h" "H p = Some n"
  shows "\<exists>h' m. kfree p h = (Freed, h') \<and> n \<le> m \<and> (p, m) \<in> heap_areas h \<and> heap_areas h' = heap_areas h - {(p, m)}"
proof -
  note H = kheap_reach_held [OF assms(1)]
  obtain m where m: "(p, m) \<in> heap_areas h" "n \<le> m" using held_area [OF H assms(2)] .
  then show ?thesis using kheap_free_ok [OF _ m(1)] H by (auto simp: held_ok_def kfree_def)
qed

theorem kfree_exact_witness:
  "\<exists>m. kfree (KHEAP_BASE + HEADER) heap1 = (Freed, heap2) \<and> 2000 \<le> m \<and> (KHEAP_BASE + HEADER, m) \<in> heap_areas heap1 \<and>
     (KHEAP_BASE + HEADER, m) \<notin> heap_areas heap2"
proof -
  obtain h' m where k: "kfree (KHEAP_BASE + HEADER) heap1 = (Freed, h')" "2000 \<le> m" "(KHEAP_BASE + HEADER, m) \<in> heap_areas heap1"
      "heap_areas h' = heap_areas heap1 - {(KHEAP_BASE + HEADER, m)}"
    using kfree_exact [OF reach1 fun_upd_same] by blast
  have "h' = heap2" unfolding heap2_def k(1) by simp
  then show ?thesis using k by blast
qed

text \<open>
  The bound on the size matters.  The size of the block wraps around for a request of
  \<open>2^64 - 1\<close> bytes: \<open>kmalloc\<close> answers with a block that has no room at all, and the next allocation
  is given memory inside the area that was promised.
\<close>

lemma kmalloc_wraps:
  "\<exists>h0 p h1 q h2. kheap_init [True] = Some h0 \<and> kmalloc (2 ^ 64 - 1) h0 = (Ptr p, h1) \<and> kmalloc 2000 h1 = (Ptr q, h2) \<and>
     total_block_size (2 ^ 64 - 1) = OVERHEAD \<and> p < q \<and> q < p + (2 ^ 64 - 1)"
  by (simp add: kheap_run)

text \<open>
  C33: nothing leaks: once every pointer has been released, the only blocks still in use are the
  regions of the slab pools, and every object of every region is on its pool's free list.
\<close>

theorem kheap_no_leak:
  assumes "kheap_reach Map.empty h"
  shows "(\<forall>b\<in>set (kh_blocks h). kb_used b \<longrightarrow> (\<exists>r\<in>set (kh_ranges h). sr_start r = kb_addr b + HEADER)) \<and>
    (\<forall>r\<in>set (kh_ranges h). range_objs r \<subseteq> set (sp_free (kh_pools h ! sr_pool r)))"
proof -
  have "heap_areas h = {}" using kheap_reach_held [OF assms] by (simp add: held_ok_def)
  then have g: "\<And>a s. (a, s) \<in> used_blocks (kh_blocks h) \<Longrightarrow> a + HEADER \<in> sr_start ` set (kh_ranges h)"
    and o: "\<And>r p. r \<in> set (kh_ranges h) \<Longrightarrow> p \<in> range_objs r \<Longrightarrow> p \<in> set (sp_free (kh_pools h ! sr_pool r))"
    unfolding heap_areas_def handed_def by blast+
  have "\<exists>r\<in>set (kh_ranges h). sr_start r = kb_addr b + HEADER" if b: "b \<in> set (kh_blocks h)" "kb_used b" for b
    using g [of "kb_addr b" "kb_size b"] b by (auto simp: used_blocks_def image_iff eq_commute)
  then show ?thesis using o by blast
qed

theorem kheap_no_leak_witness: "kheap_reach Map.empty heap2 \<and> list_all (\<lambda>b. \<not> kb_used b) (kh_blocks heap2)"
proof -
  have "kh_ranges heap2 = []" by (simp add: heap2_def heap1_def heap0_def kheap_run kfree_def kheap_free_def kheap_free_locked_def
    slab_range_lookup_def slab_bisect.simps coalesce_prev_def)
  then show ?thesis using kheap_no_leak [OF reach2] reach2 by (auto simp: list_all_iff)
qed

text \<open>
  C34: growing a block in place breaks this.  After allocations of 2000 and 3000 bytes, \<open>krealloc\<close> of the
  first to 2500 bytes leaves a free block that reaches into the second allocation, and the next
  allocation of 3000 bytes is given memory of the second one.
\<close>

theorem krealloc_overlaps:
  "\<exists>h0 a b c h1 h2 h3 h4. kheap_init [True, True, True] = Some h0 \<and> kmalloc 2000 h0 = (Ptr a, h1) \<and>
     kmalloc 3000 h1 = (Ptr b, h2) \<and> krealloc a 2500 h2 = (Ptr a, h3) \<and> kmalloc 3000 h3 = (Ptr c, h4) \<and>
     c \<noteq> b \<and> c < b + 3000 \<and> b < c + 3000"
  by (simp add: kheap_run krealloc_def kheap_realloc_def slab_range_lookup_def slab_bisect.simps kheap_try_expand_locked_def sub64_def)

end
