(* ===== verification/Vma.thy ===== *)
theory Vma
  imports Prelude "HOL-Library.AList"
begin

text \<open>
  Memory mappings of a process, \<open>kernel/mm/vma.c\<close>, with what it uses of the page objects of
  \<open>kernel/mm/vm_object.c\<close>.

  A function of \<open>vma.c\<close> that drops \<open>vma_lock\<close> in the middle is cut there: each stretch under one
  lock is a definition of its own, and what the thread carries over the gap is a value of
  \<open>pending\<close>.  The function itself is the composition of its sections; the interleavings of the
  sections of several threads, and of the reclaimer, are the steps of \<open>vm_step\<close>.

  The page table of the address space maps page addresses to a frame and its flags.  The answers
  of \<open>kmalloc\<close> and of the page-table allocator are the list \<open>vm_mem\<close>, consumed from the front; the
  free frames are the list \<open>vm_frames\<close>.  The pages of an object are an association list from the
  index: the hash index and the eviction lists of the code are not modelled, nor are the contents
  of pages.  A frame that is found by reclaiming is modelled as a reclaim before the request.
\<close>

section \<open>Flags\<close>

abbreviation (input) PAGE_SIZE :: nat where "PAGE_SIZE \<equiv> 4096"
abbreviation (input) PROT_NONE :: u32 where "PROT_NONE \<equiv> 0"
abbreviation (input) PROT_READ :: u32 where "PROT_READ \<equiv> 1"
abbreviation (input) PROT_WRITE :: u32 where "PROT_WRITE \<equiv> 2"
abbreviation (input) PROT_EXEC :: u32 where "PROT_EXEC \<equiv> 4"
abbreviation (input) MAP_SHARED :: u32 where "MAP_SHARED \<equiv> 1"
abbreviation (input) MAP_PRIVATE :: u32 where "MAP_PRIVATE \<equiv> 2"
abbreviation (input) MAP_FIXED :: u32 where "MAP_FIXED \<equiv> 0x10"
abbreviation (input) MAP_ANONYMOUS :: u32 where "MAP_ANONYMOUS \<equiv> 0x20"
abbreviation (input) VMA_DYING :: u32 where "VMA_DYING \<equiv> 0x80000000"
abbreviation (input) VMA_NO_SHARED_WRITE :: u32 where "VMA_NO_SHARED_WRITE \<equiv> 0x40000000"
abbreviation (input) VMM_WRITABLE :: u64 where "VMM_WRITABLE \<equiv> 2"
abbreviation (input) VMM_USER :: u64 where "VMM_USER \<equiv> 4"
abbreviation (input) VMM_EXEC :: u64 where "VMM_EXEC \<equiv> 0x200"
abbreviation (input) VMM_NX :: u64 where "VMM_NX \<equiv> 0x8000000000000000"

definition has :: "'a::len word \<Rightarrow> 'a word \<Rightarrow> bool" where
  "has f b \<longleftrightarrow> f AND b \<noteq> 0"

section \<open>State\<close>

record vm_area =
  va_start :: nat
  va_end :: nat
  va_prot :: u32
  va_flags :: u32
  va_obj :: "nat option"
  va_off :: nat

record vmo_page =
  pg_phys :: nat
  pg_slot :: nat
  pg_dirty :: bool
  pg_wired :: nat

record vm_object =
  vo_refs :: nat
  vo_anon :: bool
  vo_vn :: nat
  vo_size :: nat
  vo_mapper :: "nat option"
  vo_pages :: "(nat \<times> vmo_page) list"

record vm =
  vm_vmas :: "vm_area list"
  vm_pt :: "nat \<Rightarrow> (nat \<times> u64) option"
  vm_objs :: "nat \<Rightarrow> vm_object option"
  vm_next :: nat
  vm_frames :: "nat list"
  vm_mem :: "bool list"
  mmap_base :: nat
  mmap_max :: nat
  heap_base :: nat
  heap_max :: nat

definition take_mem :: "vm \<Rightarrow> bool \<times> vm" where
  "take_mem s = (case vm_mem s of [] \<Rightarrow> (False, s) | b # bs \<Rightarrow> (b, s\<lparr>vm_mem := bs\<rparr>))"

definition pmm_take :: "vm \<Rightarrow> nat \<times> vm" where
  "pmm_take s = (case vm_frames s of [] \<Rightarrow> (0, s) | f # fs \<Rightarrow> (f, s\<lparr>vm_frames := fs\<rparr>))"

definition pmm_give :: "nat \<Rightarrow> vm \<Rightarrow> vm" where
  "pmm_give f s = s\<lparr>vm_frames := f # vm_frames s\<rparr>"

section \<open>Page tables\<close>

definition vmm_get_phys_in :: "vm \<Rightarrow> nat \<Rightarrow> nat" where
  "vmm_get_phys_in s va = (case vm_pt s va of None \<Rightarrow> 0 | Some (f, _) \<Rightarrow> f)"

definition vmm_map_in :: "nat \<Rightarrow> nat \<Rightarrow> u64 \<Rightarrow> vm \<Rightarrow> bool \<times> vm" where
  "vmm_map_in va f fl s =
     (let (ok, s1) = take_mem s in
      if ok then (True, s1\<lparr>vm_pt := (vm_pt s1)(va \<mapsto> (f, fl))\<rparr>) else (False, s1))"

definition vmm_protect_in :: "nat \<Rightarrow> u64 \<Rightarrow> vm \<Rightarrow> vm" where
  "vmm_protect_in va fl s =
     (case vm_pt s va of None \<Rightarrow> s | Some (f, _) \<Rightarrow> s\<lparr>vm_pt := (vm_pt s)(va \<mapsto> (f, fl))\<rparr>)"

definition vmm_unmap_in :: "nat \<Rightarrow> vm \<Rightarrow> vm" where
  "vmm_unmap_in va s = s\<lparr>vm_pt := (vm_pt s)(va := None)\<rparr>"

section \<open>Objects\<close>

definition upd_obj :: "nat \<Rightarrow> (vm_object \<Rightarrow> vm_object) \<Rightarrow> vm \<Rightarrow> vm" where
  "upd_obj ob f s = s\<lparr>vm_objs := (vm_objs s)(ob := map_option f (vm_objs s ob))\<rparr>"

definition upd_page :: "nat \<Rightarrow> nat \<Rightarrow> (vmo_page \<Rightarrow> vmo_page) \<Rightarrow> vm \<Rightarrow> vm" where
  "upd_page ob i f = upd_obj ob (\<lambda>x. x\<lparr>vo_pages := map (\<lambda>(j, p). (j, if j = i then f p else p)) (vo_pages x)\<rparr>)"

definition page_find :: "vm \<Rightarrow> nat \<Rightarrow> nat \<Rightarrow> vmo_page option" where
  "page_find s ob i = (case vm_objs s ob of None \<Rightarrow> None | Some x \<Rightarrow> map_of (vo_pages x) i)"

definition obj_anon :: "vm \<Rightarrow> nat \<Rightarrow> bool" where
  "obj_anon s ob = (case vm_objs s ob of None \<Rightarrow> False | Some x \<Rightarrow> vo_anon x)"

text \<open>
  The registry of the cache: file \<open>vn\<close> has at most one object.  \<open>usable\<close>: is the cache running and
  the file a real one?  \<open>sz\<close> is the length the file system reports.
\<close>

definition registry_find :: "nat \<Rightarrow> vm \<Rightarrow> nat option" where
  "registry_find vn s =
     find (\<lambda>ob. case vm_objs s ob of None \<Rightarrow> False | Some x \<Rightarrow> \<not> vo_anon x \<and> vo_vn x = vn) (rev [0..<vm_next s])"

definition vmo_get :: "nat \<Rightarrow> bool \<Rightarrow> nat \<Rightarrow> vm \<Rightarrow> nat option \<times> vm" where
  "vmo_get vn usable sz s =
     (if \<not> usable then (None, s)
      else
        case registry_find vn s of
          Some ob \<Rightarrow> (Some ob, upd_obj ob (\<lambda>x. x\<lparr>vo_refs := vo_refs x + 1\<rparr>) s)
        | None \<Rightarrow>
            let (ok, s1) = take_mem s in
            if ok then
              (Some (vm_next s1), s1\<lparr>vm_next := vm_next s1 + 1, vm_objs := (vm_objs s1)(vm_next s1 \<mapsto>
                 \<lparr>vo_refs = 1, vo_anon = False, vo_vn = vn, vo_size = sz, vo_mapper = None, vo_pages = []\<rparr>)\<rparr>)
            else (None, s1))"

definition vmo_ref :: "nat \<Rightarrow> vm \<Rightarrow> vm" where
  "vmo_ref ob = upd_obj ob (\<lambda>x. x\<lparr>vo_refs := vo_refs x + 1\<rparr>)"

definition page_frames :: "(nat \<times> vmo_page) list \<Rightarrow> nat list" where
  "page_frames ps = filter (\<lambda>f. f \<noteq> 0) (map (\<lambda>(i, p). pg_phys p) ps)"

definition vmo_put :: "nat \<Rightarrow> vm \<Rightarrow> vm" where
  "vmo_put ob s =
     (case vm_objs s ob of
        None \<Rightarrow> s
      | Some x \<Rightarrow>
          if vo_refs x > 1 then upd_obj ob (\<lambda>x. x\<lparr>vo_refs := vo_refs x - 1\<rparr>) s
          else s\<lparr>vm_objs := (vm_objs s)(ob := None), vm_frames := rev (page_frames (vo_pages x)) @ vm_frames s\<rparr>)"

definition vmo_create_anon :: "nat \<Rightarrow> vm \<Rightarrow> nat option \<times> vm" where
  "vmo_create_anon sz s =
     (if sz = 0 then (None, s)
      else
        let (ok, s1) = take_mem s in
        if ok then
          (Some (vm_next s1), s1\<lparr>vm_next := vm_next s1 + 1, vm_objs := (vm_objs s1)(vm_next s1 \<mapsto>
             \<lparr>vo_refs = 1, vo_anon = True, vo_vn = 0, vo_size = sz, vo_mapper = None, vo_pages = []\<rparr>)\<rparr>)
        else (None, s1))"

definition vmo_set_mapper :: "nat \<Rightarrow> nat \<Rightarrow> vm \<Rightarrow> vm" where
  "vmo_set_mapper ob base s = (if obj_anon s ob then upd_obj ob (\<lambda>x. x\<lparr>vo_mapper := Some base\<rparr>) s else s)"

definition vmo_page_phys :: "vm \<Rightarrow> nat \<Rightarrow> nat \<Rightarrow> nat" where
  "vmo_page_phys s ob i = (case page_find s ob i of None \<Rightarrow> 0 | Some p \<Rightarrow> pg_phys p)"

definition vmo_unwire_page :: "nat \<Rightarrow> nat \<Rightarrow> vm \<Rightarrow> vm" where
  "vmo_unwire_page ob i = upd_page ob i (\<lambda>p. p\<lparr>pg_wired := pg_wired p - 1\<rparr>)"

definition vmo_mark_dirty :: "nat \<Rightarrow> nat \<Rightarrow> vm \<Rightarrow> vm" where
  "vmo_mark_dirty ob i = upd_page ob i (\<lambda>p. p\<lparr>pg_dirty := True\<rparr>)"

text \<open>
  \<open>page_get\<close>: the page, brought in from the file or from its swap slot when it is not resident.
  \<open>io\<close>: does that read succeed?
  The read-ahead of neighbouring swap slots, which brings more pages of the object in, is left out.
\<close>

definition page_fill :: "nat \<Rightarrow> nat \<Rightarrow> bool \<Rightarrow> vm \<Rightarrow> bool \<times> vm" where
  "page_fill ob i io s =
     (let (f, s1) = pmm_take s in
      if f = 0 then (False, s1)
      else if (case vm_objs s ob of None \<Rightarrow> False | Some x \<Rightarrow> \<not> vo_anon x \<and> i * PAGE_SIZE < vo_size x) \<and> \<not> io
      then (False, pmm_give f s1)
      else
        let (ok, s2) = take_mem s1 in
        if \<not> ok then (False, pmm_give f s2)
        else (True, upd_obj ob (\<lambda>x. x\<lparr>vo_pages := (i, \<lparr>pg_phys = f, pg_slot = 0, pg_dirty = False, pg_wired = 0\<rparr>) # vo_pages x\<rparr>) s2))"

definition page_get :: "nat \<Rightarrow> nat \<Rightarrow> bool \<Rightarrow> vm \<Rightarrow> bool \<times> vm" where
  "page_get ob i io s =
     (case page_find s ob i of
        Some p \<Rightarrow>
          if pg_phys p \<noteq> 0 then (True, s)
          else
            let (f, s1) = pmm_take s in
            if f = 0 then (False, s1)
            else if \<not> io then (False, pmm_give f s1)
            else (True, upd_page ob i (\<lambda>p. p\<lparr>pg_phys := f, pg_slot := 0\<rparr>) s1)
      | None \<Rightarrow> page_fill ob i io s)"

definition vmo_wire_page :: "nat \<Rightarrow> nat \<Rightarrow> bool \<Rightarrow> vm \<Rightarrow> nat \<times> vm" where
  "vmo_wire_page ob i io s =
     (let (ok, s1) = page_get ob i io s in
      if \<not> ok then (0, s1)
      else (vmo_page_phys s1 ob i, upd_page ob i (\<lambda>p. p\<lparr>pg_wired := pg_wired p + 1\<rparr>) s1))"

text \<open>Cutting a file short, and forgetting what is cached of it.  Neither asks whether a page is mapped.\<close>

definition truncate_locked :: "nat \<Rightarrow> nat \<Rightarrow> vm \<Rightarrow> vm" where
  "truncate_locked ob sz s =
     (case vm_objs s ob of
        None \<Rightarrow> s
      | Some x \<Rightarrow>
          let first_gone = wrap64 (sz + PAGE_SIZE - 1) div PAGE_SIZE; gone = filter (\<lambda>(i, p). i \<ge> first_gone) (vo_pages x) in
          upd_obj ob (\<lambda>x. x\<lparr>vo_size := sz, vo_pages := filter (\<lambda>(i, p). \<not> i \<ge> first_gone) (vo_pages x)\<rparr>)
            (s\<lparr>vm_frames := rev (page_frames gone) @ vm_frames s\<rparr>))"

definition vmo_truncated :: "nat \<Rightarrow> nat \<Rightarrow> vm \<Rightarrow> vm" where
  "vmo_truncated ob sz s = truncate_locked ob sz s"

definition vmo_file_truncated :: "nat \<Rightarrow> nat \<Rightarrow> vm \<Rightarrow> vm" where
  "vmo_file_truncated vn sz s = (case registry_find vn s of None \<Rightarrow> s | Some ob \<Rightarrow> truncate_locked ob sz s)"

definition vmo_invalidate :: "nat \<Rightarrow> vm \<Rightarrow> vm" where
  "vmo_invalidate ob s =
     (case vm_objs s ob of
        None \<Rightarrow> s
      | Some x \<Rightarrow> upd_obj ob (\<lambda>x. x\<lparr>vo_size := 0, vo_pages := []\<rparr>)
          (s\<lparr>vm_frames := rev (page_frames (vo_pages x)) @ vm_frames s\<rparr>))"

definition anon_unmap_locked :: "vm_object \<Rightarrow> nat \<times> vmo_page \<Rightarrow> vm \<Rightarrow> vm" where
  "anon_unmap_locked x ip s =
     (case vo_mapper x of
        Some base \<Rightarrow> if pg_wired (snd ip) \<noteq> 0 then vmm_unmap_in (base + fst ip * PAGE_SIZE) s else s
      | None \<Rightarrow> s)"

definition vmo_discard_range :: "nat \<Rightarrow> nat \<Rightarrow> nat \<Rightarrow> vm \<Rightarrow> vm" where
  "vmo_discard_range ob first count s =
     (case vm_objs s ob of
        None \<Rightarrow> s
      | Some x \<Rightarrow>
          if \<not> vo_anon x \<or> count = 0 then s
          else
            let gone = filter (\<lambda>(i, p). first \<le> i \<and> i - first < count) (vo_pages x);
                s1 = fold (anon_unmap_locked x) gone s in
            upd_obj ob (\<lambda>x. x\<lparr>vo_pages := filter (\<lambda>(i, p). \<not> (first \<le> i \<and> i - first < count)) (vo_pages x)\<rparr>)
              (s1\<lparr>vm_frames := rev (page_frames gone) @ vm_frames s1\<rparr>))"

definition vmo_detach_mapper :: "nat \<Rightarrow> vm \<Rightarrow> vm" where
  "vmo_detach_mapper ob s =
     (case vm_objs s ob of
        None \<Rightarrow> s
      | Some x \<Rightarrow>
          if \<not> vo_anon x then s
          else upd_obj ob (\<lambda>x. x\<lparr>vo_mapper := None, vo_pages :=
                 (if vo_mapper x = None then vo_pages x else map (\<lambda>(i, p). (i, p\<lparr>pg_wired := 0\<rparr>)) (vo_pages x))\<rparr>)
               (fold (anon_unmap_locked x) (vo_pages x) s))"

text \<open>
  What the reclaimer does to one page.  An unwired file page is dropped.  An anonymous page is taken
  when it is unwired, or mapped exactly where its object says; taken out of the page table, it
  goes to a swap slot, or stays resident when the store refuses (\<open>slot\<close> is 0).
\<close>

definition reclaim_file_page :: "nat \<Rightarrow> nat \<Rightarrow> vm \<Rightarrow> vm" where
  "reclaim_file_page ob i s =
     (case (vm_objs s ob, page_find s ob i) of
        (Some x, Some p) \<Rightarrow>
          if vo_anon x \<or> pg_wired p \<noteq> 0 then s
          else pmm_give (pg_phys p) (upd_obj ob (\<lambda>x. x\<lparr>vo_pages := AList.delete i (vo_pages x)\<rparr>) s)
      | _ \<Rightarrow> s)"

definition reclaim_take :: "nat \<Rightarrow> nat \<Rightarrow> vm \<Rightarrow> vm option" where
  "reclaim_take ob i s =
     (case (vm_objs s ob, page_find s ob i) of
        (Some x, Some p) \<Rightarrow>
          if \<not> vo_anon x \<or> pg_phys p = 0 then None
          else if pg_wired p = 0 then Some s
          else
            (case vo_mapper x of
               None \<Rightarrow> None
             | Some base \<Rightarrow>
                 if pg_wired p \<noteq> 1 \<or> vmm_get_phys_in s (base + i * PAGE_SIZE) \<noteq> pg_phys p then None
                 else Some (upd_page ob i (\<lambda>p. p\<lparr>pg_wired := 0\<rparr>) (vmm_unmap_in (base + i * PAGE_SIZE) s)))
      | _ \<Rightarrow> None)"

definition anon_out :: "nat \<Rightarrow> nat \<Rightarrow> nat \<Rightarrow> vm \<Rightarrow> vm" where
  "anon_out ob i slot s =
     (if slot = 0 then s
      else pmm_give (vmo_page_phys s ob i) (upd_page ob i (\<lambda>p. p\<lparr>pg_phys := 0, pg_slot := slot\<rparr>) s))"

definition reclaim_anon_page :: "nat \<Rightarrow> nat \<Rightarrow> nat \<Rightarrow> vm \<Rightarrow> vm" where
  "reclaim_anon_page ob i slot s = (case reclaim_take ob i s of None \<Rightarrow> s | Some s1 \<Rightarrow> anon_out ob i slot s1)"

section \<open>The list of mappings\<close>

definition page_align_up :: "nat \<Rightarrow> nat" where
  "page_align_up v = wrap64 (v + PAGE_SIZE - 1) div PAGE_SIZE * PAGE_SIZE"

definition prot_to_vmm :: "u32 \<Rightarrow> u64" where
  "prot_to_vmm prot =
     (if prot \<noteq> PROT_NONE then VMM_USER else 0) OR
     (if has prot PROT_WRITE then VMM_WRITABLE else 0) OR
     (if has prot PROT_EXEC then VMM_EXEC else VMM_NX)"

text \<open>The candidate after the walk of \<open>find_gap\<close>.\<close>

fun gap_walk :: "nat \<Rightarrow> nat \<Rightarrow> vm_area list \<Rightarrow> nat" where
  "gap_walk len cand [] = cand"
| "gap_walk len cand (v # vs) =
     (if va_start v \<ge> wrap64 (cand + len) then cand
      else gap_walk len (if va_end v > cand then va_end v else cand) vs)"

definition find_gap :: "vm \<Rightarrow> nat \<Rightarrow> nat" where
  "find_gap s len =
     (let cand = gap_walk len (mmap_base s) (vm_vmas s) in
      if wrap64 (cand + len) > mmap_max s \<or> wrap64 (cand + len) < cand then 0 else cand)"

definition range_is_free :: "vm \<Rightarrow> nat \<Rightarrow> nat \<Rightarrow> bool" where
  "range_is_free s lo hi \<longleftrightarrow> \<not> list_ex (\<lambda>v. lo < va_end v \<and> va_start v < hi) (vm_vmas s)"

definition vma_insert :: "vm_area \<Rightarrow> vm_area list \<Rightarrow> vm_area list" where
  "vma_insert nv vs = takeWhile (\<lambda>v. va_start v < va_start nv) vs @ nv # dropWhile (\<lambda>v. va_start v < va_start nv) vs"

fun vma_find :: "vm_area list \<Rightarrow> nat \<Rightarrow> vm_area option" where
  "vma_find [] addr = None"
| "vma_find (v # vs) addr =
     (if addr < va_start v then None
      else if addr < va_end v then (if has (va_flags v) VMA_DYING then None else Some v)
      else vma_find vs addr)"

definition vma_unlink :: "vm_area \<Rightarrow> vm_area list \<Rightarrow> vm_area list" where
  "vma_unlink v vs = remove1 v vs"

text \<open>Cutting the mapping that contains \<open>at\<close>: where it is, the halves, and the state with the reference of the second.\<close>

definition cut_head :: "nat \<Rightarrow> vm_area \<Rightarrow> vm_area" where
  "cut_head at v = v\<lparr>va_end := at\<rparr>"

definition cut_tail :: "nat \<Rightarrow> vm_area \<Rightarrow> vm_area" where
  "cut_tail at v = v\<lparr>va_start := at, va_off := wrap64 (va_off v + (at - va_start v))\<rparr>"

definition vma_split_at :: "nat \<Rightarrow> vm \<Rightarrow> bool \<times> vm" where
  "vma_split_at at s =
     (case dropWhile (\<lambda>v. at \<le> va_start v \<or> at \<ge> va_end v) (vm_vmas s) of
        [] \<Rightarrow> (True, s)
      | v # post \<Rightarrow>
          if has (va_flags v) VMA_DYING then (True, s)
          else
            let (ok, s1) = take_mem s in
            if \<not> ok then (False, s1)
            else
              let pre = takeWhile (\<lambda>v. at \<le> va_start v \<or> at \<ge> va_end v) (vm_vmas s);
                  s2 = (case va_obj v of None \<Rightarrow> s1 | Some ob \<Rightarrow> vmo_ref ob s1) in
              (True, s2\<lparr>vm_vmas := pre @ cut_head at v # cut_tail at v # post\<rparr>))"

definition split_range :: "nat \<Rightarrow> nat \<Rightarrow> vm \<Rightarrow> bool \<times> vm" where
  "split_range lo hi s = (let (ok, s1) = vma_split_at lo s in if ok then vma_split_at hi s1 else (False, s1))"

definition install_locked :: "nat \<Rightarrow> nat \<Rightarrow> u32 \<Rightarrow> u32 \<Rightarrow> nat \<Rightarrow> nat \<Rightarrow> vm \<Rightarrow> bool \<times> vm" where
  "install_locked start len prot flags ob off s =
     (let (ok, s1) = take_mem s in
      if \<not> ok then (False, s1)
      else (True, s1\<lparr>vm_vmas := vma_insert
        \<lparr>va_start = start, va_end = wrap64 (start + len), va_prot = prot, va_flags = flags, va_obj = Some ob, va_off = off\<rparr>
        (vm_vmas s1)\<rparr>))"

definition anon_object_for :: "nat \<Rightarrow> nat \<Rightarrow> vm \<Rightarrow> nat option \<times> vm" where
  "anon_object_for start len s =
     (case vmo_create_anon len s of
        (Some ob, s1) \<Rightarrow> (Some ob, vmo_set_mapper ob start s1)
      | (None, s1) \<Rightarrow> (None, s1))"

section \<open>Mapping\<close>

text \<open>The arguments \<open>vma_map_common\<close> refuses, and the address it chooses.\<close>

definition map_args_ok :: "vm \<Rightarrow> nat \<Rightarrow> u32 \<Rightarrow> u32 \<Rightarrow> bool" where
  "map_args_ok s len prot flags \<longleftrightarrow>
     len \<noteq> 0 \<and> page_align_up len \<noteq> 0 \<and> page_align_up len \<le> mmap_max s - mmap_base s \<and>
     has flags MAP_SHARED \<noteq> has flags MAP_PRIVATE \<and> \<not> (has prot PROT_WRITE \<and> has prot PROT_EXEC) \<and>
     \<not> has flags VMA_DYING"

definition map_choose :: "nat \<Rightarrow> nat \<Rightarrow> u32 \<Rightarrow> vm \<Rightarrow> nat res" where
  "map_choose addr len flags s =
     (if has flags MAP_FIXED then
        if addr mod PAGE_SIZE \<noteq> 0 then Inl EINVAL
        else if addr < mmap_base s \<or> wrap64 (addr + len) > mmap_max s then Inl EINVAL
        else if \<not> range_is_free s addr (wrap64 (addr + len)) then Inl EEXIST
        else Inr addr
      else if find_gap s len = 0 then Inl ENOMEM else Inr (find_gap s len))"

text \<open>
  The second locked section: the object has been made outside the lock, so the range is checked
  again.  \<open>None\<close>: the range was lost and the object is given back.
\<close>

definition map_install :: "nat \<Rightarrow> nat \<Rightarrow> u32 \<Rightarrow> u32 \<Rightarrow> nat \<Rightarrow> vm \<Rightarrow> bool option \<times> vm" where
  "map_install start len prot flags ob s =
     (if range_is_free s start (wrap64 (start + len)) then
        let (ok, s1) = install_locked start len prot flags ob 0 s in
        (Some ok, if ok then s1 else vmo_put ob s1)
      else (None, vmo_put ob s))"

primrec map_anon_loop :: "nat \<Rightarrow> nat \<Rightarrow> nat \<Rightarrow> u32 \<Rightarrow> u32 \<Rightarrow> vm \<Rightarrow> nat res \<times> vm" where
  "map_anon_loop 0 addr len prot flags s = (Inl ENOMEM, s)"
| "map_anon_loop (Suc n) addr len prot flags s =
     (case map_choose addr len flags s of
        Inl e \<Rightarrow> (Inl e, s)
      | Inr start \<Rightarrow>
          (case anon_object_for start len s of
             (None, s1) \<Rightarrow> (Inl ENOMEM, s1)
           | (Some ob, s1) \<Rightarrow>
               (case map_install start len prot flags ob s1 of
                  (Some True, s2) \<Rightarrow> (Inr start, s2)
                | (Some False, s2) \<Rightarrow> (Inl ENOMEM, s2)
                | (None, s2) \<Rightarrow> if has flags MAP_FIXED then (Inl EEXIST, s2) else map_anon_loop n addr len prot flags s2)))"

definition vma_map_common :: "nat \<Rightarrow> nat \<Rightarrow> u32 \<Rightarrow> u32 \<Rightarrow> nat option \<Rightarrow> nat \<Rightarrow> vm \<Rightarrow> nat res \<times> vm" where
  "vma_map_common addr len prot flags obj off s =
     (if \<not> map_args_ok s len prot flags then (Inl EINVAL, s)
      else
        let len = page_align_up len in
        case obj of
          None \<Rightarrow> map_anon_loop 8 addr len prot flags s
        | Some ob \<Rightarrow>
            (case map_choose addr len flags s of
               Inl e \<Rightarrow> (Inl e, s)
             | Inr start \<Rightarrow>
                 let (ok, s1) = install_locked start len prot flags ob off s in
                 if ok then (Inr start, s1) else (Inl ENOMEM, s1)))"

definition vma_mmap :: "nat \<Rightarrow> nat \<Rightarrow> u32 \<Rightarrow> u32 \<Rightarrow> vm \<Rightarrow> nat res \<times> vm" where
  "vma_mmap addr len prot flags s =
     (if \<not> has flags MAP_ANONYMOUS \<or> \<not> has flags MAP_PRIVATE then (Inl EINVAL, s)
      else if has flags MAP_SHARED then (Inl EINVAL, s)
      else vma_map_common addr len prot flags None 0 s)"

text \<open>\<open>check\<close> is the answer of the file system's write check for an object that is not anonymous.\<close>

definition vmo_check_write :: "(nat \<Rightarrow> errno option) \<Rightarrow> nat \<Rightarrow> vm \<Rightarrow> errno option" where
  "vmo_check_write check ob s = (if obj_anon s ob then None else check ob)"

definition vma_mmap_file :: "(nat \<Rightarrow> errno option) \<Rightarrow> nat \<Rightarrow> u32 \<Rightarrow> u32 \<Rightarrow> nat option \<Rightarrow> nat \<Rightarrow> bool \<Rightarrow> vm \<Rightarrow> nat res \<times> vm" where
  "vma_mmap_file check len prot flags obj off may_write s =
     (if has flags VMA_NO_SHARED_WRITE then (Inl EINVAL, s)
      else if \<not> may_write \<and> has flags MAP_SHARED \<and> has prot PROT_WRITE then (Inl EACCES, s)
      else
        let flags = (if \<not> may_write \<and> has flags MAP_SHARED then flags OR VMA_NO_SHARED_WRITE else flags) in
        case obj of
          None \<Rightarrow> (Inl EINVAL, s)
        | Some ob \<Rightarrow>
            (case (if has flags MAP_SHARED \<and> has prot PROT_WRITE then vmo_check_write check ob s else None) of
               Some e \<Rightarrow> (Inl e, s)
             | None \<Rightarrow>
                 if off mod PAGE_SIZE \<noteq> 0 then (Inl EINVAL, s)
                 else if has flags MAP_ANONYMOUS then (Inl EINVAL, s)
                 else vma_map_common 0 len prot flags (Some ob) off s))"

section \<open>Unmapping\<close>

definition area_pages :: "vm_area \<Rightarrow> nat list" where
  "area_pages v = map (\<lambda>k. va_start v + k * PAGE_SIZE) [0..<(va_end v - va_start v + PAGE_SIZE - 1) div PAGE_SIZE]"

definition page_index :: "vm_area \<Rightarrow> nat \<Rightarrow> nat" where
  "page_index v va = wrap64 (va_off v + (va - va_start v)) div PAGE_SIZE"

text \<open>One page of a file mapping: whose frame is it?\<close>

definition unmap_page :: "vm_area \<Rightarrow> nat \<Rightarrow> vm \<Rightarrow> vm" where
  "unmap_page v va s =
     (let pa = vmm_get_phys_in s va in
      if pa = 0 then s
      else
        let s1 = vmm_unmap_in va s in
        case va_obj v of
          None \<Rightarrow> pmm_give pa s1
        | Some ob \<Rightarrow>
            if pa = vmo_page_phys s1 ob (page_index v va) then vmo_unwire_page ob (page_index v va) s1 else pmm_give pa s1)"

definition unmap_range_pages :: "vm_area \<Rightarrow> vm \<Rightarrow> vm" where
  "unmap_range_pages v s = fold (unmap_page v) (area_pages v) s"

definition unmap_area :: "vm_area \<Rightarrow> vm \<Rightarrow> vm" where
  "unmap_area v s =
     (case va_obj v of
        Some ob \<Rightarrow>
          if obj_anon s ob then vmo_discard_range ob (va_off v div PAGE_SIZE) ((va_end v - va_start v) div PAGE_SIZE) s
          else unmap_range_pages v s
      | None \<Rightarrow> unmap_range_pages v s)"

definition in_range :: "nat \<Rightarrow> nat \<Rightarrow> vm_area \<Rightarrow> bool" where
  "in_range lo hi v \<longleftrightarrow> \<not> (va_end v \<le> lo \<or> va_start v \<ge> hi \<or> has (va_flags v) VMA_DYING)"

definition mark_dying :: "vm_area \<Rightarrow> vm_area" where
  "mark_dying v = v\<lparr>va_flags := va_flags v OR VMA_DYING\<rparr>"

text \<open>The first section: cut, and flag what lies in the range; the chain is built by pushing.\<close>

definition munmap_begin :: "nat \<Rightarrow> nat \<Rightarrow> vm \<Rightarrow> vm_area list res \<times> vm" where
  "munmap_begin addr len s =
     (if len = 0 \<or> addr mod PAGE_SIZE \<noteq> 0 then (Inl EINVAL, s)
      else if wrap64 (addr + page_align_up len) < addr then (Inl EINVAL, s)
      else
        let hi = wrap64 (addr + page_align_up len); (ok, s1) = split_range addr hi s in
        if \<not> ok then (Inl ENOMEM, s1)
        else
          let dying = rev (map mark_dying (filter (in_range addr hi) (vm_vmas s1)));
              s2 = s1\<lparr>vm_vmas := map (\<lambda>v. if in_range addr hi v then mark_dying v else v) (vm_vmas s1)\<rparr> in
          if dying = [] then (Inl EINVAL, s2) else (Inr dying, s2))"

definition put_area :: "vm_area \<Rightarrow> vm \<Rightarrow> vm" where
  "put_area v s = (case va_obj v of None \<Rightarrow> s | Some ob \<Rightarrow> vmo_put ob s)"

definition munmap_finish :: "vm_area list \<Rightarrow> vm \<Rightarrow> vm" where
  "munmap_finish dying s = fold put_area dying (s\<lparr>vm_vmas := fold vma_unlink dying (vm_vmas s)\<rparr>)"

definition vma_munmap :: "nat \<Rightarrow> nat \<Rightarrow> vm \<Rightarrow> unit res \<times> vm" where
  "vma_munmap addr len s =
     (case munmap_begin addr len s of
        (Inl e, s1) \<Rightarrow> (Inl e, s1)
      | (Inr dying, s1) \<Rightarrow> (Inr (), munmap_finish dying (fold unmap_area dying s1)))"

section \<open>Protection\<close>

text \<open>
  The walk before the lock: is the range covered, and may it be written?  \<open>None\<close> is the end of
  the walk, with the address up to which the range is covered.
\<close>

fun protect_walk :: "(nat \<Rightarrow> errno option) \<Rightarrow> vm \<Rightarrow> nat \<Rightarrow> u32 \<Rightarrow> nat \<Rightarrow> vm_area list \<Rightarrow> nat res" where
  "protect_walk check s hi prot covered [] = Inr covered"
| "protect_walk check s hi prot covered (v # vs) =
     (if covered \<ge> hi then Inr covered
      else if va_end v \<le> covered then protect_walk check s hi prot covered vs
      else if va_start v > covered \<or> has (va_flags v) VMA_DYING then Inr covered
      else if has prot PROT_WRITE \<and> has (va_flags v) VMA_NO_SHARED_WRITE then Inl EACCES
      else
        case (case va_obj v of
                None \<Rightarrow> None
              | Some ob \<Rightarrow> if has prot PROT_WRITE \<and> has (va_flags v) MAP_SHARED then vmo_check_write check ob s else None) of
          Some e \<Rightarrow> Inl e
        | None \<Rightarrow> protect_walk check s hi prot (va_end v) vs)"

definition protect_check :: "(nat \<Rightarrow> errno option) \<Rightarrow> nat \<Rightarrow> nat \<Rightarrow> u32 \<Rightarrow> vm \<Rightarrow> nat res" where
  "protect_check check addr len prot s =
     (if len = 0 \<or> addr mod PAGE_SIZE \<noteq> 0 then Inl EINVAL
      else
        let hi = wrap64 (addr + page_align_up len) in
        if hi < addr then Inl EINVAL
        else if has prot (NOT (PROT_READ OR PROT_WRITE OR PROT_EXEC)) then Inl EINVAL
        else if has prot PROT_WRITE \<and> has prot PROT_EXEC then Inl EINVAL
        else case protect_walk check s hi prot addr (vm_vmas s) of
          Inl e \<Rightarrow> Inl e
        | Inr covered \<Rightarrow> if covered < hi then Inl ENOMEM else Inr hi)"

definition private_file :: "vm \<Rightarrow> vm_area \<Rightarrow> bool" where
  "private_file s v \<longleftrightarrow> (case va_obj v of None \<Rightarrow> False | Some ob \<Rightarrow> \<not> obj_anon s ob) \<and> has (va_flags v) MAP_PRIVATE"

definition protect_area :: "u32 \<Rightarrow> vm_area \<Rightarrow> vm \<Rightarrow> vm" where
  "protect_area prot v s =
     (let fl = (if private_file s v then prot_to_vmm prot AND NOT VMM_WRITABLE else prot_to_vmm prot) in
      fold (\<lambda>va. vmm_protect_in va fl) (area_pages v) s)"

definition protect_apply :: "nat \<Rightarrow> nat \<Rightarrow> u32 \<Rightarrow> vm \<Rightarrow> unit res \<times> vm" where
  "protect_apply addr hi prot s =
     (let (ok, s1) = split_range addr hi s in
      if \<not> ok then (Inl ENOMEM, s1)
      else
        let s2 = fold (protect_area prot) (filter (in_range addr hi) (vm_vmas s1)) s1 in
        (Inr (), s2\<lparr>vm_vmas := map (\<lambda>v. if in_range addr hi v then v\<lparr>va_prot := prot\<rparr> else v) (vm_vmas s2)\<rparr>))"

definition vma_mprotect :: "(nat \<Rightarrow> errno option) \<Rightarrow> nat \<Rightarrow> nat \<Rightarrow> u32 \<Rightarrow> vm \<Rightarrow> unit res \<times> vm" where
  "vma_mprotect check addr len prot s =
     (case protect_check check addr len prot s of
        Inl e \<Rightarrow> (Inl e, s)
      | Inr hi \<Rightarrow> protect_apply addr hi prot s)"

section \<open>Mappings the kernel places\<close>

definition vma_map_anon_at :: "nat \<Rightarrow> nat \<Rightarrow> u32 \<Rightarrow> vm \<Rightarrow> unit res \<times> vm" where
  "vma_map_anon_at start len prot s =
     (if len = 0 \<or> start mod PAGE_SIZE \<noteq> 0 \<or> len mod PAGE_SIZE \<noteq> 0 \<or> wrap64 (start + len) < start then (Inl EINVAL, s)
      else
        case anon_object_for start len s of
          (None, s1) \<Rightarrow> (Inl ENOMEM, s1)
        | (Some ob, s1) \<Rightarrow>
            (case map_install start len prot (MAP_PRIVATE OR MAP_ANONYMOUS) ob s1 of
               (Some True, s2) \<Rightarrow> (Inr (), s2)
             | (Some False, s2) \<Rightarrow> (Inl ENOMEM, s2)
             | (None, s2) \<Rightarrow> (Inl EEXIST, s2)))"

definition heap_growable :: "vm \<Rightarrow> nat \<Rightarrow> vm_area \<Rightarrow> bool" where
  "heap_growable s old_end v \<longleftrightarrow>
     va_end v = old_end \<and> (case va_obj v of None \<Rightarrow> False | Some ob \<Rightarrow> obj_anon s ob) \<and>
     va_prot v = PROT_READ OR PROT_WRITE \<and> \<not> has (va_flags v) VMA_DYING"

text \<open>Growth in place: the first mapping that ends at the old end, is anonymous and writable.\<close>

definition heap_extend :: "nat \<Rightarrow> nat \<Rightarrow> vm \<Rightarrow> bool \<times> vm" where
  "heap_extend old_end new_end s =
     (case dropWhile (\<lambda>v. \<not> heap_growable s old_end v) (vm_vmas s) of
        [] \<Rightarrow> (False, s)
      | v # post \<Rightarrow>
          (True, s\<lparr>vm_vmas := takeWhile (\<lambda>v. \<not> heap_growable s old_end v) (vm_vmas s) @ v\<lparr>va_end := new_end\<rparr> # post\<rparr>))"

definition heap_args :: "nat \<Rightarrow> nat \<Rightarrow> vm \<Rightarrow> errno option" where
  "heap_args old_end new_end s =
     (if old_end mod PAGE_SIZE \<noteq> 0 \<or> new_end mod PAGE_SIZE \<noteq> 0 then Some EINVAL
      else if new_end < heap_base s \<or> new_end > heap_max s then Some ENOMEM else None)"

text \<open>The first locked section of a growth: refused, done in place, or to be done with a new object.\<close>

definition heap_grow_begin :: "nat \<Rightarrow> nat \<Rightarrow> vm \<Rightarrow> bool res \<times> vm" where
  "heap_grow_begin old_end new_end s =
     (if \<not> range_is_free s old_end new_end then (Inl ENOMEM, s)
      else let (ok, s1) = heap_extend old_end new_end s in (Inr ok, s1))"

definition vma_heap_set_end :: "nat \<Rightarrow> nat \<Rightarrow> vm \<Rightarrow> unit res \<times> vm" where
  "vma_heap_set_end old_end new_end s =
     (case heap_args old_end new_end s of
        Some e \<Rightarrow> (Inl e, s)
      | None \<Rightarrow>
          if new_end = old_end then (Inr (), s)
          else if new_end < old_end then
            (case vma_munmap new_end (old_end - new_end) s of
               (Inr _, s1) \<Rightarrow> (Inr (), s1)
             | (Inl e, s1) \<Rightarrow> (if e = EINVAL then Inr () else Inl e, s1))
          else
            (case heap_grow_begin old_end new_end s of
               (Inl e, s1) \<Rightarrow> (Inl e, s1)
             | (Inr True, s1) \<Rightarrow> (Inr (), s1)
             | (Inr False, s1) \<Rightarrow>
                 (case anon_object_for old_end (new_end - old_end) s1 of
                    (None, s2) \<Rightarrow> (Inl ENOMEM, s2)
                  | (Some ob, s2) \<Rightarrow>
                      (case map_install old_end (new_end - old_end) (PROT_READ OR PROT_WRITE) (MAP_PRIVATE OR MAP_ANONYMOUS) ob s2 of
                         (Some True, s3) \<Rightarrow> (Inr (), s3)
                       | (_, s3) \<Rightarrow> (Inl ENOMEM, s3)))))"

section \<open>Faults\<close>

text \<open>What the fault handler decides in its first locked section.\<close>

datatype fault_next =
    FDecline
  | FRetry
  | FCow nat nat nat
  | FWire nat nat u32

definition vm_fault_begin :: "nat \<Rightarrow> bool \<Rightarrow> bool \<Rightarrow> vm \<Rightarrow> fault_next \<times> vm" where
  "vm_fault_begin page wr ex s =
     (case vma_find (vm_vmas s) page of
        None \<Rightarrow> (FDecline, s)
      | Some v \<Rightarrow>
          if wr \<and> \<not> has (va_prot v) PROT_WRITE then (FDecline, s)
          else if ex \<and> \<not> has (va_prot v) PROT_EXEC then (FDecline, s)
          else if va_prot v = PROT_NONE then (FDecline, s)
          else
            let already = vmm_get_phys_in s page in
            case va_obj v of
              None \<Rightarrow> (if already \<noteq> 0 then FRetry else FDecline, s)
            | Some ob \<Rightarrow>
                if already \<noteq> 0 \<and> wr \<and> \<not> obj_anon s ob \<and> has (va_flags v) MAP_PRIVATE
                then (FCow ob (page_index v page) already, vmo_ref ob s)
                else if already \<noteq> 0 then (FRetry, s)
                else (FWire ob (page_index v page) (va_flags v), vmo_ref ob s))"

text \<open>Is the mapping found again after the gap?\<close>

definition fault_same :: "nat \<Rightarrow> nat \<Rightarrow> nat \<Rightarrow> vm \<Rightarrow> vm_area option" where
  "fault_same page ob i s =
     (case vma_find (vm_vmas s) page of
        None \<Rightarrow> None
      | Some v \<Rightarrow> if va_obj v = Some ob \<and> page_index v page = i then Some v else None)"

text \<open>
  The second section of a copy-on-write fault; \<open>shared\<close> is what the cache answered in the gap.  The
  answer is whether the page was copied, and what the fault returns.
\<close>

definition vm_fault_copy :: "nat \<Rightarrow> nat \<Rightarrow> nat \<Rightarrow> nat \<Rightarrow> nat \<Rightarrow> vm \<Rightarrow> (bool \<times> bool) \<times> vm" where
  "vm_fault_copy page ob i already shared s =
     (case fault_same page ob i s of
        Some v \<Rightarrow>
          if vmm_get_phys_in s page \<noteq> already then ((False, True), s)
          else if already \<noteq> shared then ((False, True), vmm_protect_in page (prot_to_vmm (va_prot v)) s)
          else
            let (copy, s1) = pmm_take s in
            if copy = 0 then ((False, False), s1)
            else
              let (ok, s2) = vmm_map_in page copy (prot_to_vmm (va_prot v)) s1 in
              if ok then ((True, True), s2) else ((False, False), pmm_give copy s2)
      | None \<Rightarrow> ((False, True), s))"

text \<open>With what follows once the lock is released: the pin of the cache's page, then the reference.\<close>

definition vm_fault_cow :: "nat \<Rightarrow> nat \<Rightarrow> nat \<Rightarrow> nat \<Rightarrow> nat \<Rightarrow> vm \<Rightarrow> bool \<times> vm" where
  "vm_fault_cow page ob i already shared s =
     (let ((copied, ret), s1) = vm_fault_copy page ob i already shared s in
      (ret, vmo_put ob (if copied then vmo_unwire_page ob i s1 else s1)))"

text \<open>
  The second section of the ordinary fault; \<open>phys\<close> is the wired frame, 0 for none.  The answer is
  whether the page was mapped, whether the fault lost a race, and whether the page becomes dirty.
\<close>

definition vm_fault_enter :: "nat \<Rightarrow> nat \<Rightarrow> nat \<Rightarrow> u32 \<Rightarrow> nat \<Rightarrow> vm \<Rightarrow> (bool \<times> bool \<times> bool) \<times> vm" where
  "vm_fault_enter page ob i flags phys s =
     (case fault_same page ob i s of
        Some v \<Rightarrow>
          if vmm_get_phys_in s page \<noteq> 0 then ((False, True, False), s)
          else if phys = 0 then ((False, False, False), s)
          else
            let eff = (if has flags MAP_PRIVATE \<and> \<not> obj_anon s ob then va_prot v AND NOT PROT_WRITE else va_prot v);
                (ok, s1) = vmm_map_in page phys (prot_to_vmm eff) s in
            ((ok, False, ok \<and> has flags MAP_SHARED \<and> has (va_prot v) PROT_WRITE), s1)
      | None \<Rightarrow> ((False, True, False), s))"

text \<open>With what follows once the lock is released: the pin, the dirty mark, the reference.\<close>

definition vm_fault_finish :: "nat \<Rightarrow> nat \<Rightarrow> nat \<Rightarrow> u32 \<Rightarrow> nat \<Rightarrow> vm \<Rightarrow> bool \<times> vm" where
  "vm_fault_finish page ob i flags phys s =
     (let ((entered, retry, mark_dirty), s1) = vm_fault_enter page ob i flags phys s;
          s2 = (if phys \<noteq> 0 \<and> \<not> entered then vmo_unwire_page ob i s1 else s1);
          s3 = (if mark_dirty then vmo_mark_dirty ob i s2 else s2) in
      (entered \<or> retry, vmo_put ob s3))"

definition vm_fault_resolve :: "nat \<Rightarrow> bool \<Rightarrow> bool \<Rightarrow> bool \<Rightarrow> vm \<Rightarrow> bool \<times> vm" where
  "vm_fault_resolve addr wr ex io s =
     (let page = addr div PAGE_SIZE * PAGE_SIZE in
      case vm_fault_begin page wr ex s of
        (FDecline, s1) \<Rightarrow> (False, s1)
      | (FRetry, s1) \<Rightarrow> (True, s1)
      | (FCow ob i already, s1) \<Rightarrow> vm_fault_cow page ob i already (vmo_page_phys s1 ob i) s1
      | (FWire ob i flags, s1) \<Rightarrow>
          let (phys, s2) = vmo_wire_page ob i io s1 in vm_fault_finish page ob i flags phys s2)"

definition vma_prefault :: "nat \<Rightarrow> bool \<Rightarrow> vm \<Rightarrow> nat \<times> vm" where
  "vma_prefault va io s =
     (let (ok, s1) = vm_fault_resolve va True False io s in
      (if ok then vmm_get_phys_in s1 (va div PAGE_SIZE * PAGE_SIZE) else 0, s1))"

section \<open>Teardown\<close>

definition vma_detach_all :: "vm \<Rightarrow> vm_area list \<times> vm" where
  "vma_detach_all s = (vm_vmas s, s\<lparr>vm_vmas := []\<rparr>)"

definition destroy_page :: "vm_area \<Rightarrow> nat \<Rightarrow> nat \<Rightarrow> vm \<Rightarrow> vm" where
  "destroy_page v ob va s =
     (let pa = vmm_get_phys_in s va in
      if pa = 0 then s
      else if pa = vmo_page_phys s ob (page_index v va) then vmo_unwire_page ob (page_index v va) (vmm_unmap_in va s)
      else s)"

definition destroy_area :: "vm_area \<Rightarrow> vm \<Rightarrow> vm" where
  "destroy_area v s =
     (case va_obj v of
        None \<Rightarrow> s
      | Some ob \<Rightarrow> if obj_anon s ob then vmo_detach_mapper ob s else fold (destroy_page v ob) (area_pages v) s)"

definition vma_destroy_list :: "vm_area list \<Rightarrow> vm \<Rightarrow> vm" where
  "vma_destroy_list vs s = fold put_area (rev vs) (fold destroy_area vs s)"

definition vma_destroy_all :: "vm \<Rightarrow> vm" where
  "vma_destroy_all s = (let (vs, s1) = vma_detach_all s in vma_destroy_list vs s1)"

definition vma_total_bytes :: "vm \<Rightarrow> nat" where
  "vma_total_bytes s = wrap64 (sum_list (map (\<lambda>v. wrap64 (va_end v + 2 ^ 64 - va_start v)) (vm_vmas s)))"

end
