(* ===== verification/Vma_List.thy ===== *)
theory Vma_List
  imports Vma "HOL-Library.Multiset"
begin

text \<open>
  The list of mappings as data: when it is well formed, what an address means in it, and what
  first fit, insertion, cutting, flagging, protecting and unlinking do to that meaning.
\<close>

section \<open>Well-formed lists and the view of an address\<close>

abbreviation (input) USER_VA_LIMIT :: nat where "USER_VA_LIMIT \<equiv> 2 ^ 47"

definition contains :: "vm_area \<Rightarrow> nat \<Rightarrow> bool" where
  "contains v a \<longleftrightarrow> va_start v \<le> a \<and> a < va_end v"

definition is_dying :: "vm_area \<Rightarrow> bool" where
  "is_dying v \<longleftrightarrow> has (va_flags v) VMA_DYING"

definition area_ok :: "vm_area \<Rightarrow> bool" where
  "area_ok v \<longleftrightarrow> va_start v < va_end v \<and> PAGE_SIZE dvd va_start v \<and> PAGE_SIZE dvd va_end v \<and> va_end v \<le> USER_VA_LIMIT"

definition vmas_ok :: "vm_area list \<Rightarrow> bool" where
  "vmas_ok vs \<longleftrightarrow> sorted_wrt (\<lambda>u v. va_end u \<le> va_start v) vs \<and> (\<forall>v\<in>set vs. area_ok v)"

lemma vmas_ok_Nil [simp]: "vmas_ok []"
  by (simp add: vmas_ok_def)

lemma vmas_ok_Cons:
  "vmas_ok (v # vs) \<longleftrightarrow> area_ok v \<and> (\<forall>u\<in>set vs. va_end v \<le> va_start u) \<and> vmas_ok vs"
  by (auto simp: vmas_ok_def)

lemma vmas_ok_append:
  "vmas_ok (xs @ ys) \<longleftrightarrow> vmas_ok xs \<and> vmas_ok ys \<and> (\<forall>u\<in>set xs. \<forall>v\<in>set ys. va_end u \<le> va_start v)"
  by (auto simp: vmas_ok_def sorted_wrt_append)

lemma vmas_ok_area: "vmas_ok vs \<Longrightarrow> v \<in> set vs \<Longrightarrow> area_ok v"
  by (simp add: vmas_ok_def)

lemma vmas_ok_unique:
  "vmas_ok vs \<Longrightarrow> u \<in> set vs \<Longrightarrow> v \<in> set vs \<Longrightarrow> contains u a \<Longrightarrow> contains v a \<Longrightarrow> u = v"
  by (induction vs) (auto simp: vmas_ok_Cons contains_def)

lemma vmas_ok_distinct: "vmas_ok vs \<Longrightarrow> distinct vs"
  by (induction vs) (fastforce simp: vmas_ok_Cons area_ok_def)+

lemma vmas_ok_disjoint:
  assumes "vmas_ok vs" "u \<in> set vs" "v \<in> set vs" "u \<noteq> v"
  shows "va_end u \<le> va_start v \<or> va_end v \<le> va_start u"
proof (rule ccontr)
  assume n: "\<not> ?thesis"
  have "contains u (max (va_start u) (va_start v))" "contains v (max (va_start u) (va_start v))"
    using n vmas_ok_area [OF assms(1,2)] vmas_ok_area [OF assms(1,3)] by (auto simp: contains_def area_ok_def)
  then show False using vmas_ok_unique [OF assms(1-3)] assms(4) by blast
qed

lemma vma_find_iff:
  assumes "vmas_ok vs"
  shows "vma_find vs a = Some v \<longleftrightarrow> v \<in> set vs \<and> contains v a \<and> \<not> is_dying v"
  using assms
proof (induction vs a rule: vma_find.induct)
  case (2 u vs a)
  have u: "va_start u < va_end u" "vmas_ok vs" "\<And>w. w \<in> set vs \<Longrightarrow> va_end u \<le> va_start w"
    using "2.prems" by (auto simp: vmas_ok_Cons area_ok_def)
  consider "a < va_start u" | "va_start u \<le> a" "a < va_end u" | "va_start u \<le> a" "va_end u \<le> a" by linarith
  then show ?case
  proof cases
    case 1
    then show ?thesis using u by (auto simp: contains_def dest!: u(3))
  next
    case 2
    then show ?thesis using u(3) by (auto simp: contains_def is_dying_def dest!: u(3))
  next
    case 3
    then show ?thesis using "2.IH" u(2) by (auto simp: contains_def)
  qed
qed simp

text \<open>What an address means to the process: permissions, flags, object and position in the object.\<close>

type_synonym page_view = "u32 \<times> u32 \<times> nat option \<times> nat"

definition area_view :: "vm_area \<Rightarrow> nat \<Rightarrow> page_view" where
  "area_view v a = (va_prot v, va_flags v, va_obj v, wrap64 (va_off v + (a - va_start v)))"

definition view :: "vm_area list \<Rightarrow> nat \<Rightarrow> page_view option" where
  "view vs a = map_option (\<lambda>v. area_view v a) (vma_find vs a)"

lemma view_iff:
  assumes "vmas_ok vs"
  shows "view vs a = Some t \<longleftrightarrow> (\<exists>v\<in>set vs. contains v a \<and> \<not> is_dying v \<and> t = area_view v a)"
  unfolding view_def map_option_eq_Some vma_find_iff [OF assms] by blast

lemma view_eqI:
  assumes "vmas_ok vs" "\<And>t. m = Some t \<longleftrightarrow> (\<exists>v\<in>set vs. contains v a \<and> \<not> is_dying v \<and> t = area_view v a)"
  shows "view vs a = m"
  using assms view_iff [OF assms(1), of a] by (metis not_Some_eq)

section \<open>First fit\<close>

lemma gap_walk_ge: "cand \<le> gap_walk len cand vs"
  by (induction len cand vs rule: gap_walk.induct) (auto intro: order_trans)

lemma gap_walk_spec:
  assumes "vmas_ok vs" "cand + len < 2 ^ 64" "USER_VA_LIMIT + len < 2 ^ 64"
  shows "(\<forall>v\<in>set vs. va_end v \<le> gap_walk len cand vs \<or> gap_walk len cand vs + len \<le> va_start v) \<and>
    (\<forall>b. cand \<le> b \<longrightarrow> (\<forall>v\<in>set vs. va_end v \<le> b \<or> b + len \<le> va_start v) \<longrightarrow> gap_walk len cand vs \<le> b) \<and>
    gap_walk len cand vs + len < 2 ^ 64"
  using assms
proof (induction len cand vs rule: gap_walk.induct)
  case (2 len cand v vs)
  have v: "area_ok v" "vmas_ok vs" "\<And>u. u \<in> set vs \<Longrightarrow> va_end v \<le> va_start u" using "2.prems"(1) by (auto simp: vmas_ok_Cons)
  show ?case
  proof (cases "cand + len \<le> va_start v")
    case True
    have "cand + len \<le> va_start u" if "u \<in> set vs" for u using True v(1) v(3) [OF that] by (simp add: area_ok_def)
    then show ?thesis using True "2.prems"(2) by auto
  next
    case False
    let ?c = "if va_end v > cand then va_end v else cand"
    have len: "?c + len < 2 ^ 64" using "2.prems"(2,3) v(1) by (auto simp: area_ok_def)
    have IH: "(\<forall>u\<in>set vs. va_end u \<le> gap_walk len ?c vs \<or> gap_walk len ?c vs + len \<le> va_start u) \<and>
      (\<forall>b. ?c \<le> b \<longrightarrow> (\<forall>u\<in>set vs. va_end u \<le> b \<or> b + len \<le> va_start u) \<longrightarrow> gap_walk len ?c vs \<le> b) \<and>
      gap_walk len ?c vs + len < 2 ^ 64"
      using "2.IH" [OF _ v(2) len "2.prems"(3)] False "2.prems"(2) by simp
    have step: "gap_walk len cand (v # vs) = gap_walk len ?c vs" using False "2.prems"(2) by simp
    have "va_end v \<le> gap_walk len ?c vs" using gap_walk_ge [of ?c len vs] by (auto split: if_splits)
    moreover have "gap_walk len ?c vs \<le> b"
      if b: "cand \<le> b" "va_end v \<le> b \<or> b + len \<le> va_start v" "\<forall>u\<in>set vs. va_end u \<le> b \<or> b + len \<le> va_start u" for b
    proof -
      have "?c \<le> b" using b(1,2) False by auto
      then show ?thesis using IH b(3) by blast
    qed
    ultimately show ?thesis unfolding step using IH by auto
  qed
qed simp

lemma range_is_free_iff:
  "range_is_free s lo hi \<longleftrightarrow> (\<forall>v\<in>set (vm_vmas s). va_end v \<le> lo \<or> hi \<le> va_start v)"
  by (auto simp: range_is_free_def list_ex_iff not_less)

definition layout_ok :: "vm \<Rightarrow> bool" where
  "layout_ok s \<longleftrightarrow> 0 < mmap_base s \<and> mmap_base s \<le> mmap_max s \<and> mmap_max s \<le> USER_VA_LIMIT \<and>
     PAGE_SIZE dvd mmap_base s \<and> heap_max s \<le> USER_VA_LIMIT"

lemma find_gap_ok:
  assumes "vmas_ok (vm_vmas s)" "layout_ok s" "len \<le> USER_VA_LIMIT" "0 < len"
  shows "find_gap s len \<noteq> 0 \<longleftrightarrow> (\<exists>b. mmap_base s \<le> b \<and> b + len \<le> mmap_max s \<and> range_is_free s b (b + len))"
    and "find_gap s len \<noteq> 0 \<Longrightarrow> mmap_base s \<le> find_gap s len \<and> find_gap s len + len \<le> mmap_max s \<and>
      range_is_free s (find_gap s len) (find_gap s len + len) \<and>
      (\<forall>b. mmap_base s \<le> b \<longrightarrow> range_is_free s b (b + len) \<longrightarrow> find_gap s len \<le> b)"
proof -
  let ?g = "gap_walk len (mmap_base s) (vm_vmas s)"
  have base: "mmap_base s + len < 2 ^ 64" "USER_VA_LIMIT + len < 2 ^ 64" using assms(2,3) by (auto simp: layout_ok_def)
  note w = gap_walk_spec [OF assms(1) base]
  have g: "find_gap s len = (if ?g + len > mmap_max s then 0 else ?g)"
    using w by (auto simp: find_gap_def Let_def)
  have lo: "mmap_base s \<le> ?g" by (rule gap_walk_ge)
  have pos: "?g \<noteq> 0" using lo assms(2) by (auto simp: layout_ok_def)
  have free: "range_is_free s ?g (?g + len)" using w by (auto simp: range_is_free_iff)
  have least: "?g \<le> b" if "mmap_base s \<le> b" "range_is_free s b (b + len)" for b
    using w that by (auto simp: range_is_free_iff)
  show "find_gap s len \<noteq> 0 \<longleftrightarrow> (\<exists>b. mmap_base s \<le> b \<and> b + len \<le> mmap_max s \<and> range_is_free s b (b + len))"
  proof
    assume "find_gap s len \<noteq> 0"
    then show "\<exists>b. mmap_base s \<le> b \<and> b + len \<le> mmap_max s \<and> range_is_free s b (b + len)"
      using g lo free by (intro exI [of _ ?g]) (auto split: if_splits)
  next
    assume "\<exists>b. mmap_base s \<le> b \<and> b + len \<le> mmap_max s \<and> range_is_free s b (b + len)"
    then have "?g + len \<le> mmap_max s" using least by fastforce
    then show "find_gap s len \<noteq> 0" using g pos by simp
  qed
  show "mmap_base s \<le> find_gap s len \<and> find_gap s len + len \<le> mmap_max s \<and>
      range_is_free s (find_gap s len) (find_gap s len + len) \<and>
      (\<forall>b. mmap_base s \<le> b \<longrightarrow> range_is_free s b (b + len) \<longrightarrow> find_gap s len \<le> b)"
    if "find_gap s len \<noteq> 0"
    using that g lo free least by (auto split: if_splits)
qed

lemma gap_walk_dvd: "PAGE_SIZE dvd cand \<Longrightarrow> vmas_ok vs \<Longrightarrow> PAGE_SIZE dvd gap_walk len cand vs"
  by (induction len cand vs rule: gap_walk.induct) (auto simp: vmas_ok_Cons area_ok_def)

lemma find_gap_dvd: "vmas_ok (vm_vmas s) \<Longrightarrow> layout_ok s \<Longrightarrow> PAGE_SIZE dvd find_gap s len"
  using gap_walk_dvd [of "mmap_base s" "vm_vmas s" len] by (auto simp: find_gap_def Let_def layout_ok_def)

section \<open>Flag words\<close>

lemma has_or [simp]: "has (f OR g) b \<longleftrightarrow> has f b \<or> has g b"
  by (simp add: has_def bit.conj_disj_distrib2 or_eq_0_iff)

lemma has_zero [simp]: "\<not> has 0 b"
  by (simp add: has_def)

lemma has_and_not [simp]: "has (f AND NOT b) b \<longleftrightarrow> False"
  by (simp add: has_def and.assoc)

lemma has_numeral [simp]: "has (numeral m :: 'a::len word) (numeral n) \<longleftrightarrow> (numeral m :: 'a word) AND numeral n \<noteq> 0"
  "has (1 :: 'a word) (numeral n) \<longleftrightarrow> (1 :: 'a word) AND numeral n \<noteq> 0"
  "has (numeral m :: 'a word) 1 \<longleftrightarrow> (numeral m :: 'a word) AND 1 \<noteq> 0"
  "has (1 :: 'a word) 1"
  by (simp_all add: has_def)

lemma has_and_other:
  assumes "g AND b = 0"
  shows "has (f AND NOT g) b \<longleftrightarrow> has f b"
proof -
  have "\<not> (bit g n \<and> bit b n)" for n using arg_cong [OF assms, of "\<lambda>w. bit w n"] by (simp add: bit_and_iff)
  then have "(f AND NOT g) AND b = f AND b" by (intro bit_word_eqI) (auto simp: bit_and_iff bit_not_iff)
  then show ?thesis by (simp add: has_def)
qed

lemma prot_to_vmm_bits:
  "has (prot_to_vmm p) VMM_WRITABLE \<longleftrightarrow> has p PROT_WRITE"
  "has (prot_to_vmm p) VMM_EXEC \<longleftrightarrow> has p PROT_EXEC"
  "has (prot_to_vmm p) VMM_NX \<longleftrightarrow> \<not> has p PROT_EXEC"
  "has (prot_to_vmm p) VMM_USER \<longleftrightarrow> p \<noteq> PROT_NONE"
  by (auto simp: prot_to_vmm_def)

lemma mark_dying_simps [simp]:
  "va_start (mark_dying v) = va_start v" "va_end (mark_dying v) = va_end v" "va_prot (mark_dying v) = va_prot v"
  "va_obj (mark_dying v) = va_obj v" "va_off (mark_dying v) = va_off v" "is_dying (mark_dying v)"
  "contains (mark_dying v) = contains v" "area_ok (mark_dying v) = area_ok v"
  by (auto simp: mark_dying_def is_dying_def contains_def area_ok_def fun_eq_iff)

lemma mark_dying_flags: "b AND VMA_DYING = 0 \<Longrightarrow> has (va_flags (mark_dying v)) b \<longleftrightarrow> has (va_flags v) b"
  by (simp add: mark_dying_def has_def [of VMA_DYING] and.commute)

section \<open>Edits of the list\<close>

lemma vmas_ok_map:
  assumes "vmas_ok vs" "\<And>v. v \<in> set vs \<Longrightarrow> va_start (f v) = va_start v \<and> va_end (f v) = va_end v"
  shows "vmas_ok (map f vs)"
  using assms by (auto simp: vmas_ok_def sorted_wrt_map area_ok_def intro: sorted_wrt_mono_rel [rotated])

lemma vmas_ok_sublist: "vmas_ok vs \<Longrightarrow> vmas_ok (filter P vs)"
  by (auto simp: vmas_ok_def sorted_wrt_filter)

lemma vma_insert_set [simp]: "set (vma_insert nv vs) = insert nv (set vs)"
  by (auto simp: vma_insert_def dest: set_takeWhileD set_dropWhileD) (metis Un_iff set_append takeWhile_dropWhile_id)

lemma vma_insert_mset [simp]: "mset (vma_insert nv vs) = add_mset nv (mset vs)"
  by (simp add: vma_insert_def) (metis mset_append takeWhile_dropWhile_id)

lemma vma_insert_ok:
  assumes "vmas_ok vs" "area_ok nv" "\<And>v. v \<in> set vs \<Longrightarrow> va_end v \<le> va_start nv \<or> va_end nv \<le> va_start v"
  shows "vmas_ok (vma_insert nv vs)"
proof -
  let ?P = "\<lambda>v. va_start v < va_start nv"
  have pre: "va_end v \<le> va_start nv" if "v \<in> set (takeWhile ?P vs)" for v
    using assms(2) assms(3) [of v] set_takeWhileD [OF that] by (auto simp: area_ok_def)
  have later: "va_start nv \<le> va_start v" if "vmas_ok xs" "v \<in> set (dropWhile ?P xs)" for v xs
    using that by (induction xs) (auto simp: vmas_ok_Cons area_ok_def split: if_splits)
  have post: "va_end nv \<le> va_start v" if "v \<in> set (dropWhile ?P vs)" for v
    using later [OF assms(1) that] assms(3) [of v] vmas_ok_area [OF assms(1), of v] set_dropWhileD [OF that]
    by (auto simp: area_ok_def)
  have "vmas_ok (takeWhile ?P vs)" "vmas_ok (dropWhile ?P vs)"
    using assms(1) vmas_ok_append [of "takeWhile ?P vs" "dropWhile ?P vs"] by simp_all
  moreover have "va_end u \<le> va_start v" if "u \<in> set (takeWhile ?P vs)" "v \<in> set (dropWhile ?P vs)" for u v
    using pre [OF that(1)] post [OF that(2)] assms(2) by (simp add: area_ok_def)
  ultimately show ?thesis using pre post assms(2) by (auto simp: vma_insert_def vmas_ok_append vmas_ok_Cons)
qed

text \<open>Cutting one mapping in two.\<close>

lemma cut_simps [simp]:
  "va_start (cut_head at v) = va_start v" "va_end (cut_head at v) = at" "va_prot (cut_head at v) = va_prot v"
  "va_flags (cut_head at v) = va_flags v" "va_obj (cut_head at v) = va_obj v" "va_off (cut_head at v) = va_off v"
  "va_start (cut_tail at v) = at" "va_end (cut_tail at v) = va_end v" "va_prot (cut_tail at v) = va_prot v"
  "va_flags (cut_tail at v) = va_flags v" "va_obj (cut_tail at v) = va_obj v"
  "is_dying (cut_head at v) = is_dying v" "is_dying (cut_tail at v) = is_dying v"
  by (simp_all add: cut_head_def cut_tail_def is_dying_def)

lemma cut_view:
  assumes "va_start v < at" "at < va_end v"
  shows "contains v a \<longleftrightarrow> contains (cut_head at v) a \<or> contains (cut_tail at v) a"
    and "contains (cut_head at v) a \<Longrightarrow> area_view (cut_head at v) a = area_view v a"
    and "contains (cut_tail at v) a \<Longrightarrow> area_view (cut_tail at v) a = area_view v a"
proof -
  show "contains v a \<longleftrightarrow> contains (cut_head at v) a \<or> contains (cut_tail at v) a" using assms by (auto simp: contains_def)
  show "area_view (cut_head at v) a = area_view v a" by (simp add: area_view_def)
  assume c: "contains (cut_tail at v) a"
  have "wrap64 (wrap64 (va_off v + (at - va_start v)) + (a - at)) = wrap64 (va_off v + (at - va_start v) + (a - at))"
    by (simp add: wrap64_def mod_add_left_eq)
  also have "\<dots> = wrap64 (va_off v + (a - va_start v))" using assms c by (simp add: contains_def)
  finally show "area_view (cut_tail at v) a = area_view v a" by (simp add: area_view_def cut_tail_def)
qed

lemma cut_ok:
  assumes "vmas_ok (pre @ v # post)" "va_start v < at" "at < va_end v" "PAGE_SIZE dvd at"
  shows "vmas_ok (pre @ cut_head at v # cut_tail at v # post)"
    and "view (pre @ cut_head at v # cut_tail at v # post) = view (pre @ v # post)"
proof -
  have v: "area_ok v" using assms(1) by (simp add: vmas_ok_append vmas_ok_Cons)
  have "area_ok (cut_head at v)" "area_ok (cut_tail at v)" using v assms(2-4) by (auto simp: area_ok_def)
  then show ok: "vmas_ok (pre @ cut_head at v # cut_tail at v # post)"
    using assms(1-3) v by (fastforce simp: vmas_ok_append vmas_ok_Cons area_ok_def)
  show "view (pre @ cut_head at v # cut_tail at v # post) = view (pre @ v # post)"
  proof
    fix a
    show "view (pre @ cut_head at v # cut_tail at v # post) a = view (pre @ v # post) a"
      by (rule view_eqI [OF ok]) (use view_iff [OF assms(1), of a] cut_view [OF assms(2,3), of a] in auto)
  qed
qed

definition boundary :: "nat \<Rightarrow> vm_area list \<Rightarrow> bool" where
  "boundary at vs \<longleftrightarrow> (\<forall>v\<in>set vs. is_dying v \<or> at \<le> va_start v \<or> va_end v \<le> at)"

lemma take_mem_state: "take_mem s = (b, s1) \<Longrightarrow> s1 = s\<lparr>vm_mem := tl (vm_mem s)\<rparr>"
  by (cases s; cases "vm_mem s") (auto simp: take_mem_def)

text \<open>What \<open>vma_split_at\<close> does: nothing but use up memory, or one cut with a reference for the new half.\<close>

lemma vma_split_at_cases:
  assumes "vmas_ok (vm_vmas s)" "vma_split_at at s = (ok, s')"
  obtains (none) ms where "s' = s\<lparr>vm_mem := ms\<rparr>" "ok \<longrightarrow> boundary at (vm_vmas s)"
  | (cut) pre v post ms where "ok" "vm_vmas s = pre @ v # post" "va_start v < at" "at < va_end v" "\<not> is_dying v"
      "s' = (case va_obj v of None \<Rightarrow> s\<lparr>vm_mem := ms\<rparr> | Some ob \<Rightarrow> vmo_ref ob (s\<lparr>vm_mem := ms\<rparr>))
         \<lparr>vm_vmas := pre @ cut_head at v # cut_tail at v # post\<rparr>"
proof (cases "dropWhile (\<lambda>v. at \<le> va_start v \<or> at \<ge> va_end v) (vm_vmas s)")
  case Nil
  then have "boundary at (vm_vmas s)" by (auto simp: boundary_def)
  then show thesis using assms(2) Nil none [of "vm_mem s"] by (simp add: vma_split_at_def)
next
  case (Cons v post)
  define pre where "pre = takeWhile (\<lambda>v. at \<le> va_start v \<or> at \<ge> va_end v) (vm_vmas s)"
  have vs: "vm_vmas s = pre @ v # post" using Cons takeWhile_dropWhile_id [of _ "vm_vmas s"] by (metis pre_def)
  have v: "va_start v < at" "at < va_end v" using hd_dropWhile [of "\<lambda>v. at \<le> va_start v \<or> at \<ge> va_end v" "vm_vmas s"] Cons by auto
  obtain b s1 where m: "take_mem s = (b, s1)" by fastforce
  then have s1: "s1 = s\<lparr>vm_mem := tl (vm_mem s)\<rparr>" by (rule take_mem_state)
  show thesis
  proof (cases "is_dying v")
    case True
    have "boundary at (vm_vmas s)" unfolding boundary_def
    proof
      fix u assume u: "u \<in> set (vm_vmas s)"
      show "is_dying u \<or> at \<le> va_start u \<or> va_end u \<le> at"
      proof (rule ccontr)
        assume n: "\<not> ?thesis"
        then have "contains u at" "contains v at" using v by (auto simp: contains_def)
        then have "u = v" using vmas_ok_unique [OF assms(1) u, of v at] vs by simp
        then show False using n True by simp
      qed
    qed
    then show thesis using assms(2) Cons True none [of "vm_mem s"] by (simp add: vma_split_at_def is_dying_def)
  next
    case False
    show thesis
    proof (cases b)
      case True
      then show thesis using assms(2) Cons False m s1 cut [OF _ vs v] by (auto simp: vma_split_at_def is_dying_def pre_def Let_def)
    next
      case nb: False
      then show thesis using assms(2) Cons False m s1 none [of "tl (vm_mem s)"] by (auto simp: vma_split_at_def is_dying_def)
    qed
  qed
qed

lemma vmo_ref_vmas [simp]: "vm_vmas (vmo_ref ob s) = vm_vmas s" "vm_pt (vmo_ref ob s) = vm_pt s"
  by (simp_all add: vmo_ref_def upd_obj_def)

lemma vma_split_at_view:
  assumes "vmas_ok (vm_vmas s)" "PAGE_SIZE dvd at" "vma_split_at at s = (ok, s')"
  shows "vmas_ok (vm_vmas s') \<and> view (vm_vmas s') = view (vm_vmas s) \<and> vm_pt s' = vm_pt s \<and>
    (ok \<longrightarrow> boundary at (vm_vmas s')) \<and> (\<forall>b. boundary b (vm_vmas s) \<longrightarrow> boundary b (vm_vmas s'))"
  using assms(1,3)
proof (cases rule: vma_split_at_cases)
  case (none ms)
  then show ?thesis using assms(1) by simp
next
  case (cut pre v post ms)
  have ok: "vmas_ok (pre @ v # post)" using assms(1) cut(2) by simp
  have "boundary at (pre @ cut_head at v # cut_tail at v # post)"
    unfolding boundary_def
  proof
    fix u assume u: "u \<in> set (pre @ cut_head at v # cut_tail at v # post)"
    show "is_dying u \<or> at \<le> va_start u \<or> va_end u \<le> at"
      using u ok cut(3,4) by (auto simp: vmas_ok_append vmas_ok_Cons)
  qed
  moreover have "boundary b (pre @ cut_head at v # cut_tail at v # post)" if "boundary b (vm_vmas s)" for b
    using that cut(2-5) by (auto simp: boundary_def)
  moreover have "vm_pt s' = vm_pt s" using cut(6) by (cases "va_obj v") simp_all
  moreover have "vm_vmas s' = pre @ cut_head at v # cut_tail at v # post" using cut(6) by simp
  ultimately show ?thesis using cut_ok [OF ok cut(3,4) assms(2)] cut(2) by simp
qed

lemma split_range_view:
  assumes "vmas_ok (vm_vmas s)" "PAGE_SIZE dvd lo" "PAGE_SIZE dvd hi" "split_range lo hi s = (ok, s')"
  shows "vmas_ok (vm_vmas s') \<and> view (vm_vmas s') = view (vm_vmas s) \<and> vm_pt s' = vm_pt s \<and>
    (ok \<longrightarrow> boundary lo (vm_vmas s') \<and> boundary hi (vm_vmas s'))"
proof -
  obtain ok1 s1 where s1: "vma_split_at lo s = (ok1, s1)" by fastforce
  note one = vma_split_at_view [OF assms(1,2) s1]
  show ?thesis
  proof (cases ok1)
    case True
    then have "vma_split_at hi s1 = (ok, s')" using assms(4) s1 by (simp add: split_range_def)
    then show ?thesis using vma_split_at_view [OF _ assms(3), of s1 ok s'] one True by auto
  next
    case False
    then show ?thesis using assms(4) s1 one by (simp add: split_range_def)
  qed
qed

text \<open>With boundaries at both ends, an edit of the mappings in the range is an edit of its addresses.\<close>

lemma in_range_iff:
  assumes "vmas_ok vs" "boundary lo vs" "boundary hi vs" "v \<in> set vs" "\<not> is_dying v" "contains v a"
  shows "in_range lo hi v \<longleftrightarrow> lo \<le> a \<and> a < hi"
  using assms vmas_ok_area [OF assms(1,4)] by (fastforce simp: in_range_def is_dying_def boundary_def contains_def area_ok_def)

lemma view_edit:
  assumes "vmas_ok vs" "boundary lo vs" "boundary hi vs"
    and f: "\<And>v. v \<in> set vs \<Longrightarrow> va_start (f v) = va_start v \<and> va_end (f v) = va_end v"
  shows "view (map (\<lambda>v. if in_range lo hi v then f v else v) vs) a =
    (if lo \<le> a \<and> a < hi
     then case vma_find vs a of None \<Rightarrow> None | Some v \<Rightarrow> if is_dying (f v) then None else Some (area_view (f v) a)
     else view vs a)"
proof -
  define g where "g = (\<lambda>v. if in_range lo hi v then f v else v)"
  have ok: "vmas_ok (map g vs)" by (rule vmas_ok_map [OF assms(1)]) (use f in \<open>auto simp: g_def\<close>)
  have c: "contains (g v) a \<longleftrightarrow> contains v a" if "v \<in> set vs" for v using f [OF that] by (simp add: contains_def g_def)
  have dy: "is_dying v \<Longrightarrow> g v = v" for v by (simp add: in_range_def is_dying_def g_def)
  have g: "view (map g vs) a = Some t \<longleftrightarrow> (\<exists>v\<in>set vs. contains v a \<and> \<not> is_dying (g v) \<and> t = area_view (g v) a)" for t
    unfolding view_iff [OF ok] using c by auto
  show ?thesis unfolding g_def [symmetric]
  proof (cases "vma_find vs a")
    case None
    have "is_dying (g v)" if "v \<in> set vs" "contains v a" for v
      using vma_find_iff [OF assms(1), of a v] None that dy [of v] by auto
    then have "view (map g vs) a = None" using g by (meson not_Some_eq)
    then show "view (map g vs) a = (if lo \<le> a \<and> a < hi
     then case vma_find vs a of None \<Rightarrow> None | Some v \<Rightarrow> if is_dying (f v) then None else Some (area_view (f v) a)
     else view vs a)" using None by (simp add: view_def)
  next
    case (Some v)
    then have v: "v \<in> set vs" "contains v a" "\<not> is_dying v" using vma_find_iff [OF assms(1)] by auto
    note inr = in_range_iff [OF assms(1-3) v(1,3,2)]
    have only: "u = v" if "u \<in> set vs" "contains u a" for u using vmas_ok_unique [OF assms(1) that(1) v(1) that(2) v(2)] .
    then have "view (map g vs) a = Some t \<longleftrightarrow> \<not> is_dying (g v) \<and> t = area_view (g v) a" for t using v g by blast
    then have "view (map g vs) a = (if is_dying (g v) then None else Some (area_view (g v) a))"
      by (metis not_Some_eq)
    then show "view (map g vs) a = (if lo \<le> a \<and> a < hi
     then case vma_find vs a of None \<Rightarrow> None | Some v \<Rightarrow> if is_dying (f v) then None else Some (area_view (f v) a)
     else view vs a)" using Some inr v(3) by (simp add: view_def g_def)
  qed
qed

lemma view_mark:
  assumes "vmas_ok vs" "boundary lo vs" "boundary hi vs"
  shows "view (map (\<lambda>v. if in_range lo hi v then mark_dying v else v) vs) a = (if lo \<le> a \<and> a < hi then None else view vs a)"
  unfolding view_edit [OF assms, of mark_dying a, simplified] by (simp split: option.split)

lemma view_protect:
  assumes "vmas_ok vs" "boundary lo vs" "boundary hi vs"
  shows "view (map (\<lambda>v. if in_range lo hi v then v\<lparr>va_prot := prot\<rparr> else v) vs) a =
    (if lo \<le> a \<and> a < hi then map_option (\<lambda>(_, t). (prot, t)) (view vs a) else view vs a)"
proof -
  have "\<not> is_dying v" if "vma_find vs a = Some v" for v using vma_find_iff [OF assms(1)] that by auto
  then show ?thesis
    unfolding view_edit [OF assms, of "\<lambda>v. v\<lparr>va_prot := prot\<rparr>" a, simplified]
    by (auto simp: view_def area_view_def is_dying_def split: option.split)
qed

lemma vma_unlink_fold: "distinct vs \<Longrightarrow> fold vma_unlink ds vs = filter (\<lambda>v. v \<notin> set ds) vs"
proof (induction ds arbitrary: vs)
  case (Cons d ds)
  have "filter (\<lambda>v. v \<notin> set ds) (filter (\<lambda>v. v \<noteq> d) vs) = filter (\<lambda>v. v \<noteq> d \<and> v \<notin> set ds) vs" by simp
  then show ?case using Cons by (simp add: vma_unlink_def distinct_remove1_removeAll removeAll_filter_not_eq eq_commute)
qed simp

lemma view_drop_dying:
  assumes "vmas_ok vs" "\<And>v. v \<in> set vs \<Longrightarrow> \<not> P v \<Longrightarrow> is_dying v"
  shows "view (filter P vs) = view vs"
proof
  fix a
  show "view (filter P vs) a = view vs a"
  proof (rule view_eqI [OF vmas_ok_sublist [OF assms(1)]])
    fix t
    show "view vs a = Some t \<longleftrightarrow> (\<exists>v\<in>set (filter P vs). contains v a \<and> \<not> is_dying v \<and> t = area_view v a)"
      unfolding view_iff [OF assms(1)] set_filter using assms(2) by blast
  qed
qed

section \<open>What the operations leave alone\<close>

lemma take_mem_simps [simp]:
  "vm_vmas (snd (take_mem s)) = vm_vmas s" "vm_pt (snd (take_mem s)) = vm_pt s" "vm_objs (snd (take_mem s)) = vm_objs s"
  "vm_next (snd (take_mem s)) = vm_next s" "vm_frames (snd (take_mem s)) = vm_frames s"
  "mmap_base (snd (take_mem s)) = mmap_base s" "mmap_max (snd (take_mem s)) = mmap_max s"
  "heap_base (snd (take_mem s)) = heap_base s" "heap_max (snd (take_mem s)) = heap_max s"
  using take_mem_state [of s "fst (take_mem s)" "snd (take_mem s)"] by simp_all

text \<open>The fields no operation on objects, frames or page tables changes.\<close>

definition same_list :: "vm \<Rightarrow> vm \<Rightarrow> bool" where
  "same_list s s' \<longleftrightarrow> vm_vmas s' = vm_vmas s \<and> mmap_base s' = mmap_base s \<and> mmap_max s' = mmap_max s \<and>
     heap_base s' = heap_base s \<and> heap_max s' = heap_max s"

lemma same_list_refl [simp]: "same_list s s"
  by (simp add: same_list_def)

lemma same_list_trans [trans]: "same_list s s' \<Longrightarrow> same_list s' s'' \<Longrightarrow> same_list s s''"
  by (simp add: same_list_def)

lemma same_list_fold: "(\<And>x s. same_list s (f x s)) \<Longrightarrow> same_list s (fold f xs s)"
  by (induction xs arbitrary: s) (auto intro: same_list_trans)

lemma same_list_prim [simp]:
  "same_list s (pmm_give f s)" "same_list s (vmm_unmap_in va s)" "same_list s (vmm_protect_in va fl s)"
  "same_list s (upd_obj ob g s)" "same_list s (upd_page ob i h s)" "same_list s (vmo_ref ob s)"
  "same_list s (vmo_unwire_page ob i s)" "same_list s (vmo_mark_dirty ob i s)" "same_list s (vmo_put ob s)"
  "same_list s (vmo_set_mapper ob base s)"
  by (auto simp: same_list_def pmm_give_def vmm_unmap_in_def vmm_protect_in_def upd_obj_def upd_page_def vmo_ref_def
      vmo_unwire_page_def vmo_mark_dirty_def vmo_put_def vmo_set_mapper_def split: option.split)

lemma same_list_unmap_page: "same_list s (unmap_page v va s)"
proof -
  have "same_list s (pmm_give pa (vmm_unmap_in va s))" "same_list s (vmo_unwire_page ob i (vmm_unmap_in va s))" for pa ob i
    by (rule same_list_trans [of _ "vmm_unmap_in va s"]; simp)+
  then show ?thesis by (simp add: unmap_page_def Let_def split: option.split)
qed

lemma same_list_anon_unmap: "same_list s (anon_unmap_locked x ip s)"
  by (simp add: anon_unmap_locked_def split: option.split)

lemma same_list_discard: "same_list s (vmo_discard_range ob first cnt s)"
proof (cases "vm_objs s ob")
  case (Some x)
  let ?gone = "filter (\<lambda>(i, p). first \<le> i \<and> i - first < cnt) (vo_pages x)"
  have "same_list s (fold (anon_unmap_locked x) ?gone s)" by (rule same_list_fold) (rule same_list_anon_unmap)
  then show ?thesis using Some by (simp add: vmo_discard_range_def Let_def same_list_def upd_obj_def)
qed (simp add: vmo_discard_range_def)

lemma same_list_unmap_area: "same_list s (unmap_area v s)"
  by (auto simp: unmap_area_def unmap_range_pages_def same_list_discard split: option.split
      intro: same_list_fold same_list_unmap_page)

lemma same_list_protect_area: "same_list s (protect_area prot v s)"
  by (auto simp: protect_area_def Let_def intro!: same_list_fold)

lemma same_list_put_area: "same_list s (put_area v s)"
  by (simp add: put_area_def split: option.split)

lemma same_list_create: "same_list s (snd (vmo_create_anon sz s))"
  using take_mem_state [of s "fst (take_mem s)" "snd (take_mem s)"]
  by (auto simp: vmo_create_anon_def same_list_def Let_def split: prod.split)

lemma same_list_object_for: "same_list s (snd (anon_object_for start len s))"
proof -
  obtain r s1 where r: "vmo_create_anon len s = (r, s1)" by fastforce
  have "same_list s s1" using same_list_create [of s len] r by simp
  then show ?thesis by (cases r) (auto simp: anon_object_for_def r intro: same_list_trans)
qed

end
