(* ===== verification/Vma_View.thy ===== *)
theory Vma_View
  imports Vma_List
begin

text \<open>
  The operations of \<open>kernel/mm/vma.c\<close>, each run without interference, against the meaning of an
  address: a map from addresses to permissions, flags, object and position.
\<close>

section \<open>Mapping\<close>

definition vm_ok :: "vm \<Rightarrow> bool" where
  "vm_ok s \<longleftrightarrow> vmas_ok (vm_vmas s) \<and> layout_ok s"

lemma vm_ok_same_list: "same_list s s' \<Longrightarrow> vm_ok s' = vm_ok s"
  by (simp add: vm_ok_def same_list_def layout_ok_def)

lemma page_align_up_dvd [simp]: "PAGE_SIZE dvd page_align_up len"
  by (simp add: page_align_up_def)

lemma page_align_up_exact: "len + 4095 < 2 ^ 64 \<Longrightarrow> len \<le> page_align_up len \<and> page_align_up len < len + PAGE_SIZE"
  unfolding page_align_up_def by (simp add: wrap64_def) linarith

lemma page_align_up_less: "page_align_up len < 2 ^ 64"
proof -
  have "page_align_up len \<le> wrap64 (len + PAGE_SIZE - 1)" unfolding page_align_up_def by simp
  then show ?thesis using wrap64_less [of "len + PAGE_SIZE - 1"] by linarith
qed

lemma range_end:
  assumes "\<not> wrap64 (addr + len) < addr" "len < 2 ^ 64" "addr < 2 ^ 64"
  shows "wrap64 (addr + len) = addr + len"
proof (rule ccontr)
  assume "wrap64 (addr + len) \<noteq> addr + len"
  then have big: "2 ^ 64 \<le> addr + len" using wrap64_id [of "addr + len"] by linarith
  then have "wrap64 (addr + len) = addr + len - 2 ^ 64"
    using assms(2,3) unfolding wrap64_def by (subst le_mod_geq) auto
  then show False using assms big by linarith
qed

lemma map_choose_ok:
  assumes "vm_ok s" "map_choose addr len flags s = Inr start" "0 < len" "PAGE_SIZE dvd len" "len \<le> USER_VA_LIMIT" "addr < 2 ^ 63"
  shows "mmap_base s \<le> start \<and> start + len \<le> mmap_max s \<and> PAGE_SIZE dvd start \<and> range_is_free s start (start + len)"
proof (cases "has flags MAP_FIXED")
  case True
  have nowrap: "wrap64 (addr + len) = addr + len" using assms(5,6) by simp
  show ?thesis using assms(2) True nowrap by (auto simp: map_choose_def dvd_eq_mod_eq_0 split: if_splits)
next
  case False
  then have g: "find_gap s len \<noteq> 0" "start = find_gap s len" using assms(2) by (auto simp: map_choose_def split: if_splits)
  have "vmas_ok (vm_vmas s)" "layout_ok s" using assms(1) by (auto simp: vm_ok_def)
  then show ?thesis using find_gap_ok(2) [OF _ _ assms(5,3) g(1)] find_gap_dvd g(2) by blast
qed

definition map_view :: "nat \<Rightarrow> nat \<Rightarrow> page_view \<Rightarrow> (nat \<Rightarrow> page_view option) \<Rightarrow> nat \<Rightarrow> page_view option" where
  "map_view start len t m a =
     (if start \<le> a \<and> a < start + len
      then case t of (prot, flags, obj, off) \<Rightarrow> Some (prot, flags, obj, wrap64 (off + (a - start)))
      else m a)"

lemma install_view:
  assumes ok: "vm_ok s" and r: "0 < len" "PAGE_SIZE dvd start" "PAGE_SIZE dvd len" "start + len \<le> USER_VA_LIMIT"
    and free: "range_is_free s start (start + len)" and fl: "\<not> has flags VMA_DYING"
    and i: "install_locked start len prot flags ob off s = (True, s')"
  shows "vm_ok s' \<and> view (vm_vmas s') = map_view start len (prot, flags, Some ob, off) (view (vm_vmas s)) \<and>
    vm_pt s' = vm_pt s \<and> vm_objs s' = vm_objs s"
proof -
  define nv where "nv = \<lparr>va_start = start, va_end = start + len, va_prot = prot, va_flags = flags, va_obj = Some ob, va_off = off\<rparr>"
  have e: "wrap64 (start + len) = start + len" using r(4) by simp
  have s': "s' = snd (take_mem s)\<lparr>vm_vmas := vma_insert nv (vm_vmas s)\<rparr>"
    using i e by (auto simp: install_locked_def nv_def Let_def split: prod.splits if_splits dest: take_mem_state)
  have vs: "vmas_ok (vm_vmas s)" using ok by (simp add: vm_ok_def)
  have nv: "area_ok nv" using r by (auto simp: area_ok_def nv_def)
  have ins: "vmas_ok (vma_insert nv (vm_vmas s))"
    by (rule vma_insert_ok [OF vs nv]) (use free in \<open>auto simp: range_is_free_iff nv_def\<close>)
  have "view (vma_insert nv (vm_vmas s)) a = map_view start len (prot, flags, Some ob, off) (view (vm_vmas s)) a" for a
  proof (rule view_eqI [OF ins])
    fix t
    have c: "contains nv a \<longleftrightarrow> start \<le> a \<and> a < start + len" "\<not> is_dying nv"
        "area_view nv a = (prot, flags, Some ob, wrap64 (off + (a - start)))"
      using fl by (auto simp: contains_def nv_def is_dying_def area_view_def)
    have out: "\<not> contains v a" if "v \<in> set (vm_vmas s)" "contains nv a" for v
      using free that c(1) by (auto simp: range_is_free_iff contains_def)
    show "map_view start len (prot, flags, Some ob, off) (view (vm_vmas s)) a = Some t \<longleftrightarrow>
        (\<exists>v\<in>set (vma_insert nv (vm_vmas s)). contains v a \<and> \<not> is_dying v \<and> t = area_view v a)"
    proof (cases "contains nv a")
      case True
      then show ?thesis using c out by (auto simp: map_view_def)
    next
      case False
      then have "map_view start len (prot, flags, Some ob, off) (view (vm_vmas s)) a = view (vm_vmas s) a"
        using c(1) by (auto simp: map_view_def)
      then show ?thesis unfolding view_iff [OF vs] vma_insert_set using False by (simp only: view_iff [OF vs]) blast
    qed
  qed
  then show ?thesis using ins ok unfolding s' by (simp add: vm_ok_def layout_ok_def fun_eq_iff)
qed

lemma install_fail: "install_locked start len prot flags ob off s = (False, s') \<Longrightarrow> same_list s s' \<and> vm_pt s' = vm_pt s"
  by (auto simp: install_locked_def same_list_def Let_def split: prod.splits if_splits dest!: take_mem_state)

lemma vma_split_at_layout:
  "vma_split_at at s = (ok, s') \<Longrightarrow> layout_ok s' = layout_ok s"
  by (auto simp: vma_split_at_def vmo_ref_def upd_obj_def Let_def layout_ok_def
      split: list.splits prod.splits if_splits option.splits dest!: take_mem_state)

lemma split_range_layout: "split_range lo hi s = (ok, s') \<Longrightarrow> layout_ok s' = layout_ok s"
  by (auto simp: split_range_def split: prod.splits if_splits dest!: vma_split_at_layout)

lemma map_args_len:
  assumes "vm_ok s" "map_args_ok s len prot flags"
  shows "0 < page_align_up len \<and> page_align_up len \<le> USER_VA_LIMIT \<and> \<not> has flags VMA_DYING"
  using assms by (auto simp: map_args_ok_def vm_ok_def layout_ok_def)

lemma anon_object_for_pt: "vm_pt (snd (anon_object_for start len s)) = vm_pt s"
  by (auto simp: anon_object_for_def vmo_create_anon_def vmo_set_mapper_def upd_obj_def Let_def
      split: prod.split option.split dest: take_mem_state)

text \<open>The object of a new anonymous mapping is one no mapping had.\<close>

lemma anon_object_for_new:
  assumes "anon_object_for start len s = (Some ob, s')"
  shows "ob = vm_next s"
  using assms by (auto simp: anon_object_for_def vmo_create_anon_def Let_def split: prod.splits option.splits if_splits dest: take_mem_state)

lemma map_anon_loop_view:
  assumes ok: "vm_ok s" and args: "map_args_ok s len0 prot flags" "len = page_align_up len0" and addr: "addr < 2 ^ 63"
    and r: "map_anon_loop (Suc n) addr len prot flags s = (r, s')"
  shows "case r of
      Inl e \<Rightarrow> view (vm_vmas s') = view (vm_vmas s) \<and> vm_ok s'
    | Inr start \<Rightarrow> mmap_base s \<le> start \<and> start + len \<le> mmap_max s \<and> PAGE_SIZE dvd start \<and> range_is_free s start (start + len) \<and>
        vm_ok s' \<and> view (vm_vmas s') = map_view start len (prot, flags, Some (vm_next s), 0) (view (vm_vmas s))"
proof -
  note len = map_args_len [OF ok args(1), folded args(2)]
  have dvd: "PAGE_SIZE dvd len" using args(2) by simp
  show ?thesis
  proof (cases "map_choose addr len flags s")
    case (Inl e)
    then have "r = Inl e" "s' = s" using r by simp_all
    then show ?thesis using ok by simp
  next
    case (Inr start)
    note ch = map_choose_ok [OF ok Inr _ dvd _ addr]
    have st: "mmap_base s \<le> start" "start + len \<le> mmap_max s" "PAGE_SIZE dvd start" "range_is_free s start (start + len)"
      using ch len by auto
    have lim: "start + len \<le> USER_VA_LIMIT" using st(2) ok by (simp add: vm_ok_def layout_ok_def)
    obtain o1 s1 where o1: "anon_object_for start len s = (o1, s1)" by fastforce
    have sl: "same_list s s1" using same_list_object_for [of s start len] o1 by simp
    have ok1: "vm_ok s1" using vm_ok_same_list [OF sl] ok by simp
    have free1: "range_is_free s1 start (start + len)" using st(4) sl by (simp add: range_is_free_def same_list_def)
    show ?thesis
    proof (cases o1)
      case None
      then show ?thesis using r Inr o1 sl ok1 by (auto simp: same_list_def)
    next
      case (Some ob)
      obtain b s2 where i: "install_locked start len prot flags ob 0 s1 = (b, s2)" by fastforce
      have w: "wrap64 (start + len) = start + len" using lim by simp
      show ?thesis
      proof (cases b)
        case True
        then have i': "install_locked start len prot flags ob 0 s1 = (True, s2)" using i by simp
        have "r = Inr start" "s' = s2" using r Inr o1 Some i True free1 w by (simp_all add: map_install_def)
        moreover note install_view [OF ok1 _ st(3) dvd lim free1 _ i']
        ultimately show ?thesis using st len sl anon_object_for_new o1 Some by (auto simp: same_list_def)
      next
        case False
        then have i': "install_locked start len prot flags ob 0 s1 = (False, s2)" using i by simp
        have "same_list s1 (vmo_put ob s2)" using install_fail [OF i'] same_list_prim(9) same_list_trans by blast
        then have sl2: "same_list s (vmo_put ob s2)" using sl same_list_trans by blast
        moreover have "r = Inl ENOMEM" "s' = vmo_put ob s2" using r Inr o1 Some i False free1 w by (simp_all add: map_install_def)
        ultimately show ?thesis using vm_ok_same_list [OF sl2] ok by (simp add: same_list_def)
      qed
    qed
  qed
qed

section \<open>Unmapping\<close>

lemma munmap_begin_view:
  assumes ok: "vm_ok s" and addr: "addr < 2 ^ 64" and r: "munmap_begin addr len s = (r, s')"
  shows "case r of
      Inl e \<Rightarrow> view (vm_vmas s') = view (vm_vmas s) \<and> vm_ok s'
    | Inr ds \<Rightarrow> (\<forall>a. view (vm_vmas s') a = (if addr \<le> a \<and> a < addr + page_align_up len then None else view (vm_vmas s) a)) \<and>
        vm_ok s' \<and> (\<forall>d\<in>set ds. is_dying d \<and> d \<in> set (vm_vmas s'))"
proof (cases "len = 0 \<or> addr mod PAGE_SIZE \<noteq> 0 \<or> wrap64 (addr + page_align_up len) < addr")
  case True
  then show ?thesis using r ok by (auto simp: munmap_begin_def split: if_splits)
next
  case False
  let ?hi = "addr + page_align_up len"
  have hi: "wrap64 ?hi = ?hi" using range_end [of addr "page_align_up len"] False page_align_up_less addr by blast
  have dvd: "PAGE_SIZE dvd addr" "PAGE_SIZE dvd ?hi" using False by (auto simp: dvd_eq_mod_eq_0 [symmetric])
  obtain b s1 where s1: "split_range addr ?hi s = (b, s1)" by fastforce
  have lay: "layout_ok s1 = layout_ok s" using split_range_layout [OF s1] by simp
  note sp = split_range_view [OF _ dvd s1]
  let ?vs = "map (\<lambda>v. if in_range addr ?hi v then mark_dying v else v) (vm_vmas s1)"
  have eq: "munmap_begin addr len s = (if \<not> b then (Inl ENOMEM, s1) else
      if filter (in_range addr ?hi) (vm_vmas s1) = [] then (Inl EINVAL, s1\<lparr>vm_vmas := ?vs\<rparr>)
      else (Inr (rev (map mark_dying (filter (in_range addr ?hi) (vm_vmas s1)))), s1\<lparr>vm_vmas := ?vs\<rparr>))"
    using False s1 hi by (auto simp: munmap_begin_def Let_def)
  have vs: "vmas_ok (vm_vmas s1)" "view (vm_vmas s1) = view (vm_vmas s)" using sp ok by (auto simp: vm_ok_def)
  have okvs: "vmas_ok ?vs" by (rule vmas_ok_map [OF vs(1)]) simp
  show ?thesis
  proof (cases "\<not> b \<or> filter (in_range addr ?hi) (vm_vmas s1) = []")
    case True
    then have "vm_vmas s' = vm_vmas s1 \<and> (\<exists>e. r = Inl e) \<and> layout_ok s' = layout_ok s1"
      using r unfolding eq by (auto simp: layout_ok_def filter_empty_conv map_idI split: if_splits)
    then show ?thesis using vs ok lay by (auto simp: vm_ok_def)
  next
    case ne: False
    have s': "r = Inr (rev (map mark_dying (filter (in_range addr ?hi) (vm_vmas s1))))" "s' = s1\<lparr>vm_vmas := ?vs\<rparr>"
      using r ne unfolding eq by auto
    have "layout_ok s' = layout_ok s1" by (simp add: s' layout_ok_def)
    moreover have "view ?vs a = (if addr \<le> a \<and> a < ?hi then None else view (vm_vmas s) a)" for a
      using view_mark [OF vs(1), of addr ?hi a] sp ok ne vs(2) by (simp add: vm_ok_def)
    ultimately show ?thesis using okvs ok lay unfolding s' by (auto simp: vm_ok_def)
  qed
qed

lemma vma_munmap_view:
  assumes ok: "vm_ok s" and addr: "addr < 2 ^ 64" and r: "vma_munmap addr len s = (r, s')"
  shows "vm_ok s' \<and> (case r of
      Inl e \<Rightarrow> view (vm_vmas s') = view (vm_vmas s)
    | Inr _ \<Rightarrow> view (vm_vmas s') = (\<lambda>a. if addr \<le> a \<and> a < addr + page_align_up len then None else view (vm_vmas s) a))"
proof -
  obtain b s1 where b: "munmap_begin addr len s = (b, s1)" by fastforce
  note mb = munmap_begin_view [OF ok addr b]
  show ?thesis
  proof (cases b)
    case (Inl e)
    then have "r = Inl e" "s' = s1" using r b by (simp_all add: vma_munmap_def)
    then show ?thesis using mb Inl by simp
  next
    case (Inr ds)
    let ?s2 = "fold unmap_area ds s1"
    have s': "r = Inr ()" "s' = munmap_finish ds ?s2" using r b Inr by (simp_all add: vma_munmap_def)
    have sl: "same_list s1 ?s2" by (rule same_list_fold) (rule same_list_unmap_area)
    have ok1: "vm_ok s1" "\<And>d. d \<in> set ds \<Longrightarrow> is_dying d" using mb Inr by simp_all
    let ?s3 = "?s2\<lparr>vm_vmas := fold vma_unlink ds (vm_vmas ?s2)\<rparr>"
    have vs: "vmas_ok (vm_vmas s1)" using ok1(1) by (simp add: vm_ok_def)
    have un: "fold vma_unlink ds (vm_vmas ?s2) = filter (\<lambda>v. v \<notin> set ds) (vm_vmas s1)"
      using vma_unlink_fold [OF vmas_ok_distinct [OF vs]] sl by (simp add: same_list_def)
    have "same_list ?s3 (fold put_area ds ?s3)" by (rule same_list_fold) (rule same_list_put_area)
    then have sl3: "same_list ?s3 s'" by (simp add: s' munmap_finish_def)
    have "vm_vmas s' = filter (\<lambda>v. v \<notin> set ds) (vm_vmas s1)" "layout_ok s' = layout_ok s1"
      using sl3 sl un by (simp_all add: same_list_def layout_ok_def)
    moreover have "view (filter (\<lambda>v. v \<notin> set ds) (vm_vmas s1)) = view (vm_vmas s1)"
      by (rule view_drop_dying [OF vs]) (use ok1(2) in auto)
    moreover have "view (vm_vmas s1) = (\<lambda>a. if addr \<le> a \<and> a < addr + page_align_up len then None else view (vm_vmas s) a)"
      using mb Inr by (auto simp: fun_eq_iff)
    ultimately show ?thesis using s'(1) ok1(1) vmas_ok_sublist [OF vs] by (simp add: vm_ok_def)
  qed
qed

section \<open>Protection\<close>

text \<open>May the mapping be given these permissions?\<close>

definition may_protect :: "(nat \<Rightarrow> errno option) \<Rightarrow> vm \<Rightarrow> u32 \<Rightarrow> vm_area \<Rightarrow> bool" where
  "may_protect check s prot v \<longleftrightarrow>
     (has prot PROT_WRITE \<longrightarrow> \<not> has (va_flags v) VMA_NO_SHARED_WRITE \<and>
        (has (va_flags v) MAP_SHARED \<longrightarrow> (\<forall>ob. va_obj v = Some ob \<longrightarrow> vmo_check_write check ob s = None)))"

lemma protect_walk_sound:
  "vmas_ok vs \<Longrightarrow> protect_walk check s hi prot covered vs = Inr c \<Longrightarrow> covered \<le> a \<Longrightarrow> a < c \<Longrightarrow>
    \<exists>v. vma_find vs a = Some v \<and> may_protect check s prot v"
proof (induction check s hi prot covered vs rule: protect_walk.induct)
  case (2 check s hi prot covered v vs)
  have v: "area_ok v" "vmas_ok vs" using "2.prems"(1) by (auto simp: vmas_ok_Cons)
  let ?chk = "case va_obj v of None \<Rightarrow> None
    | Some ob \<Rightarrow> if has prot PROT_WRITE \<and> has (va_flags v) MAP_SHARED then vmo_check_write check ob s else None"
  consider (skip) "covered < hi" "va_end v \<le> covered" | (stop) "c = covered"
    | (go) "covered < hi" "covered < va_end v" "va_start v \<le> covered" "\<not> is_dying v"
      "\<not> (has prot PROT_WRITE \<and> has (va_flags v) VMA_NO_SHARED_WRITE)" "?chk = None"
      "protect_walk check s hi prot (va_end v) vs = Inr c"
    using "2.prems"(2) by (auto simp: is_dying_def split: if_splits option.splits)
  then show ?case
  proof cases
    case skip
    then have "protect_walk check s hi prot covered vs = Inr c" using "2.prems"(2) by simp
    then have "\<exists>u. vma_find vs a = Some u \<and> may_protect check s prot u" using "2.IH"(1) skip v(2) "2.prems"(3,4) by auto
    moreover have "vma_find (v # vs) a = vma_find vs a" using skip "2.prems"(3) v(1) by (simp add: area_ok_def)
    ultimately show ?thesis by simp
  next
    case stop
    then show ?thesis using "2.prems"(3,4) by simp
  next
    case go
    show ?thesis
    proof (cases "a < va_end v")
      case True
      have "may_protect check s prot v" using go(5,6) by (auto simp: may_protect_def)
      then show ?thesis using True go "2.prems"(3) by (simp add: is_dying_def)
    next
      case False
      have "\<exists>u. vma_find vs a = Some u \<and> may_protect check s prot u"
        using "2.IH"(2) [OF _ _ _ _ go(6) v(2) go(7)] go False "2.prems"(4) by (auto simp: is_dying_def)
      moreover have "vma_find (v # vs) a = vma_find vs a" using False v(1) by (simp add: area_ok_def)
      ultimately show ?thesis by simp
    qed
  qed
qed simp

lemma protect_walk_complete:
  "vmas_ok vs \<Longrightarrow> \<forall>a. covered \<le> a \<and> a < hi \<longrightarrow> (\<exists>v. vma_find vs a = Some v \<and> may_protect check s prot v) \<Longrightarrow>
    \<exists>c\<ge>hi. protect_walk check s hi prot covered vs = Inr c"
proof (induction check s hi prot covered vs rule: protect_walk.induct)
  case (1 check s hi prot covered)
  then show ?case by (cases "covered < hi") auto
next
  case (2 check s hi prot covered v vs)
  have v: "area_ok v" "vmas_ok vs" using "2.prems"(1) by (auto simp: vmas_ok_Cons)
  have later: "vma_find (v # vs) a = vma_find vs a" if "va_end v \<le> a" for a using that v(1) by (simp add: area_ok_def)
  show ?case
  proof (cases "covered < hi")
    case False
    then show ?thesis by auto
  next
    case hi: True
    show ?thesis
    proof (cases "va_end v \<le> covered")
      case True
      then have "\<exists>c\<ge>hi. protect_walk check s hi prot covered vs = Inr c"
        using "2.IH"(1) hi v(2) "2.prems"(2) later by auto
      then show ?thesis using hi True by simp
    next
      case False
      obtain u where u: "vma_find (v # vs) covered = Some u" "may_protect check s prot u" using "2.prems"(2) hi by blast
      have uv: "u = v" "va_start v \<le> covered" "\<not> has (va_flags v) VMA_DYING" using u(1) False by (auto split: if_splits)
      have chk: "\<not> (has prot PROT_WRITE \<and> has (va_flags v) VMA_NO_SHARED_WRITE)"
        "(case va_obj v of None \<Rightarrow> None
          | Some ob \<Rightarrow> if has prot PROT_WRITE \<and> has (va_flags v) MAP_SHARED then vmo_check_write check ob s else None) = None"
        using u(2) uv(1) by (auto simp: may_protect_def split: option.split)
      have "\<forall>a. va_end v \<le> a \<and> a < hi \<longrightarrow> (\<exists>w. vma_find vs a = Some w \<and> may_protect check s prot w)"
        using "2.prems"(2) later False by (metis nle_le order_trans)
      then have "\<exists>c\<ge>hi. protect_walk check s hi prot (va_end v) vs = Inr c"
        using "2.IH"(2) [OF _ False _ chk v(2)] hi uv by auto
      then show ?thesis using hi False uv chk by simp
    qed
  qed
qed

lemma protect_apply_view:
  assumes ok: "vm_ok s" and dvd: "PAGE_SIZE dvd addr" "PAGE_SIZE dvd hi" and r: "protect_apply addr hi prot s = (r, s')"
  shows "vm_ok s' \<and> (case r of
      Inl e \<Rightarrow> view (vm_vmas s') = view (vm_vmas s)
    | Inr _ \<Rightarrow> view (vm_vmas s') = (\<lambda>a. if addr \<le> a \<and> a < hi then map_option (\<lambda>(_, t). (prot, t)) (view (vm_vmas s) a)
        else view (vm_vmas s) a))"
proof -
  obtain b s1 where s1: "split_range addr hi s = (b, s1)" by fastforce
  have lay: "layout_ok s1 = layout_ok s" by (rule split_range_layout [OF s1])
  have vs: "vmas_ok (vm_vmas s)" using ok by (simp add: vm_ok_def)
  note sp = split_range_view [OF vs dvd s1]
  show ?thesis
  proof (cases b)
    case False
    then have "r = Inl ENOMEM" "s' = s1" using r s1 by (simp_all add: protect_apply_def)
    then show ?thesis using sp ok lay by (simp add: vm_ok_def)
  next
    case True
    let ?s2 = "fold (protect_area prot) (filter (in_range addr hi) (vm_vmas s1)) s1"
    let ?f = "\<lambda>v. if in_range addr hi v then v\<lparr>va_prot := prot\<rparr> else v"
    have sl: "same_list s1 ?s2" by (rule same_list_fold) (rule same_list_protect_area)
    have s': "r = Inr ()" "vm_vmas s' = map ?f (vm_vmas s1)" "layout_ok s' = layout_ok s1"
      using r s1 True sl by (auto simp: protect_apply_def Let_def same_list_def layout_ok_def)
    have "vmas_ok (map ?f (vm_vmas s1))" by (rule vmas_ok_map) (use sp in auto)
    moreover have "view (map ?f (vm_vmas s1)) a = (if addr \<le> a \<and> a < hi then map_option (\<lambda>(_, t). (prot, t)) (view (vm_vmas s) a)
        else view (vm_vmas s) a)" for a
      using view_protect [of "vm_vmas s1" addr hi prot a] sp True by simp
    ultimately show ?thesis using s' ok lay by (auto simp: vm_ok_def fun_eq_iff)
  qed
qed

lemma protect_check_Inr:
  assumes "protect_check check addr len prot s = Inr hi" "addr < 2 ^ 64"
  shows "hi = addr + page_align_up len" "PAGE_SIZE dvd addr" "PAGE_SIZE dvd hi"
    "\<exists>c\<ge>hi. protect_walk check s hi prot addr (vm_vmas s) = Inr c" "\<not> (has prot PROT_WRITE \<and> has prot PROT_EXEC)"
proof -
  have h: "hi = wrap64 (addr + page_align_up len)" "\<not> hi < addr" and a: "addr mod PAGE_SIZE = 0"
    and w: "\<exists>c\<ge>hi. protect_walk check s hi prot addr (vm_vmas s) = Inr c" "\<not> (has prot PROT_WRITE \<and> has prot PROT_EXEC)"
    using assms(1) by (auto simp: protect_check_def Let_def not_less split: if_splits sum.splits)
  show hi: "hi = addr + page_align_up len" using range_end [of addr "page_align_up len"] h page_align_up_less assms(2) by simp
  show "PAGE_SIZE dvd addr" using a by (simp add: dvd_eq_mod_eq_0)
  then show "PAGE_SIZE dvd hi" unfolding hi by simp
  show "\<exists>c\<ge>hi. protect_walk check s hi prot addr (vm_vmas s) = Inr c" "\<not> (has prot PROT_WRITE \<and> has prot PROT_EXEC)" by (fact w)+
qed

lemma vma_mprotect_view:
  assumes ok: "vm_ok s" and addr: "addr < 2 ^ 64" and r: "vma_mprotect check addr len prot s = (r, s')"
  shows "vm_ok s' \<and> (case r of
      Inl e \<Rightarrow> view (vm_vmas s') = view (vm_vmas s)
    | Inr _ \<Rightarrow>
        (\<forall>a. addr \<le> a \<and> a < addr + page_align_up len \<longrightarrow> (\<exists>v. vma_find (vm_vmas s) a = Some v \<and> may_protect check s prot v)) \<and>
        view (vm_vmas s') = (\<lambda>a. if addr \<le> a \<and> a < addr + page_align_up len
          then map_option (\<lambda>(_, t). (prot, t)) (view (vm_vmas s) a) else view (vm_vmas s) a))"
proof (cases "protect_check check addr len prot s")
  case (Inl e)
  then have "r = Inl e" "s' = s" using r by (simp_all add: vma_mprotect_def)
  then show ?thesis using ok by simp
next
  case (Inr hi)
  note c = protect_check_Inr [OF Inr addr]
  have ap: "protect_apply addr hi prot s = (r, s')" using r Inr by (simp add: vma_mprotect_def)
  obtain d where d: "hi \<le> d" "protect_walk check s hi prot addr (vm_vmas s) = Inr d" using c(4) by blast
  have vs: "vmas_ok (vm_vmas s)" using ok by (simp add: vm_ok_def)
  have "\<exists>v. vma_find (vm_vmas s) a = Some v \<and> may_protect check s prot v" if "addr \<le> a" "a < hi" for a
    by (rule protect_walk_sound [OF vs d(2) that(1)]) (use that(2) d(1) in simp)
  then show ?thesis using protect_apply_view [OF ok c(2,3) ap] c(1) by (cases r) auto
qed

text \<open>A range with a hole, or one that may not be written, is refused before anything changes.\<close>

lemma protect_check_exact:
  assumes ok: "vm_ok s" and a: "PAGE_SIZE dvd addr" "len \<noteq> 0" "addr + page_align_up len < 2 ^ 64" "prot AND NOT 7 = 0"
    "\<not> (has prot PROT_WRITE \<and> has prot PROT_EXEC)"
  shows "(\<exists>hi. protect_check check addr len prot s = Inr hi) \<longleftrightarrow>
    (\<forall>a. addr \<le> a \<and> a < addr + page_align_up len \<longrightarrow> (\<exists>v. vma_find (vm_vmas s) a = Some v \<and> may_protect check s prot v))"
proof -
  let ?hi = "addr + page_align_up len"
  have vs: "vmas_ok (vm_vmas s)" using ok by (simp add: vm_ok_def)
  have bits: "PROT_READ OR PROT_WRITE OR PROT_EXEC = 7" by simp
  have w: "wrap64 ?hi = ?hi" using a(3) by simp
  have pc: "protect_check check addr len prot s =
      (case protect_walk check s ?hi prot addr (vm_vmas s) of Inl e \<Rightarrow> Inl e | Inr c \<Rightarrow> if c < ?hi then Inl ENOMEM else Inr ?hi)"
    using a w unfolding protect_check_def bits by (auto simp: Let_def dvd_eq_mod_eq_0 has_def)
  show ?thesis
  proof
    assume "\<exists>hi. protect_check check addr len prot s = Inr hi"
    then obtain c where c: "protect_walk check s ?hi prot addr (vm_vmas s) = Inr c" "?hi \<le> c"
      unfolding pc by (auto split: sum.splits if_splits)
    show "\<forall>a. addr \<le> a \<and> a < ?hi \<longrightarrow> (\<exists>v. vma_find (vm_vmas s) a = Some v \<and> may_protect check s prot v)"
      using protect_walk_sound [OF vs c(1)] c(2) by auto
  next
    assume "\<forall>a. addr \<le> a \<and> a < ?hi \<longrightarrow> (\<exists>v. vma_find (vm_vmas s) a = Some v \<and> may_protect check s prot v)"
    from protect_walk_complete [OF vs this] show "\<exists>hi. protect_check check addr len prot s = Inr hi" unfolding pc by auto
  qed
qed

lemma vma_mmap_view:
  assumes ok: "vm_ok s" and addr: "addr < 2 ^ 63" and r: "vma_mmap addr len prot flags s = (r, s')"
  shows "vm_ok s' \<and> (case r of
      Inl e \<Rightarrow> view (vm_vmas s') = view (vm_vmas s)
    | Inr start \<Rightarrow> mmap_base s \<le> start \<and> start + page_align_up len \<le> mmap_max s \<and>
        (\<forall>a. start \<le> a \<and> a < start + page_align_up len \<longrightarrow> view (vm_vmas s) a = None) \<and>
        view (vm_vmas s') = map_view start (page_align_up len) (prot, flags, Some (vm_next s), 0) (view (vm_vmas s)))"
proof (cases "map_args_ok s len prot flags \<and> has flags MAP_ANONYMOUS \<and> has flags MAP_PRIVATE \<and> \<not> has flags MAP_SHARED")
  case False
  then have "(\<exists>e. r = Inl e) \<and> s' = s" using r by (auto simp: vma_mmap_def vma_map_common_def split: if_splits)
  then show ?thesis using ok by auto
next
  case True
  then have l: "map_anon_loop (Suc 7) addr (page_align_up len) prot flags s = (r, s')"
    using r by (simp add: vma_mmap_def vma_map_common_def Let_def)
  have vs: "vmas_ok (vm_vmas s)" using ok by (simp add: vm_ok_def)
  have free: "view (vm_vmas s) a = None" if "range_is_free s lo hi" "lo \<le> a" "a < hi" for a lo hi
  proof -
    have "\<not> contains v a" if "v \<in> set (vm_vmas s)" for v
      using \<open>range_is_free s lo hi\<close> \<open>lo \<le> a\<close> \<open>a < hi\<close> that by (auto simp: range_is_free_iff contains_def)
    then show ?thesis using view_iff [OF vs, of a] by (metis not_Some_eq)
  qed
  have "map_args_ok s len prot flags" using True by blast
  from map_anon_loop_view [OF ok this refl addr l] show ?thesis using free by (cases r) auto
qed

section \<open>Properties\<close>

text \<open>A small address space for the examples: a mapping window, no mapping yet, plenty of memory.\<close>

definition vm0 :: vm where
  "vm0 = \<lparr>vm_vmas = [], vm_pt = Map.empty, vm_objs = Map.empty, vm_next = 1, vm_frames = [4096, 8192, 12288],
     vm_mem = [True, True, True, True, True, True, True, True, True, True, True, True], mmap_base = 0x500000000000, mmap_max = 0x504000000000,
     heap_base = 0x600000000000, heap_max = 0x600040000000\<rparr>"

lemma vm0_ok: "vm_ok vm0"
  by (simp add: vm_ok_def vm0_def layout_ok_def)

lemmas map_anon_loop_eight = map_anon_loop.simps(2) [of 7, simplified]

lemmas vma_run = map_anon_loop_eight vma_mmap_def vma_map_common_def map_args_ok_def page_align_up_def map_choose_def find_gap_def anon_object_for_def
  vmo_create_anon_def take_mem_def vmo_set_mapper_def obj_anon_def upd_obj_def map_install_def range_is_free_def
  install_locked_def vma_insert_def Let_def has_def wrap64_def

text \<open>
  C14: first fit is exact.  \<open>find_gap\<close> fails only when no stretch of the requested length in the mapping
  window is free, and otherwise gives the lowest free one.
\<close>

theorem find_gap_exact:
  assumes "vm_ok s" "0 < len" "len \<le> USER_VA_LIMIT"
  shows "(find_gap s len = 0 \<longleftrightarrow> (\<nexists>b. mmap_base s \<le> b \<and> b + len \<le> mmap_max s \<and> range_is_free s b (b + len))) \<and>
    (find_gap s len \<noteq> 0 \<longrightarrow> mmap_base s \<le> find_gap s len \<and> find_gap s len + len \<le> mmap_max s \<and>
      range_is_free s (find_gap s len) (find_gap s len + len) \<and>
      (\<forall>b. mmap_base s \<le> b \<and> range_is_free s b (b + len) \<longrightarrow> find_gap s len \<le> b))"
  using assms find_gap_ok [of s len] unfolding vm_ok_def by blast

theorem find_gap_exact_witness:
  "vm_ok vm0 \<and> find_gap vm0 8192 = 0x500000000000 \<and> range_is_free vm0 0x500000000000 (0x500000000000 + 8192)"
proof -
  have g: "find_gap vm0 8192 = 0x500000000000" by (simp add: vm0_def find_gap_def wrap64_def)
  then show ?thesis using find_gap_exact [OF vm0_ok, of 8192] vm0_ok by simp
qed

text \<open>
  C13: for requested addresses below \<open>2^63\<close>, the list of mappings implements a map from addresses to
  permissions, flags, object and position.  Mapping adds a range that was empty, inside the window; unmapping empties exactly the range;
  changing the protection changes exactly the permissions of the range, every page of which was mapped and may have
  them; and whatever fails changes nothing, although it may have cut mappings in two.
\<close>

theorem address_space_refines:
  assumes "vm_ok s" "addr < 2 ^ 63"
  shows "(\<forall>len prot flags r s'. vma_mmap addr len prot flags s = (r, s') \<longrightarrow> vm_ok s' \<and> (case r of
      Inl e \<Rightarrow> view (vm_vmas s') = view (vm_vmas s)
    | Inr start \<Rightarrow> mmap_base s \<le> start \<and> start + page_align_up len \<le> mmap_max s \<and>
        (\<forall>a. start \<le> a \<and> a < start + page_align_up len \<longrightarrow> view (vm_vmas s) a = None) \<and>
        view (vm_vmas s') = map_view start (page_align_up len) (prot, flags, Some (vm_next s), 0) (view (vm_vmas s)))) \<and>
   (\<forall>len r s'. vma_munmap addr len s = (r, s') \<longrightarrow> vm_ok s' \<and> (case r of
      Inl e \<Rightarrow> view (vm_vmas s') = view (vm_vmas s)
    | Inr _ \<Rightarrow> view (vm_vmas s') = (\<lambda>a. if addr \<le> a \<and> a < addr + page_align_up len then None else view (vm_vmas s) a))) \<and>
   (\<forall>check len prot r s'. vma_mprotect check addr len prot s = (r, s') \<longrightarrow> vm_ok s' \<and> (case r of
      Inl e \<Rightarrow> view (vm_vmas s') = view (vm_vmas s)
    | Inr _ \<Rightarrow>
        (\<forall>a. addr \<le> a \<and> a < addr + page_align_up len \<longrightarrow> (\<exists>v. vma_find (vm_vmas s) a = Some v \<and> may_protect check s prot v)) \<and>
        view (vm_vmas s') = (\<lambda>a. if addr \<le> a \<and> a < addr + page_align_up len
          then map_option (\<lambda>(_, t). (prot, t)) (view (vm_vmas s) a) else view (vm_vmas s) a)))"
proof -
  have "addr < 2 ^ 64" using assms(2) by simp
  then show ?thesis using vma_mmap_view [OF assms] vma_munmap_view [OF assms(1)] vma_mprotect_view [OF assms(1)] by blast
qed

theorem address_space_refines_witness:
  "\<exists>s'. vma_mmap 0 5000 3 0x22 vm0 = (Inr 0x500000000000, s') \<and> view (vm_vmas s') 0x500000001FFF = Some (3, 0x22, Some 1, 0x1FFF)"
proof -
  obtain s' where s': "vma_mmap 0 5000 3 0x22 vm0 = (Inr 0x500000000000, s')" by (simp add: vma_run vm0_def)
  then have "view (vm_vmas s') = map_view 0x500000000000 (page_align_up 5000) (3, 0x22, Some (vm_next vm0), 0) (view (vm_vmas vm0))"
    using address_space_refines [OF vm0_ok, of 0] by fastforce
  then show ?thesis using s' by (simp add: map_view_def page_align_up_def wrap64_def vm0_def)
qed

text \<open>
  The bound on the address matters for fixed mappings.  The end of the range is a wrapping sum:
  two pages at the last page of the address space pass the check against the window and the list,
  and the mapping that is installed ends before it starts.
\<close>

lemma mmap_fixed_wraps:
  "\<exists>s' v. vma_mmap (2 ^ 64 - 4096) 8192 3 0x32 vm0 = (Inr (2 ^ 64 - 4096), s') \<and> v \<in> set (vm_vmas s') \<and> va_end v < va_start v"
  by (simp add: vma_run vm0_def range_is_free_def)

end
