(* ===== verification/Vma_Frames.thy ===== *)
theory Vma_Frames
  imports Vma_View
begin

text \<open>
  Which frame belongs to whom.  The record \<open>fm\<close> is what the frames of a process are about: for a
  page address the page of the object that is mapped there (\<open>sl\<close>), whether its mapping has been
  emptied and waits to be unlinked (\<open>dn\<close>), the frame entered there (\<open>pf\<close>); the pages of the objects
  (\<open>pg\<close>); the free frames (\<open>fr\<close>); which objects are anonymous (\<open>an\<close>) and where they are mapped
  (\<open>mp\<close>); and the faults that have wired a page and not yet entered it (\<open>ws\<close>).  The theory has the
  invariant that ties them together and what each kind of change keeps of it; \<open>Vma_Steps\<close> reads
  the sections of the code as such changes.
\<close>

section \<open>Frames, pages and page-table entries\<close>

record fm =
  sl :: "nat \<Rightarrow> (nat \<times> nat) option"
  dn :: "nat \<Rightarrow> bool"
  pf :: "nat \<Rightarrow> nat option"
  pg :: "nat \<Rightarrow> nat \<Rightarrow> vmo_page option"
  fr :: "nat list"
  an :: "nat \<Rightarrow> bool"
  mp :: "nat \<Rightarrow> nat option"
  ws :: "(nat \<times> nat \<times> nat) multiset"

definition ff :: "fm \<Rightarrow> nat \<Rightarrow> nat \<Rightarrow> nat option" where
  "ff m ob i = map_option pg_phys (pg m ob i)"

definition mapped :: "fm \<Rightarrow> nat \<Rightarrow> nat \<Rightarrow> nat set" where
  "mapped m ob i = {va. sl m va = Some (ob, i) \<and> pf m va \<noteq> None \<and> pf m va = ff m ob i}"

definition flying :: "fm \<Rightarrow> nat \<Rightarrow> nat \<Rightarrow> nat" where
  "flying m ob i = size (filter_mset (\<lambda>(o1, j, ph). o1 = ob \<and> j = i) (ws m))"

definition live :: "fm \<Rightarrow> nat \<Rightarrow> nat \<Rightarrow> bool" where
  "live m ob i \<longleftrightarrow> \<not> an m ob \<or> (\<exists>va. sl m va = Some (ob, i) \<and> \<not> dn m va)"

definition own_copy :: "fm \<Rightarrow> nat \<Rightarrow> nat \<Rightarrow> bool" where
  "own_copy m va f \<longleftrightarrow> f \<notin> set (fr m) \<and> (\<forall>ob i. ff m ob i \<noteq> Some f) \<and> (\<forall>va'. pf m va' = Some f \<longrightarrow> va' = va)"

text \<open>
  In order: finitely many entries; an entry shows something, and not in an emptied mapping; where
  an anonymous page is mapped; the free frames; the frames of pages; an entry shows its page or,
  for a file, a copy of its own; the wire counts; the faults in flight.
\<close>

definition fm_inv :: "fm \<Rightarrow> bool" where
  "fm_inv m \<longleftrightarrow>
     finite {va. pf m va \<noteq> None} \<and>
     (\<forall>va f. pf m va = Some f \<longrightarrow> f \<noteq> 0 \<and> \<not> dn m va \<and> sl m va \<noteq> None) \<and>
     (\<forall>va ob i. sl m va = Some (ob, i) \<longrightarrow> an m ob \<longrightarrow> (\<exists>b. mp m ob = Some b \<and> va = b + i * PAGE_SIZE)) \<and>
     (distinct (fr m) \<and> 0 \<notin> set (fr m)) \<and>
     (\<forall>ob i f. ff m ob i = Some f \<longrightarrow> f \<notin> set (fr m) \<and> (\<not> an m ob \<longrightarrow> f \<noteq> 0)) \<and>
     (\<forall>ob i ob' i' f. ff m ob i = Some f \<longrightarrow> ff m ob' i' = Some f \<longrightarrow> f \<noteq> 0 \<longrightarrow> ob = ob' \<and> i = i') \<and>
     (\<forall>va f ob i. pf m va = Some f \<longrightarrow> sl m va = Some (ob, i) \<longrightarrow> ff m ob i = Some f \<or> \<not> an m ob \<and> own_copy m va f) \<and>
     (\<forall>ob i p. pg m ob i = Some p \<longrightarrow> pg_wired p \<le> card (mapped m ob i) + flying m ob i \<and>
        (live m ob i \<longrightarrow> pg_wired p = card (mapped m ob i) + flying m ob i)) \<and>
     (\<forall>ob i ph. (ob, i, ph) \<in># ws m \<longrightarrow> ph \<noteq> 0 \<and> (live m ob i \<longrightarrow> ff m ob i = Some ph))"

lemma fm_invD:
  assumes "fm_inv m"
  shows "finite {va. pf m va \<noteq> None}"
    "\<And>va f. pf m va = Some f \<Longrightarrow> f \<noteq> 0 \<and> \<not> dn m va \<and> sl m va \<noteq> None"
    "\<And>va ob i. sl m va = Some (ob, i) \<Longrightarrow> an m ob \<Longrightarrow> \<exists>b. mp m ob = Some b \<and> va = b + i * PAGE_SIZE"
    "distinct (fr m) \<and> 0 \<notin> set (fr m)"
    "\<And>ob i f. ff m ob i = Some f \<Longrightarrow> f \<notin> set (fr m) \<and> (\<not> an m ob \<longrightarrow> f \<noteq> 0)"
    "\<And>ob i ob' i' f. ff m ob i = Some f \<Longrightarrow> ff m ob' i' = Some f \<Longrightarrow> f \<noteq> 0 \<Longrightarrow> ob = ob' \<and> i = i'"
    "\<And>va f ob i. pf m va = Some f \<Longrightarrow> sl m va = Some (ob, i) \<Longrightarrow> ff m ob i = Some f \<or> \<not> an m ob \<and> own_copy m va f"
    "\<And>ob i p. pg m ob i = Some p \<Longrightarrow> pg_wired p \<le> card (mapped m ob i) + flying m ob i \<and>
        (live m ob i \<longrightarrow> pg_wired p = card (mapped m ob i) + flying m ob i)"
    "\<And>ob i ph. (ob, i, ph) \<in># ws m \<Longrightarrow> ph \<noteq> 0 \<and> (live m ob i \<longrightarrow> ff m ob i = Some ph)"
  using assms unfolding fm_inv_def by (fast | simp)+

lemma fm_invI:
  assumes "finite {va. pf m va \<noteq> None}"
    "\<And>va f. pf m va = Some f \<Longrightarrow> f \<noteq> 0 \<and> \<not> dn m va \<and> sl m va \<noteq> None"
    "\<And>va ob i. sl m va = Some (ob, i) \<Longrightarrow> an m ob \<Longrightarrow> \<exists>b. mp m ob = Some b \<and> va = b + i * PAGE_SIZE"
    "distinct (fr m) \<and> 0 \<notin> set (fr m)"
    "\<And>ob i f. ff m ob i = Some f \<Longrightarrow> f \<notin> set (fr m) \<and> (\<not> an m ob \<longrightarrow> f \<noteq> 0)"
    "\<And>ob i ob' i' f. ff m ob i = Some f \<Longrightarrow> ff m ob' i' = Some f \<Longrightarrow> f \<noteq> 0 \<Longrightarrow> ob = ob' \<and> i = i'"
    "\<And>va f ob i. pf m va = Some f \<Longrightarrow> sl m va = Some (ob, i) \<Longrightarrow> ff m ob i = Some f \<or> \<not> an m ob \<and> own_copy m va f"
    "\<And>ob i p. pg m ob i = Some p \<Longrightarrow> pg_wired p \<le> card (mapped m ob i) + flying m ob i \<and>
        (live m ob i \<longrightarrow> pg_wired p = card (mapped m ob i) + flying m ob i)"
    "\<And>ob i ph. (ob, i, ph) \<in># ws m \<Longrightarrow> ph \<noteq> 0 \<and> (live m ob i \<longrightarrow> ff m ob i = Some ph)"
  shows "fm_inv m"
  unfolding fm_inv_def using assms by blast

lemma ff_Some: "ff m ob i = Some f \<longleftrightarrow> (\<exists>p. pg m ob i = Some p \<and> pg_phys p = f)"
  by (auto simp: ff_def)

text \<open>An entry never points at a free frame, nor at a page of another slot.\<close>

lemma fm_entry_not_free:
  assumes "fm_inv m" "pf m va = Some f"
  shows "f \<notin> set (fr m)"
proof -
  obtain ob i where s: "sl m va = Some (ob, i)" using fm_invD(2) [OF assms] by auto
  show ?thesis using fm_invD(7) [OF assms s] fm_invD(5) [OF assms(1), of ob i f] by (auto simp: own_copy_def)
qed

lemma fm_entry_page:
  assumes "fm_inv m" "pf m va = Some f" "ff m ob i = Some f"
  shows "sl m va = Some (ob, i)" "va \<in> mapped m ob i" "live m ob i"
proof -
  obtain ob' i' where s: "sl m va = Some (ob', i')" using fm_invD(2) [OF assms(1,2)] by auto
  have f0: "f \<noteq> 0" "\<not> dn m va" using fm_invD(2) [OF assms(1,2)] by auto
  have "ff m ob' i' = Some f" using fm_invD(7) [OF assms(1,2) s] assms(3) by (auto simp: own_copy_def)
  then have "ob' = ob \<and> i' = i" using fm_invD(6) [OF assms(1) _ assms(3) f0(1)] by blast
  then show "sl m va = Some (ob, i)" "va \<in> mapped m ob i" "live m ob i" using s f0 assms(2,3) by (auto simp: mapped_def live_def)
qed

lemma mapped_finite: "fm_inv m \<Longrightarrow> finite (mapped m ob i)"
  by (rule finite_subset [OF _ fm_invD(1)]) (auto simp: mapped_def)

lemma flying_zero: "flying m ob i = 0 \<longleftrightarrow> (\<forall>ph. (ob, i, ph) \<notin># ws m)"
  by (auto simp: flying_def)

lemma flying_add: "ws m' = add_mset (ob, i, ph) (ws m) \<Longrightarrow> flying m' ob' i' = flying m ob' i' + (if ob' = ob \<and> i' = i then 1 else 0)"
  by (auto simp: flying_def)

text \<open>A page without a frame, or no page, has no entry, and no fault in flight that counts.\<close>

lemma not_resident:
  assumes "fm_inv m" "ff m ob i = None \<or> ff m ob i = Some 0"
  shows "mapped m ob i = {}" "live m ob i \<Longrightarrow> flying m ob i = 0"
proof -
  show "mapped m ob i = {}" using assms fm_invD(2) [OF assms(1)] by (fastforce simp: mapped_def)
  show "flying m ob i = 0" if "live m ob i"
    unfolding flying_zero using fm_invD(9) [OF assms(1)] that assms(2) by fastforce
qed

text \<open>An anonymous page is mapped nowhere once its place has been emptied.\<close>

lemma not_live_unmapped: "fm_inv m \<Longrightarrow> \<not> live m ob i \<Longrightarrow> mapped m ob i = {}"
  using fm_invD(2) by (fastforce simp: mapped_def live_def)

section \<open>Wire counts\<close>

definition set_wired :: "nat \<Rightarrow> nat \<Rightarrow> (nat \<Rightarrow> nat) \<Rightarrow> fm \<Rightarrow> fm" where
  "set_wired ob i g m = m\<lparr>pg := (pg m)(ob := (pg m ob)(i := map_option (\<lambda>p. p\<lparr>pg_wired := g (pg_wired p)\<rparr>) (pg m ob i)))\<rparr>"

lemma set_wired_simps [simp]:
  "sl (set_wired ob i g m) = sl m" "dn (set_wired ob i g m) = dn m" "pf (set_wired ob i g m) = pf m"
  "fr (set_wired ob i g m) = fr m" "an (set_wired ob i g m) = an m" "mp (set_wired ob i g m) = mp m" "ws (set_wired ob i g m) = ws m"
  "live (set_wired ob i g m) = live m" "flying (set_wired ob i g m) = flying m" "ff (set_wired ob i g m) = ff m"
  by (simp_all add: set_wired_def live_def flying_def ff_def fun_eq_iff option.map_comp comp_def)

lemma set_wired_page:
  "pg (set_wired ob i g m) ob' i' = Some q \<longleftrightarrow>
     (\<exists>p. pg m ob' i' = Some p \<and> q = (if ob' = ob \<and> i' = i then p\<lparr>pg_wired := g (pg_wired p)\<rparr> else p))"
  by (auto simp: set_wired_def)

lemma set_wired_mapped [simp]: "mapped (set_wired ob i g m) = mapped m" "own_copy (set_wired ob i g m) = own_copy m"
  by (simp_all add: mapped_def own_copy_def fun_eq_iff)

text \<open>A change of wire counts and faults in flight when the accounts still balance.\<close>

lemma fm_wire_count:
  assumes inv: "fm_inv m"
    and bal: "\<And>n. n \<le> card (mapped m ob i) + flying m ob i \<Longrightarrow>
        g n \<le> card (mapped m ob i) + flying (m\<lparr>ws := W\<rparr>) ob i \<and>
        (live m ob i \<longrightarrow> n = card (mapped m ob i) + flying m ob i \<longrightarrow> g n = card (mapped m ob i) + flying (m\<lparr>ws := W\<rparr>) ob i)"
    and other: "\<And>ob' i'. (ob', i') \<noteq> (ob, i) \<Longrightarrow> flying (m\<lparr>ws := W\<rparr>) ob' i' = flying m ob' i'"
    and w: "\<And>ob' i' ph. (ob', i', ph) \<in># W \<Longrightarrow> (ob', i', ph) \<in># ws m \<or> ob' = ob \<and> i' = i \<and> ph \<noteq> 0 \<and> ff m ob i = Some ph"
  shows "fm_inv (set_wired ob i g (m\<lparr>ws := W\<rparr>))" (is "fm_inv ?m")
proof -
  note D = fm_invD [OF inv]
  have eq: "live (m\<lparr>ws := W\<rparr>) = live m" "mapped (m\<lparr>ws := W\<rparr>) = mapped m" "own_copy (m\<lparr>ws := W\<rparr>) = own_copy m" "ff (m\<lparr>ws := W\<rparr>) = ff m"
    by (simp_all add: live_def mapped_def own_copy_def ff_def fun_eq_iff)
  show ?thesis
  proof (rule fm_invI)
    show "pg_wired q \<le> card (mapped ?m o1 j) + flying ?m o1 j \<and> (live ?m o1 j \<longrightarrow> pg_wired q = card (mapped ?m o1 j) + flying ?m o1 j)"
      if pq: "pg ?m o1 j = Some q" for o1 j q
    proof -
      obtain p where p: "pg m o1 j = Some p" "q = (if o1 = ob \<and> j = i then p\<lparr>pg_wired := g (pg_wired p)\<rparr> else p)"
        using pq unfolding set_wired_page by auto
      show ?thesis using p(2) D(8) [OF p(1)] bal [of "pg_wired p"] other [of o1 j] unfolding set_wired_mapped set_wired_simps eq
        by (cases "(o1, j) = (ob, i)") auto
    qed
    show "x \<noteq> 0 \<and> (live ?m o1 j \<longrightarrow> ff ?m o1 j = Some x)" if "(o1, j, x) \<in># ws ?m" for o1 j x
      using that w [of o1 j x] D(9) [of o1 j x] unfolding set_wired_simps eq by auto
  qed (use D in \<open>auto simp: eq\<close>)
qed

lemma fm_wire:
  assumes inv: "fm_inv m" and p: "ff m ob i = Some ph" "ph \<noteq> 0"
  shows "fm_inv (set_wired ob i Suc (m\<lparr>ws := add_mset (ob, i, ph) (ws m)\<rparr>))"
proof (rule fm_wire_count [OF inv])
  let ?m = "m\<lparr>ws := add_mset (ob, i, ph) (ws m)\<rparr>"
  have fl: "flying ?m o1 j = flying m o1 j + (if o1 = ob \<and> j = i then 1 else 0)" for o1 j by (rule flying_add) simp
  show "Suc n \<le> card (mapped m ob i) + flying ?m ob i \<and>
      (live m ob i \<longrightarrow> n = card (mapped m ob i) + flying m ob i \<longrightarrow> Suc n = card (mapped m ob i) + flying ?m ob i)"
    if "n \<le> card (mapped m ob i) + flying m ob i" for n using that by (simp add: fl)
  show "flying ?m o1 j = flying m o1 j" if "(o1, j) \<noteq> (ob, i)" for o1 j using that by (auto simp: fl)
qed (use p in auto)

lemma fm_unwire:
  assumes inv: "fm_inv m" and w: "ws m = add_mset (ob, i, ph) W"
  shows "fm_inv (set_wired ob i (\<lambda>n. n - 1) (m\<lparr>ws := W\<rparr>))"
proof (rule fm_wire_count [OF inv])
  have fl: "flying m o1 j = flying (m\<lparr>ws := W\<rparr>) o1 j + (if o1 = ob \<and> j = i then 1 else 0)" for o1 j by (rule flying_add) (simp add: w)
  show "n - 1 \<le> card (mapped m ob i) + flying (m\<lparr>ws := W\<rparr>) ob i \<and>
      (live m ob i \<longrightarrow> n = card (mapped m ob i) + flying m ob i \<longrightarrow> n - 1 = card (mapped m ob i) + flying (m\<lparr>ws := W\<rparr>) ob i)"
    if "n \<le> card (mapped m ob i) + flying m ob i" for n using that fl [of ob i] by simp
  show "flying (m\<lparr>ws := W\<rparr>) o1 j = flying m o1 j" if "(o1, j) \<noteq> (ob, i)" for o1 j using that fl [of o1 j] by auto
qed (use w in auto)

section \<open>Steps\<close>

text \<open>A fault in flight enters its page.\<close>

lemma fm_map:
  assumes inv: "fm_inv m" and w: "ws m = add_mset (ob, i, ph) W" and va: "sl m va = Some (ob, i)" "\<not> dn m va" "pf m va = None"
  shows "fm_inv (m\<lparr>pf := (pf m)(va \<mapsto> ph), ws := W\<rparr>)" (is "fm_inv ?m")
proof -
  note D = fm_invD [OF inv]
  have lv: "live m ob i" using va by (auto simp: live_def)
  have ph: "ph \<noteq> 0" "ff m ob i = Some ph" using D(9) [of ob i ph] w lv by auto
  have ff': "ff ?m = ff m" "live ?m = live m" "sl ?m = sl m" "an ?m = an m" "mp ?m = mp m" "fr ?m = fr m" by (simp_all add: ff_def live_def fun_eq_iff)
  have mp': "mapped ?m ob' i' = (if ob' = ob \<and> i' = i then insert va (mapped m ob i) else mapped m ob' i')" for ob' i'
    using va ph by (auto simp: mapped_def ff')
  have fl: "flying m ob' i' = flying ?m ob' i' + (if ob' = ob \<and> i' = i then 1 else 0)" for ob' i'
    by (rule flying_add) (simp add: w)
  have nin: "va \<notin> mapped m ob i" using va(3) by (simp add: mapped_def)
  have cnt: "card (mapped ?m ob' i') + flying ?m ob' i' = card (mapped m ob' i') + flying m ob' i'" for ob' i'
    using fl [of ob' i'] nin mapped_finite [OF inv] by (simp add: mp')
  show ?thesis
  proof (rule fm_invI)
    show "finite {v. pf ?m v \<noteq> None}" by (rule finite_subset [of _ "insert va {v. pf m v \<noteq> None}"]) (use D(1) in auto)
    show "f \<noteq> 0 \<and> \<not> dn ?m v \<and> sl ?m v \<noteq> None" if "pf ?m v = Some f" for v f
      using that D(2) va ph by (auto split: if_splits)
    show "ff ?m o1 j = Some f \<or> \<not> an ?m o1 \<and> own_copy ?m v f" if v: "pf ?m v = Some f" "sl ?m v = Some (o1, j)" for v f o1 j
      using that va ph D(7) [of v f o1 j] by (auto simp: ff' own_copy_def split: if_splits)
    show "pg_wired q \<le> card (mapped ?m o1 j) + flying ?m o1 j \<and> (live ?m o1 j \<longrightarrow> pg_wired q = card (mapped ?m o1 j) + flying ?m o1 j)"
      if "pg ?m o1 j = Some q" for o1 j q
      using that D(8) [of o1 j q] unfolding cnt ff' by simp
    show "x \<noteq> 0 \<and> (live ?m o1 j \<longrightarrow> ff ?m o1 j = Some x)" if "(o1, j, x) \<in># ws ?m" for o1 j x
      using that D(9) [of o1 j x] w by (simp add: ff')
  qed (unfold ff', (use D(3-6) in blast)+)
qed

text \<open>An entry goes, or that of a file mapping is replaced by one for the process's own copy.\<close>

lemma fm_change_entry:
  assumes inv: "fm_inv m" and va: "sl m va = Some (ob, i)" "e \<noteq> None \<longrightarrow> \<not> an m ob" "pf m va = Some f"
    and new: "case e of None \<Rightarrow> F = (if ff m ob i = Some f then fr m else f # fr m)
      | Some c \<Rightarrow> fr m = c # F \<and> ff m ob i = Some f"
  shows "fm_inv (set_wired ob i (\<lambda>n. if ff m ob i = Some f then n - 1 else n) (m\<lparr>pf := (pf m)(va := e), fr := F\<rparr>))" (is "fm_inv ?m")
proof -
  note D = fm_invD [OF inv]
  define cached where "cached \<longleftrightarrow> ff m ob i = Some f"
  have f: "f \<noteq> 0" "\<not> dn m va" using D(2) [OF va(3)] by auto
  have lv: "live m ob i" using f(2) va(1) by (auto simp: live_def)
  have nf: "f \<notin> set (fr m)" by (rule fm_entry_not_free [OF inv va(3)])
  have cp: "\<not> cached \<Longrightarrow> own_copy m va f" using D(7) [OF va(3,1)] by (auto simp: cached_def)
  have c: "c \<in> set (fr m)" "c \<noteq> 0" "c \<notin> set F" "e = Some c" "cached" if "e = Some c" for c
    using new D(4) that by (auto simp: cached_def)
  have ff': "ff ?m = ff m" "live ?m = live m" "flying ?m = flying m" "sl ?m = sl m" "an ?m = an m" "pf ?m = (pf m)(va := e)" "fr ?m = F" "mp ?m = mp m" "ws ?m = ws m" "dn ?m = dn m"
    by (simp_all add: fun_eq_iff ff_def live_def flying_def)
  have cff: "e \<noteq> None \<Longrightarrow> e \<noteq> ff m o1 j" for o1 j using D(5) [of o1 j] c(1) by (metis option.exhaust)
  have vin: "va \<in> mapped m o1 j \<longleftrightarrow> cached \<and> o1 = ob \<and> j = i" for o1 j
    using va by (auto simp: mapped_def cached_def)
  have mp': "mapped ?m o1 j = mapped m o1 j - {va}" for o1 j
    using cff [of o1 j] unfolding mapped_def ff' by auto
  have card': "card (mapped ?m o1 j) = card (mapped m o1 j) - (if cached \<and> o1 = ob \<and> j = i then 1 else 0)" for o1 j
    unfolding mp' vin [symmetric] by (simp add: card_Diff_singleton_if)
  have pos: "cached \<Longrightarrow> 0 < card (mapped m ob i)"
    using vin [of ob i] mapped_finite [OF inv, of ob i] by (auto simp: card_gt_0_iff)
  have F: "distinct F \<and> 0 \<notin> set F" using new D(4) f nf by (cases e) auto
  have sub: "x \<in> set F \<Longrightarrow> x \<in> set (fr m) \<or> x = f \<and> \<not> cached \<and> e = None" for x
    using new by (cases e) (auto simp: cached_def split: if_splits)
  show ?thesis
  proof (rule fm_invI)
    show "finite {v. pf ?m v \<noteq> None}" unfolding ff' by (rule finite_subset [of _ "insert va {v. pf m v \<noteq> None}"]) (use D(1) in auto)
    show "x \<noteq> 0 \<and> \<not> dn ?m v \<and> sl ?m v \<noteq> None" if "pf ?m v = Some x" for v x
      using that D(2) [of v x] va f c unfolding ff' by (auto split: if_splits)
    show "distinct (fr ?m) \<and> 0 \<notin> set (fr ?m)" using F ff' by simp
    show "x \<notin> set (fr ?m) \<and> (\<not> an ?m o1 \<longrightarrow> x \<noteq> 0)" if "ff ?m o1 j = Some x" for o1 j x
      using that D(5) [of o1 j x] sub [of x] cp unfolding ff' own_copy_def by (auto simp: own_copy_def)
    show "ff ?m o1 j = Some x \<or> \<not> an ?m o1 \<and> own_copy ?m v x" if v: "pf ?m v = Some x" "sl ?m v = Some (o1, j)" for v x o1 j
    proof (cases "v = va")
      case True
      then have e: "e = Some x" "o1 = ob" "j = i" using v va unfolding ff' by auto
      have "v' = va" if "((pf m)(va := e)) v' = Some x" for v'
        using that fm_entry_not_free [OF inv, of v' x] c(1) [OF e(1)] by (auto split: if_splits)
      moreover have "ff m o2 k \<noteq> Some x" for o2 k using cff [of o2 k] e(1) by simp
      ultimately show ?thesis using e c(3) [OF e(1)] va(2) True unfolding own_copy_def ff' by blast
    next
      case False
      then have pv: "pf m v = Some x" "sl m v = Some (o1, j)" using v unfolding ff' by auto
      from D(7) [OF pv] show ?thesis
      proof
        assume oc: "\<not> an m o1 \<and> own_copy m v x"
        have "x \<noteq> f" using oc va(3) False by (auto simp: own_copy_def)
        moreover have "e \<noteq> Some x" using oc c(1) by (auto simp: own_copy_def)
        ultimately show ?thesis using oc sub [of x] unfolding own_copy_def ff' by (auto split: if_splits)
      qed (unfold ff', blast)
    qed
    show "pg_wired q \<le> card (mapped ?m o1 j) + flying ?m o1 j \<and> (live ?m o1 j \<longrightarrow> pg_wired q = card (mapped ?m o1 j) + flying ?m o1 j)"
      if pq: "pg ?m o1 j = Some q" for o1 j q
    proof -
      obtain p where p: "pg m o1 j = Some p" "q = (if o1 = ob \<and> j = i then p\<lparr>pg_wired := (if cached then pg_wired p - 1 else pg_wired p)\<rparr> else p)"
        using pq unfolding set_wired_page cached_def by auto
      show ?thesis using p(2) D(8) [OF p(1)] pos unfolding card' ff' by (auto simp: lv)
    qed
  qed (unfold ff', (use D(3,6,9) in blast)+)
qed

text \<open>A page that has no frame gets one.\<close>

lemma fm_fill:
  assumes inv: "fm_inv m" and p: "ff m ob i = None \<or> ff m ob i = Some 0" and F: "fr m = pg_phys q # F"
    and w: "pg_wired q \<le> (case pg m ob i of None \<Rightarrow> 0 | Some p \<Rightarrow> pg_wired p)"
  shows "fm_inv (m\<lparr>pg := (pg m)(ob := (pg m ob)(i \<mapsto> q)), fr := F\<rparr>)" (is "fm_inv ?m")
proof -
  note D = fm_invD [OF inv]
  define c where "c = pg_phys q"
  have c: "c \<in> set (fr m)" "c \<noteq> 0" "c \<notin> set F" "set F \<subseteq> set (fr m)" "distinct F" using D(4) F by (auto simp: c_def)
  have other: "live ?m = live m" "sl ?m = sl m" "an ?m = an m" "mp ?m = mp m" "dn ?m = dn m" "pf ?m = pf m" "ws ?m = ws m" "flying ?m = flying m"
    "fr ?m = F" by (simp_all add: live_def flying_def fun_eq_iff)
  have ff': "ff ?m o1 j = (if o1 = ob \<and> j = i then Some c else ff m o1 j)" for o1 j by (simp add: ff_def c_def)
  have cpf: "pf m va \<noteq> Some c" for va using fm_entry_not_free [OF inv] c(1) by blast
  have cff: "ff m o1 j \<noteq> Some c" for o1 j using D(5) c(1) by blast
  have mp': "mapped ?m o1 j = mapped m o1 j" for o1 j
    using not_resident(1) [OF inv p] cpf unfolding mapped_def other ff' by auto
  have oc: "own_copy ?m va f" if "pf m va = Some f" "own_copy m va f" for va f
  proof -
    have "f \<noteq> c" using that(1) cpf by auto
    then have "ff ?m o1 j \<noteq> Some f" for o1 j using that(2) by (simp add: ff' own_copy_def)
    then show ?thesis using that(2) c(4) unfolding own_copy_def other by blast
  qed
  show ?thesis
  proof (rule fm_invI)
    show "f \<notin> set (fr ?m) \<and> (\<not> an ?m o1 \<longrightarrow> f \<noteq> 0)" if "ff ?m o1 j = Some f" for o1 j f
      using that D(5) [of o1 j f] c unfolding other ff' by (auto split: if_splits)
    show "o1 = o2 \<and> j = k" if "ff ?m o1 j = Some f" "ff ?m o2 k = Some f" "f \<noteq> 0" for o1 j o2 k f
      using that D(6) [of o1 j f o2 k] cff unfolding ff' by (auto split: if_splits)
    show "ff ?m o1 j = Some f \<or> \<not> an ?m o1 \<and> own_copy ?m va f" if "pf ?m va = Some f" "sl ?m va = Some (o1, j)" for va f o1 j
      using that D(2) [of va f] D(7) [of va f o1 j] p oc [of va f] unfolding other ff' by auto
    show "pg_wired x \<le> card (mapped ?m o1 j) + flying ?m o1 j \<and> (live ?m o1 j \<longrightarrow> pg_wired x = card (mapped ?m o1 j) + flying ?m o1 j)"
      if "pg ?m o1 j = Some x" for o1 j x
      using that D(8) [of o1 j] w not_resident [OF inv p] unfolding other mp' by (cases "pg m ob i") (auto split: if_splits)
    show "x \<noteq> 0 \<and> (live ?m o1 j \<longrightarrow> ff ?m o1 j = Some x)" if "(o1, j, x) \<in># ws ?m" for o1 j x
      using that D(9) [of o1 j x] p unfolding other ff' by auto
  qed (unfold other, (use D(1-3) c D(4) in blast)+)
qed

text \<open>Pages that are mapped nowhere, with no fault in flight that counts, lose their frames.\<close>

lemma fm_evict:
  assumes inv: "fm_inv m"
    and I: "\<And>i. i \<in> I \<Longrightarrow> mapped m ob i = {} \<and> (live m ob i \<longrightarrow> flying m ob i = 0)"
    and Q: "\<And>i q. Q i = Some q \<Longrightarrow> \<exists>p. pg m ob i = Some p \<and> (if i \<in> I then an m ob \<and> pg_phys q = 0 \<and> pg_wired q \<le> pg_wired p else q = p)"
      "\<And>i. i \<notin> I \<Longrightarrow> Q i = pg m ob i"
    and F: "distinct F" "set F = set (fr m) \<union> {f. f \<noteq> 0 \<and> (\<exists>i \<in> I. ff m ob i = Some f)}"
  shows "fm_inv (m\<lparr>pg := (pg m)(ob := Q), fr := F\<rparr>)" (is "fm_inv ?m")
proof -
  note D = fm_invD [OF inv]
  have other: "live ?m = live m" "sl ?m = sl m" "an ?m = an m" "mp ?m = mp m" "dn ?m = dn m" "pf ?m = pf m" "ws ?m = ws m" "flying ?m = flying m"
    "fr ?m = F" by (simp_all add: live_def flying_def fun_eq_iff)
  have out: "ff ?m o1 j = ff m o1 j" if "o1 = ob \<longrightarrow> j \<notin> I" for o1 j using that Q(2) by (simp add: ff_def)
  have inn: "ff ?m ob j = None \<or> an m ob \<and> ff ?m ob j = Some 0" if "j \<in> I" for j using that Q(1) [of j] by (auto simp: ff_def)
  have sub: "ff ?m o1 j = Some f \<Longrightarrow> f \<noteq> 0 \<Longrightarrow> ff m o1 j = Some f \<and> (o1 = ob \<longrightarrow> j \<notin> I)" for o1 j f
    using out [of o1 j] inn [of j] by (cases "o1 = ob \<and> j \<in> I") auto
  have none: "sl m va \<noteq> Some (ob, j)" if "j \<in> I" "pf m va = Some f" "ff m ob j = Some f" for va j f
    using I [OF that(1)] that(2,3) by (auto simp: mapped_def)
  have mp': "mapped ?m o1 j = mapped m o1 j" for o1 j
  proof (cases "o1 = ob \<and> j \<in> I")
    case True
    then show ?thesis using I [of j] inn [of j] D(2) unfolding mapped_def other by fastforce
  next
    case False then show ?thesis using out [of o1 j] by (auto simp: mapped_def)
  qed
  have fnew: "pf m va = Some f \<Longrightarrow> ff m ob j = Some f \<Longrightarrow> j \<notin> I" for va f j
    using fm_entry_page(2) [OF inv, of va f ob j] I [of j] by blast
  show ?thesis
  proof (rule fm_invI)
    show "f \<notin> set (fr ?m) \<and> (\<not> an ?m o1 \<longrightarrow> f \<noteq> 0)" if f: "ff ?m o1 j = Some f" for o1 j f
    proof (cases "f = 0")
      case True
      then show ?thesis using f D(4) D(5) [of o1 j f] F(2) out [of o1 j] inn [of j] unfolding other by (cases "o1 = ob \<and> j \<in> I") auto
    next
      case False
      from sub [OF f False] have s: "ff m o1 j = Some f" "o1 = ob \<longrightarrow> j \<notin> I" by auto
      then show ?thesis using D(5) [OF s(1)] D(6) [OF s(1) _ False] F(2) False unfolding other by blast
    qed
    show "o1 = o2 \<and> j = k" if "ff ?m o1 j = Some f" "ff ?m o2 k = Some f" "f \<noteq> 0" for o1 j o2 k f
      using D(6) [of o1 j f o2 k] sub that by blast
    show "ff ?m o1 j = Some f \<or> \<not> an ?m o1 \<and> own_copy ?m va f" if v: "pf ?m va = Some f" "sl ?m va = Some (o1, j)" for va f o1 j
    proof -
      have pv: "pf m va = Some f" "sl m va = Some (o1, j)" using v unfolding other by auto
      have f0: "f \<noteq> 0" using D(2) [OF pv(1)] by blast
      from D(7) [OF pv] show ?thesis
      proof
        assume "ff m o1 j = Some f"
        then show ?thesis using fnew [OF pv(1), of j] out [of o1 j] by metis
      next
        assume "\<not> an m o1 \<and> own_copy m va f"
        then show ?thesis using F(2) sub f0 unfolding own_copy_def other by blast
      qed
    qed
    show "pg_wired x \<le> card (mapped ?m o1 j) + flying ?m o1 j \<and> (live ?m o1 j \<longrightarrow> pg_wired x = card (mapped ?m o1 j) + flying ?m o1 j)"
      if x: "pg ?m o1 j = Some x" for o1 j x
    proof (cases "o1 = ob \<and> j \<in> I")
      case True
      then obtain p where p: "pg m ob j = Some p" "pg_wired x \<le> pg_wired p" using x Q(1) [of j x] by auto
      then show ?thesis using D(8) [OF p(1)] I [of j] True unfolding other mp' by auto
    next
      case False
      then show ?thesis using D(8) [of o1 j x] x Q(2) [of j] unfolding other mp' by (auto split: if_splits)
    qed
    show "x \<noteq> 0 \<and> (live ?m o1 j \<longrightarrow> ff ?m o1 j = Some x)" if w: "(o1, j, x) \<in># ws ?m" for o1 j x
    proof (cases "o1 = ob \<and> j \<in> I")
      case True then show ?thesis using w D(9) [of o1 j x] I [of j] unfolding other flying_zero by blast
    next
      case False then show ?thesis using w D(9) [of o1 j x] out [of o1 j] unfolding other by auto
    qed
    show "distinct (fr ?m) \<and> 0 \<notin> set (fr ?m)" unfolding other using F D(4) by blast
  qed (unfold other, (use D(1-3) in blast)+)
qed

text \<open>A range of an anonymous object is emptied for good: entries, pages and frames go at once.\<close>

lemma fm_discard:
  assumes inv: "fm_inv m" and an: "an m ob"
    and V: "\<And>va. va \<in> V \<longleftrightarrow> (\<exists>i \<in> I. sl m va = Some (ob, i))"
    and F: "distinct F" "set F = set (fr m) \<union> {f. f \<noteq> 0 \<and> (\<exists>i \<in> I. ff m ob i = Some f)}"
  shows "fm_inv (m\<lparr>pf := (\<lambda>va. if va \<in> V then None else pf m va), dn := (\<lambda>va. dn m va \<or> va \<in> V),
    pg := (pg m)(ob := (\<lambda>i. if i \<in> I then None else pg m ob i)), fr := F\<rparr>)" (is "fm_inv ?m")
proof -
  note D = fm_invD [OF inv]
  have other: "sl ?m = sl m" "an ?m = an m" "mp ?m = mp m" "ws ?m = ws m" "flying ?m = flying m" "fr ?m = F"
    "dn ?m = (\<lambda>va. dn m va \<or> va \<in> V)" by (simp_all add: flying_def fun_eq_iff)
  have ff': "ff ?m o1 j = (if o1 = ob \<and> j \<in> I then None else ff m o1 j)" for o1 j by (simp add: ff_def)
  have pf': "pf ?m va = Some f \<longleftrightarrow> va \<notin> V \<and> pf m va = Some f" for va f by simp
  have lv: "live ?m o1 j \<longleftrightarrow> live m o1 j \<and> (o1 = ob \<longrightarrow> j \<notin> I)" for o1 j
    using V an unfolding live_def other by (cases "o1 = ob") auto
  have mp': "mapped ?m o1 j = mapped m o1 j" if "o1 = ob \<longrightarrow> j \<notin> I" for o1 j
  proof -
    have "sl m va = Some (o1, j) \<Longrightarrow> va \<notin> V" for va using V [of va] that by auto
    moreover have "ff ?m o1 j = ff m o1 j" using that ff' by auto
    ultimately show ?thesis unfolding mapped_def other by auto
  qed
  show ?thesis
  proof (rule fm_invI)
    show "finite {va. pf ?m va \<noteq> None}" by (rule finite_subset [OF _ D(1)]) auto
    show "f \<noteq> 0 \<and> \<not> dn ?m va \<and> sl ?m va \<noteq> None" if "pf ?m va = Some f" for va f
      using that D(2) unfolding pf' other by blast
    show "f \<notin> set (fr ?m) \<and> (\<not> an ?m o1 \<longrightarrow> f \<noteq> 0)" if f: "ff ?m o1 j = Some f" for o1 j f
    proof -
      have s: "ff m o1 j = Some f" "o1 = ob \<longrightarrow> j \<notin> I" using f by (auto simp: ff' split: if_splits)
      show ?thesis using D(4) D(5) [OF s(1)] D(6) [OF s(1)] F(2) s(2) unfolding other by blast
    qed
    show "o1 = o2 \<and> j = k" if "ff ?m o1 j = Some f" "ff ?m o2 k = Some f" "f \<noteq> 0" for o1 j o2 k f
      using D(6) [of o1 j f o2 k] that by (auto simp: ff' split: if_splits)
    show "ff ?m o1 j = Some f \<or> \<not> an ?m o1 \<and> own_copy ?m va f" if v: "pf ?m va = Some f" "sl ?m va = Some (o1, j)" for va f o1 j
    proof -
      have pv: "pf m va = Some f" "sl m va = Some (o1, j)" "va \<notin> V" using v unfolding pf' other by auto
      have nI: "o1 = ob \<longrightarrow> j \<notin> I" using V [of va] pv by auto
      have f0: "f \<noteq> 0" using D(2) [OF pv(1)] by blast
      from D(7) [OF pv(1,2)] show ?thesis
      proof
        assume "ff m o1 j = Some f"
        then show ?thesis using nI by (auto simp: ff')
      next
        assume oc: "\<not> an m o1 \<and> own_copy m va f"
        then have "ff ?m o2 k \<noteq> Some f" for o2 k by (auto simp: ff' own_copy_def)
        then show ?thesis using oc F(2) unfolding own_copy_def other pf' by blast
      qed
    qed
    show "pg_wired x \<le> card (mapped ?m o1 j) + flying ?m o1 j \<and> (live ?m o1 j \<longrightarrow> pg_wired x = card (mapped ?m o1 j) + flying ?m o1 j)"
      if x: "pg ?m o1 j = Some x" for o1 j x
    proof -
      have s: "pg m o1 j = Some x" "o1 = ob \<longrightarrow> j \<notin> I" using x by (auto split: if_splits)
      show ?thesis using D(8) [OF s(1)] unfolding mp' [OF s(2)] other lv by blast
    qed
    show "x \<noteq> 0 \<and> (live ?m o1 j \<longrightarrow> ff ?m o1 j = Some x)" if w: "(o1, j, x) \<in># ws ?m" for o1 j x
      using w D(9) [of o1 j x] unfolding other lv ff' by auto
    show "distinct (fr ?m) \<and> 0 \<notin> set (fr ?m)" unfolding other using F D(4) by blast
  qed (unfold other, (use D(3) in blast)+)
qed

text \<open>Mappings come and go where nothing is entered and no fault is in flight.\<close>

lemma fm_slots:
  assumes inv: "fm_inv m"
    and keep: "\<And>va f. pf m va = Some f \<Longrightarrow> S va = sl m va \<and> \<not> N va"
    and pos: "\<And>va ob i. S va = Some (ob, i) \<Longrightarrow> an m ob \<Longrightarrow> \<exists>b. mp m ob = Some b \<and> va = b + i * PAGE_SIZE"
    and new: "\<And>va ob i. S va = Some (ob, i) \<Longrightarrow> \<not> N va \<Longrightarrow> an m ob \<Longrightarrow> live m ob i \<or> flying m ob i = 0"
  shows "fm_inv (m\<lparr>sl := S, dn := N\<rparr>)" (is "fm_inv ?m")
proof -
  note D = fm_invD [OF inv]
  have other: "ff ?m = ff m" "an ?m = an m" "mp ?m = mp m" "ws ?m = ws m" "flying ?m = flying m" "fr ?m = fr m" "pf ?m = pf m"
    "sl ?m = S" "dn ?m = N" "own_copy ?m = own_copy m" by (simp_all add: flying_def ff_def own_copy_def fun_eq_iff)
  have eqS: "pf m va \<noteq> None \<Longrightarrow> S va = sl m va" for va using keep by blast
  have mp': "mapped ?m o1 j = mapped m o1 j" for o1 j unfolding mapped_def other by (rule Collect_cong) (metis eqS)
  have lv: "live m o1 j \<or> flying m o1 j = 0" if l: "live ?m o1 j" for o1 j
  proof -
    consider "\<not> an m o1" | va where "an m o1" "S va = Some (o1, j)" "\<not> N va" using l unfolding live_def other by blast
    then show ?thesis by cases (use new in \<open>auto simp: live_def\<close>)
  qed
  have un: "\<not> live m o1 j \<Longrightarrow> mapped m o1 j = {}" for o1 j by (rule not_live_unmapped [OF inv])
  show ?thesis
  proof (rule fm_invI)
    show "f \<noteq> 0 \<and> \<not> dn ?m va \<and> sl ?m va \<noteq> None" if "pf ?m va = Some f" for va f
      using that D(2) keep unfolding other by metis
    show "ff ?m o1 j = Some f \<or> \<not> an ?m o1 \<and> own_copy ?m va f" if v: "pf ?m va = Some f" "sl ?m va = Some (o1, j)" for va f o1 j
      using v D(7) keep unfolding other by metis
    show "pg_wired x \<le> card (mapped ?m o1 j) + flying ?m o1 j \<and> (live ?m o1 j \<longrightarrow> pg_wired x = card (mapped ?m o1 j) + flying ?m o1 j)"
      if x: "pg ?m o1 j = Some x" for o1 j x
      using D(8) [of o1 j x] x lv [of o1 j] un [of o1 j] unfolding mp' other by auto
    show "x \<noteq> 0 \<and> (live ?m o1 j \<longrightarrow> ff ?m o1 j = Some x)" if w: "(o1, j, x) \<in># ws ?m" for o1 j x
      using w D(9) [of o1 j x] lv [of o1 j] unfolding other flying_zero by auto
    show "\<exists>b. mp ?m ob = Some b \<and> va = b + i * PAGE_SIZE" if "sl ?m va = Some (ob, i)" "an ?m ob" for va ob i
      using pos that unfolding other by blast
  qed (unfold other, (use D(1,4-6) in blast)+)
qed

text \<open>Objects come and go while they have no pages, mappings or faults.\<close>

lemma fm_objects:
  assumes inv: "fm_inv m"
    and out: "\<And>o1. o1 \<noteq> ob \<Longrightarrow> A o1 = an m o1 \<and> B o1 = mp m o1"
    and none: "\<And>i. pg m ob i = None" "\<And>va i. sl m va \<noteq> Some (ob, i)" "\<And>i ph. (ob, i, ph) \<notin># ws m"
  shows "fm_inv (m\<lparr>an := A, mp := B\<rparr>)" (is "fm_inv ?m")
proof -
  note D = fm_invD [OF inv]
  have other: "ff ?m = ff m" "ws ?m = ws m" "flying ?m = flying m" "fr ?m = fr m" "pf ?m = pf m"
    "sl ?m = sl m" "dn ?m = dn m" "own_copy ?m = own_copy m" "mapped ?m = mapped m" "an ?m = A" "mp ?m = B" "pg ?m = pg m"
    by (simp_all add: flying_def ff_def own_copy_def mapped_def fun_eq_iff)
  have lv: "live ?m o1 j = live m o1 j" if "o1 \<noteq> ob" for o1 j using out [OF that] unfolding live_def other by simp
  have nf: "ff m ob i = None" for i using none(1) by (simp add: ff_def)
  show ?thesis
  proof (rule fm_invI)
    show "\<exists>b. mp ?m o1 = Some b \<and> va = b + i * PAGE_SIZE" if "sl ?m va = Some (o1, i)" "an ?m o1" for va o1 i
      using that D(3) out none(2) unfolding other by metis
    show "f \<notin> set (fr ?m) \<and> (\<not> an ?m o1 \<longrightarrow> f \<noteq> 0)" if f: "ff ?m o1 j = Some f" for o1 j f
      using f D(5) out nf unfolding other by (metis option.distinct(1))
    show "ff ?m o1 j = Some f \<or> \<not> an ?m o1 \<and> own_copy ?m va f" if v: "pf ?m va = Some f" "sl ?m va = Some (o1, j)" for va f o1 j
      using v D(7) out none(2) unfolding other by metis
    show "pg_wired x \<le> card (mapped ?m o1 j) + flying ?m o1 j \<and> (live ?m o1 j \<longrightarrow> pg_wired x = card (mapped ?m o1 j) + flying ?m o1 j)"
      if x: "pg ?m o1 j = Some x" for o1 j x
      using D(8) [of o1 j x] x none(1) lv [of o1 j] unfolding other by (cases "o1 = ob") auto
    show "x \<noteq> 0 \<and> (live ?m o1 j \<longrightarrow> ff ?m o1 j = Some x)" if w: "(o1, j, x) \<in># ws ?m" for o1 j x
      using w D(9) [of o1 j x] none(3) lv [of o1 j] unfolding other by (cases "o1 = ob") auto
  qed (unfold other, (use D(1,2,4,6) in blast)+)
qed

end
