(* ===== verification/Vma_Inv.thy ===== *)
theory Vma_Inv
  imports Vma_Frames
begin

text \<open>
  The invariant of an address space while several threads are inside \<open>kernel/mm/vma.c\<close>: what a
  thread carries from one locked section to the next, the invariant over the state and all
  such threads, and what the operations on pages, entries and objects keep of it.
\<close>

section \<open>Threads between two locked sections\<close>

text \<open>
  What a thread carries over a gap: a reference to an object it has opened or has just made
  (\<open>PHold\<close>); a range it has chosen for a mapping (\<open>PPlace\<close>) and the object made for it (\<open>PMap\<close>); the
  chain of mappings it is unmapping, those already emptied first (\<open>PUnmap\<close>); a checked change of
  protection (\<open>PProtect\<close>); a fault that will copy (\<open>PCow\<close>), that will wire a page (\<open>PWire\<close>), or has
  wired one and is about to enter it (\<open>PWired\<close>); a pin it has to give back (\<open>PUnwire\<close>); a page it has to
  mark dirty (\<open>PDirty\<close>).
\<close>

datatype pending =
    PHold nat
  | PPlace nat nat u32 u32
  | PMap nat nat u32 u32 nat
  | PUnmap "vm_area list" "vm_area list"
  | PProtect nat nat u32
  | PCow nat nat nat nat
  | PWire nat nat nat u32
  | PWired nat nat nat u32 nat
  | PUnwire nat nat nat
  | PDirty nat nat

fun phold :: "pending \<Rightarrow> nat option" where
  "phold (PHold ob) = Some ob"
| "phold (PMap _ _ _ _ ob) = Some ob"
| "phold (PCow _ ob _ _) = Some ob"
| "phold (PWire _ ob _ _) = Some ob"
| "phold (PWired _ ob _ _ _) = Some ob"
| "phold (PUnwire ob _ _) = Some ob"
| "phold (PDirty ob _) = Some ob"
| "phold _ = None"

fun pwire :: "pending \<Rightarrow> (nat \<times> nat \<times> nat) multiset" where
  "pwire (PWired _ ob i _ ph) = (if ph = 0 then {#} else {#(ob, i, ph)#})"
| "pwire (PUnwire ob i ph) = (if ph = 0 then {#} else {#(ob, i, ph)#})"
| "pwire _ = {#}"

fun pgone :: "pending \<Rightarrow> vm_area list" where
  "pgone (PUnmap g _) = g"
| "pgone _ = []"

fun pchain :: "pending \<Rightarrow> vm_area multiset" where
  "pchain (PUnmap g t) = mset g + mset t"
| "pchain _ = {#}"

definition chains :: "pending multiset \<Rightarrow> vm_area multiset" where
  "chains P = \<Sum>\<^sub># (image_mset pchain P)"

definition wires :: "pending multiset \<Rightarrow> (nat \<times> nat \<times> nat) multiset" where
  "wires P = \<Sum>\<^sub># (image_mset pwire P)"

definition gone_at :: "pending multiset \<Rightarrow> nat \<Rightarrow> bool" where
  "gone_at P va \<longleftrightarrow> PAGE_SIZE dvd va \<and> (\<exists>p \<in># P. \<exists>d \<in> set (pgone p). contains d va)"

definition holders :: "vm_area list \<Rightarrow> pending multiset \<Rightarrow> nat \<Rightarrow> nat" where
  "holders vs P ob = size (filter_mset (\<lambda>v. va_obj v = Some ob) (mset vs)) + size (filter_mset (\<lambda>p. phold p = Some ob) P)"

section \<open>The invariant\<close>

definition slot_at :: "vm_area list \<Rightarrow> nat \<Rightarrow> (nat \<times> nat) option" where
  "slot_at vs va =
     (if PAGE_SIZE dvd va then
        case find (\<lambda>v. contains v va) vs of None \<Rightarrow> None | Some v \<Rightarrow> map_option (\<lambda>ob. (ob, page_index v va)) (va_obj v)
      else None)"

definition obj_mapper :: "vm \<Rightarrow> nat \<Rightarrow> nat option" where
  "obj_mapper s ob = (case vm_objs s ob of None \<Rightarrow> None | Some x \<Rightarrow> vo_mapper x)"

definition frames :: "vm \<Rightarrow> pending multiset \<Rightarrow> fm" where
  "frames s P = \<lparr>sl = slot_at (vm_vmas s), dn = gone_at P, pf = (\<lambda>va. map_option fst (vm_pt s va)), pg = page_find s,
     fr = vm_frames s, an = obj_anon s, mp = obj_mapper s, ws = wires P\<rparr>"

definition perm_ok :: "u64 \<Rightarrow> u32 \<Rightarrow> bool" where
  "perm_ok fl prot \<longleftrightarrow> (has fl VMM_WRITABLE \<longrightarrow> has prot PROT_WRITE) \<and> (has fl VMM_EXEC \<longrightarrow> has prot PROT_EXEC) \<and>
     (has fl VMM_NX \<or> has prot PROT_EXEC) \<and> (has fl VMM_USER \<longrightarrow> prot \<noteq> PROT_NONE)"

definition wx :: "u32 \<Rightarrow> bool" where
  "wx prot \<longleftrightarrow> has prot PROT_WRITE \<and> has prot PROT_EXEC"

definition span_ok :: "nat \<Rightarrow> nat \<Rightarrow> bool" where
  "span_ok start len \<longleftrightarrow> 0 < len \<and> PAGE_SIZE dvd start \<and> PAGE_SIZE dvd len \<and> start + len \<le> USER_VA_LIMIT"

text \<open>What the arguments of a pending operation must satisfy; the object of \<open>PMap\<close> is nobody else's.\<close>

fun pend_ok :: "vm \<Rightarrow> pending \<Rightarrow> bool" where
  "pend_ok s (PPlace start len prot flags) \<longleftrightarrow> span_ok start len \<and> \<not> wx prot \<and> \<not> has flags VMA_DYING"
| "pend_ok s (PMap start len prot flags ob) \<longleftrightarrow> span_ok start len \<and> \<not> wx prot \<and> \<not> has flags VMA_DYING \<and>
     (case vm_objs s ob of None \<Rightarrow> False | Some x \<Rightarrow> vo_refs x = 1 \<and> vo_anon x \<and> vo_mapper x = Some start)"
| "pend_ok s (PProtect addr hi prot) \<longleftrightarrow> PAGE_SIZE dvd addr \<and> PAGE_SIZE dvd hi \<and> \<not> wx prot"
| "pend_ok s (PHold ob) \<longleftrightarrow> True"
| "pend_ok s (PUnmap g t) \<longleftrightarrow> True"
| "pend_ok s (PCow page ob i already) \<longleftrightarrow> PAGE_SIZE dvd page \<and> already \<noteq> 0 \<and>
     (case vm_objs s ob of None \<Rightarrow> False | Some x \<Rightarrow> \<not> vo_anon x)"
| "pend_ok s (PWire page ob i flags) \<longleftrightarrow> PAGE_SIZE dvd page"
| "pend_ok s (PWired page ob i flags ph) \<longleftrightarrow> PAGE_SIZE dvd page"
| "pend_ok s (PUnwire ob i ph) \<longleftrightarrow> ph \<noteq> 0"
| "pend_ok s (PDirty ob i) \<longleftrightarrow> True"

definition obj_ok :: "vm_area list \<Rightarrow> pending multiset \<Rightarrow> nat \<Rightarrow> vm_object option \<Rightarrow> bool" where
  "obj_ok vs P ob ox = (case ox of
     None \<Rightarrow> holders vs P ob = 0
   | Some x \<Rightarrow> vo_refs x = holders vs P ob \<and> 0 < vo_refs x)"

definition keys_ok :: "vm \<Rightarrow> bool" where
  "keys_ok s \<longleftrightarrow> (\<forall>ob x. vm_objs s ob = Some x \<longrightarrow> distinct (map fst (vo_pages x)))"

definition place_ok :: "vm \<Rightarrow> vm_area \<Rightarrow> bool" where
  "place_ok s v \<longleftrightarrow> (\<exists>ob. va_obj v = Some ob \<and> (obj_anon s ob \<longrightarrow>
     (\<exists>b. obj_mapper s ob = Some b \<and> PAGE_SIZE dvd b \<and> b \<le> va_start v \<and> va_off v = va_start v - b)))"

definition vm_inv :: "vm \<Rightarrow> pending multiset \<Rightarrow> bool" where
  "vm_inv s P \<longleftrightarrow>
     vm_ok s \<and>
     (\<forall>v \<in> set (vm_vmas s). \<not> wx (va_prot v) \<and> place_ok s v) \<and>
     filter_mset is_dying (mset (vm_vmas s)) = chains P \<and>
     (\<forall>ob. obj_ok (vm_vmas s) P ob (vm_objs s ob)) \<and>
     (\<forall>ob \<ge> vm_next s. vm_objs s ob = None) \<and>
     keys_ok s \<and>
     (\<forall>p \<in># P. pend_ok s p) \<and>
     (\<forall>va f fl. vm_pt s va = Some (f, fl) \<longrightarrow> (\<exists>v \<in> set (vm_vmas s). contains v va \<and> perm_ok fl (va_prot v))) \<and>
     fm_inv (frames s P)"

lemma vm_invD:
  assumes "vm_inv s P"
  shows "vm_ok s" "vmas_ok (vm_vmas s)"
    "\<And>v. v \<in> set (vm_vmas s) \<Longrightarrow> \<not> wx (va_prot v) \<and> place_ok s v"
    "filter_mset is_dying (mset (vm_vmas s)) = chains P"
    "\<And>ob. obj_ok (vm_vmas s) P ob (vm_objs s ob)"
    "\<And>ob. vm_next s \<le> ob \<Longrightarrow> vm_objs s ob = None"
    "\<And>p. p \<in># P \<Longrightarrow> pend_ok s p"
    "\<And>va f fl. vm_pt s va = Some (f, fl) \<Longrightarrow> \<exists>v \<in> set (vm_vmas s). contains v va \<and> perm_ok fl (va_prot v)"
    "fm_inv (frames s P)" "keys_ok s"
  using assms unfolding vm_inv_def vm_ok_def by blast+

lemma frames_simps [simp]:
  "sl (frames s P) = slot_at (vm_vmas s)" "dn (frames s P) = gone_at P" "pf (frames s P) va = map_option fst (vm_pt s va)"
  "pg (frames s P) = page_find s" "fr (frames s P) = vm_frames s" "an (frames s P) = obj_anon s" "mp (frames s P) = obj_mapper s"
  "ws (frames s P) = wires P"
  by (simp_all add: frames_def)

lemma slot_at_iff:
  assumes "vmas_ok vs"
  shows "slot_at vs va = Some (ob, i) \<longleftrightarrow>
    PAGE_SIZE dvd va \<and> (\<exists>v \<in> set vs. contains v va \<and> va_obj v = Some ob \<and> i = page_index v va)"
proof (cases "find (\<lambda>v. contains v va) vs")
  case None
  then have "\<forall>v \<in> set vs. \<not> contains v va" by (auto simp: find_None_iff)
  then show ?thesis using None by (auto simp: slot_at_def)
next
  case (Some v)
  then have v: "v \<in> set vs" "contains v va" by (auto simp: find_Some_iff)
  have "(\<exists>u \<in> set vs. contains u va \<and> Q u) \<longleftrightarrow> Q v" for Q
    using vmas_ok_unique [OF assms _ v(1) _ v(2)] v by blast
  then show ?thesis unfolding slot_at_def Some by auto
qed

lemma chains_add [simp]: "chains (add_mset p P) = pchain p + chains P"
  by (simp add: chains_def)

lemma wires_add [simp]: "wires (add_mset p P) = pwire p + wires P"
  by (simp add: wires_def)

lemma gone_at_add: "gone_at (add_mset p P) va \<longleftrightarrow> PAGE_SIZE dvd va \<and> (\<exists>d \<in> set (pgone p). contains d va) \<or> gone_at P va"
  by (auto simp: gone_at_def)

lemma gone_at_same: "pgone p = [] \<Longrightarrow> gone_at (add_mset p P) = gone_at P"
  by (auto simp: gone_at_add fun_eq_iff)

lemma holders_add [simp]: "holders vs (add_mset p P) ob = holders vs P ob + (if phold p = Some ob then 1 else 0)"
  by (simp add: holders_def)

lemma holders_mset: "mset vs = mset vs' \<Longrightarrow> holders vs P ob = holders vs' P ob"
  by (simp add: holders_def)

lemma holders_pend: "p \<in># P \<Longrightarrow> phold p = Some ob \<Longrightarrow> 0 < holders vs P ob"
  by (auto simp: holders_def nonempty_has_size [symmetric] filter_mset_eq_mempty_iff)

lemma holders_area: "v \<in> set vs \<Longrightarrow> va_obj v = Some ob \<Longrightarrow> 0 < holders vs P ob"
  by (auto simp: holders_def nonempty_has_size [symmetric] filter_mset_eq_mempty_iff)

lemma wires_hold: "(ob, i, ph) \<in># wires P \<Longrightarrow> \<exists>p \<in># P. phold p = Some ob"
proof -
  assume "(ob, i, ph) \<in># wires P"
  then obtain p where p: "p \<in># P" "(ob, i, ph) \<in># pwire p" by (auto simp: wires_def)
  then have "phold p = Some ob" by (cases p) (auto split: if_splits)
  then show ?thesis using p(1) by blast
qed

text \<open>Changes of pages, entries and frames that leave lists, references and places alone.\<close>

definition okey :: "vm_object \<Rightarrow> nat \<times> bool \<times> nat option" where
  "okey x = (vo_refs x, vo_anon x, vo_mapper x)"

definition same_objs :: "vm \<Rightarrow> vm \<Rightarrow> bool" where
  "same_objs s s' \<longleftrightarrow> vm_next s' = vm_next s \<and> (\<forall>ob. map_option okey (vm_objs s' ob) = map_option okey (vm_objs s ob))"

lemma same_objs_refl [simp]: "same_objs s s"
  by (simp add: same_objs_def)

lemma same_objs_trans: "same_objs s s' \<Longrightarrow> same_objs s' s'' \<Longrightarrow> same_objs s s''"
  by (simp add: same_objs_def)

lemma same_objs_cases:
  assumes "same_objs s s'"
  obtains "vm_objs s ob = None" "vm_objs s' ob = None"
  | x y where "vm_objs s ob = Some x" "vm_objs s' ob = Some y" "vo_refs y = vo_refs x" "vo_anon y = vo_anon x" "vo_mapper y = vo_mapper x"
proof -
  have "map_option okey (vm_objs s' ob) = map_option okey (vm_objs s ob)" using assms by (simp add: same_objs_def)
  then show thesis using that by (cases "vm_objs s ob"; cases "vm_objs s' ob") (auto simp: okey_def)
qed

lemma same_objs_eqs:
  assumes "same_objs s s'"
  shows "obj_anon s' = obj_anon s" "obj_mapper s' = obj_mapper s"
proof -
  have "obj_anon s' ob = obj_anon s ob \<and> obj_mapper s' ob = obj_mapper s ob" for ob
    by (rule same_objs_cases [OF assms, of ob]) (simp_all add: obj_anon_def obj_mapper_def)
  then show "obj_anon s' = obj_anon s" "obj_mapper s' = obj_mapper s" by auto
qed

lemma pend_ok_same: "same_objs s s' \<Longrightarrow> pend_ok s' p = pend_ok s p"
proof (cases p)
  case (PMap start len prot flags ob)
  assume "same_objs s s'"
  then show ?thesis unfolding PMap by (rule same_objs_cases [of s s' ob]) simp_all
next
  case (PCow page ob i already)
  assume "same_objs s s'"
  then show ?thesis unfolding PCow by (rule same_objs_cases [of s s' ob]) simp_all
qed simp_all

lemma obj_ok_same: "same_objs s s' \<Longrightarrow> obj_ok vs P ob (vm_objs s' ob) = obj_ok vs P ob (vm_objs s ob)"
  by (rule same_objs_cases [of s s' ob]) (simp_all add: obj_ok_def)

lemma place_ok_same: "same_objs s s' \<Longrightarrow> place_ok s' v = place_ok s v"
  by (simp add: place_ok_def same_objs_eqs)

text \<open>Pending operations that hold the same objects and the same chains.\<close>

definition same_pend :: "vm \<Rightarrow> pending multiset \<Rightarrow> pending multiset \<Rightarrow> bool" where
  "same_pend s P P' \<longleftrightarrow> image_mset phold (filter_mset (\<lambda>p. phold p \<noteq> None) P') = image_mset phold (filter_mset (\<lambda>p. phold p \<noteq> None) P) \<and>
     chains P' = chains P \<and> (\<forall>p \<in># P'. p \<in># P \<or> pend_ok s p)"

lemma same_pend_refl [simp]: "same_pend s P P"
  by (simp add: same_pend_def)

lemma holders_image: "holders vs P ob = size (filter_mset (\<lambda>v. va_obj v = Some ob) (mset vs)) +
    count (image_mset phold (filter_mset (\<lambda>p. phold p \<noteq> None) P)) (Some ob)"
proof -
  have "size (filter_mset (\<lambda>p. phold p = Some ob) P) = count (image_mset phold (filter_mset (\<lambda>p. phold p \<noteq> None) P)) (Some ob)"
    by (induction P) auto
  then show ?thesis by (simp add: holders_def)
qed

lemma same_pend_holders: "same_pend s P P' \<Longrightarrow> holders vs P' ob = holders vs P ob"
  by (simp add: same_pend_def holders_image)

lemma same_pend_swap:
  "phold p = phold q \<Longrightarrow> pchain p = pchain q \<Longrightarrow> pend_ok s q \<Longrightarrow> same_pend s (add_mset p P) (add_mset q P)"
  by (auto simp: same_pend_def)

lemma vm_inv_pages:
  assumes inv: "vm_inv s P" and l: "same_list s s'" and o: "same_objs s s'" and p: "same_pend s P P'" and k: "keys_ok s'"
    and pt: "\<And>va f fl. vm_pt s' va = Some (f, fl) \<Longrightarrow> \<exists>v \<in> set (vm_vmas s). contains v va \<and> perm_ok fl (va_prot v)"
    and f: "fm_inv (frames s' P')"
  shows "vm_inv s' P'"
proof -
  note D = vm_invD [OF inv]
  have vs: "vm_vmas s' = vm_vmas s" using l by (simp add: same_list_def)
  have "obj_ok (vm_vmas s) P' ob (vm_objs s' ob)" for ob
    unfolding obj_ok_same [OF o] using D(5) [of ob] unfolding obj_ok_def same_pend_holders [OF p] .
  moreover have "pend_ok s' q" if "q \<in># P'" for q
    using that p D(7) unfolding pend_ok_same [OF o] by (auto simp: same_pend_def)
  moreover have "vm_objs s' ob = None" if "vm_next s' \<le> ob" for ob
    using same_objs_cases [OF o, of ob] D(6) [of ob] that o by (auto simp: same_objs_def)
  moreover have "filter_mset is_dying (mset (vm_vmas s)) = chains P'" using D(4) p by (simp add: same_pend_def)
  moreover have "vm_ok s'" using vm_ok_same_list [OF l] D(1) by simp
  ultimately show ?thesis unfolding vm_inv_def vs place_ok_same [OF o] using D(3) k pt f by blast
qed

section \<open>Pages\<close>

lemma map_of_update: "map_of (map (\<lambda>(j, p). (j, if j = i then h p else p)) ps) k = (if k = i then map_option h (map_of ps i) else map_of ps k)"
  by (induction ps) auto

lemma page_find_upd_obj: "page_find (upd_obj ob g s) o1 j =
    (if o1 = ob then case vm_objs s ob of None \<Rightarrow> None | Some x \<Rightarrow> map_of (vo_pages (g x)) j else page_find s o1 j)"
  by (auto simp: page_find_def upd_obj_def split: option.split)

lemma page_find_upd_page [simp]:
  "page_find (upd_page ob i h s) o1 j = (if o1 = ob \<and> j = i then map_option h (page_find s ob i) else page_find s o1 j)"
  unfolding upd_page_def page_find_upd_obj by (auto simp: map_of_update page_find_def split: option.split)

lemma page_find_fields [simp]:
  "page_find (s\<lparr>vm_pt := pt\<rparr>) = page_find s" "page_find (s\<lparr>vm_frames := fs\<rparr>) = page_find s" "page_find (s\<lparr>vm_mem := ms\<rparr>) = page_find s"
  "page_find (s\<lparr>vm_vmas := vs\<rparr>) = page_find s"
  by (auto simp: page_find_def fun_eq_iff)

lemma upd_fields [simp]:
  "vm_vmas (upd_obj ob g s) = vm_vmas s" "vm_pt (upd_obj ob g s) = vm_pt s" "vm_frames (upd_obj ob g s) = vm_frames s"
  "vm_mem (upd_obj ob g s) = vm_mem s" "vm_next (upd_obj ob g s) = vm_next s"
  "vm_vmas (upd_page ob i h s) = vm_vmas s" "vm_pt (upd_page ob i h s) = vm_pt s" "vm_frames (upd_page ob i h s) = vm_frames s"
  "vm_mem (upd_page ob i h s) = vm_mem s" "vm_next (upd_page ob i h s) = vm_next s"
  by (simp_all add: upd_page_def upd_obj_def)

lemma same_objs_upd: "(\<And>x. okey (g x) = okey x) \<Longrightarrow> same_objs s (upd_obj ob g s)"
  by (auto simp: same_objs_def upd_obj_def option.map_comp comp_def intro: option.map_cong)

lemma same_objs_prim [simp]:
  "same_objs s (upd_page ob i h s)" "same_objs s (s\<lparr>vm_pt := pt\<rparr>)" "same_objs s (s\<lparr>vm_frames := fs\<rparr>)" "same_objs s (s\<lparr>vm_mem := ms\<rparr>)"
  "same_objs s (s\<lparr>vm_vmas := vs\<rparr>)"
proof -
  show "same_objs s (upd_page ob i h s)" unfolding upd_page_def by (rule same_objs_upd) (simp add: okey_def)
qed (simp_all add: same_objs_def)

lemma keys_ok_upd: "keys_ok s \<Longrightarrow> (\<And>x. vm_objs s ob = Some x \<Longrightarrow> distinct (map fst (vo_pages x)) \<Longrightarrow> distinct (map fst (vo_pages (g x)))) \<Longrightarrow> keys_ok (upd_obj ob g s)"
  by (auto simp: keys_ok_def upd_obj_def)

lemma keys_ok_prim [simp]:
  "keys_ok (s\<lparr>vm_pt := pt\<rparr>) = keys_ok s" "keys_ok (s\<lparr>vm_frames := fs\<rparr>) = keys_ok s" "keys_ok (s\<lparr>vm_mem := ms\<rparr>) = keys_ok s"
  "keys_ok (s\<lparr>vm_vmas := vs\<rparr>) = keys_ok s"
  by (simp_all add: keys_ok_def)

lemma keys_ok_upd_page [simp]: "keys_ok s \<Longrightarrow> keys_ok (upd_page ob i h s)"
  unfolding upd_page_def by (rule keys_ok_upd) (simp_all add: comp_def case_prod_unfold)

lemma same_list_fields [simp]:
  "same_list s (s\<lparr>vm_pt := pt\<rparr>)" "same_list s (s\<lparr>vm_frames := fs\<rparr>)" "same_list s (s\<lparr>vm_mem := ms\<rparr>)"
  by (simp_all add: same_list_def)

lemma obj_anon_upd_page [simp]: "obj_anon (upd_page ob i h s) = obj_anon s" "obj_mapper (upd_page ob i h s) = obj_mapper s"
  by (rule same_objs_eqs [OF same_objs_prim(1)])+

lemma obj_anon_fields [simp]:
  "obj_anon (s\<lparr>vm_pt := pt\<rparr>) = obj_anon s" "obj_anon (s\<lparr>vm_frames := fs\<rparr>) = obj_anon s" "obj_anon (s\<lparr>vm_mem := ms\<rparr>) = obj_anon s"
  "obj_anon (s\<lparr>vm_vmas := vs\<rparr>) = obj_anon s"
  "obj_mapper (s\<lparr>vm_pt := pt\<rparr>) = obj_mapper s" "obj_mapper (s\<lparr>vm_frames := fs\<rparr>) = obj_mapper s" "obj_mapper (s\<lparr>vm_mem := ms\<rparr>) = obj_mapper s"
  "obj_mapper (s\<lparr>vm_vmas := vs\<rparr>) = obj_mapper s"
  by (auto simp: obj_anon_def obj_mapper_def fun_eq_iff)

text \<open>Memory answers are no part of the invariant.\<close>

lemma vm_inv_mem [simp]: "vm_inv (s\<lparr>vm_mem := ms\<rparr>) P = vm_inv s P"
proof -
  have "pend_ok (s\<lparr>vm_mem := ms\<rparr>) p = pend_ok s p" for p by (rule pend_ok_same) simp
  moreover have "frames (s\<lparr>vm_mem := ms\<rparr>) P = frames s P" by (simp add: frames_def)
  ultimately show ?thesis by (simp add: vm_inv_def vm_ok_def layout_ok_def place_ok_def)
qed

lemma vm_inv_swap:
  assumes "vm_inv s (add_mset p P)" "phold p = phold q" "pchain p = pchain q" "pwire p = pwire q" "pgone p = pgone q" "pend_ok s q"
  shows "vm_inv s (add_mset q P)"
proof (rule vm_inv_pages [OF assms(1)])
  show "same_pend s (add_mset p P) (add_mset q P)" by (rule same_pend_swap [OF assms(2,3,6)])
  have "gone_at (add_mset q P) = gone_at (add_mset p P)" by (simp add: gone_at_add fun_eq_iff assms(5))
  then have "frames s (add_mset q P) = frames s (add_mset p P)" by (simp add: frames_def assms(4))
  then show "fm_inv (frames s (add_mset q P))" using vm_invD(9) [OF assms(1)] by simp
qed (use vm_invD [OF assms(1)] in \<open>simp_all\<close>)

text \<open>A page is wired for a fault, or unwired again.\<close>

lemma vm_inv_wire:
  assumes inv: "vm_inv s (add_mset (PHold ob) P)" and p: "vmo_page_phys s ob i = ph" "ph \<noteq> 0" and dvd: "PAGE_SIZE dvd page"
  shows "vm_inv (upd_page ob i (\<lambda>p. p\<lparr>pg_wired := pg_wired p + 1\<rparr>) s) (add_mset (PWired page ob i fl ph) P)" (is "vm_inv ?s ?P")
proof (rule vm_inv_pages [OF inv])
  note D = vm_invD [OF inv]
  let ?m = "frames s (add_mset (PHold ob) P)"
  have "ff ?m ob i = Some ph" using p by (auto simp: ff_def vmo_page_phys_def split: option.splits)
  note fm_wire [OF D(9) this p(2)]
  moreover have "frames ?s ?P = set_wired ob i Suc (?m\<lparr>ws := add_mset (ob, i, ph) (ws ?m)\<rparr>)"
    by (rule fm.equality) (auto simp: set_wired_def p(2) gone_at_same fun_eq_iff)
  ultimately show "fm_inv (frames ?s ?P)" by simp
  show "same_pend s (add_mset (PHold ob) P) ?P" by (rule same_pend_swap) (simp_all add: dvd)
qed (use vm_invD [OF inv] in simp_all)

lemma vm_inv_unwire:
  assumes inv: "vm_inv s (add_mset (PWired page ob i fl ph) P)" and ph: "ph \<noteq> 0"
  shows "vm_inv (vmo_unwire_page ob i s) (add_mset (PHold ob) P)" (is "vm_inv ?s ?P")
proof (rule vm_inv_pages [OF inv])
  note D = vm_invD [OF inv]
  let ?m = "frames s (add_mset (PWired page ob i fl ph) P)"
  have "fm_inv (set_wired ob i (\<lambda>n. n - 1) (?m\<lparr>ws := wires P\<rparr>))" by (rule fm_unwire [OF D(9)]) (simp add: ph)
  moreover have "frames ?s ?P = set_wired ob i (\<lambda>n. n - 1) (?m\<lparr>ws := wires P\<rparr>)"
    by (rule fm.equality) (auto simp: set_wired_def vmo_unwire_page_def gone_at_same fun_eq_iff)
  ultimately show "fm_inv (frames ?s ?P)" by simp
  show "same_pend s (add_mset (PWired page ob i fl ph) P) ?P" by (rule same_pend_swap) simp_all
  show "\<exists>v \<in> set (vm_vmas s). contains v va \<and> perm_ok g (va_prot v)" if "vm_pt ?s va = Some (f, g)" for va f g
    using that D(8) by (simp add: vmo_unwire_page_def)
qed (use vm_invD [OF inv] in \<open>simp_all add: vmo_unwire_page_def\<close>)

text \<open>Bringing a page in.\<close>

lemma vm_inv_fill:
  assumes inv: "vm_inv s P" and p: "vmo_page_phys s ob i = 0" and fs: "vm_frames s = pg_phys q # vm_frames s'"
    and w: "pg_wired q \<le> (case page_find s ob i of None \<Rightarrow> 0 | Some p \<Rightarrow> pg_wired p)"
    and pg: "\<And>o1 j. page_find s' o1 j = (if o1 = ob \<and> j = i then Some q else page_find s o1 j)"
    and same: "same_list s s'" "same_objs s s'" "vm_pt s' = vm_pt s" "keys_ok s'"
  shows "vm_inv s' P"
proof (rule vm_inv_pages [OF inv same(1,2) _ same(4)])
  note D = vm_invD [OF inv]
  let ?m = "frames s P"
  have "fm_inv (?m\<lparr>pg := (pg ?m)(ob := (pg ?m ob)(i \<mapsto> q)), fr := vm_frames s'\<rparr>)"
    by (rule fm_fill [OF D(9)]) (use p fs w in \<open>auto simp: ff_def vmo_page_phys_def split: option.splits\<close>)
  moreover have "frames s' P = ?m\<lparr>pg := (pg ?m)(ob := (pg ?m ob)(i \<mapsto> q)), fr := vm_frames s'\<rparr>"
    using same by (intro fm.equality) (auto simp: fun_eq_iff pg same_list_def same_objs_eqs)
  ultimately show "fm_inv (frames s' P)" by simp
qed (use vm_invD [OF inv] same in simp_all)

lemma pmm_take_some:
  assumes "pmm_take s = (f, s1)" "f \<noteq> 0"
  obtains fs where "vm_frames s = f # fs" "s1 = s\<lparr>vm_frames := fs\<rparr>"
  using assms by (auto simp: pmm_take_def split: list.splits)

lemma frames_restore: "vm_frames s = fs \<Longrightarrow> s\<lparr>vm_frames := fs\<rparr> = s"
  by (intro vm.equality) auto

lemma pmm_take_back: "pmm_take s = (f, s1) \<Longrightarrow> f \<noteq> 0 \<Longrightarrow> pmm_give f s1 = s"
  by (erule pmm_take_some) (simp_all add: pmm_give_def frames_restore)

lemma pmm_take_none: "vm_inv s P \<Longrightarrow> pmm_take s = (0, s1) \<Longrightarrow> s1 = s"
  using fm_invD(4) [OF vm_invD(9), of s P] by (auto simp: pmm_take_def split: list.splits)

lemma page_fill_inv:
  assumes inv: "vm_inv s P" and ob: "vm_objs s ob \<noteq> None" and p: "page_find s ob i = None" and r: "page_fill ob i io s = (ok, s')"
  shows "vm_inv s' P \<and> (ok \<longrightarrow> vmo_page_phys s' ob i \<noteq> 0) \<and> same_list s s' \<and> vm_pt s' = vm_pt s \<and> same_objs s s'"
proof -
  obtain x where x: "vm_objs s ob = Some x" using ob by blast
  obtain f s1 where t: "pmm_take s = (f, s1)" by fastforce
  show ?thesis
  proof (cases "f = 0")
    case True
    then show ?thesis using r t inv pmm_take_none [OF inv, of s1] by (auto simp: page_fill_def)
  next
    case False
    obtain fs where g: "vm_frames s = f # fs" "s1 = s\<lparr>vm_frames := fs\<rparr>" by (rule pmm_take_some [OF t False])
    obtain b s2 where m: "take_mem s1 = (b, s2)" by fastforce
    define ms where "ms = tl (vm_mem s1)"
    have s2: "s2 = s\<lparr>vm_frames := fs, vm_mem := ms\<rparr>" using take_mem_state [OF m] g by (simp add: ms_def)
    let ?q = "\<lparr>pg_phys = f, pg_slot = 0, pg_dirty = False, pg_wired = 0\<rparr>"
    let ?n = "upd_obj ob (\<lambda>x. x\<lparr>vo_pages := (i, ?q) # vo_pages x\<rparr>) s2"
    have give: "pmm_give f s1 = s" "pmm_give f s2 = s\<lparr>vm_mem := ms\<rparr>"
      using g s2 frames_restore [of s "f # fs"] by (simp_all add: pmm_give_def)
    consider "\<not> ok" "s' = s" | "\<not> ok" "s' = s\<lparr>vm_mem := ms\<rparr>" | "ok" "s' = ?n"
      using r t False m give x unfolding page_fill_def by (auto simp: Let_def split: if_splits)
    then show ?thesis
    proof cases
      case 3
      have o2: "vm_objs s2 = vm_objs s" "vm_pt s2 = vm_pt s" "vm_frames s2 = fs" "same_list s s2" "same_objs s s2" "keys_ok s2" "page_find s2 = page_find s"
        unfolding s2 using vm_invD(10) [OF inv] by (simp_all add: same_list_def same_objs_def)
      have pf: "page_find ?n o1 j = (if o1 = ob \<and> j = i then Some ?q else page_find s o1 j)" for o1 j
        unfolding page_find_upd_obj o2 using x p by (auto simp: page_find_def)
      have so: "same_objs s ?n" by (rule same_objs_trans [OF o2(5) same_objs_upd]) (simp add: okey_def)
      have sl: "same_list s ?n" using o2(4) same_list_trans by fastforce
      have "vm_inv ?n P"
      proof (rule vm_inv_fill [OF inv, of ob i ?q])
        show "keys_ok ?n" by (rule keys_ok_upd [OF o2(6)]) (use p x o2(1) in \<open>auto simp: page_find_def map_of_eq_None_iff\<close>)
      qed (use p g o2 pf so sl in \<open>simp_all add: vmo_page_phys_def\<close>)
      then show ?thesis using 3 pf so sl o2 False by (simp add: vmo_page_phys_def)
    qed (use inv in simp_all)
  qed
qed

lemma page_get_inv:
  assumes inv: "vm_inv s P" and ob: "vm_objs s ob \<noteq> None" and r: "page_get ob i io s = (ok, s')"
  shows "vm_inv s' P \<and> (ok \<longrightarrow> vmo_page_phys s' ob i \<noteq> 0) \<and> same_list s s' \<and> vm_pt s' = vm_pt s \<and> same_objs s s'"
proof (cases "page_find s ob i")
  case None
  then show ?thesis using page_fill_inv [OF inv ob None, of io ok s'] r by (simp add: page_get_def)
next
  case (Some p)
  obtain f s1 where t: "pmm_take s = (f, s1)" by fastforce
  show ?thesis
  proof (cases "pg_phys p \<noteq> 0 \<or> f = 0 \<or> \<not> io")
    case True
    then have "s' = s \<and> (ok \<longrightarrow> pg_phys p \<noteq> 0)" using r t Some pmm_take_none [OF inv, of s1] pmm_take_back [OF t]
      by (auto simp: page_get_def split: if_splits)
    then show ?thesis using inv Some by (simp add: vmo_page_phys_def)
  next
    case False
    let ?h = "\<lambda>p. p\<lparr>pg_phys := f, pg_slot := 0\<rparr>"
    have s': "ok" "s' = upd_page ob i ?h s1" using r t Some False by (auto simp: page_get_def split: if_splits)
    obtain fs where s1: "vm_frames s = f # fs" "s1 = s\<lparr>vm_frames := fs\<rparr>" using pmm_take_some [OF t] False by blast
    have f: "page_find s1 = page_find s" "same_list s s1" "same_objs s s1" "keys_ok s1" "vm_pt s1 = vm_pt s"
      unfolding s1(2) using vm_invD(10) [OF inv] by simp_all
    have so: "same_objs s s'" "same_list s s'" unfolding s' using f same_objs_trans same_list_trans same_objs_prim(1) same_list_prim(5) by blast+
    have "vm_inv s' P"
      by (rule vm_inv_fill [OF inv, of ob i "?h p"]) (use Some False s1 s' f so in \<open>auto simp: vmo_page_phys_def\<close>)
    then show ?thesis using s' f so Some False by (simp add: vmo_page_phys_def)
  qed
qed

section \<open>Entries\<close>

lemma get_phys: "vmm_get_phys_in s va = 0 \<longleftrightarrow> pf (frames s P) va = None \<or> pf (frames s P) va = Some 0"
  by (auto simp: vmm_get_phys_in_def split: option.splits)

lemma get_phys_Some: "vmm_get_phys_in s va = f \<Longrightarrow> f \<noteq> 0 \<Longrightarrow> pf (frames s P) va = Some f"
  by (auto simp: vmm_get_phys_in_def split: option.splits)

lemma get_phys_None: "vm_inv s P \<Longrightarrow> vmm_get_phys_in s va = 0 \<Longrightarrow> vm_pt s va = None"
  using fm_invD(2) [OF vm_invD(9), of s P va] by (auto simp: vmm_get_phys_in_def split: option.splits)

lemma perm_ok_prot [simp]: "perm_ok (prot_to_vmm prot) prot"
  by (auto simp: perm_ok_def prot_to_vmm_bits)

lemma perm_ok_mask: "perm_ok (prot_to_vmm prot AND NOT VMM_WRITABLE) prot" "perm_ok (prot_to_vmm (prot AND NOT PROT_WRITE)) prot"
proof -
  have *: "has (prot_to_vmm prot AND NOT VMM_WRITABLE) b \<longleftrightarrow> has (prot_to_vmm prot) b" if "VMM_WRITABLE AND b = 0" for b
    by (rule has_and_other [OF that])
  show "perm_ok (prot_to_vmm prot AND NOT VMM_WRITABLE) prot"
    unfolding perm_ok_def using has_and_not [of "prot_to_vmm prot" VMM_WRITABLE] * [of VMM_EXEC] * [of VMM_NX] * [of VMM_USER] by (simp add: prot_to_vmm_bits)
  have "has (prot AND NOT PROT_WRITE) PROT_EXEC \<longleftrightarrow> has prot PROT_EXEC" by (rule has_and_other) simp
  then show "perm_ok (prot_to_vmm (prot AND NOT PROT_WRITE)) prot" using has_and_not [of prot PROT_WRITE] by (auto simp: perm_ok_def prot_to_vmm_bits)
qed

text \<open>Where a fault finds its mapping again, the slot is that of its page and the mapping is alive.\<close>

lemma fault_same_slot:
  assumes inv: "vm_inv s P" and v: "fault_same page ob i s = Some v" and dvd: "PAGE_SIZE dvd page"
  shows "v \<in> set (vm_vmas s)" "contains v page" "\<not> is_dying v" "slot_at (vm_vmas s) page = Some (ob, i)" "\<not> gone_at P page"
proof -
  note D = vm_invD [OF inv]
  have f: "vma_find (vm_vmas s) page = Some v" "va_obj v = Some ob" "page_index v page = i"
    using v by (auto simp: fault_same_def split: option.splits if_splits)
  then show v: "v \<in> set (vm_vmas s)" "contains v page" "\<not> is_dying v" unfolding vma_find_iff [OF D(2)] by auto
  show "slot_at (vm_vmas s) page = Some (ob, i)" unfolding slot_at_iff [OF D(2)] using v f dvd by blast
  show "\<not> gone_at P page"
  proof
    assume "gone_at P page"
    then obtain p d where p: "p \<in># P" "d \<in> set (pgone p)" "contains d page" by (auto simp: gone_at_def)
    then have "d \<in># pchain p" by (cases p) auto
    then have "d \<in># chains P" using p(1) by (auto simp: chains_def)
    then have "d \<in> set (vm_vmas s)" "is_dying d" unfolding D(4) [symmetric] by auto
    then show False using vmas_ok_unique [OF D(2) _ v(1) p(3) v(2)] v(3) by blast
  qed
qed

lemma vm_inv_enter:
  assumes inv: "vm_inv s (add_mset (PWired page ob i fl ph) P)" and ph: "ph \<noteq> 0" and v: "fault_same page ob i s = Some v"
    and none: "vmm_get_phys_in s page = 0" and ok: "perm_ok g (va_prot v)"
  shows "vm_inv (s\<lparr>vm_pt := (vm_pt s)(page \<mapsto> (ph, g))\<rparr>) (add_mset (PHold ob) P)" (is "vm_inv ?s ?P")
proof (rule vm_inv_pages [OF inv])
  note D = vm_invD [OF inv]
  let ?m = "frames s (add_mset (PWired page ob i fl ph) P)"
  have dvd: "PAGE_SIZE dvd page" using D(7) [of "PWired page ob i fl ph"] by simp
  note S = fault_same_slot [OF inv v dvd]
  have "fm_inv (?m\<lparr>pf := (pf ?m)(page \<mapsto> ph), ws := wires P\<rparr>)"
    by (rule fm_map [OF D(9)]) (use S ph get_phys_None [OF inv none] in simp_all)
  moreover have "frames ?s ?P = ?m\<lparr>pf := (pf ?m)(page \<mapsto> ph), ws := wires P\<rparr>"
    by (rule fm.equality) (auto simp: gone_at_same fun_eq_iff)
  ultimately show "fm_inv (frames ?s ?P)" by simp
  show "same_pend s (add_mset (PWired page ob i fl ph) P) ?P" by (rule same_pend_swap) simp_all
  show "\<exists>v \<in> set (vm_vmas s). contains v va \<and> perm_ok g' (va_prot v)" if "vm_pt ?s va = Some (f, g')" for va f g'
    using that D(8) S(1,2) ok by (auto split: if_splits)
qed (use vm_invD [OF inv] in simp_all)

text \<open>New permissions for an entry.\<close>

lemma vm_inv_protect:
  assumes inv: "vm_inv s P" and v: "v \<in> set (vm_vmas s)" "contains v va" "perm_ok g (va_prot v)"
  shows "vm_inv (vmm_protect_in va g s) P"
proof (cases "vm_pt s va")
  case None then show ?thesis using inv by (simp add: vmm_protect_in_def)
next
  case (Some e)
  obtain f g0 where e: "e = (f, g0)" by fastforce
  have s: "vmm_protect_in va g s = s\<lparr>vm_pt := (vm_pt s)(va \<mapsto> (f, g))\<rparr>" by (simp add: vmm_protect_in_def Some e)
  note D = vm_invD [OF inv]
  show ?thesis unfolding s
  proof (rule vm_inv_pages [OF inv])
    have "frames (s\<lparr>vm_pt := (vm_pt s)(va \<mapsto> (f, g))\<rparr>) P = frames s P"
      by (rule fm.equality) (auto simp: fun_eq_iff Some e)
    then show "fm_inv (frames (s\<lparr>vm_pt := (vm_pt s)(va \<mapsto> (f, g))\<rparr>) P)" using D(9) by simp
    show "\<exists>v \<in> set (vm_vmas s). contains v x \<and> perm_ok g' (va_prot v)"
      if "vm_pt (s\<lparr>vm_pt := (vm_pt s)(va \<mapsto> (f, g))\<rparr>) x = Some (f', g')" for x f' g'
      using that D(8) v by (auto split: if_splits)
  qed (use vm_invD [OF inv] in simp_all)
qed

text \<open>An entry goes or is replaced by one for a copy; \<open>cached\<close>: it showed the page of the object.\<close>

lemma vm_inv_change:
  assumes inv: "vm_inv s P" and sl: "slot_at (vm_vmas s) va = Some (ob, i)" and pt: "vm_pt s va = Some (f, g0)"
    and e: "case e of
        None \<Rightarrow> vm_frames s' = (if vmo_page_phys s ob i = f then vm_frames s else f # vm_frames s)
      | Some (c, g) \<Rightarrow> vm_frames s = c # vm_frames s' \<and> vmo_page_phys s ob i = f \<and> \<not> obj_anon s ob \<and>
          (\<exists>v \<in> set (vm_vmas s). contains v va \<and> perm_ok g (va_prot v))"
    and s': "vm_pt s' = (vm_pt s)(va := e)" "same_list s s'" "same_objs s s'" "keys_ok s'"
      "\<And>o1 j. page_find s' o1 j = (if o1 = ob \<and> j = i \<and> vmo_page_phys s ob i = f
         then map_option (\<lambda>p. p\<lparr>pg_wired := pg_wired p - 1\<rparr>) (page_find s ob i) else page_find s o1 j)"
  shows "vm_inv s' P"
proof (rule vm_inv_pages [OF inv s'(2,3) _ s'(4)])
  note D = vm_invD [OF inv]
  let ?m = "frames s P"
  have f0: "f \<noteq> 0" using fm_invD(2) [OF D(9), of va f] pt by simp
  have ff: "ff ?m ob i = Some f \<longleftrightarrow> vmo_page_phys s ob i = f" using f0 by (auto simp: ff_def vmo_page_phys_def split: option.splits)
  have "fm_inv (set_wired ob i (\<lambda>n. if ff ?m ob i = Some f then n - 1 else n)
      (?m\<lparr>pf := (pf ?m)(va := map_option fst e), fr := vm_frames s'\<rparr>))"
    by (rule fm_change_entry [OF D(9)]) (use sl pt e in \<open>auto simp: ff split: option.splits\<close>)
  moreover have "frames s' P = set_wired ob i (\<lambda>n. if ff ?m ob i = Some f then n - 1 else n)
      (?m\<lparr>pf := (pf ?m)(va := map_option fst e), fr := vm_frames s'\<rparr>)"
    using s'(2,3) by (intro fm.equality)
      (auto simp: set_wired_def fun_eq_iff s'(1,5) same_list_def same_objs_eqs ff option.map_comp comp_def option.map_ident)
  ultimately show "fm_inv (frames s' P)" by simp
  show "\<exists>v \<in> set (vm_vmas s). contains v x \<and> perm_ok g' (va_prot v)" if "vm_pt s' x = Some (f', g')" for x f' g'
    using that D(8) [of x] e unfolding s'(1) by (cases e) (auto split: if_splits)
qed simp

text \<open>Unmapping one page of a file.\<close>

lemma unmap_page_inv:
  assumes inv: "vm_inv s P" and v: "v \<in> set (vm_vmas s)" "va \<in> set (area_pages v)"
  shows "vm_inv (unmap_page v va s) P" "vm_pt (unmap_page v va s) = (vm_pt s)(va := None)" "same_objs s (unmap_page v va s)"
proof -
  note D = vm_invD [OF inv]
  obtain ob where ob: "va_obj v = Some ob" using D(3) [OF v(1)] by (auto simp: place_ok_def)
  have a: "area_ok v" by (rule vmas_ok_area [OF D(2) v(1)])
  have c: "contains v va \<and> PAGE_SIZE dvd va" using v(2) a unfolding area_pages_def contains_def area_ok_def by (auto simp: elim!: dvdE)
  have sl: "slot_at (vm_vmas s) va = Some (ob, page_index v va)" unfolding slot_at_iff [OF D(2)] using v(1) c ob by blast
  let ?i = "page_index v va"
  have "vm_inv (unmap_page v va s) P \<and> vm_pt (unmap_page v va s) = (vm_pt s)(va := None) \<and> same_objs s (unmap_page v va s)"
  proof (cases "vmm_get_phys_in s va = 0")
    case True
    then show ?thesis using inv get_phys_None [OF inv True] by (auto simp: unmap_page_def)
  next
    case False
    then obtain f g where pt: "vm_pt s va = Some (f, g)" "vmm_get_phys_in s va = f" "f \<noteq> 0"
      by (auto simp: vmm_get_phys_in_def split: option.splits)
    let ?u = "s\<lparr>vm_pt := (vm_pt s)(va := None)\<rparr>"
    have u: "unmap_page v va s = (if f = vmo_page_phys s ob ?i then vmo_unwire_page ob ?i ?u else pmm_give f ?u)"
      using pt ob by (simp add: unmap_page_def vmm_unmap_in_def vmo_page_phys_def)
    have so: "same_objs s (vmo_unwire_page ob ?i ?u)" "same_objs s (pmm_give f ?u)"
      unfolding vmo_unwire_page_def pmm_give_def by (rule same_objs_trans [OF same_objs_prim(2) same_objs_prim(1)]) (simp add: same_objs_def)
    have l: "same_list s (vmo_unwire_page ob ?i ?u)" "same_list s (pmm_give f ?u)"
      by (rule same_list_trans [of s ?u]; simp)+
    have k: "keys_ok (vmo_unwire_page ob ?i ?u)" "keys_ok (pmm_give f ?u)"
      using D(10) by (simp_all add: vmo_unwire_page_def pmm_give_def)
    have "vm_inv (unmap_page v va s) P"
    proof (cases "f = vmo_page_phys s ob ?i")
      case True
      then have "unmap_page v va s = vmo_unwire_page ob ?i ?u" using u by simp
      then show ?thesis using vm_inv_change [OF inv sl pt(1), where e = None, OF _ _ l(1) so(1) k(1)] True
        by (simp add: vmo_unwire_page_def)
    next
      case False
      then have "unmap_page v va s = pmm_give f ?u" using u by simp
      then show ?thesis using vm_inv_change [OF inv sl pt(1), where e = None, OF _ _ l(2) so(2) k(2)] False
        by (simp add: pmm_give_def)
    qed
    then show ?thesis unfolding u using so by (auto simp: vmo_unwire_page_def pmm_give_def)
  qed
  then show "vm_inv (unmap_page v va s) P" "vm_pt (unmap_page v va s) = (vm_pt s)(va := None)" "same_objs s (unmap_page v va s)" by auto
qed

end
