(* ===== verification/Vma_Sections.thy ===== *)
theory Vma_Sections
  imports Vma_Inv
begin

text \<open>
  Every locked section of \<open>kernel/mm/vma.c\<close>, every use it makes of \<open>kernel/mm/vm_object.c\<close> and
  every step of the reclaimer keeps the invariant of \<open>Vma_Inv\<close>, whatever other threads are
  between two sections.
\<close>

section \<open>Objects\<close>

lemma slot_holds:
  assumes "vmas_ok vs" "slot_at vs va = Some (ob, i)"
  shows "0 < holders vs P ob"
proof -
  obtain v where "v \<in> set vs" "va_obj v = Some ob" using assms(2) unfolding slot_at_iff [OF assms(1)] by blast
  then show ?thesis by (rule holders_area)
qed

lemma vmo_ref_inv:
  assumes inv: "vm_inv s P" and ob: "vm_objs s ob \<noteq> None" and no: "\<And>start len prot fl. PMap start len prot fl ob \<notin># P"
  shows "vm_inv (vmo_ref ob s) (add_mset (PHold ob) P)" (is "vm_inv ?s ?P")
proof -
  note D = vm_invD [OF inv]
  have eq: "vm_vmas ?s = vm_vmas s" "vm_pt ?s = vm_pt s" "obj_anon ?s = obj_anon s" "obj_mapper ?s = obj_mapper s" "page_find ?s = page_find s"
    "vm_frames ?s = vm_frames s" "vm_next ?s = vm_next s"
    by (auto simp: vmo_ref_def upd_obj_def obj_anon_def obj_mapper_def page_find_def fun_eq_iff split: option.split)
  have "frames ?s ?P = frames s P" by (rule fm.equality) (simp_all add: eq gone_at_same fun_eq_iff)
  then have "fm_inv (frames ?s ?P)" using D(9) by simp
  moreover have "obj_ok (vm_vmas s) ?P o1 (vm_objs ?s o1)" for o1
    using D(5) [of o1] ob by (auto simp: obj_ok_def vmo_ref_def upd_obj_def split: option.splits)
  moreover have "pend_ok ?s p" if "p \<in># ?P" for p
    using that D(7) [of p] no by (cases p) (auto simp: vmo_ref_def upd_obj_def split: option.splits)
  moreover have "vm_ok ?s" using vm_ok_same_list [OF same_list_prim(6)] D(1) by blast
  moreover have "keys_ok ?s" unfolding vmo_ref_def by (rule keys_ok_upd [OF D(10)]) simp
  moreover have "vm_objs ?s o1 = None" if "vm_next s \<le> o1" for o1 using D(6) [OF that] by (auto simp: vmo_ref_def upd_obj_def)
  ultimately show ?thesis unfolding vm_inv_def eq using D(3,4,8) by (simp add: place_ok_def eq)
qed

lemma new_object_inv:
  assumes inv: "vm_inv s P" and x: "vo_refs x = 1" "vo_pages x = []"
  shows "vm_inv (s\<lparr>vm_next := vm_next s + 1, vm_objs := (vm_objs s)(vm_next s \<mapsto> x)\<rparr>) (add_mset (PHold (vm_next s)) P)" (is "vm_inv ?s ?P")
proof -
  note D = vm_invD [OF inv]
  let ?ob = "vm_next s"
  define t where "t = ?s"
  have tf: "vm_vmas t = vm_vmas s" "vm_pt t = vm_pt s" "vm_frames t = vm_frames s" "vm_next t = Suc (vm_next s)" "vm_objs t = (vm_objs s)(?ob \<mapsto> x)"
    "vm_ok t = vm_ok s" by (simp_all add: t_def vm_ok_def layout_ok_def)
  have nob: "vm_objs s ?ob = None" using D(6) by simp
  then have h: "holders (vm_vmas s) P ?ob = 0" using D(5) [of ?ob] by (simp add: obj_ok_def)
  have eq: "page_find t = page_find s" using nob x(2) by (auto simp: page_find_def fun_eq_iff tf)
  have out: "obj_anon t o1 = obj_anon s o1 \<and> obj_mapper t o1 = obj_mapper s o1" if "o1 \<noteq> ?ob" for o1
    using that by (simp add: obj_anon_def obj_mapper_def tf)
  have "fm_inv ((frames s P)\<lparr>an := obj_anon t, mp := obj_mapper t\<rparr>)"
  proof (rule fm_objects [OF D(9), of ?ob])
    show "sl (frames s P) va \<noteq> Some (?ob, i)" for va i using slot_holds [OF D(2), of va ?ob i P] h by auto
    show "(?ob, i, ph) \<notin># ws (frames s P)" for i ph using wires_hold [of ?ob i ph P] holders_pend [of _ P ?ob "vm_vmas s"] h by auto
  qed (use out nob in \<open>auto simp: page_find_def\<close>)
  moreover have "frames t ?P = (frames s P)\<lparr>an := obj_anon t, mp := obj_mapper t\<rparr>"
    by (rule fm.equality) (simp_all add: eq tf gone_at_same fun_eq_iff)
  moreover have "obj_ok (vm_vmas s) ?P o1 (vm_objs t o1)" for o1
    using D(5) [of o1] h x(1) by (auto simp: obj_ok_def tf split: option.splits)
  moreover have "pend_ok t p" if "p \<in># ?P" for p
    using that D(7) [of p] nob by (cases p) (auto simp: tf split: option.splits)
  moreover have "place_ok t v" if "v \<in> set (vm_vmas s)" for v
  proof -
    have "va_obj v \<noteq> Some ?ob" using holders_area [OF that, of ?ob P] h by auto
    then show ?thesis using D(3) [OF that] out unfolding place_ok_def by (metis option.sel)
  qed
  moreover have "vm_ok t" using D(1) tf by simp
  moreover have "keys_ok t" using D(10) x(2) by (auto simp: keys_ok_def tf)
  ultimately have "vm_inv t ?P" unfolding vm_inv_def tf using D(3,4,6,8) by simp
  then show ?thesis by (simp add: t_def)
qed

text \<open>The frames of some pages of an object, given back.\<close>

lemma page_frames_back:
  assumes inv: "vm_inv s P" and x: "vm_objs s ob = Some x" and ps: "ps = filter (\<lambda>(i, p). i \<in> I) (vo_pages x)"
  shows "distinct (rev (page_frames ps) @ vm_frames s)"
    "set (rev (page_frames ps) @ vm_frames s) = set (fr (frames s P)) \<union> {f. f \<noteq> 0 \<and> (\<exists>i \<in> I. ff (frames s P) ob i = Some f)}"
proof -
  note D = vm_invD [OF inv]
  note F = fm_invD [OF D(9)]
  have k: "distinct (map fst (vo_pages x))" using D(10) x by (auto simp: keys_ok_def)
  have mem: "(i, p) \<in> set (vo_pages x) \<longleftrightarrow> page_find s ob i = Some p" for i p using k x by (simp add: page_find_def)
  have ff: "ff (frames s P) ob i = Some f \<longleftrightarrow> (\<exists>p. (i, p) \<in> set (vo_pages x) \<and> pg_phys p = f)" for i f by (auto simp: ff_Some mem)
  have set: "set (page_frames ps) = {f. f \<noteq> 0 \<and> (\<exists>i \<in> I. ff (frames s P) ob i = Some f)}"
    unfolding ff page_frames_def ps by (auto simp: image_iff)
  then show "set (rev (page_frames ps) @ vm_frames s) = set (fr (frames s P)) \<union> {f. f \<noteq> 0 \<and> (\<exists>i \<in> I. ff (frames s P) ob i = Some f)}" by auto
  have "distinct (page_frames qs)" if "distinct (map fst qs)" "set qs \<subseteq> set (vo_pages x)" for qs
    using that
  proof (induction qs)
    case (Cons q qs)
    obtain i p where q: "q = (i, p)" by fastforce
    have "pg_phys p \<notin> set (page_frames qs)" if "pg_phys p \<noteq> 0"
    proof
      assume "pg_phys p \<in> set (page_frames qs)"
      then obtain j r where r: "(j, r) \<in> set qs" "pg_phys r = pg_phys p" by (auto simp: page_frames_def)
      then have "i = j" using F(6) [of ob i "pg_phys p" ob j] Cons.prems q that unfolding ff by (metis list.set_intros(1) set_subset_Cons subset_eq)
      then show False using Cons.prems(1) r(1) q by (force simp: image_iff)
    qed
    moreover have "page_frames (q # qs) = (if pg_phys p \<noteq> 0 then pg_phys p # page_frames qs else page_frames qs)" by (simp add: q page_frames_def)
    ultimately show ?case using Cons by auto
  qed (simp add: page_frames_def)
  then have "distinct (page_frames ps)" using distinct_map_filter [OF k] unfolding ps by (metis filter_is_subset)
  then show "distinct (rev (page_frames ps) @ vm_frames s)" using F(4,5) set by auto
qed

lemma vmo_put_inv:
  assumes inv: "vm_inv s (add_mset (PHold ob) P)"
  shows "vm_inv (vmo_put ob s) P"
proof -
  note D = vm_invD [OF inv]
  have ho: "holders (vm_vmas s) (add_mset (PHold ob) P) ob = holders (vm_vmas s) P ob + 1" by simp
  then obtain x where x: "vm_objs s ob = Some x" "vo_refs x = holders (vm_vmas s) P ob + 1"
    using D(5) [of ob] by (auto simp: obj_ok_def split: option.splits)
  have sl: "vm_ok (vmo_put ob s)" using vm_ok_same_list [OF same_list_prim(9)] D(1) by blast
  have op: "obj_ok (vm_vmas s) P o1 (vm_objs s o1)" if "o1 \<noteq> ob" for o1 using D(5) [of o1] that by (auto simp: obj_ok_def split: option.splits)
  have g: "gone_at (add_mset (PHold ob) P) = gone_at P" by (simp add: gone_at_same)
  show ?thesis
  proof (cases "vo_refs x > 1")
    case True
    let ?s = "upd_obj ob (\<lambda>x. x\<lparr>vo_refs := vo_refs x - Suc 0\<rparr>) s"
    have s': "vmo_put ob s = ?s" using x True by (simp add: vmo_put_def)
    have eq: "obj_anon ?s = obj_anon s" "obj_mapper ?s = obj_mapper s" "page_find ?s = page_find s"
      by (auto simp: upd_obj_def obj_anon_def obj_mapper_def page_find_def fun_eq_iff split: option.split)
    have "frames ?s P = frames s (add_mset (PHold ob) P)" by (rule fm.equality) (simp_all add: eq g fun_eq_iff)
    then have "fm_inv (frames ?s P)" using D(9) by simp
    moreover have "obj_ok (vm_vmas s) P o1 (vm_objs ?s o1)" for o1 using op [of o1] x True by (auto simp: obj_ok_def upd_obj_def)
    moreover have "pend_ok ?s p" if "p \<in># P" for p
      using that D(7) [of p] x True by (cases p) (auto simp: upd_obj_def split: option.splits)
    moreover have "keys_ok ?s" by (rule keys_ok_upd [OF D(10)]) simp
    moreover have "vm_objs ?s o1 = None" if "vm_next s \<le> o1" for o1 using D(6) [OF that] by (auto simp: upd_obj_def)
    ultimately show ?thesis using sl D(3,4,8) unfolding s' vm_inv_def by (simp add: place_ok_def eq)
  next
    case False
    then have h: "holders (vm_vmas s) P ob = 0" using x(2) by simp
    let ?F = "rev (page_frames (vo_pages x)) @ vm_frames s"
    let ?s = "s\<lparr>vm_objs := (vm_objs s)(ob := None), vm_frames := ?F\<rparr>"
    have s': "vmo_put ob s = ?s" using x False by (simp add: vmo_put_def)
    let ?m = "frames s (add_mset (PHold ob) P)"
    have nosl: "slot_at (vm_vmas s) va \<noteq> Some (ob, i)" for va i using slot_holds [OF D(2), of va ob i P] h by auto
    have nows: "(ob, i, ph) \<notin># wires P" for i ph using wires_hold [of ob i ph P] holders_pend [of _ P ob "vm_vmas s"] h by auto
    have all: "vo_pages x = filter (\<lambda>(i, p). i \<in> UNIV) (vo_pages x)" by simp
    note pb = page_frames_back [OF inv x(1) all]
    let ?m1 = "?m\<lparr>pg := (pg ?m)(ob := (\<lambda>_. None)), fr := ?F\<rparr>"
    have m1: "fm_inv ?m1"
    proof (rule fm_evict [OF D(9), of UNIV ob "\<lambda>_. None"])
      show "mapped ?m ob i = {} \<and> (live ?m ob i \<longrightarrow> flying ?m ob i = 0)" for i using nosl nows by (simp add: mapped_def flying_zero)
    qed (use pb in auto)
    have out: "obj_anon ?s o1 = obj_anon s o1 \<and> obj_mapper ?s o1 = obj_mapper s o1 \<and> page_find ?s o1 = page_find s o1" if "o1 \<noteq> ob" for o1
      using that by (simp add: obj_anon_def obj_mapper_def page_find_def fun_eq_iff)
    have "fm_inv (?m1\<lparr>an := obj_anon ?s, mp := obj_mapper ?s\<rparr>)"
      by (rule fm_objects [OF m1, of ob]) (use out nosl nows in auto)
    moreover have "frames ?s P = ?m1\<lparr>an := obj_anon ?s, mp := obj_mapper ?s\<rparr>"
      using out by (intro fm.equality) (auto simp: g fun_eq_iff page_find_def)
    moreover have "obj_ok (vm_vmas s) P o1 (vm_objs ?s o1)" for o1 using op [of o1] h by (auto simp: obj_ok_def)
    moreover have "pend_ok ?s p" if p: "p \<in># P" for p
    proof -
      have "phold p \<noteq> Some ob" using holders_pend [OF p, of ob "vm_vmas s"] h by auto
      then show ?thesis using D(7) [of p] p by (cases p) (auto split: option.splits)
    qed
    moreover have "place_ok ?s v" if v: "v \<in> set (vm_vmas s)" for v
    proof -
      have "va_obj v \<noteq> Some ob" using holders_area [OF v, of ob P] h by auto
      then show ?thesis using D(3) [OF v] out unfolding place_ok_def by (metis option.sel)
    qed
    moreover have "keys_ok ?s" using D(10) by (auto simp: keys_ok_def)
    ultimately show ?thesis using sl D(3,4,6,8) unfolding s' vm_inv_def by simp
  qed
qed

section \<open>Faults\<close>

lemma pend_object: "vm_inv s P \<Longrightarrow> p \<in># P \<Longrightarrow> phold p = Some ob \<Longrightarrow> vm_objs s ob \<noteq> None"
  using vm_invD(5) [of s P ob] holders_pend [of p P ob "vm_vmas s"] by (auto simp: obj_ok_def split: option.splits)

lemma area_object:
  assumes inv: "vm_inv s P" and v: "v \<in> set (vm_vmas s)" "va_obj v = Some ob"
  shows "vm_objs s ob \<noteq> None" "PMap start len prot fl ob \<notin># P"
proof -
  have a: "0 < size (filter_mset (\<lambda>v. va_obj v = Some ob) (mset (vm_vmas s)))" using v by (auto simp: nonempty_has_size [symmetric] filter_mset_eq_mempty_iff)
  show "vm_objs s ob \<noteq> None" using vm_invD(5) [OF inv, of ob] holders_area [OF v, of P] by (auto simp: obj_ok_def split: option.splits)
  show "PMap start len prot fl ob \<notin># P"
  proof
    assume m: "PMap start len prot fl ob \<in># P"
    then have "0 < size (filter_mset (\<lambda>p. phold p = Some ob) P)" by (force simp: nonempty_has_size [symmetric] filter_mset_eq_mempty_iff)
    then have "1 < holders (vm_vmas s) P ob" using a unfolding holders_def by linarith
    then show False using vm_invD(5) [OF inv, of ob] vm_invD(7) [OF inv m] by (auto simp: obj_ok_def split: option.splits)
  qed
qed

lemma fault_begin_inv:
  assumes inv: "vm_inv s P" and dvd: "PAGE_SIZE dvd page" and r: "vm_fault_begin page wr ex s = (n, s')"
  shows "case n of
      FDecline \<Rightarrow> s' = s
    | FRetry \<Rightarrow> s' = s
    | FCow ob i already \<Rightarrow> vm_inv s' (add_mset (PCow page ob i already) P)
    | FWire ob i fl \<Rightarrow> vm_inv s' (add_mset (PWire page ob i fl) P)"
proof -
  note D = vm_invD [OF inv]
  have ref: "vm_inv (vmo_ref ob s) (add_mset p P)"
    if "vma_find (vm_vmas s) page = Some v" "va_obj v = Some ob" "phold p = Some ob" "pwire p = {#}" "pgone p = []" "pchain p = {#}" "pend_ok (vmo_ref ob s) p" for v ob p
  proof -
    have v: "v \<in> set (vm_vmas s)" using that(1) unfolding vma_find_iff [OF D(2)] by blast
    show ?thesis by (rule vm_inv_swap [OF vmo_ref_inv [OF inv area_object [OF inv v that(2)]]]) (simp_all add: that)
  qed
  show ?thesis
  proof (cases n)
    case (FCow ob i already)
    then obtain v where v: "vma_find (vm_vmas s) page = Some v" "va_obj v = Some ob" "already \<noteq> 0" "\<not> obj_anon s ob" "s' = vmo_ref ob s"
      using r unfolding vm_fault_begin_def by (auto simp: Let_def split: option.splits if_splits)
    have "v \<in> set (vm_vmas s)" using v(1) unfolding vma_find_iff [OF D(2)] by blast
    then have "vm_objs s ob \<noteq> None" using area_object(1) [OF inv _ v(2)] by blast
    then have "pend_ok (vmo_ref ob s) (PCow page ob i already)"
      using v dvd by (auto simp: vmo_ref_def upd_obj_def obj_anon_def split: option.splits)
    then show ?thesis using ref [OF v(1,2), of "PCow page ob i already"] FCow v(5) by simp
  next
    case (FWire ob i fl)
    then obtain v where v: "vma_find (vm_vmas s) page = Some v" "va_obj v = Some ob" "s' = vmo_ref ob s"
      using r unfolding vm_fault_begin_def by (auto simp: Let_def split: option.splits if_splits)
    then show ?thesis using ref [OF v(1,2), of "PWire page ob i fl"] FWire dvd by simp
  qed (use r in \<open>auto simp: vm_fault_begin_def Let_def split: option.splits if_splits\<close>)
qed

lemma wire_inv:
  assumes inv: "vm_inv s (add_mset (PWire page ob i fl) P)" and r: "vmo_wire_page ob i io s = (ph, s')"
  shows "vm_inv s' (add_mset (PWired page ob i fl ph) P)"
proof -
  have dvd: "PAGE_SIZE dvd page" using vm_invD(7) [OF inv, of "PWire page ob i fl"] by simp
  have ob: "vm_objs s ob \<noteq> None" by (rule pend_object [OF inv, of "PWire page ob i fl"]) simp_all
  obtain b s1 where g: "page_get ob i io s = (b, s1)" by fastforce
  note G = page_get_inv [OF inv ob g]
  have hold: "vm_inv s1 (add_mset (PHold ob) P)" by (rule vm_inv_swap [of _ "PWire page ob i fl"]) (use G in simp_all)
  show ?thesis
  proof (cases b)
    case True
    then have "ph \<noteq> 0" "vmo_page_phys s1 ob i = ph" "s' = upd_page ob i (\<lambda>p. p\<lparr>pg_wired := pg_wired p + 1\<rparr>) s1"
      using r g G by (auto simp: vmo_wire_page_def)
    then show ?thesis using vm_inv_wire [OF hold _ _ dvd, of i ph fl] by simp
  next
    case False
    then have "ph = 0" "s' = s1" using r g by (auto simp: vmo_wire_page_def)
    then show ?thesis by (auto intro: vm_inv_swap [OF hold] simp: dvd)
  qed
qed

lemma unwire_inv:
  assumes "vm_inv s (add_mset (PUnwire ob i ph) P)"
  shows "vm_inv (vmo_unwire_page ob i s) (add_mset (PHold ob) P)"
proof -
  have "ph \<noteq> 0" using vm_invD(7) [OF assms, of "PUnwire ob i ph"] by simp
  then show ?thesis using vm_inv_unwire [of s 0 ob i 0 ph P] vm_inv_swap [OF assms, of "PWired 0 ob i 0 ph"] by simp
qed

lemma wired_hold: "vm_inv s (add_mset (PWired page ob i fl 0) P) \<Longrightarrow> vm_inv s (add_mset (PHold ob) P)"
  by (erule vm_inv_swap) simp_all

lemma wired_unwire: "vm_inv s (add_mset (PWired page ob i fl ph) P) \<Longrightarrow> ph \<noteq> 0 \<Longrightarrow> vm_inv s (add_mset (PUnwire ob i ph) P)"
  by (erule vm_inv_swap) simp_all

lemma vm_inv_dirty:
  assumes inv: "vm_inv s P"
  shows "vm_inv (vmo_mark_dirty ob i s) P"
proof (rule vm_inv_pages [OF inv])
  let ?s = "vmo_mark_dirty ob i s" and ?m = "frames s P"
  note D = vm_invD [OF inv]
  define h where "h = (\<lambda>p :: vmo_page. p\<lparr>pg_dirty := True\<rparr>)"
  have "frames ?s P = ?m\<lparr>pg := (pg ?m)(ob := (pg ?m ob)(i := map_option h (pg ?m ob i)))\<rparr>"
    by (rule fm.equality) (auto simp: vmo_mark_dirty_def fun_eq_iff h_def)
  moreover have "fm_inv (?m\<lparr>pg := (pg ?m)(ob := (pg ?m ob)(i := map_option h (pg ?m ob i)))\<rparr>)" (is "fm_inv ?n")
  proof -
    have f: "ff ?n = ff ?m" by (auto simp: ff_def fun_eq_iff h_def option.map_comp comp_def)
    have e: "mapped ?n = mapped ?m" "flying ?n = flying ?m" "live ?n = live ?m" "own_copy ?n = own_copy ?m"
      unfolding mapped_def own_copy_def f by (simp_all add: flying_def live_def fun_eq_iff)
    show ?thesis
    proof (rule fm_invI)
      show "pg_wired q \<le> card (mapped ?n o1 j) + flying ?n o1 j \<and> (live ?n o1 j \<longrightarrow> pg_wired q = card (mapped ?n o1 j) + flying ?n o1 j)"
        if "pg ?n o1 j = Some q" for o1 j q
        using that fm_invD(8) [OF D(9), of o1 j] unfolding e by (auto simp: h_def split: if_splits)
    qed (unfold f e, (use fm_invD [OF D(9)] in \<open>simp; blast\<close>)+)
  qed
  ultimately show "fm_inv (frames ?s P)" by simp
qed (use vm_invD [OF inv] in \<open>simp_all add: vmo_mark_dirty_def\<close>)

lemma dirty_inv: "vm_inv s (add_mset (PDirty ob i) P) \<Longrightarrow> vm_inv (vmo_mark_dirty ob i s) (add_mset (PHold ob) P)"
  by (rule vm_inv_swap [of _ "PDirty ob i"]) (simp_all add: vm_inv_dirty)

text \<open>What is left to do for a fault after its second section.\<close>

definition fault_left :: "nat \<Rightarrow> nat \<Rightarrow> nat \<Rightarrow> bool \<Rightarrow> bool \<Rightarrow> pending" where
  "fault_left ob i phys entered mark_dirty =
     (if phys \<noteq> 0 \<and> \<not> entered then PUnwire ob i phys else if mark_dirty then PDirty ob i else PHold ob)"

lemma fault_enter_inv:
  assumes inv: "vm_inv s (add_mset (PWired page ob i fl ph) P)" and r: "vm_fault_enter page ob i fl ph s = ((entered, retry, dirty), s')"
  shows "vm_inv s' (add_mset (fault_left ob i ph entered dirty) P)"
proof -
  have out: "vm_inv t (add_mset (fault_left ob i ph False False) P)" if "vm_inv t (add_mset (PWired page ob i fl ph) P)" for t
    using that wired_hold wired_unwire by (cases "ph = 0") (auto simp: fault_left_def)
  show ?thesis
  proof (cases "fault_same page ob i s")
    case None
    then show ?thesis using r out [OF inv] by (auto simp: vm_fault_enter_def)
  next
    case (Some v)
    let ?eff = "if has fl MAP_PRIVATE \<and> \<not> obj_anon s ob then va_prot v AND NOT PROT_WRITE else va_prot v"
    obtain ok s1 where m: "vmm_map_in page ph (prot_to_vmm ?eff) s = (ok, s1)" by fastforce
    consider "vmm_get_phys_in s page \<noteq> 0 \<or> ph = 0" | "vmm_get_phys_in s page = 0" "ph \<noteq> 0" "\<not> ok" | "vmm_get_phys_in s page = 0" "ph \<noteq> 0" ok by blast
    then show ?thesis
    proof cases
      case 1
      then show ?thesis using r Some out [OF inv] by (auto simp: vm_fault_enter_def split: if_splits)
    next
      case 2
      have "s1 = s\<lparr>vm_mem := tl (vm_mem s)\<rparr>" using m 2 by (auto simp: vmm_map_in_def split: prod.splits if_splits dest: take_mem_state)
      then have "vm_inv s1 (add_mset (PWired page ob i fl ph) P)" using inv by simp
      moreover have "s' = s1" "\<not> entered" "\<not> dirty" using r Some m 2 by (simp_all add: vm_fault_enter_def Let_def split: prod.splits)
      ultimately show ?thesis using out by simp
    next
      case 3
      let ?t = "s\<lparr>vm_mem := tl (vm_mem s)\<rparr>"
      define g where "g = prot_to_vmm ?eff"
      have s1: "s1 = ?t\<lparr>vm_pt := (vm_pt ?t)(page \<mapsto> (ph, g))\<rparr>"
        using m 3 unfolding g_def by (auto simp: vmm_map_in_def split: prod.splits if_splits dest!: take_mem_state)
      have g: "perm_ok g (va_prot v)" unfolding g_def using perm_ok_mask(2) [of "va_prot v"] by simp
      have t: "vm_inv ?t (add_mset (PWired page ob i fl ph) P)" "fault_same page ob i ?t = Some v" "vmm_get_phys_in ?t page = 0"
        using inv Some 3(1) by (simp_all add: fault_same_def vmm_get_phys_in_def)
      note vm_inv_enter [OF t(1) 3(2) t(2,3) g]
      then have "vm_inv s1 (add_mset (PHold ob) P)" unfolding s1 .
      then have "vm_inv s1 (add_mset (PHold ob) P)" "vm_inv s1 (add_mset (PDirty ob i) P)" by (auto intro: vm_inv_swap)
      moreover have "s' = s1" "entered" using r Some m 3 by (simp_all add: vm_fault_enter_def Let_def split: prod.splits)
      ultimately show ?thesis by (simp add: fault_left_def)
    qed
  qed
qed

text \<open>A pin that is there can be taken away and given back.\<close>

lemma rewire:
  assumes "keys_ok s" "page_find s ob i = Some p" "0 < pg_wired p"
  shows "upd_page ob i (\<lambda>p. p\<lparr>pg_wired := pg_wired p + 1\<rparr>) (vmo_unwire_page ob i s) = s"
proof -
  define f where "f = (\<lambda>p :: vmo_page. p\<lparr>pg_wired := pg_wired p + 1\<rparr>)"
  define g where "g = (\<lambda>p :: vmo_page. p\<lparr>pg_wired := pg_wired p - 1\<rparr>)"
  obtain x where x: "vm_objs s ob = Some x" "map_of (vo_pages x) i = Some p" using assms(2) by (auto simp: page_find_def split: option.splits)
  have "distinct (map fst (vo_pages x))" using assms(1) x(1) by (auto simp: keys_ok_def)
  then have "q = p" if "(i, q) \<in> set (vo_pages x)" for q using that x(2) by (auto simp: map_of_eq_Some_iff)
  moreover have "f (g p) = p" using assms(3) by (simp add: f_def g_def)
  ultimately have e: "map ((\<lambda>(j, p). (j, if j = i then f p else p)) \<circ> (\<lambda>(j, p). (j, if j = i then g p else p))) (vo_pages x) = vo_pages x"
    by (intro map_idI) auto
  have "upd_page ob i f (upd_page ob i g s) = s" using x(1) by (simp add: upd_page_def upd_obj_def e fun_upd_idem)
  then show ?thesis by (simp add: f_def g_def vmo_unwire_page_def)
qed

lemma cow_pinned:
  assumes inv: "vm_inv s P" and sl: "slot_at (vm_vmas s) va = Some (ob, i)" and pt: "vm_pt s va = Some (f, g)"
    and f: "f = vmo_page_phys s ob i" "f \<noteq> 0" "\<not> obj_anon s ob"
  obtains p where "page_find s ob i = Some p" "0 < pg_wired p"
proof -
  note D = vm_invD [OF inv]
  let ?m = "frames s P"
  obtain p where p: "page_find s ob i = Some p" "pg_phys p = f" using f(1,2) by (auto simp: vmo_page_phys_def split: option.splits)
  have "va \<in> mapped ?m ob i" using sl pt p by (simp add: mapped_def ff_def)
  then have "0 < card (mapped ?m ob i)" using mapped_finite [OF D(9), of ob i] by (auto simp: card_gt_0_iff)
  moreover have "live ?m ob i" using f(3) by (simp add: live_def)
  ultimately show thesis using that [OF p(1)] fm_invD(8) [OF D(9), of ob i p] p(1) by simp
qed

lemma fault_copy_inv:
  assumes inv: "vm_inv s (add_mset (PCow page ob i already) P)"
    and r: "vm_fault_copy page ob i already (vmo_page_phys s ob i) s = ((copied, ret), s')"
  shows "vm_inv s' (add_mset (if copied then PUnwire ob i already else PHold ob) P)"
proof -
  note D = vm_invD [OF inv]
  have pend: "PAGE_SIZE dvd page" "already \<noteq> 0" "\<not> obj_anon s ob"
    using D(7) [of "PCow page ob i already"] by (auto simp: obj_anon_def split: option.splits)
  have hold: "vm_inv t (add_mset (PHold ob) P)" if "vm_inv t (add_mset (PCow page ob i already) P)" for t
    by (rule vm_inv_swap [OF that]) simp_all
  show ?thesis
  proof (cases "fault_same page ob i s")
    case None
    then show ?thesis using r hold [OF inv] by (auto simp: vm_fault_copy_def)
  next
    case (Some v)
    note S = fault_same_slot [OF inv Some pend(1)]
    let ?g = "prot_to_vmm (va_prot v)"
    obtain c s1 where t: "pmm_take s = (c, s1)" by fastforce
    consider "vmm_get_phys_in s page \<noteq> already" | "vmm_get_phys_in s page = already" "already \<noteq> vmo_page_phys s ob i"
      | "vmm_get_phys_in s page = already" "already = vmo_page_phys s ob i" "c = 0" | "vmm_get_phys_in s page = already" "already = vmo_page_phys s ob i" "c \<noteq> 0" by blast
    then show ?thesis
    proof cases
      case 1
      then show ?thesis using r Some hold [OF inv] by (auto simp: vm_fault_copy_def)
    next
      case 2
      then show ?thesis using r Some hold [OF vm_inv_protect [OF inv S(1,2) perm_ok_prot]] by (auto simp: vm_fault_copy_def)
    next
      case 3
      then have "s1 = s" using pmm_take_none [OF inv] t by blast
      then show ?thesis using r Some hold [OF inv] 3 t by (auto simp: vm_fault_copy_def)
    next
      case 4
      obtain fs where fs: "vm_frames s = c # fs" "s1 = s\<lparr>vm_frames := fs\<rparr>" by (rule pmm_take_some [OF t 4(3)])
      obtain ok s2 where m: "vmm_map_in page c ?g s1 = (ok, s2)" by fastforce
      show ?thesis
      proof (cases ok)
        case False
        then have "s2 = s1\<lparr>vm_mem := tl (vm_mem s)\<rparr>" using m fs by (auto simp: vmm_map_in_def split: prod.splits if_splits dest: take_mem_state)
        then have "pmm_give c s2 = s\<lparr>vm_mem := tl (vm_mem s)\<rparr>" using fs frames_restore [of s "c # fs"] by (simp add: pmm_give_def)
        moreover have "s' = pmm_give c s2" "\<not> copied" using r Some 4 t m False by (simp_all add: vm_fault_copy_def)
        ultimately show ?thesis using hold [of "s\<lparr>vm_mem := tl (vm_mem s)\<rparr>"] inv by simp
      next
        case True
        let ?u = "s\<lparr>vm_frames := fs, vm_mem := tl (vm_mem s), vm_pt := (vm_pt s)(page \<mapsto> (c, ?g))\<rparr>"
        have s2: "s2 = ?u" using m True fs(2) by (auto simp: vmm_map_in_def split: prod.splits if_splits dest!: take_mem_state)
        have s': "s' = ?u" "copied" using r Some 4 t m True s2 by (simp_all add: vm_fault_copy_def)
        obtain g0 where pt: "vm_pt s page = Some (already, g0)" using 4(1) pend(2) by (auto simp: vmm_get_phys_in_def split: option.splits)
        have u: "same_objs s ?u" "same_list s ?u" "keys_ok ?u" "page_find ?u = page_find s"
          using D(10) by (simp_all add: same_objs_def same_list_def)
        have "vm_inv (vmo_unwire_page ob i ?u) (add_mset (PCow page ob i already) P)"
          by (rule vm_inv_change [OF inv S(4) pt, where e = "Some (c, ?g)"])
            (use 4(2) fs(1) pend(3) S(1,2) u same_objs_trans [OF u(1) same_objs_prim(1)] same_list_trans [OF u(2) same_list_prim(5)] in
              \<open>auto simp: vmo_unwire_page_def\<close>)
        note un = hold [OF this]
        obtain p where p: "page_find s ob i = Some p" "0 < pg_wired p" by (rule cow_pinned [OF inv S(4) pt 4(2) pend(2,3)])
        have "vmo_page_phys (vmo_unwire_page ob i ?u) ob i = already" using 4(2) p(1) by (simp add: vmo_page_phys_def vmo_unwire_page_def)
        from vm_inv_wire [OF un this pend(2), of 0 0] have "vm_inv ?u (add_mset (PWired 0 ob i 0 already) P)"
          using rewire [of ?u ob i p] u(3,4) p by simp
        then show ?thesis using s' wired_unwire pend(2) by simp
      qed
    qed
  qed
qed

section \<open>The reclaimer\<close>

lemma vm_inv_evict:
  assumes inv: "vm_inv s P" and ff: "vmo_page_phys s ob i = f" "f \<noteq> 0"
    and un: "mapped (frames s P) ob i = {}" "live (frames s P) ob i \<Longrightarrow> flying (frames s P) ob i = 0"
    and s': "vm_frames s' = f # vm_frames s" "vm_pt s' = vm_pt s" "same_list s s'" "same_objs s s'" "keys_ok s'"
      "\<And>o1 j. page_find s' o1 j = (if o1 = ob \<and> j = i then q else page_find s o1 j)"
    and q: "\<And>p'. q = Some p' \<Longrightarrow> obj_anon s ob \<and> pg_phys p' = 0 \<and> (\<exists>p. page_find s ob i = Some p \<and> pg_wired p' \<le> pg_wired p)"
  shows "vm_inv s' P"
proof (rule vm_inv_pages [OF inv s'(3,4) _ s'(5)])
  note D = vm_invD [OF inv]
  let ?m = "frames s P"
  have f: "ff ?m ob i = Some f" using ff by (auto simp: ff_def vmo_page_phys_def split: option.splits)
  have nfr: "f \<notin> set (vm_frames s)" using fm_invD(5) [OF D(9) f] by simp
  have "fm_inv (?m\<lparr>pg := (pg ?m)(ob := (pg ?m ob)(i := q)), fr := f # vm_frames s\<rparr>)"
    by (rule fm_evict [OF D(9), of "{i}"]) (use un q f nfr fm_invD(4) [OF D(9)] ff(2) in \<open>auto split: if_splits\<close>)
  moreover have "frames s' P = ?m\<lparr>pg := (pg ?m)(ob := (pg ?m ob)(i := q)), fr := f # vm_frames s\<rparr>"
    using s'(3,4) by (intro fm.equality) (auto simp: fun_eq_iff s'(1,2,6) same_list_def same_objs_eqs)
  ultimately show "fm_inv (frames s' P)" by simp
qed (use vm_invD [OF inv] s'(2) in simp_all)

lemma reclaim_file_inv:
  assumes inv: "vm_inv s P"
  shows "vm_inv (reclaim_file_page ob i s) P"
proof (cases "reclaim_file_page ob i s = s")
  case False
  note D = vm_invD [OF inv]
  let ?g = "\<lambda>x. x\<lparr>vo_pages := AList.delete i (vo_pages x)\<rparr>"
  obtain x p where x: "vm_objs s ob = Some x" "page_find s ob i = Some p" "\<not> vo_anon x" "pg_wired p = 0"
    and s': "reclaim_file_page ob i s = pmm_give (pg_phys p) (upd_obj ob ?g s)"
    using False by (auto simp: reclaim_file_page_def split: option.splits if_splits)
  have an: "\<not> obj_anon s ob" using x by (simp add: obj_anon_def)
  have f0: "pg_phys p \<noteq> 0" using fm_invD(5) [OF D(9), of ob i "pg_phys p"] x an by (simp add: ff_def)
  have "live (frames s P) ob i" using an by (simp add: live_def)
  then have w: "card (mapped (frames s P) ob i) = 0" "flying (frames s P) ob i = 0" using fm_invD(8) [OF D(9), of ob i p] x by auto
  have so: "same_objs s (upd_obj ob ?g s)" by (rule same_objs_upd) (simp add: okey_def)
  have k: "keys_ok (upd_obj ob ?g s)" by (rule keys_ok_upd [OF D(10)]) (simp add: distinct_delete)
  show ?thesis unfolding s'
  proof (rule vm_inv_evict [OF inv, of ob i "pg_phys p" _ None])
    show "page_find (pmm_give (pg_phys p) (upd_obj ob ?g s)) o1 j = (if o1 = ob \<and> j = i then None else page_find s o1 j)" for o1 j
      unfolding pmm_give_def page_find_fields page_find_upd_obj using x(1) by (auto simp: delete_conv' page_find_def)
    show "same_objs s (pmm_give (pg_phys p) (upd_obj ob ?g s))" using so by (simp add: same_objs_def pmm_give_def)
    show "same_list s (pmm_give (pg_phys p) (upd_obj ob ?g s))" by (rule same_list_trans [OF same_list_prim(4) same_list_prim(1)])
  qed (use x(2) f0 w mapped_finite [OF D(9)] k in \<open>simp_all add: vmo_page_phys_def pmm_give_def\<close>)
qed (simp add: inv)

lemma reclaim_take_inv:
  assumes inv: "vm_inv s P" and r: "reclaim_take ob i s = Some s1"
  shows "vm_inv s1 P \<and> obj_anon s1 ob \<and> (\<exists>p. page_find s1 ob i = Some p \<and> pg_wired p = 0 \<and> pg_phys p \<noteq> 0)"
proof -
  note D = vm_invD [OF inv]
  obtain x p where x: "vm_objs s ob = Some x" "page_find s ob i = Some p" "vo_anon x" "pg_phys p \<noteq> 0"
    using r by (auto simp: reclaim_take_def split: option.splits if_splits)
  have an: "obj_anon s ob" using x by (simp add: obj_anon_def)
  show ?thesis
  proof (cases "pg_wired p = 0")
    case True
    then show ?thesis using r x inv an by (simp add: reclaim_take_def)
  next
    case False
    let ?h = "\<lambda>p. p\<lparr>pg_wired := 0\<rparr>"
    obtain base where b: "vo_mapper x = Some base" "pg_wired p = 1" "vmm_get_phys_in s (base + i * PAGE_SIZE) = pg_phys p"
        "s1 = upd_page ob i ?h (vmm_unmap_in (base + i * PAGE_SIZE) s)"
      using r x False by (auto simp: reclaim_take_def split: option.splits if_splits)
    let ?va = "base + i * PAGE_SIZE" let ?u = "vmm_unmap_in ?va s"
    obtain g where pt: "vm_pt s ?va = Some (pg_phys p, g)" using b(3) x(4) by (auto simp: vmm_get_phys_in_def split: option.splits)
    have "ff (frames s P) ob i = Some (pg_phys p)" using x(2) by (simp add: ff_def)
    then have sl: "slot_at (vm_vmas s) ?va = Some (ob, i)" using fm_entry_page(1) [OF D(9), of ?va "pg_phys p" ob i] pt by simp
    have ph: "vmo_page_phys s ob i = pg_phys p" using x(2) by (simp add: vmo_page_phys_def)
    have u: "page_find ?u = page_find s" "same_objs s ?u" "keys_ok ?u" "vm_frames ?u = vm_frames s" "vm_pt ?u = (vm_pt s)(?va := None)" "obj_anon ?u = obj_anon s"
      using D(10) by (simp_all add: vmm_unmap_in_def)
    have "vm_inv s1 P" unfolding b(4)
      by (rule vm_inv_change [OF inv sl pt, where e = None])
        (use u ph x(2) b(2) same_objs_trans [OF u(2) same_objs_prim(1)] same_list_trans [OF same_list_prim(2) same_list_prim(5)] in auto)
    then show ?thesis using x u an by (simp add: b(4))
  qed
qed

lemma reclaim_anon_inv:
  assumes inv: "vm_inv s P"
  shows "vm_inv (reclaim_anon_page ob i slot s) P"
proof (cases "reclaim_take ob i s")
  case None then show ?thesis using inv by (simp add: reclaim_anon_page_def)
next
  case (Some s1)
  from reclaim_take_inv [OF inv Some] obtain p where t: "vm_inv s1 P" "obj_anon s1 ob" "page_find s1 ob i = Some p" "pg_wired p = 0" "pg_phys p \<noteq> 0" by blast
  note D = vm_invD [OF t(1)]
  let ?m = "frames s1 P" and ?h = "\<lambda>p. p\<lparr>pg_phys := 0, pg_slot := slot\<rparr>"
  have w: "live ?m ob i \<Longrightarrow> card (mapped ?m ob i) + flying ?m ob i = 0" using fm_invD(8) [OF D(9), of ob i p] t by simp
  have un: "mapped ?m ob i = {}" using w not_live_unmapped [OF D(9)] mapped_finite [OF D(9)] by (cases "live ?m ob i") auto
  show ?thesis
  proof (cases "slot = 0")
    case True then show ?thesis using t Some by (simp add: reclaim_anon_page_def anon_out_def)
  next
    case False
    have s': "reclaim_anon_page ob i slot s = pmm_give (pg_phys p) (upd_page ob i ?h s1)"
      using Some False t(3) by (simp add: reclaim_anon_page_def anon_out_def vmo_page_phys_def)
    show ?thesis unfolding s'
    proof (rule vm_inv_evict [OF t(1), of ob i "pg_phys p" _ "Some (?h p)"])
      show "same_objs s1 (pmm_give (pg_phys p) (upd_page ob i ?h s1))"
        unfolding pmm_give_def by (rule same_objs_trans [OF same_objs_prim(1) same_objs_prim(3)])
      show "same_list s1 (pmm_give (pg_phys p) (upd_page ob i ?h s1))" by (rule same_list_trans [OF same_list_prim(5) same_list_prim(1)])
    qed (use t un w D(10) in \<open>auto simp: vmo_page_phys_def pmm_give_def\<close>)
  qed
qed

section \<open>The list\<close>

lemma vm_inv_list:
  assumes inv: "vm_inv s P" and s': "vm_objs s' = vm_objs s" "vm_next s' = vm_next s" "layout_ok s' = layout_ok s"
    and ok: "vmas_ok (vm_vmas s')" and areas: "\<And>v. v \<in> set (vm_vmas s') \<Longrightarrow> \<not> wx (va_prot v) \<and> place_ok s v"
    and dying: "filter_mset is_dying (mset (vm_vmas s')) = chains P'" and hold: "\<And>ob. holders (vm_vmas s') P' ob = holders (vm_vmas s) P ob"
    and pend: "\<And>p. p \<in># P' \<Longrightarrow> p \<in># P \<or> pend_ok s p"
    and pt: "\<And>va f fl. vm_pt s' va = Some (f, fl) \<Longrightarrow> \<exists>v \<in> set (vm_vmas s'). contains v va \<and> perm_ok fl (va_prot v)"
    and fm: "fm_inv (frames s' P')"
  shows "vm_inv s' P'"
proof -
  note D = vm_invD [OF inv]
  have so: "same_objs s s'" using s' by (simp add: same_objs_def)
  have "obj_ok (vm_vmas s') P' ob (vm_objs s' ob)" for ob using D(5) [of ob] unfolding s' obj_ok_def hold .
  moreover have "pend_ok s' p" if "p \<in># P'" for p using pend [OF that] D(7) pend_ok_same [OF so] by blast
  moreover have "place_ok s' v" if "v \<in> set (vm_vmas s')" for v using areas [OF that] place_ok_same [OF so] by blast
  ultimately show ?thesis unfolding vm_inv_def using D(1,6,10) areas ok dying pt fm s' by (simp add: vm_ok_def keys_ok_def)
qed

lemma slot_at_eqI:
  assumes "vmas_ok vs" "vmas_ok vs'"
    "\<And>va ob i. PAGE_SIZE dvd va \<Longrightarrow> (\<exists>v \<in> set vs'. contains v va \<and> va_obj v = Some ob \<and> i = page_index v va) \<longleftrightarrow>
      (\<exists>v \<in> set vs. contains v va \<and> va_obj v = Some ob \<and> i = page_index v va)"
  shows "slot_at vs' = slot_at vs"
proof
  fix va
  have "slot_at vs' va = Some (ob, i) \<longleftrightarrow> slot_at vs va = Some (ob, i)" for ob i
    unfolding slot_at_iff [OF assms(1)] slot_at_iff [OF assms(2)] using assms(3) by blast
  then show "slot_at vs' va = slot_at vs va" by (metis old.prod.exhaust option.exhaust)
qed

lemma slot_at_map:
  assumes "\<And>v. va_start (f v) = va_start v \<and> va_end (f v) = va_end v \<and> va_obj (f v) = va_obj v \<and> va_off (f v) = va_off v"
  shows "slot_at (map f vs) = slot_at vs"
proof -
  have e: "contains (f v) = contains v" "page_index (f v) = page_index v" "va_obj (f v) = va_obj v" for v
    using assms by (auto simp: contains_def page_index_def fun_eq_iff)
  show ?thesis
  proof
    fix va
    have "find (\<lambda>v. contains v va) (map f vs) = map_option f (find (\<lambda>v. contains v va) vs)"
      by (induction vs) (auto simp: e)
    then show "slot_at (map f vs) va = slot_at vs va" by (auto simp: slot_at_def e split: option.split)
  qed
qed

lemma holders_map: "(\<And>v. va_obj (f v) = va_obj v) \<Longrightarrow> holders (map f vs) P ob = holders vs P ob"
  by (simp add: holders_def) (induction vs; simp)

text \<open>Cutting a mapping in two, with a reference for the second half.\<close>

lemma cut_inv:
  assumes inv: "vm_inv s (add_mset (PHold ob) P)" and vs: "vm_vmas s = pre @ v # post" and v: "va_start v < at" "at < va_end v" "\<not> is_dying v" "va_obj v = Some ob"
    and dvd: "PAGE_SIZE dvd at"
  shows "vm_inv (s\<lparr>vm_vmas := pre @ cut_head at v # cut_tail at v # post\<rparr>) P" (is "vm_inv ?s P")
proof -
  note D = vm_invD [OF inv]
  let ?new = "pre @ cut_head at v # cut_tail at v # post"
  have ok: "vmas_ok ?new" using cut_ok(1) [OF _ v(1,2) dvd] D(2) vs by simp
  have idx: "contains (cut_head at v) a \<Longrightarrow> page_index (cut_head at v) a = page_index v a" "contains (cut_tail at v) a \<Longrightarrow> page_index (cut_tail at v) a = page_index v a" for a
    using cut_view(2,3) [OF v(1,2), of a] by (auto simp: area_view_def page_index_def)
  have "slot_at ?new = slot_at (vm_vmas s)"
    by (rule slot_at_eqI [OF D(2) ok]) (use cut_view(1) [OF v(1,2)] idx in \<open>auto simp: vs\<close>)
  then have "frames ?s P = frames s (add_mset (PHold ob) P)" by (intro fm.equality) (simp_all add: gone_at_same fun_eq_iff)
  then have fm: "fm_inv (frames ?s P)" using D(9) by simp
  have "area_ok v" using vmas_ok_area [OF D(2)] vs by simp
  then have pl: "place_ok s (cut_head at v) \<and> place_ok s (cut_tail at v)"
    using D(3) [of v] v(1,2) vs unfolding place_ok_def by (auto simp: cut_tail_def area_ok_def wrap64_def)
  show ?thesis
  proof (rule vm_inv_list [OF inv])
    show "\<not> wx (va_prot u) \<and> place_ok s u" if "u \<in> set (vm_vmas ?s)" for u using that pl D(3) [of u] D(3) [of v] vs by auto
    show "filter_mset is_dying (mset (vm_vmas ?s)) = chains P" using D(4) v(3) vs by simp
    show "holders (vm_vmas ?s) P o1 = holders (vm_vmas s) (add_mset (PHold ob) P) o1" for o1 using v(4) vs by (simp add: holders_def)
    show "\<exists>u \<in> set (vm_vmas ?s). contains u va \<and> perm_ok fl (va_prot u)" if "vm_pt ?s va = Some (f, fl)" for va f fl
      using D(8) [of va f fl] that cut_view(1) [OF v(1,2), of va] vs by auto
  qed (use fm ok in \<open>simp_all add: layout_ok_def\<close>)
qed

lemma vma_split_at_inv:
  assumes inv: "vm_inv s P" and dvd: "PAGE_SIZE dvd at" and r: "vma_split_at at s = (ok, s')"
  shows "vm_inv s' P"
proof (rule vma_split_at_cases [OF vm_invD(2) [OF inv] r])
  fix ms assume "s' = s\<lparr>vm_mem := ms\<rparr>"
  then show ?thesis using inv by simp
next
  fix pre v post ms
  let ?t = "s\<lparr>vm_mem := ms\<rparr>"
  assume c: "vm_vmas s = pre @ v # post" "va_start v < at" "at < va_end v" "\<not> is_dying v"
    "s' = (case va_obj v of None \<Rightarrow> ?t | Some ob \<Rightarrow> vmo_ref ob ?t)\<lparr>vm_vmas := pre @ cut_head at v # cut_tail at v # post\<rparr>"
  have t: "vm_inv ?t P" using inv by simp
  have v: "v \<in> set (vm_vmas ?t)" using c(1) by simp
  obtain ob where ob: "va_obj v = Some ob" using vm_invD(3) [OF t v] by (auto simp: place_ok_def)
  have "vm_inv (vmo_ref ob ?t) (add_mset (PHold ob) P)" by (rule vmo_ref_inv [OF t area_object [OF t v ob]])
  then show ?thesis unfolding c(5) using cut_inv [of "vmo_ref ob ?t" ob P pre v post at] c ob dvd by simp
qed

lemma split_range_inv:
  assumes "vm_inv s P" "PAGE_SIZE dvd lo" "PAGE_SIZE dvd hi" "split_range lo hi s = (ok, s')"
  shows "vm_inv s' P"
proof -
  obtain b s1 where s1: "vma_split_at lo s = (b, s1)" by fastforce
  have i1: "vm_inv s1 P" by (rule vma_split_at_inv [OF assms(1,2) s1])
  show ?thesis using assms(4) s1 vma_split_at_inv [OF i1 assms(3), of ok s'] i1 by (auto simp: split_range_def split: if_splits)
qed

text \<open>A mapping is added, with a reference somebody held.\<close>

lemma install_inv:
  assumes inv: "vm_inv s (add_mset p P)" and p: "phold p = Some ob" "pchain p = {#}" "pgone p = []" "pwire p = {#}"
    and nv: "area_ok nv" "va_obj nv = Some ob" "\<not> is_dying nv" "\<not> wx (va_prot nv)" "place_ok s nv"
    and free: "\<And>v. v \<in> set (vm_vmas s) \<Longrightarrow> va_end v \<le> va_start nv \<or> va_end nv \<le> va_start v"
    and fly: "obj_anon s ob \<Longrightarrow> holders (vm_vmas s) P ob = 0"
  shows "vm_inv (s\<lparr>vm_vmas := vma_insert nv (vm_vmas s)\<rparr>) P" (is "vm_inv ?s P")
proof -
  note D = vm_invD [OF inv]
  let ?m = "frames s (add_mset p P)" and ?vs = "vma_insert nv (vm_vmas s)"
  have ok: "vmas_ok ?vs" by (rule vma_insert_ok [OF D(2) nv(1)]) (use free in blast)
  have g: "gone_at (add_mset p P) = gone_at P" by (rule gone_at_same [OF p(3)])
  have out: "\<not> contains nv va" if "v \<in> set (vm_vmas s)" "contains v va" for v va
    using free [OF that(1)] that(2) by (auto simp: contains_def)
  have old: "slot_at ?vs va = slot_at (vm_vmas s) va" if "\<not> contains nv va" for va
  proof -
    have "slot_at ?vs va = Some (o1, j) \<longleftrightarrow> slot_at (vm_vmas s) va = Some (o1, j)" for o1 j
      unfolding slot_at_iff [OF D(2)] slot_at_iff [OF ok] using that by auto
    then show ?thesis by (metis old.prod.exhaust option.exhaust)
  qed
  have new: "slot_at ?vs va = Some (o1, j) \<longleftrightarrow> PAGE_SIZE dvd va \<and> o1 = ob \<and> j = page_index nv va" if "contains nv va" for va o1 j
    unfolding slot_at_iff [OF ok] using that out nv(2) by auto
  have "fm_inv (?m\<lparr>sl := slot_at ?vs, dn := gone_at P\<rparr>)"
  proof (rule fm_slots [OF D(9)])
    show "slot_at ?vs va = sl ?m va \<and> \<not> gone_at P va" if "pf ?m va = Some f" for va f
    proof -
      have d: "\<not> gone_at P va" "slot_at (vm_vmas s) va \<noteq> None" using fm_invD(2) [OF D(9) that] g by auto
      then obtain o1 j where "slot_at (vm_vmas s) va = Some (o1, j)" by auto
      then have "\<not> contains nv va" unfolding slot_at_iff [OF D(2)] using out by blast
      then show ?thesis using old d(1) by simp
    qed
    show "\<exists>b. mp ?m o1 = Some b \<and> va = b + j * PAGE_SIZE" if S: "slot_at ?vs va = Some (o1, j)" "an ?m o1" for va o1 j
    proof (cases "contains nv va")
      case False then show ?thesis using fm_invD(3) [OF D(9), of va o1 j] S old by simp
    next
      case True
      with S new have e: "PAGE_SIZE dvd va" "o1 = ob" "j = page_index nv va" by auto
      then obtain b where b: "obj_mapper s ob = Some b" "PAGE_SIZE dvd b" "b \<le> va_start nv" "va_off nv = va_start nv - b"
        using nv(2,5) S(2) by (auto simp: place_ok_def)
      have "va_off nv + (va - va_start nv) = va - b" "va - b < 2 ^ 64" "b \<le> va" using True b nv(1) by (auto simp: contains_def area_ok_def)
      then show ?thesis using b e by (auto simp: page_index_def wrap64_id dvd_div_mult_self)
    qed
    show "live ?m o1 j \<or> flying ?m o1 j = 0" if S: "slot_at ?vs va = Some (o1, j)" "\<not> gone_at P va" "an ?m o1" for va o1 j
    proof (cases "contains nv va")
      case False then show ?thesis using S old g by (auto simp: live_def)
    next
      case True
      with S new have "o1 = ob" by auto
      then have "holders (vm_vmas s) P o1 = 0" using fly S(3) by simp
      then have "(o1, j, ph) \<notin># ws ?m" for ph using wires_hold [of o1 j ph P] holders_pend [of _ P o1 "vm_vmas s"] p(4) by auto
      then show ?thesis by (simp add: flying_zero)
    qed
  qed
  moreover have "frames ?s P = ?m\<lparr>sl := slot_at ?vs, dn := gone_at P\<rparr>" by (intro fm.equality) (simp_all add: p(4) fun_eq_iff)
  ultimately have fm: "fm_inv (frames ?s P)" by simp
  show ?thesis
  proof (rule vm_inv_list [OF inv])
    show "filter_mset is_dying (mset (vm_vmas ?s)) = chains P" using D(4) nv(3) p(2) by simp
    show "holders (vm_vmas ?s) P o1 = holders (vm_vmas s) (add_mset p P) o1" for o1 using nv(2) p(1) by (simp add: holders_def)
    show "\<not> wx (va_prot v) \<and> place_ok s v" if "v \<in> set (vm_vmas ?s)" for v using that D(3) nv(4,5) by auto
    show "\<exists>v \<in> set (vm_vmas ?s). contains v va \<and> perm_ok fl (va_prot v)" if "vm_pt ?s va = Some (f, fl)" for va f fl
      using D(8) [of va f fl] that by auto
  qed (use fm ok in \<open>simp_all add: layout_ok_def\<close>)
qed

section \<open>Unmapping\<close>

lemma munmap_begin_inv:
  assumes inv: "vm_inv s P" and addr: "addr < 2 ^ 64" and r: "munmap_begin addr len s = (r, s')"
  shows "case r of Inl e \<Rightarrow> vm_inv s' P | Inr ds \<Rightarrow> vm_inv s' (add_mset (PUnmap [] ds) P)"
proof (cases "len = 0 \<or> addr mod PAGE_SIZE \<noteq> 0 \<or> wrap64 (addr + page_align_up len) < addr")
  case True
  then show ?thesis using r inv by (auto simp: munmap_begin_def split: if_splits)
next
  case False
  let ?hi = "addr + page_align_up len"
  have hi: "wrap64 ?hi = ?hi" using range_end [of addr "page_align_up len"] False page_align_up_less addr by blast
  have dvd: "PAGE_SIZE dvd addr" "PAGE_SIZE dvd ?hi" using False by (auto simp: dvd_eq_mod_eq_0 [symmetric])
  obtain b s1 where s1: "split_range addr ?hi s = (b, s1)" by fastforce
  have i1: "vm_inv s1 P" by (rule split_range_inv [OF inv dvd s1])
  note D = vm_invD [OF i1]
  let ?f = "\<lambda>v. if in_range addr ?hi v then mark_dying v else v"
  let ?ds = "map mark_dying (filter (in_range addr ?hi) (vm_vmas s1))"
  let ?s = "s1\<lparr>vm_vmas := map ?f (vm_vmas s1)\<rparr>"
  have eq: "munmap_begin addr len s = (if \<not> b then (Inl ENOMEM, s1) else if ?ds = [] then (Inl EINVAL, ?s) else (Inr (rev ?ds), ?s))"
    using False s1 hi by (auto simp: munmap_begin_def Let_def)
  have ir: "in_range addr ?hi v \<Longrightarrow> \<not> is_dying v" for v by (simp add: in_range_def is_dying_def)
  have dy: "filter_mset is_dying (mset (map ?f vs)) = mset (map mark_dying (filter (in_range addr ?hi) vs)) + filter_mset is_dying (mset vs)" for vs
    by (induction vs) (auto dest: ir)
  have fr: "frames ?s P' = frames s1 P" if "gone_at P' = gone_at P" "wires P' = wires P" for P'
    using that by (intro fm.equality) (simp_all add: slot_at_map fun_eq_iff)
  have main: "vm_inv ?s P'" if P': "gone_at P' = gone_at P" "wires P' = wires P" "chains P' = mset ?ds + chains P"
      "\<And>vs ob. holders vs P' ob = holders vs P ob" "\<And>p. p \<in># P' \<Longrightarrow> p \<in># P \<or> pend_ok s1 p" for P'
  proof (rule vm_inv_list [OF i1])
    show "vmas_ok (vm_vmas ?s)" using vmas_ok_map [OF D(2)] by simp
    show "filter_mset is_dying (mset (vm_vmas ?s)) = chains P'" using dy [of "vm_vmas s1"] D(4) P'(3) by simp
    show "holders (vm_vmas ?s) P' ob = holders (vm_vmas s1) P ob" for ob using holders_map [of ?f] P'(4) by simp
    show "\<not> wx (va_prot v) \<and> place_ok s1 v" if "v \<in> set (vm_vmas ?s)" for v using that D(3) by (auto simp: place_ok_def)
    show "\<exists>v \<in> set (vm_vmas ?s). contains v va \<and> perm_ok fl (va_prot v)" if pt: "vm_pt ?s va = Some (f, fl)" for va f fl
    proof -
      obtain v where v: "v \<in> set (vm_vmas s1)" "contains v va" "perm_ok fl (va_prot v)" using D(8) [of va f fl] pt by auto
      then have "?f v \<in> set (vm_vmas ?s)" "contains (?f v) va" "perm_ok fl (va_prot (?f v))" by auto
      then show ?thesis by blast
    qed
  qed (use fr [OF P'(1,2)] D(9) P'(5) in \<open>simp_all add: layout_ok_def\<close>)
  show ?thesis
  proof (cases "\<not> b \<or> ?ds = []")
    case True
    have "(\<exists>e. r = Inl e) \<and> (s' = s1 \<or> ?ds = [] \<and> s' = ?s)" using True r eq by (auto split: if_splits)
    moreover have "vm_inv ?s P" if "?ds = []" using main [of P] that by simp
    ultimately show ?thesis using i1 by auto
  next
    case ne: False
    have "r = Inr (rev ?ds)" "s' = ?s" using ne r eq by auto
    moreover have "vm_inv ?s (add_mset (PUnmap [] (rev ?ds)) P)" by (rule main) (auto simp: gone_at_same holders_def)
    ultimately show ?thesis by simp
  qed
qed

lemma area_pages_iff: "area_ok v \<Longrightarrow> va \<in> set (area_pages v) \<longleftrightarrow> PAGE_SIZE dvd va \<and> contains v va"
proof
  assume "area_ok v" "va \<in> set (area_pages v)"
  then show "PAGE_SIZE dvd va \<and> contains v va" unfolding area_pages_def contains_def area_ok_def by (auto elim!: dvdE)
next
  assume a: "area_ok v" and c: "PAGE_SIZE dvd va \<and> contains v va"
  define k where "k = (va - va_start v) div PAGE_SIZE"
  have "PAGE_SIZE dvd va - va_start v" using a c by (auto simp: area_ok_def contains_def)
  then have "va = va_start v + k * PAGE_SIZE" using c by (auto simp: k_def contains_def)
  moreover have "k < (va_end v - va_start v + PAGE_SIZE - 1) div PAGE_SIZE" using a c \<open>va = va_start v + k * PAGE_SIZE\<close>
    by (auto simp: area_ok_def contains_def elim!: dvdE)
  ultimately show "va \<in> set (area_pages v)" by (auto simp: area_pages_def)
qed

lemma unmap_range_inv:
  assumes "vm_inv s P" "v \<in> set (vm_vmas s)"
  shows "vm_inv (unmap_range_pages v s) P \<and> vm_vmas (unmap_range_pages v s) = vm_vmas s \<and>
    (\<forall>va \<in> set (area_pages v). vm_pt (unmap_range_pages v s) va = None)"
proof -
  have "vm_inv (fold (unmap_page v) vas t) P \<and> vm_vmas (fold (unmap_page v) vas t) = vm_vmas t \<and>
      (\<forall>va. va \<in> set vas \<or> vm_pt t va = None \<longrightarrow> vm_pt (fold (unmap_page v) vas t) va = None)"
    if "vm_inv t P" "v \<in> set (vm_vmas t)" "set vas \<subseteq> set (area_pages v)" for vas t
    using that
  proof (induction vas arbitrary: t)
    case (Cons va vas)
    note U = unmap_page_inv [OF Cons.prems(1,2), of va]
    have "vm_vmas (unmap_page v va t) = vm_vmas t" using same_list_unmap_page [of t v va] by (simp add: same_list_def)
    then show ?case using Cons.IH [of "unmap_page v va t"] U Cons.prems by auto
  qed auto
  then show ?thesis using assms unfolding unmap_range_pages_def by blast
qed

lemma anon_unmap_fold:
  assumes "vo_mapper x = Some base"
  shows "fold (anon_unmap_locked x) ps s =
    s\<lparr>vm_pt := (\<lambda>va. if \<exists>(i, p) \<in> set ps. pg_wired p \<noteq> 0 \<and> va = base + i * PAGE_SIZE then None else vm_pt s va)\<rparr>"
proof (induction ps arbitrary: s)
  case (Cons ip ps)
  show ?case unfolding fold.simps comp_def Cons.IH
    using assms by (cases ip) (auto simp: anon_unmap_locked_def vmm_unmap_in_def fun_eq_iff intro!: vm.equality)
qed (intro vm.equality; simp)

text \<open>The pages of an anonymous mapping are the stretch of indices that is discarded.\<close>

lemma anon_span:
  assumes inv: "vm_inv s P" and v: "v \<in> set (vm_vmas s)" "va_obj v = Some ob" "obj_anon s ob"
  obtains b where "obj_mapper s ob = Some b"
    "\<And>va i. slot_at (vm_vmas s) va = Some (ob, i) \<Longrightarrow> va = b + i * PAGE_SIZE"
    "\<And>i. va_off v div PAGE_SIZE \<le> i \<and> i - va_off v div PAGE_SIZE < (va_end v - va_start v) div PAGE_SIZE \<longleftrightarrow> contains v (b + i * PAGE_SIZE)"
    "PAGE_SIZE dvd b" "\<And>va. PAGE_SIZE dvd va \<Longrightarrow> contains v va \<Longrightarrow> \<exists>i. va = b + i * PAGE_SIZE \<and> page_index v va = i"
proof -
  note D = vm_invD [OF inv]
  obtain b where b: "obj_mapper s ob = Some b" "PAGE_SIZE dvd b" "b \<le> va_start v" "va_off v = va_start v - b"
    using D(3) [OF v(1)] v(2,3) by (auto simp: place_ok_def)
  have a: "area_ok v" by (rule vmas_ok_area [OF D(2) v(1)])
  obtain k0 k1 kb where k: "va_start v = k0 * PAGE_SIZE" "va_end v = k1 * PAGE_SIZE" "b = kb * PAGE_SIZE"
    using a b(2) by (auto simp: area_ok_def elim!: dvdE)
  have l: "kb \<le> k0" "k0 < k1" using a b(3) k by (auto simp: area_ok_def)
  have e: "va_off v div PAGE_SIZE = k0 - kb" "(va_end v - va_start v) div PAGE_SIZE = k1 - k0" using b(4) k l by (auto simp: diff_mult_distrib [symmetric])
  have i3: "va_off v div PAGE_SIZE \<le> i \<and> i - va_off v div PAGE_SIZE < (va_end v - va_start v) div PAGE_SIZE \<longleftrightarrow> contains v (b + i * PAGE_SIZE)" for i
    unfolding e using k l by (auto simp: contains_def)
  have i5: "\<exists>i. va = b + i * PAGE_SIZE \<and> page_index v va = i" if q: "PAGE_SIZE dvd va" "contains v va" for va
  proof -
    obtain ka where ka: "va = ka * PAGE_SIZE" using q(1) by (auto elim!: dvdE)
    have "va_off v + (va - va_start v) = va - b" "va - b < 2 ^ 64" "b \<le> va" using q b a by (auto simp: contains_def area_ok_def)
    then have "page_index v va = ka - kb" using ka k by (simp add: page_index_def wrap64_id diff_mult_distrib [symmetric])
    moreover have "va = b + (ka - kb) * PAGE_SIZE" using ka k \<open>b \<le> va\<close> by auto
    ultimately show ?thesis by blast
  qed
  show thesis by (rule that [OF b(1) _ i3 b(2) i5]) (use fm_invD(3) [OF D(9)] v(3) b(1) in force)
qed

lemma same_pend_unmap: "same_pend s (add_mset (PUnmap g (d # t)) P) (add_mset (PUnmap (g @ [d]) t) P)"
  by (simp add: same_pend_def)

lemma gone_unmap: "gone_at (add_mset (PUnmap (g @ [d]) t) P) va \<longleftrightarrow> gone_at (add_mset (PUnmap g (d # t)) P) va \<or> PAGE_SIZE dvd va \<and> contains d va"
  by (auto simp: gone_at_add)

lemma chain_area: "vm_inv s P \<Longrightarrow> p \<in># P \<Longrightarrow> d \<in># pchain p \<Longrightarrow> d \<in> set (vm_vmas s) \<and> is_dying d"
proof -
  assume a: "vm_inv s P" "p \<in># P" "d \<in># pchain p"
  then have "d \<in># chains P" by (auto simp: chains_def)
  then show ?thesis unfolding vm_invD(4) [OF a(1), symmetric] by auto
qed

lemma unmap_anon_inv:
  assumes inv: "vm_inv s (add_mset (PUnmap g (d # t)) P)" and ob: "va_obj d = Some ob" "obj_anon s ob"
  shows "vm_inv (unmap_area d s) (add_mset (PUnmap (g @ [d]) t) P)" (is "vm_inv _ ?P'")
proof -
  let ?P = "add_mset (PUnmap g (d # t)) P" and ?m = "frames s (add_mset (PUnmap g (d # t)) P)"
  note D = vm_invD [OF inv]
  note F = fm_invD [OF D(9)]
  have d: "d \<in> set (vm_vmas s)" using chain_area [OF inv, of "PUnmap g (d # t)" d] by simp
  obtain x where x: "vm_objs s ob = Some x" "vo_anon x" using ob(2) by (auto simp: obj_anon_def split: option.splits)
  obtain b where b: "obj_mapper s ob = Some b" "\<And>va i. slot_at (vm_vmas s) va = Some (ob, i) \<Longrightarrow> va = b + i * PAGE_SIZE"
    "\<And>i. va_off d div PAGE_SIZE \<le> i \<and> i - va_off d div PAGE_SIZE < (va_end d - va_start d) div PAGE_SIZE \<longleftrightarrow> contains d (b + i * PAGE_SIZE)"
    "PAGE_SIZE dvd b" "\<And>va. PAGE_SIZE dvd va \<Longrightarrow> contains d va \<Longrightarrow> \<exists>i. va = b + i * PAGE_SIZE \<and> page_index d va = i"
    by (rule anon_span [OF inv d ob]) blast
  define I where "I = {i. contains d (b + i * PAGE_SIZE)}"
  define V where "V = {va. PAGE_SIZE dvd va \<and> contains d va}"
  have slot: "slot_at (vm_vmas s) va = Some (ob, page_index d va)" if "va \<in> V" for va
    unfolding slot_at_iff [OF D(2)] using that d ob(1) by (auto simp: V_def)
  have V: "va \<in> V \<longleftrightarrow> (\<exists>i \<in> I. sl ?m va = Some (ob, i))" for va
  proof
    assume "va \<in> V"
    then show "\<exists>i \<in> I. sl ?m va = Some (ob, i)" using slot b(5) [of va] by (auto simp: V_def I_def)
  next
    assume "\<exists>i \<in> I. sl ?m va = Some (ob, i)"
    then obtain i where i: "i \<in> I" "slot_at (vm_vmas s) va = Some (ob, i)" by auto
    then show "va \<in> V" using b(2) [OF i(2)] unfolding slot_at_iff [OF D(2)] by (auto simp: V_def I_def)
  qed
  define gn where "gn = filter (\<lambda>(i, p). i \<in> I) (vo_pages x)"
  define pt where "pt = (\<lambda>va. if \<exists>(i, p) \<in> set gn. pg_wired p \<noteq> 0 \<and> va = b + i * PAGE_SIZE then None else vm_pt s va)"
  let ?F = "rev (page_frames gn) @ vm_frames s"
  let ?rest = "\<lambda>x. x\<lparr>vo_pages := filter (\<lambda>(i, p). i \<notin> I) (vo_pages x)\<rparr>"
  let ?s = "upd_obj ob ?rest (s\<lparr>vm_pt := pt, vm_frames := ?F\<rparr>)"
  have len: "0 < (va_end d - va_start d) div PAGE_SIZE"
    using vmas_ok_area [OF D(2) d] by (auto simp: area_ok_def div_greater_zero_iff elim!: dvdE)
  have mapper: "vo_mapper x = Some b" using b(1) x(1) by (simp add: obj_mapper_def)
  have s': "unmap_area d s = ?s"
    using ob x len unfolding unmap_area_def vmo_discard_range_def b(3)
    by (simp add: Let_def anon_unmap_fold [OF mapper] I_def gn_def pt_def)
  have keys: "distinct (map fst (vo_pages x))" using D(10) x(1) by (auto simp: keys_ok_def)
  have mem: "(i, p) \<in> set gn \<longleftrightarrow> i \<in> I \<and> page_find s ob i = Some p" for i p using keys x(1) by (auto simp: gn_def page_find_def)
  have pfs: "map_option fst (pt va) = (if va \<in> V then None else pf ?m va)" for va
  proof (cases "va \<in> V")
    case False
    have "i \<notin> I" if "va = b + i * PAGE_SIZE" for i using False that b(4) by (auto simp: V_def I_def)
    then have "pt va = vm_pt s va" unfolding pt_def using mem by auto
    then show ?thesis using False by simp
  next
    case True
    then obtain i where i: "i \<in> I" "slot_at (vm_vmas s) va = Some (ob, i)" using V by auto
    have "pt va = None"
    proof (cases "vm_pt s va")
      case (Some e)
      then have e: "pf ?m va = Some (fst e)" by simp
      then have "ff ?m ob i = Some (fst e)" using F(7) [OF e, of ob i] i(2) ob(2) by simp
      then obtain p where p: "page_find s ob i = Some p" "pg_phys p = fst e" by (auto simp: ff_Some)
      have "va \<in> mapped ?m ob i" "live ?m ob i" using fm_entry_page [OF D(9) e] p by (auto simp: ff_Some)
      then have "pg_wired p \<noteq> 0" using F(8) [of ob i p] p(1) mapped_finite [OF D(9), of ob i] by auto
      then show ?thesis using p(1) i b(2) [OF i(2)] by (auto simp: pt_def mem)
    qed (simp add: pt_def)
    then show ?thesis using True by simp
  qed
  note pb = page_frames_back [OF inv x(1) gn_def]
  have "fm_inv (?m\<lparr>pf := (\<lambda>va. if va \<in> V then None else pf ?m va), dn := (\<lambda>va. dn ?m va \<or> va \<in> V),
      pg := (pg ?m)(ob := (\<lambda>i. if i \<in> I then None else pg ?m ob i)), fr := ?F\<rparr>)"
    by (rule fm_discard [OF D(9) _ V pb]) (simp add: ob(2))
  moreover have so: "same_objs s ?s" by (rule same_objs_trans [OF _ same_objs_upd]) (simp_all add: same_objs_def okey_def)
  moreover have "map_of (filter (\<lambda>(i, p). i \<notin> I) ps) j = (if j \<in> I then None else map_of ps j)" for ps :: "(nat \<times> vmo_page) list" and j
    by (induction ps) auto
  then have "page_find ?s o1 j = (if o1 = ob \<and> j \<in> I then None else page_find s o1 j)" for o1 j
    unfolding page_find_upd_obj using x(1) by (auto simp: page_find_def)
  ultimately have fm: "fm_inv (frames ?s ?P')"
    by (subst fm.equality [of "frames ?s ?P'" "?m\<lparr>pf := (\<lambda>va. if va \<in> V then None else pf ?m va), dn := (\<lambda>va. dn ?m va \<or> va \<in> V),
      pg := (pg ?m)(ob := (\<lambda>i. if i \<in> I then None else pg ?m ob i)), fr := ?F\<rparr>"])
      (simp_all add: fun_eq_iff pfs gone_unmap V_def same_objs_eqs [OF so])
  show ?thesis unfolding s'
  proof (rule vm_inv_pages [OF inv _ so same_pend_unmap _ _ fm])
    show "same_list s ?s" by (simp add: same_list_def upd_obj_def)
    show "keys_ok ?s" by (rule keys_ok_upd) (use D(10) in \<open>simp_all add: distinct_map_filter\<close>)
    show "\<exists>v \<in> set (vm_vmas s). contains v va \<and> perm_ok fl (va_prot v)" if "vm_pt ?s va = Some (f, fl)" for va f fl
      using that D(8) by (auto simp: pt_def split: if_splits)
  qed
qed

lemma unmap_area_inv:
  assumes inv: "vm_inv s (add_mset (PUnmap g (d # t)) P)"
  shows "vm_inv (unmap_area d s) (add_mset (PUnmap (g @ [d]) t) P)" (is "vm_inv _ ?P'")
proof -
  let ?P = "add_mset (PUnmap g (d # t)) P"
  have d: "d \<in> set (vm_vmas s)" using chain_area [OF inv, of "PUnmap g (d # t)" d] by simp
  obtain ob where ob: "va_obj d = Some ob" using vm_invD(3) [OF inv d] by (auto simp: place_ok_def)
  show ?thesis
  proof (cases "obj_anon s ob")
    case True then show ?thesis by (rule unmap_anon_inv [OF inv ob])
  next
    case False
    let ?s = "unmap_range_pages d s"
    have s': "unmap_area d s = ?s" using False ob by (simp add: unmap_area_def)
    note U = unmap_range_inv [OF inv d]
    then have inv': "vm_inv ?s ?P" by blast
    note D = vm_invD [OF inv']
    let ?m = "frames ?s ?P"
    have empty: "vm_pt ?s va = None" if "contains d va" "PAGE_SIZE dvd va" for va
      using that U area_pages_iff [OF vmas_ok_area [OF vm_invD(2) [OF inv] d]] by blast
    have "fm_inv (?m\<lparr>sl := sl ?m, dn := gone_at ?P'\<rparr>)"
    proof (rule fm_slots [OF D(9)])
      show "sl ?m va = sl ?m va \<and> \<not> gone_at ?P' va" if "pf ?m va = Some f" for va f
        using fm_invD(2) [OF D(9) that] that empty unfolding gone_unmap by auto
      show "live ?m o1 j \<or> flying ?m o1 j = 0" if "sl ?m va = Some (o1, j)" "\<not> gone_at ?P' va" for va o1 j
        using that unfolding gone_unmap by (auto simp: live_def)
    qed (use fm_invD(3) [OF D(9)] in blast)
    moreover have "frames ?s ?P' = ?m\<lparr>sl := sl ?m, dn := gone_at ?P'\<rparr>" by (intro fm.equality) (simp_all add: fun_eq_iff)
    ultimately have fm: "fm_inv (frames ?s ?P')" by simp
    show ?thesis unfolding s' by (rule vm_inv_pages [OF inv' _ _ same_pend_unmap _ _ fm]) (use D(8,10) in simp_all)
  qed
qed

text \<open>The emptied mappings leave the list; their references are dropped one by one.\<close>

lemma holds_multi:
  "holders vs (mset (map PHold obs) + P) ob = holders vs P ob + size (filter_mset (\<lambda>o1. o1 = ob) (mset obs))"
  "chains (mset (map PHold obs) + P) = chains P" "wires (mset (map PHold obs) + P) = wires P" "gone_at (mset (map PHold obs) + P) = gone_at P"
  by (induction obs) (auto simp: gone_at_same holders_def)

lemma unlink_inv:
  assumes inv: "vm_inv s (add_mset (PUnmap g []) P)"
  shows "vm_inv (s\<lparr>vm_vmas := filter (\<lambda>v. v \<notin> set g) (vm_vmas s)\<rparr>) (mset (map (\<lambda>d. PHold (the (va_obj d))) g) + P)" (is "vm_inv ?s ?P")
proof -
  note D = vm_invD [OF inv]
  let ?Q = "add_mset (PUnmap g []) P" and ?vs = "filter (\<lambda>v. v \<notin> set g) (vm_vmas s)"
  let ?obs = "map (\<lambda>d. the (va_obj d)) g" and ?m = "frames s (add_mset (PUnmap g []) P)"
  have P: "?P = mset (map PHold ?obs) + P" by (simp add: comp_def)
  have w: "wires ?P = wires P" "gone_at ?P = gone_at P" unfolding P by (rule holds_multi)+
  have g: "d \<in> set (vm_vmas s) \<and> is_dying d" if "d \<in> set g" for d using chain_area [OF inv, of "PUnmap g []" d] that by simp
  have sub: "mset g \<subseteq># mset (vm_vmas s)"
    using D(4) multiset_filter_subset [of is_dying "mset (vm_vmas s)"] by (simp add: subset_mset.add_increasing2 subset_mset.dual_order.trans)
  then have dg: "distinct g" using vmas_ok_distinct [OF D(2)] by (metis mset_subset_eq_exists_conv mset_append ex_mset distinct_append mset_eq_imp_distinct_iff)
  have part: "mset (vm_vmas s) = mset g + mset ?vs"
  proof -
    have "mset (filter (\<lambda>v. v \<in> set g) (vm_vmas s)) = mset g"
      by (rule set_eq_iff_mset_eq_distinct [THEN iffD1]) (use dg vmas_ok_distinct [OF D(2)] g in auto)
    then show ?thesis by (metis mset_filter multiset_partition)
  qed
  have obj: "va_obj d = Some (the (va_obj d))" if "d \<in> set g" for d using D(3) [of d] g [OF that] by (auto simp: place_ok_def)
  have ok: "vmas_ok ?vs" by (rule vmas_ok_sublist [OF D(2)])
  have uniq: "v = d" if "v \<in> set (vm_vmas s)" "d \<in> set g" "contains v va" "contains d va" for v d va
    using vmas_ok_unique [OF D(2) that(1) _ that(3,4)] g [OF that(2)] by blast
  have gone: "gone_at ?Q va \<longleftrightarrow> PAGE_SIZE dvd va \<and> (\<exists>d \<in> set g. contains d va) \<or> gone_at P va" for va by (simp add: gone_at_add)
  have keep: "slot_at ?vs va = slot_at (vm_vmas s) va" if n: "\<not> (\<exists>d \<in> set g. contains d va)" for va
  proof -
    have "slot_at ?vs va = Some (o1, j) \<longleftrightarrow> slot_at (vm_vmas s) va = Some (o1, j)" for o1 j
      unfolding slot_at_iff [OF D(2)] slot_at_iff [OF ok] using n by auto
    then show ?thesis by (metis old.prod.exhaust option.exhaust)
  qed
  have sub': "slot_at (vm_vmas s) va = Some (o1, j) \<and> \<not> (\<exists>d \<in> set g. contains d va)" if "slot_at ?vs va = Some (o1, j)" for va o1 j
    using that uniq unfolding slot_at_iff [OF D(2)] slot_at_iff [OF ok] by auto
  have "fm_inv (?m\<lparr>sl := slot_at ?vs, dn := gone_at P\<rparr>)"
  proof (rule fm_slots [OF D(9)])
    show "slot_at ?vs va = sl ?m va \<and> \<not> gone_at P va" if "pf ?m va = Some f" for va f
    proof -
      have n: "\<not> gone_at ?Q va" "slot_at (vm_vmas s) va \<noteq> None" using fm_invD(2) [OF D(9) that] by auto
      have "PAGE_SIZE dvd va" using n(2) by (simp add: slot_at_def split: if_splits)
      then show ?thesis using n keep [of va] unfolding gone by auto
    qed
    show "\<exists>b. mp ?m o1 = Some b \<and> va = b + j * PAGE_SIZE" if "slot_at ?vs va = Some (o1, j)" "an ?m o1" for va o1 j
      using fm_invD(3) [OF D(9), of va o1 j] sub' [OF that(1)] that(2) by simp
    show "live ?m o1 j \<or> flying ?m o1 j = 0" if "slot_at ?vs va = Some (o1, j)" "\<not> gone_at P va" for va o1 j
      using sub' [OF that(1)] that(2) gone [of va] by (auto simp: live_def)
  qed
  moreover have "frames ?s ?P = ?m\<lparr>sl := slot_at ?vs, dn := gone_at P\<rparr>" by (intro fm.equality) (simp_all add: fun_eq_iff w [simplified])
  ultimately have fm: "fm_inv (frames ?s ?P)" by simp
  show ?thesis
  proof (rule vm_inv_list [OF inv])
    show "filter_mset is_dying (mset (vm_vmas ?s)) = chains ?P"
    proof -
      have "filter is_dying g = g" using g by (simp add: filter_id_conv)
      then have "filter_mset is_dying (mset g) = mset g" by (metis mset_filter)
      then have "filter_mset is_dying (mset ?vs) = chains P" using D(4) unfolding part by simp
      then show ?thesis unfolding P holds_multi by simp
    qed
    show "holders (vm_vmas ?s) ?P ob = holders (vm_vmas s) ?Q ob" for ob
    proof -
      have "size (filter_mset (\<lambda>o1. o1 = ob) (mset ?obs)) = size (filter_mset (\<lambda>v. va_obj v = Some ob) (mset g))"
        using obj by (induction g) auto
      moreover have "size (filter_mset (\<lambda>v. va_obj v = Some ob) (mset (vm_vmas s))) =
          size (filter_mset (\<lambda>v. va_obj v = Some ob) (mset g)) + size (filter_mset (\<lambda>v. va_obj v = Some ob) (mset ?vs))"
        by (subst part) simp
      ultimately show ?thesis unfolding P holds_multi by (simp add: holders_def)
    qed
    show "p \<in># ?Q \<or> pend_ok s p" if "p \<in># ?P" for p using that by auto
    show "\<not> wx (va_prot v) \<and> place_ok s v" if "v \<in> set (vm_vmas ?s)" for v using that D(3) by auto
    show "\<exists>v \<in> set (vm_vmas ?s). contains v va \<and> perm_ok fl (va_prot v)" if pt: "vm_pt ?s va = Some (f, fl)" for va f fl
    proof -
      obtain v where v: "v \<in> set (vm_vmas s)" "contains v va" "perm_ok fl (va_prot v)" using D(8) [of va f fl] pt by auto
      have "\<not> gone_at ?Q va" "slot_at (vm_vmas s) va \<noteq> None" using fm_invD(2) [OF D(9), of va f] pt by auto
      then have "v \<notin> set g" using v(2) unfolding gone by (auto simp: slot_at_def split: if_splits)
      then show ?thesis using v by auto
    qed
  qed (use fm ok in \<open>simp_all add: layout_ok_def\<close>)
qed

lemma munmap_finish_inv:
  assumes inv: "vm_inv s (add_mset (PUnmap g []) P)"
  shows "vm_inv (munmap_finish g s) P"
proof -
  have put: "vm_inv (fold put_area ds t) P"
    if "vm_inv t (mset (map (\<lambda>d. PHold (the (va_obj d))) ds) + P)" "\<And>d. d \<in> set ds \<Longrightarrow> va_obj d \<noteq> None" for ds t
    using that
  proof (induction ds arbitrary: t)
    case (Cons d ds)
    then obtain ob where ob: "va_obj d = Some ob" by (metis list.set_intros(1) not_None_eq)
    have "vm_inv (vmo_put ob t) (mset (map (\<lambda>d. PHold (the (va_obj d))) ds) + P)" by (rule vmo_put_inv) (use Cons.prems(1) ob in simp)
    then show ?case using Cons.IH [of "vmo_put ob t"] Cons.prems(2) ob by (simp add: put_area_def)
  qed simp
  have "fold vma_unlink g (vm_vmas s) = filter (\<lambda>v. v \<notin> set g) (vm_vmas s)"
    by (rule vma_unlink_fold [OF vmas_ok_distinct [OF vm_invD(2) [OF inv]]])
  moreover have "va_obj d \<noteq> None" if "d \<in> set g" for d
    using chain_area [OF inv, of "PUnmap g []" d] that vm_invD(3) [OF inv, of d] by (auto simp: place_ok_def)
  ultimately show ?thesis unfolding munmap_finish_def using put [OF unlink_inv [OF inv]] by simp
qed

section \<open>Protection\<close>

lemma protect_area_pt:
  "map_option fst (vm_pt (protect_area prot v s) va) = map_option fst (vm_pt s va)"
  "vm_pt (protect_area prot v s) va = Some (f, g) \<Longrightarrow> va \<in> set (area_pages v) \<Longrightarrow> perm_ok g prot"
  "va \<notin> set (area_pages v) \<Longrightarrow> vm_pt (protect_area prot v s) va = vm_pt s va"
  "vm_objs (protect_area prot v s) = vm_objs s" "vm_next (protect_area prot v s) = vm_next s" "vm_frames (protect_area prot v s) = vm_frames s"
proof -
  define fl where "fl = (if private_file s v then prot_to_vmm prot AND NOT VMM_WRITABLE else prot_to_vmm prot)"
  have ok: "perm_ok fl prot" using perm_ok_mask(1) [of prot] by (simp add: fl_def)
  have p: "protect_area prot v s = fold (\<lambda>va. vmm_protect_in va fl) (area_pages v) s" by (simp add: protect_area_def fl_def)
  have "vm_objs (fold (\<lambda>va. vmm_protect_in va fl) vas t) = vm_objs t \<and> vm_next (fold (\<lambda>va. vmm_protect_in va fl) vas t) = vm_next t \<and>
      vm_frames (fold (\<lambda>va. vmm_protect_in va fl) vas t) = vm_frames t \<and>
      vm_pt (fold (\<lambda>va. vmm_protect_in va fl) vas t) va = (if va \<in> set vas then map_option (\<lambda>(f, _). (f, fl)) (vm_pt t va) else vm_pt t va)" for vas t
  proof (induction vas arbitrary: t)
    case (Cons a vas)
    show ?case using Cons.IH [of "vmm_protect_in a fl t"]
      by (auto simp: vmm_protect_in_def split: option.splits)
  qed simp
  note this [of "area_pages v" s, folded p]
  then show "map_option fst (vm_pt (protect_area prot v s) va) = map_option fst (vm_pt s va)"
    "vm_pt (protect_area prot v s) va = Some (f, g) \<Longrightarrow> va \<in> set (area_pages v) \<Longrightarrow> perm_ok g prot"
    "va \<notin> set (area_pages v) \<Longrightarrow> vm_pt (protect_area prot v s) va = vm_pt s va"
    "vm_objs (protect_area prot v s) = vm_objs s" "vm_next (protect_area prot v s) = vm_next s" "vm_frames (protect_area prot v s) = vm_frames s"
    using ok by (auto simp: option.map_comp comp_def case_prod_unfold split: if_splits)
qed

lemma protect_fold_pt:
  "vm_objs (fold (protect_area prot) vs s) = vm_objs s" "vm_next (fold (protect_area prot) vs s) = vm_next s"
  "vm_frames (fold (protect_area prot) vs s) = vm_frames s"
  "map_option fst (vm_pt (fold (protect_area prot) vs s) va) = map_option fst (vm_pt s va)"
  "\<forall>v \<in> set vs. va \<notin> set (area_pages v) \<Longrightarrow> vm_pt (fold (protect_area prot) vs s) va = vm_pt s va"
  "vm_pt (fold (protect_area prot) vs s) va = Some (f, g) \<Longrightarrow> v \<in> set vs \<Longrightarrow> va \<in> set (area_pages v) \<Longrightarrow> perm_ok g prot"
proof -
  show "vm_objs (fold (protect_area prot) vs s) = vm_objs s" "vm_next (fold (protect_area prot) vs s) = vm_next s"
    "vm_frames (fold (protect_area prot) vs s) = vm_frames s"
    "map_option fst (vm_pt (fold (protect_area prot) vs s) va) = map_option fst (vm_pt s va)"
    by (induction vs arbitrary: s) (simp_all add: protect_area_pt(1,4-6))
  have out: "vm_pt (fold (protect_area prot) us t) va = vm_pt t va" if "\<forall>v \<in> set us. va \<notin> set (area_pages v)" for us t
    using that by (induction us arbitrary: t) (simp_all add: protect_area_pt(3))
  then show "\<forall>v \<in> set vs. va \<notin> set (area_pages v) \<Longrightarrow> vm_pt (fold (protect_area prot) vs s) va = vm_pt s va" .
  show "vm_pt (fold (protect_area prot) vs s) va = Some (f, g) \<Longrightarrow> v \<in> set vs \<Longrightarrow> va \<in> set (area_pages v) \<Longrightarrow> perm_ok g prot"
  proof (induction vs arbitrary: s v)
    case (Cons u vs)
    show ?case
    proof (cases "\<exists>w \<in> set vs. va \<in> set (area_pages w)")
      case True then show ?thesis using Cons by auto
    next
      case False
      then have "v = u" "vm_pt (protect_area prot u s) va = Some (f, g)" using Cons.prems out [of vs "protect_area prot u s"] by auto
      then show ?thesis using protect_area_pt(2) Cons.prems(3) by blast
    qed
  qed simp
qed

lemma protect_apply_inv:
  assumes inv: "vm_inv s P" and dvd: "PAGE_SIZE dvd addr" "PAGE_SIZE dvd hi" and prot: "\<not> wx prot" and r: "protect_apply addr hi prot s = (r, s')"
  shows "vm_inv s' P"
proof -
  obtain b s1 where s1: "split_range addr hi s = (b, s1)" by fastforce
  have i1: "vm_inv s1 P" by (rule split_range_inv [OF inv dvd s1])
  note D = vm_invD [OF i1]
  show ?thesis
  proof (cases b)
    case False then show ?thesis using r s1 i1 by (simp add: protect_apply_def)
  next
    case True
    let ?f = "\<lambda>v. if in_range addr hi v then v\<lparr>va_prot := prot\<rparr> else v"
    define in_r where "in_r = filter (in_range addr hi) (vm_vmas s1)"
    define s2 where "s2 = fold (protect_area prot) in_r s1"
    have sl: "same_list s1 s2" unfolding s2_def by (rule same_list_fold) (rule same_list_protect_area)
    have F: "vm_objs s2 = vm_objs s1" "vm_next s2 = vm_next s1" "vm_frames s2 = vm_frames s1" "\<And>va. map_option fst (vm_pt s2 va) = map_option fst (vm_pt s1 va)"
      unfolding s2_def by (rule protect_fold_pt)+
    let ?s = "s2\<lparr>vm_vmas := map ?f (vm_vmas s1)\<rparr>"
    have s': "s' = ?s" using r s1 True sl by (simp add: protect_apply_def Let_def in_r_def s2_def same_list_def)
    have "frames ?s P = frames s1 P"
      by (intro fm.equality) (simp_all add: slot_at_map fun_eq_iff F page_find_def obj_anon_def obj_mapper_def)
    then have fm: "fm_inv (frames ?s P)" using D(9) by simp
    have "contains (?f v) = contains v" for v by (auto simp: contains_def fun_eq_iff)
    show ?thesis unfolding s'
    proof (rule vm_inv_list [OF i1])
      show "vmas_ok (vm_vmas ?s)" using vmas_ok_map [OF D(2)] by simp
      have "filter_mset is_dying (mset (map ?f vs)) = filter_mset is_dying (mset vs)" for vs
        by (induction vs) (auto simp: is_dying_def in_range_def)
      then show "filter_mset is_dying (mset (vm_vmas ?s)) = chains P" using D(4) by simp
      show "holders (vm_vmas ?s) P ob = holders (vm_vmas s1) P ob" for ob using holders_map [of ?f] by simp
      show "\<not> wx (va_prot v) \<and> place_ok s1 v" if "v \<in> set (vm_vmas ?s)" for v using that D(3) prot by (auto simp: place_ok_def)
      show "\<exists>v \<in> set (vm_vmas ?s). contains v va \<and> perm_ok g (va_prot v)" if pt: "vm_pt ?s va = Some (f, g)" for va f g
      proof -
        have pt2: "vm_pt s2 va = Some (f, g)" using pt by simp
        then obtain g1 where pt1: "vm_pt s1 va = Some (f, g1)" using F(4) [of va] by (cases "vm_pt s1 va") auto
        then obtain v where v: "v \<in> set (vm_vmas s1)" "contains v va" "perm_ok g1 (va_prot v)" using D(8) [of va f g1] by blast
        have "slot_at (vm_vmas s1) va \<noteq> None" using fm_invD(2) [OF D(9), of va f] pt1 by simp
        then have va: "va \<in> set (area_pages v)" unfolding area_pages_iff [OF vmas_ok_area [OF D(2) v(1)]] using v(2) by (simp add: slot_at_def split: if_splits)
        have "perm_ok g (va_prot (?f v))"
        proof (cases "in_range addr hi v")
          case True
          then have "v \<in> set in_r" using v(1) by (simp add: in_r_def)
          then show ?thesis using protect_fold_pt(6) [of prot in_r s1 va f g v] pt2 va True by (simp add: s2_def)
        next
          case False
          have uv: "u = v" if "u \<in> set in_r" "va \<in> set (area_pages u)" for u
          proof -
            have u: "u \<in> set (vm_vmas s1)" using that by (simp add: in_r_def)
            then show ?thesis using vmas_ok_unique [OF D(2) u v(1) _ v(2)] area_pages_iff [OF vmas_ok_area [OF D(2) u]] that by blast
          qed
          have "v \<notin> set in_r" using False by (simp add: in_r_def)
          then have "vm_pt s2 va = vm_pt s1 va" unfolding s2_def by (intro protect_fold_pt(5)) (use uv in blast)
          then show ?thesis using pt1 pt2 v(3) False by simp
        qed
        then show ?thesis using v(1,2) by (intro bexI [of _ "?f v"]) (auto simp: contains_def)
      qed
    qed (use fm F sl in \<open>simp_all add: layout_ok_def same_list_def\<close>)
  qed
qed

section \<open>Mapping\<close>

lemma vm_inv_idle:
  assumes "phold p = None" "pchain p = {#}" "pwire p = {#}" "pgone p = []"
  shows "vm_inv s (add_mset p P) \<longleftrightarrow> vm_inv s P \<and> pend_ok s p"
proof -
  have f: "frames s (add_mset p P) = frames s P" by (simp add: frames_def gone_at_same assms)
  have o: "obj_ok vs (add_mset p P) ob ox = obj_ok vs P ob ox" for vs ob ox by (simp add: obj_ok_def assms(1) split: option.split)
  show ?thesis unfolding vm_inv_def f o by (auto simp: assms)
qed

lemma anon_object_inv:
  assumes inv: "vm_inv s (add_mset (PPlace start len prot fl) P)" and r: "anon_object_for start len s = (r, s')"
  shows "case r of None \<Rightarrow> vm_inv s' P | Some ob \<Rightarrow> vm_inv s' (add_mset (PMap start len prot fl ob) P)"
proof -
  have i: "vm_inv s P" "pend_ok s (PPlace start len prot fl)" using inv by (simp_all add: vm_inv_idle)
  define ms where "ms = tl (vm_mem s)"
  obtain b s1 where m: "take_mem s = (b, s1)" by fastforce
  have s1: "s1 = s\<lparr>vm_mem := ms\<rparr>" using take_mem_state [OF m] by (simp add: ms_def)
  show ?thesis
  proof (cases r)
    case None
    then have "s' = s \<or> s' = s1" using r m by (auto simp: anon_object_for_def vmo_create_anon_def split: option.splits prod.splits if_splits)
    then show ?thesis using None i s1 by auto
  next
    case (Some ob)
    let ?x = "\<lparr>vo_refs = 1, vo_anon = True, vo_vn = 0, vo_size = len, vo_mapper = Some start, vo_pages = []\<rparr>"
    have ob: "ob = vm_next s1" "s' = s1\<lparr>vm_next := vm_next s1 + 1, vm_objs := (vm_objs s1)(vm_next s1 \<mapsto> ?x)\<rparr>"
      using r m Some by (auto simp: anon_object_for_def vmo_create_anon_def vmo_set_mapper_def upd_obj_def obj_anon_def
          split: option.splits prod.splits if_splits)
    have "vm_inv s1 P" using i s1 by simp
    then have "vm_inv s' (add_mset (PHold ob) P)" unfolding ob by (rule new_object_inv) simp_all
    then have "vm_inv s' (add_mset (PMap start len prot fl ob) P)" by (rule vm_inv_swap) (use i(2) ob in simp_all)
    then show ?thesis using Some by simp
  qed
qed

lemma install_locked_cases:
  assumes "install_locked start len prot fl ob off s = (ok, s')"
  obtains ms where "\<not> ok" "s' = s\<lparr>vm_mem := ms\<rparr>"
  | ms where "ok" "s' = s\<lparr>vm_mem := ms, vm_vmas := vma_insert
        \<lparr>va_start = start, va_end = wrap64 (start + len), va_prot = prot, va_flags = fl, va_obj = Some ob, va_off = off\<rparr> (vm_vmas s)\<rparr>"
  using assms unfolding install_locked_def by (auto simp: Let_def split: prod.splits if_splits dest!: take_mem_state)

lemma map_install_inv:
  assumes inv: "vm_inv s (add_mset (PMap start len prot fl ob) P)" and r: "map_install start len prot fl ob s = (r, s')"
  shows "vm_inv s' P"
proof -
  note D = vm_invD [OF inv]
  obtain x where x: "span_ok start len" "\<not> wx prot" "\<not> has fl VMA_DYING" "vm_objs s ob = Some x" "vo_refs x = 1" "vo_anon x" "vo_mapper x = Some start"
    using D(7) [of "PMap start len prot fl ob"] by (auto split: option.splits)
  have put: "vm_inv (vmo_put ob t) P" if "vm_inv t (add_mset (PMap start len prot fl ob) P)" for t
    by (rule vmo_put_inv, rule vm_inv_swap [OF that]) simp_all
  have e: "wrap64 (start + len) = start + len" using x(1) by (simp add: span_ok_def)
  show ?thesis
  proof (cases "range_is_free s start (start + len)")
    case False
    then show ?thesis using r e put [OF inv] by (simp add: map_install_def)
  next
    case True
    obtain ok s1 where i: "install_locked start len prot fl ob 0 s = (ok, s1)" by fastforce
    have s': "s' = (if ok then s1 else vmo_put ob s1)" using r True e i by (simp add: map_install_def)
    let ?nv = "\<lparr>va_start = start, va_end = start + len, va_prot = prot, va_flags = fl, va_obj = Some ob, va_off = 0\<rparr>"
    show ?thesis
    proof (rule install_locked_cases [OF i])
      fix ms assume "\<not> ok" "s1 = s\<lparr>vm_mem := ms\<rparr>"
      then show ?thesis using s' put [of "s\<lparr>vm_mem := ms\<rparr>"] inv by simp
    next
      fix ms let ?t = "s\<lparr>vm_mem := ms\<rparr>"
      assume n: ok "s1 = s\<lparr>vm_mem := ms, vm_vmas := vma_insert \<lparr>va_start = start, va_end = wrap64 (start + len), va_prot = prot, va_flags = fl, va_obj = Some ob, va_off = 0\<rparr> (vm_vmas s)\<rparr>"
      have t: "vm_inv ?t (add_mset (PMap start len prot fl ob) P)" using inv by simp
      have "vm_inv (?t\<lparr>vm_vmas := vma_insert ?nv (vm_vmas ?t)\<rparr>) P"
      proof (rule install_inv [OF t, of ob])
        show "place_ok ?t ?nv" using x by (auto simp: place_ok_def obj_mapper_def span_ok_def)
        show "holders (vm_vmas ?t) P ob = 0" using D(5) [of ob] x by (simp add: obj_ok_def)
        show "va_end v \<le> va_start ?nv \<or> va_end ?nv \<le> va_start v" if "v \<in> set (vm_vmas ?t)" for v using True that by (auto simp: range_is_free_iff)
      qed (use x in \<open>auto simp: area_ok_def span_ok_def is_dying_def\<close>)
      then show ?thesis using n s' e by simp
    qed
  qed
qed

lemma map_common_cases:
  assumes "vma_map_common addr len prot fl (Some ob) off s = (r, s')"
  obtains e where "r = Inl e" "s' = s"
  | start ok where "map_args_ok s len prot fl" "map_choose addr (page_align_up len) fl s = Inr start"
      "install_locked start (page_align_up len) prot fl ob off s = (ok, s')" "r = (if ok then Inr start else Inl ENOMEM)"
proof (cases "map_args_ok s len prot fl")
  case False
  then show thesis using assms that(1) by (auto simp: vma_map_common_def)
next
  case True
  show thesis
  proof (cases "map_choose addr (page_align_up len) fl s")
    case (Inl e)
    then have "r = Inl e" "s' = s" using assms True by (simp_all add: vma_map_common_def)
    then show thesis by (rule that(1))
  next
    case (Inr start)
    obtain ok s1 where i: "install_locked start (page_align_up len) prot fl ob off s = (ok, s1)" by fastforce
    then have "r = (if ok then Inr start else Inl ENOMEM)" "s' = s1" using assms True Inr by (auto simp: vma_map_common_def split: if_splits)
    then show thesis using that(2) [OF True Inr, of ok] i by blast
  qed
qed

lemma mmap_file_common:
  assumes "vma_mmap_file check len prot fl (Some ob) off mw s = (r, s')"
  obtains e where "r = Inl e" "s' = s" | fl' where "vma_map_common 0 len prot fl' (Some ob) off s = (r, s')"
proof -
  define fl' where "fl' = (if \<not> mw \<and> has fl MAP_SHARED then fl OR VMA_NO_SHARED_WRITE else fl)"
  show thesis
    using assms that unfolding vma_mmap_file_def fl'_def [symmetric] by (auto simp: Let_def split: if_splits option.splits)
qed

lemma mmap_file_inv:
  assumes inv: "vm_inv s (add_mset (PHold ob) P)" and nanon: "\<not> obj_anon s ob" and r: "vma_mmap_file check len prot fl (Some ob) off mw s = (r, s')"
  shows "case r of Inl e \<Rightarrow> vm_inv s' (add_mset (PHold ob) P) | Inr start \<Rightarrow> vm_inv s' P"
proof -
  note D = vm_invD [OF inv]
  have common: ?thesis if c: "vma_map_common 0 len prot fl (Some ob) off s = (r, s')" for fl
  proof (rule map_common_cases [OF c])
    fix start ok
    define n where "n = page_align_up len"
    assume a: "map_args_ok s len prot fl" "map_choose 0 (page_align_up len) fl s = Inr start"
      "install_locked start (page_align_up len) prot fl ob off s = (ok, s')" "r = (if ok then Inr start else Inl ENOMEM)"
    have len: "0 < n" "n \<le> USER_VA_LIMIT" "\<not> has fl VMA_DYING" using map_args_len [OF D(1) a(1)] by (auto simp: n_def)
    have c: "mmap_base s \<le> start" "start + n \<le> mmap_max s" "PAGE_SIZE dvd start" "range_is_free s start (start + n)" "PAGE_SIZE dvd n"
      using map_choose_ok [OF D(1) a(2) _ _ _] len by (simp_all add: n_def)
    have lim: "start + n \<le> USER_VA_LIMIT" using c(2) D(1) by (simp add: vm_ok_def layout_ok_def)
    have e: "wrap64 (start + n) = start + n" using lim by simp
    have nwx: "\<not> wx prot" using a(1) by (simp add: map_args_ok_def wx_def)
    let ?nv = "\<lparr>va_start = start, va_end = start + n, va_prot = prot, va_flags = fl, va_obj = Some ob, va_off = off\<rparr>"
    show ?thesis
    proof (rule install_locked_cases [OF a(3) [folded n_def]])
      fix ms assume "\<not> ok" "s' = s\<lparr>vm_mem := ms\<rparr>"
      then show ?thesis using a(4) inv by simp
    next
      fix ms let ?t = "s\<lparr>vm_mem := ms\<rparr>"
      assume k: ok "s' = s\<lparr>vm_mem := ms, vm_vmas := vma_insert \<lparr>va_start = start, va_end = wrap64 (start + n), va_prot = prot, va_flags = fl, va_obj = Some ob, va_off = off\<rparr> (vm_vmas s)\<rparr>"
      have t: "vm_inv ?t (add_mset (PHold ob) P)" using inv by simp
      have "vm_inv (?t\<lparr>vm_vmas := vma_insert ?nv (vm_vmas ?t)\<rparr>) P"
      proof (rule install_inv [OF t, of ob])
        show "va_end v \<le> va_start ?nv \<or> va_end ?nv \<le> va_start v" if "v \<in> set (vm_vmas ?t)" for v
          using c(4) that by (auto simp: range_is_free_iff)
      qed (use nanon c(3,5) lim len nwx in \<open>auto simp: area_ok_def is_dying_def place_ok_def\<close>)
      then show ?thesis using k a(4) e by simp
    qed
  qed (use inv in simp)
  show ?thesis by (rule mmap_file_common [OF r]) (use inv common in auto)
qed

lemma vmo_get_inv:
  assumes inv: "vm_inv s P" and r: "vmo_get vn usable sz s = (r, s')"
  shows "case r of None \<Rightarrow> vm_inv s' P | Some ob \<Rightarrow> vm_inv s' (add_mset (PHold ob) P)"
proof -
  define ms where "ms = tl (vm_mem s)"
  obtain b s1 where m: "take_mem s = (b, s1)" by fastforce
  have s1: "s1 = s\<lparr>vm_mem := ms\<rparr>" using take_mem_state [OF m] by (simp add: ms_def)
  have i1: "vm_inv s1 P" using inv s1 by simp
  show ?thesis
  proof (cases "registry_find vn s")
    case (Some ob)
    then obtain x where x: "vm_objs s ob = Some x" "\<not> vo_anon x" by (auto simp: registry_find_def find_Some_iff split: option.splits)
    have "PMap start len prot fl ob \<notin># P" for start len prot fl using vm_invD(7) [OF inv, of "PMap start len prot fl ob"] x by auto
    then have "vm_inv (vmo_ref ob s) (add_mset (PHold ob) P)" using vmo_ref_inv [OF inv] x(1) by simp
    moreover have "r = None \<and> s' = s \<or> r = Some ob \<and> s' = vmo_ref ob s" using r Some by (simp add: vmo_get_def vmo_ref_def split: if_splits)
    ultimately show ?thesis using inv by auto
  next
    case None
    let ?x = "\<lparr>vo_refs = 1, vo_anon = False, vo_vn = vn, vo_size = sz, vo_mapper = None, vo_pages = []\<rparr>"
    have "vm_inv (s1\<lparr>vm_next := vm_next s1 + 1, vm_objs := (vm_objs s1)(vm_next s1 \<mapsto> ?x)\<rparr>) (add_mset (PHold (vm_next s1)) P)"
      by (rule new_object_inv [OF i1]) simp_all
    then show ?thesis using r None m inv i1 by (auto simp: vmo_get_def split: if_splits)
  qed
qed

text \<open>The heap grows in place; no fault may be in flight on its object.\<close>

lemma heap_extend_inv:
  assumes inv: "vm_inv s P" and r: "heap_extend old_end new_end s = (True, s')"
    and new: "old_end < new_end" "PAGE_SIZE dvd new_end" "new_end \<le> USER_VA_LIMIT" "range_is_free s old_end new_end"
    and quiet: "\<And>v p. v \<in> set (vm_vmas s) \<Longrightarrow> heap_growable s old_end v \<Longrightarrow> p \<in># P \<Longrightarrow> phold p \<noteq> va_obj v"
  shows "vm_inv s' P"
proof -
  note D = vm_invD [OF inv]
  let ?Q = "\<lambda>v. \<not> heap_growable s old_end v"
  obtain v post where c: "dropWhile ?Q (vm_vmas s) = v # post" "s' = s\<lparr>vm_vmas := takeWhile ?Q (vm_vmas s) @ v\<lparr>va_end := new_end\<rparr> # post\<rparr>"
    using r by (auto simp: heap_extend_def split: list.splits)
  define pre where "pre = takeWhile ?Q (vm_vmas s)"
  let ?w = "v\<lparr>va_end := new_end\<rparr>" let ?vs = "pre @ ?w # post"
  have vs: "vm_vmas s = pre @ v # post" using c(1) takeWhile_dropWhile_id [of ?Q "vm_vmas s"] by (simp add: pre_def)
  have v: "v \<in> set (vm_vmas s)" using vs by simp
  have hg: "heap_growable s old_end v" using hd_dropWhile [of ?Q "vm_vmas s"] c(1) by auto
  then obtain ob where ob: "va_end v = old_end" "va_obj v = Some ob" "obj_anon s ob" "\<not> is_dying v"
    by (auto simp: heap_growable_def is_dying_def split: option.splits)
  have a: "area_ok v" by (rule vmas_ok_area [OF D(2) v])
  have L: "vmas_ok pre" "vmas_ok post" "\<And>u. u \<in> set pre \<Longrightarrow> va_end u \<le> va_start v" "\<And>u. u \<in> set post \<Longrightarrow> va_end v \<le> va_start u"
      "\<And>u x. u \<in> set pre \<Longrightarrow> x \<in> set post \<Longrightarrow> va_end u \<le> va_start x"
    using D(2) unfolding vs vmas_ok_append vmas_ok_Cons by auto
  have post: "new_end \<le> va_start u" if "u \<in> set post" for u
  proof -
    have "va_end u \<le> old_end \<or> new_end \<le> va_start u" using new(4) vs that by (simp add: range_is_free_iff)
    then show ?thesis using L(4) [OF that] vmas_ok_area [OF L(2) that] ob(1) by (auto simp: area_ok_def)
  qed
  have w: "area_ok ?w" using a new ob(1) by (auto simp: area_ok_def)
  have ok: "vmas_ok ?vs" using L w post unfolding vmas_ok_append vmas_ok_Cons by auto
  have cw: "contains ?w va \<longleftrightarrow> contains v va \<or> old_end \<le> va \<and> va < new_end" for va using ob(1) new(1) a by (auto simp: contains_def area_ok_def)
  have idx: "page_index ?w = page_index v" by (simp add: page_index_def fun_eq_iff)
  have old: "slot_at ?vs va = slot_at (vm_vmas s) va" if n: "\<not> (old_end \<le> va \<and> va < new_end)" for va
  proof -
    have "slot_at ?vs va = Some (o1, j) \<longleftrightarrow> slot_at (vm_vmas s) va = Some (o1, j)" for o1 j
      unfolding slot_at_iff [OF D(2)] slot_at_iff [OF ok] using n cw idx by (auto simp: vs)
    then show ?thesis by (metis old.prod.exhaust option.exhaust)
  qed
  have out: "slot_at (vm_vmas s) va = None" if n: "old_end \<le> va" "va < new_end" for va
  proof -
    have "\<not> contains u va" if "u \<in> set (vm_vmas s)" for u using new(4) that n by (auto simp: range_is_free_iff contains_def)
    then have "slot_at (vm_vmas s) va \<noteq> Some (o1, j)" for o1 j unfolding slot_at_iff [OF D(2)] by blast
    then show ?thesis by (metis old.prod.exhaust option.exhaust)
  qed
  have grown: "o1 = ob \<and> j = page_index v va \<and> PAGE_SIZE dvd va" if n: "old_end \<le> va" "va < new_end" "slot_at ?vs va = Some (o1, j)" for va o1 j
  proof -
    have "\<not> contains u va" if "u \<in> set (vm_vmas s)" for u using new(4) that n(1,2) by (auto simp: range_is_free_iff contains_def)
    then show ?thesis using n(3) ob(2) idx vs unfolding slot_at_iff [OF ok] by auto
  qed
  have pl: "place_ok s v" using D(3) v by blast
  then obtain b where b: "obj_mapper s ob = Some b" "PAGE_SIZE dvd b" "b \<le> va_start v" "va_off v = va_start v - b" using ob by (auto simp: place_ok_def)
  have nofly: "(ob, j, ph) \<notin># wires P" for j ph using wires_hold [of ob j ph P] quiet [OF v hg] ob(2) by auto
  let ?m = "frames s P"
  have "fm_inv (?m\<lparr>sl := slot_at ?vs, dn := gone_at P\<rparr>)"
  proof (rule fm_slots [OF D(9)])
    show "slot_at ?vs va = sl ?m va \<and> \<not> gone_at P va" if "pf ?m va = Some f" for va f
    proof -
      have n: "\<not> gone_at P va" "slot_at (vm_vmas s) va \<noteq> None" using fm_invD(2) [OF D(9) that] by auto
      then have ra: "\<not> (old_end \<le> va \<and> va < new_end)" using out [of va] by auto
      show ?thesis using old [OF ra] n(1) by simp
    qed
    show "\<exists>b. mp ?m o1 = Some b \<and> va = b + j * PAGE_SIZE" if S: "slot_at ?vs va = Some (o1, j)" "an ?m o1" for va o1 j
    proof (cases "old_end \<le> va \<and> va < new_end")
      case False show ?thesis using fm_invD(3) [OF D(9), of va o1 j] S old [OF False] by simp
    next
      case True
      then have e: "o1 = ob" "j = page_index v va" "PAGE_SIZE dvd va" using grown S(1) by auto
      have "va_off v + (va - va_start v) = va - b" "va - b < 2 ^ 64" "b \<le> va" using True b a ob(1) new(3) by (auto simp: area_ok_def)
      then show ?thesis using b e by (auto simp: page_index_def wrap64_id dvd_div_mult_self)
    qed
    show "live ?m o1 j \<or> flying ?m o1 j = 0" if S: "slot_at ?vs va = Some (o1, j)" "\<not> gone_at P va" "an ?m o1" for va o1 j
    proof (cases "old_end \<le> va \<and> va < new_end")
      case False show ?thesis using S old [OF False] by (auto simp: live_def)
    next
      case True then show ?thesis using grown [of va o1 j] S(1) nofly by (simp add: flying_zero)
    qed
  qed
  moreover have "frames s' P = ?m\<lparr>sl := slot_at ?vs, dn := gone_at P\<rparr>" unfolding c(2) pre_def by (intro fm.equality) (simp_all add: fun_eq_iff)
  ultimately have fm: "fm_inv (frames s' P)" by simp
  have s': "vm_vmas s' = ?vs" using c(2) by (simp add: pre_def)
  show ?thesis
  proof (rule vm_inv_list [OF inv])
    show "filter_mset is_dying (mset (vm_vmas s')) = chains P" using D(4) ob(4) unfolding s' vs by (simp add: is_dying_def)
    show "holders (vm_vmas s') P o1 = holders (vm_vmas s) P o1" for o1 unfolding s' vs by (simp add: holders_def)
    show "\<not> wx (va_prot u) \<and> place_ok s u" if "u \<in> set (vm_vmas s')" for u using that D(3) v pl unfolding s' by (auto simp: vs place_ok_def)
    show "\<exists>u \<in> set (vm_vmas s'). contains u va \<and> perm_ok fl (va_prot u)" if pt: "vm_pt s' va = Some (f, fl)" for va f fl
    proof -
      obtain u where u: "u \<in> set (vm_vmas s)" "contains u va" "perm_ok fl (va_prot u)" using D(8) [of va f fl] pt c(2) by auto
      show ?thesis
      proof (cases "u = v")
        case True then show ?thesis unfolding s' using u cw [of va] by (intro bexI [of _ ?w]) auto
      next
        case False then show ?thesis unfolding s' using u vs by (intro bexI [of _ u]) auto
      qed
    qed
    show "vmas_ok (vm_vmas s')" using ok s' by simp
  qed (use fm c(2) in \<open>simp_all add: layout_ok_def\<close>)
qed

end
