(* ===== verification/Vma_Steps.thy ===== *)
theory Vma_Steps
  imports Vma_Sections
begin

text \<open>
  Address spaces under concurrency.  \<open>vm_step\<close> lets any thread run any locked section of
  \<open>kernel/mm/vma.c\<close> whose turn it is, and the reclaimer of \<open>kernel/mm/vm_object.c\<close> take any page, in
  any order; what a thread remembers between two sections is a \<open>pending\<close> value.  The invariant of
  \<open>Vma_Inv\<close> holds in every state reached that way, and the operations of \<open>Vma\<close> run by one thread are
  such runs.  Two traces outside the relation show where the code does break it: a heap that
  shrinks and grows again in place under a fault, and a file that is cut short while mapped.
\<close>

section \<open>Interleavings\<close>

inductive vm_step :: "vm \<times> pending multiset \<Rightarrow> vm \<times> pending multiset \<Rightarrow> bool" where
  open_file: "vmo_get vn usable sz s = (Some ob, s') \<Longrightarrow> vm_step (s, P) (s', add_mset (PHold ob) P)"
| open_fail: "vmo_get vn usable sz s = (None, s') \<Longrightarrow> vm_step (s, P) (s', P)"
| close_file: "vm_step (s, add_mset (PHold ob) P) (vmo_put ob s, P)"
| cached_io: "PHold ob \<in># P \<Longrightarrow> page_get ob i io s = (ok, s') \<Longrightarrow> vm_step (s, P) (s', P)"
| mmap_choose: "has flags MAP_ANONYMOUS \<Longrightarrow> has flags MAP_PRIVATE \<Longrightarrow> \<not> has flags MAP_SHARED \<Longrightarrow> map_args_ok s len prot flags \<Longrightarrow>
    addr < 2 ^ 63 \<Longrightarrow> map_choose addr (page_align_up len) flags s = Inr start \<Longrightarrow>
    vm_step (s, P) (s, add_mset (PPlace start (page_align_up len) prot flags) P)"
| map_at: "span_ok start len \<Longrightarrow> \<not> wx prot \<Longrightarrow> vm_step (s, P) (s, add_mset (PPlace start len prot (MAP_PRIVATE OR MAP_ANONYMOUS)) P)"
| heap_place: "heap_args old_end new_end s = None \<Longrightarrow> old_end < new_end \<Longrightarrow> heap_grow_begin old_end new_end s = (Inr False, s') \<Longrightarrow>
    vm_step (s, P) (s', add_mset (PPlace old_end (new_end - old_end) (PROT_READ OR PROT_WRITE) (MAP_PRIVATE OR MAP_ANONYMOUS)) P)"
| heap_grow: "heap_args old_end new_end s = None \<Longrightarrow> old_end < new_end \<Longrightarrow> heap_grow_begin old_end new_end s = (Inr True, s') \<Longrightarrow>
    \<forall>v \<in> set (vm_vmas s). heap_growable s old_end v \<longrightarrow> (\<forall>p \<in># P. phold p \<noteq> va_obj v) \<Longrightarrow> vm_step (s, P) (s', P)"
| place_object: "anon_object_for start len s = (Some ob, s') \<Longrightarrow>
    vm_step (s, add_mset (PPlace start len prot flags) P) (s', add_mset (PMap start len prot flags ob) P)"
| place_fail: "anon_object_for start len s = (None, s') \<Longrightarrow> vm_step (s, add_mset (PPlace start len prot flags) P) (s', P)"
| place_install: "map_install start len prot flags ob s = (r, s') \<Longrightarrow> vm_step (s, add_mset (PMap start len prot flags ob) P) (s', P)"
| map_file: "\<not> obj_anon s ob \<Longrightarrow> vma_mmap_file check len prot flags (Some ob) off may_write s = (Inr start, s') \<Longrightarrow>
    vm_step (s, add_mset (PHold ob) P) (s', P)"
| map_file_fail: "\<not> obj_anon s ob \<Longrightarrow> vma_mmap_file check len prot flags (Some ob) off may_write s = (Inl e, s') \<Longrightarrow>
    vm_step (s, add_mset (PHold ob) P) (s', add_mset (PHold ob) P)"
| unmap_begin: "addr < 2 ^ 64 \<Longrightarrow> munmap_begin addr len s = (Inr ds, s') \<Longrightarrow> vm_step (s, P) (s', add_mset (PUnmap [] ds) P)"
| unmap_fail: "addr < 2 ^ 64 \<Longrightarrow> munmap_begin addr len s = (Inl e, s') \<Longrightarrow> vm_step (s, P) (s', P)"
| unmap_one: "vm_step (s, add_mset (PUnmap gone (d # todo)) P) (unmap_area d s, add_mset (PUnmap (gone @ [d]) todo) P)"
| unmap_finish: "vm_step (s, add_mset (PUnmap gone []) P) (munmap_finish gone s, P)"
| protect_checked: "addr < 2 ^ 64 \<Longrightarrow> protect_check check addr len prot s = Inr hi \<Longrightarrow> vm_step (s, P) (s, add_mset (PProtect addr hi prot) P)"
| protect_applied: "protect_apply addr hi prot s = (r, s') \<Longrightarrow> vm_step (s, add_mset (PProtect addr hi prot) P) (s', P)"
| fault_cow: "PAGE_SIZE dvd page \<Longrightarrow> vm_fault_begin page wr ex s = (FCow ob i already, s') \<Longrightarrow> vm_step (s, P) (s', add_mset (PCow page ob i already) P)"
| fault_wire: "PAGE_SIZE dvd page \<Longrightarrow> vm_fault_begin page wr ex s = (FWire ob i flags, s') \<Longrightarrow> vm_step (s, P) (s', add_mset (PWire page ob i flags) P)"
| cow_copy: "vm_fault_copy page ob i already (vmo_page_phys s ob i) s = ((copied, ret), s') \<Longrightarrow>
    vm_step (s, add_mset (PCow page ob i already) P) (s', add_mset (if copied then PUnwire ob i already else PHold ob) P)"
| wire_page: "vmo_wire_page ob i io s = (phys, s') \<Longrightarrow>
    vm_step (s, add_mset (PWire page ob i flags) P) (s', add_mset (PWired page ob i flags phys) P)"
| wire_enter: "vm_fault_enter page ob i flags phys s = ((entered, retry, dirty), s') \<Longrightarrow>
    vm_step (s, add_mset (PWired page ob i flags phys) P) (s', add_mset (fault_left ob i phys entered dirty) P)"
| give_pin: "vm_step (s, add_mset (PUnwire ob i phys) P) (vmo_unwire_page ob i s, add_mset (PHold ob) P)"
| mark_dirty: "vm_step (s, add_mset (PDirty ob i) P) (vmo_mark_dirty ob i s, add_mset (PHold ob) P)"
| reclaim_file: "vm_step (s, P) (reclaim_file_page ob i s, P)"
| reclaim_anon: "vm_step (s, P) (reclaim_anon_page ob i slot s, P)"

definition vm_init :: "vm \<Rightarrow> bool" where
  "vm_init s \<longleftrightarrow> vm_vmas s = [] \<and> vm_pt s = Map.empty \<and> vm_objs s = Map.empty \<and> layout_ok s \<and> distinct (vm_frames s) \<and> 0 \<notin> set (vm_frames s)"

lemma vm_init_inv:
  assumes "vm_init s"
  shows "vm_inv s {#}"
proof -
  have "fm_inv (frames s {#})"
    by (rule fm_invI) (use assms in \<open>auto simp: vm_init_def ff_def page_find_def obj_anon_def wires_def slot_at_def\<close>)
  then show ?thesis using assms
    by (auto simp: vm_init_def vm_inv_def vm_ok_def chains_def obj_ok_def holders_def keys_ok_def)
qed

lemma heap_span:
  assumes "vm_inv s P" "heap_args old_end new_end s = None" "old_end < new_end"
  shows "span_ok old_end (new_end - old_end)" "PAGE_SIZE dvd new_end" "new_end \<le> USER_VA_LIMIT"
  using assms vm_invD(1) [OF assms(1)] by (auto simp: heap_args_def span_ok_def vm_ok_def layout_ok_def dvd_eq_mod_eq_0 [symmetric] split: if_splits)

lemma heap_begin:
  assumes "heap_grow_begin old_end new_end s = (Inr b, s')"
  shows "range_is_free s old_end new_end" "heap_extend old_end new_end s = (b, s')"
  using assms by (auto simp: heap_grow_begin_def split: if_splits prod.splits)

lemma heap_extend_False: "heap_extend old_end new_end s = (False, s') \<Longrightarrow> s' = s"
  by (auto simp: heap_extend_def split: list.splits)

lemma map_choose_span:
  assumes inv: "vm_inv s P" and args: "map_args_ok s len prot flags" "addr < 2 ^ 63" and c: "map_choose addr (page_align_up len) flags s = Inr start"
  shows "span_ok start (page_align_up len)" "\<not> wx prot" "\<not> has flags VMA_DYING"
proof -
  note D = vm_invD [OF inv]
  have l: "0 < page_align_up len" "page_align_up len \<le> USER_VA_LIMIT" "\<not> has flags VMA_DYING" using map_args_len [OF D(1) args(1)] by auto
  then show "\<not> has flags VMA_DYING" "\<not> wx prot" using args(1) by (simp_all add: map_args_ok_def wx_def)
  show "span_ok start (page_align_up len)"
    using map_choose_ok [OF D(1) c l(1) page_align_up_dvd l(2) args(2)] l D(1) by (auto simp: span_ok_def vm_ok_def layout_ok_def)
qed

lemma protect_check_span:
  assumes "protect_check check addr len prot s = Inr hi" "addr < 2 ^ 64"
  shows "PAGE_SIZE dvd addr" "PAGE_SIZE dvd hi" "\<not> wx prot"
proof -
  have h: "hi = wrap64 (addr + page_align_up len)" "\<not> hi < addr" "addr mod PAGE_SIZE = 0" "\<not> wx prot"
    using assms(1) by (auto simp: protect_check_def Let_def wx_def split: if_splits sum.splits)
  then show "\<not> wx prot" "PAGE_SIZE dvd addr" by (auto simp: dvd_eq_mod_eq_0)
  have "hi = addr + page_align_up len" using range_end [OF _ page_align_up_less assms(2), of len] h by simp
  then show "PAGE_SIZE dvd hi" using \<open>PAGE_SIZE dvd addr\<close> by simp
qed

lemma vm_step_inv:
  assumes "vm_step c c'" "vm_inv (fst c) (snd c)"
  shows "vm_inv (fst c') (snd c')"
  using assms
proof (cases rule: vm_step.cases)
  case (mmap_choose flags s len prot addr start P)
  then show ?thesis using assms(2) map_choose_span [of s P len prot flags addr start] by (simp add: vm_inv_idle)
next
  case (heap_place old_end new_end s s' P)
  then have "s' = s" "vm_inv s P" using assms(2) heap_begin(2) [of old_end new_end s False s'] heap_extend_False by auto
  then show ?thesis using heap_place heap_span(1) [of s P old_end new_end] by (simp add: vm_inv_idle wx_def)
next
  case (heap_grow old_end new_end s s' P)
  then have inv: "vm_inv s P" using assms(2) by simp
  show ?thesis unfolding heap_grow
    using heap_extend_inv [OF inv heap_begin(2) [OF heap_grow(5)] heap_grow(4) heap_span(2,3) [OF inv heap_grow(3,4)] heap_begin(1) [OF heap_grow(5)]] heap_grow(6) by simp
next
  case (protect_checked addr check len prot s hi P)
  then show ?thesis using assms(2) protect_check_span [of check addr len prot s hi] by (simp add: vm_inv_idle)
next
  case (protect_applied addr hi prot s r s' P)
  then have "vm_inv s P" "pend_ok s (PProtect addr hi prot)" using assms(2) by (simp_all add: vm_inv_idle)
  then show ?thesis using protect_applied protect_apply_inv [of s P addr hi prot r s'] by simp
next
  case (place_object start len s ob s' prot flags P)
  then show ?thesis using assms(2) anon_object_inv [of s start len prot flags P "Some ob" s'] by simp
next
  case (place_fail start len s s' prot flags P)
  then show ?thesis using assms(2) anon_object_inv [of s start len prot flags P None s'] by simp
next
  case (cached_io ob P i io s ok s')
  then show ?thesis using assms(2) page_get_inv [of s P ob i io ok s'] pend_object [of s P "PHold ob" ob] by simp
next
  case (unmap_begin addr len s ds s' P)
  then show ?thesis using assms(2) munmap_begin_inv [of s P addr len "Inr ds" s'] by simp
next
  case (unmap_fail addr len s e s' P)
  then show ?thesis using assms(2) munmap_begin_inv [of s P addr len "Inl e" s'] by simp
next
  case (map_file s ob check len prot flags off may_write start s' P)
  then show ?thesis using assms(2) mmap_file_inv [of s ob P check len prot flags off may_write "Inr start" s'] by simp
next
  case (map_file_fail s ob check len prot flags off may_write e s' P)
  then show ?thesis using assms(2) mmap_file_inv [of s ob P check len prot flags off may_write "Inl e" s'] by simp
next
  case (cow_copy page ob i already s copied ret s' P)
  then show ?thesis using fault_copy_inv [of s page ob i already P copied ret s'] assms(2) by simp
next
  case (fault_cow page wr ex s ob i already s' P)
  then show ?thesis using assms(2) fault_begin_inv [of s P page wr ex "FCow ob i already" s'] by simp
next
  case (fault_wire page wr ex s ob i flags s' P)
  then show ?thesis using assms(2) fault_begin_inv [of s P page wr ex "FWire ob i flags" s'] by simp
next
  case (open_file vn usable sz s ob s' P)
  then show ?thesis using assms(2) vmo_get_inv [of s P vn usable sz "Some ob" s'] by simp
next
  case (open_fail vn usable sz s s' P)
  then show ?thesis using assms(2) vmo_get_inv [of s P vn usable sz None s'] by simp
next
  case (map_at start len prot s P)
  then show ?thesis using assms(2) by (simp add: vm_inv_idle)
qed (use assms(2) in \<open>auto intro: vmo_put_inv map_install_inv unmap_area_inv munmap_finish_inv fault_copy_inv wire_inv fault_enter_inv unwire_inv dirty_inv reclaim_file_inv reclaim_anon_inv\<close>)

lemma vm_steps_inv: "vm_step\<^sup>*\<^sup>* c c' \<Longrightarrow> vm_inv (fst c) (snd c) \<Longrightarrow> vm_inv (fst c') (snd c')"
  by (induction rule: rtranclp_induct) (auto intro: vm_step_inv)

lemma reachable_inv: "vm_init s0 \<Longrightarrow> vm_step\<^sup>*\<^sup>* (s0, {#}) (s, P) \<Longrightarrow> vm_inv s P"
  using vm_steps_inv [of "(s0, {#})" "(s, P)"] vm_init_inv by simp


section \<open>Operations as sequences of sections\<close>

lemma fold_sections: "vm_step\<^sup>*\<^sup>* (s, add_mset (PUnmap g ds) P) (fold unmap_area ds s, add_mset (PUnmap (g @ ds) []) P)"
proof (induction ds arbitrary: g s)
  case (Cons d ds)
  have "vm_step (s, add_mset (PUnmap g (d # ds)) P) (unmap_area d s, add_mset (PUnmap (g @ [d]) ds) P)" by (rule unmap_one)
  then show ?case using Cons.IH [of "unmap_area d s" "g @ [d]"] by (simp add: converse_rtranclp_into_rtranclp)
qed simp

lemma munmap_sections:
  assumes "addr < 2 ^ 64" "vma_munmap addr len s = (r, s')"
  shows "vm_step\<^sup>*\<^sup>* (s, P) (s', P)"
proof -
  obtain b s1 where b: "munmap_begin addr len s = (b, s1)" by fastforce
  show ?thesis
  proof (cases b)
    case (Inl e)
    then show ?thesis using assms b vm_step.unmap_fail [of addr len s e s1 P] by (auto simp: vma_munmap_def)
  next
    case (Inr ds)
    let ?s2 = "fold unmap_area ds s1"
    have "vm_step (s, P) (s1, add_mset (PUnmap [] ds) P)" using assms(1) b Inr by (simp add: vm_step.unmap_begin)
    moreover have "vm_step\<^sup>*\<^sup>* (s1, add_mset (PUnmap [] ds) P) (?s2, add_mset (PUnmap ds []) P)" using fold_sections [of s1 "[]" ds P] by simp
    moreover have "vm_step (?s2, add_mset (PUnmap ds []) P) (s', P)" using assms(2) b Inr unmap_finish [of ?s2 ds P] by (simp add: vma_munmap_def)
    ultimately show ?thesis by (meson converse_rtranclp_into_rtranclp rtranclp.rtrancl_into_rtrancl rtranclp_trans)
  qed
qed

lemma mprotect_sections:
  assumes "addr < 2 ^ 64" "vma_mprotect check addr len prot s = (r, s')"
  shows "vm_step\<^sup>*\<^sup>* (s, P) (s', P)"
proof (cases "protect_check check addr len prot s")
  case (Inl e)
  then show ?thesis using assms by (simp add: vma_mprotect_def)
next
  case (Inr hi)
  then have "vm_step (s, P) (s, add_mset (PProtect addr hi prot) P)" "vm_step (s, add_mset (PProtect addr hi prot) P) (s', P)"
    using assms by (auto simp: vma_mprotect_def intro: protect_checked protect_applied)
  then show ?thesis by (meson r_into_rtranclp rtranclp.rtrancl_into_rtrancl)
qed

lemma step_left:
  assumes "\<not> dirty \<or> entered"
  shows "vm_step\<^sup>*\<^sup>* (s, add_mset (fault_left ob i ph entered dirty) P)
    (vmo_put ob (if dirty then vmo_mark_dirty ob i (if ph \<noteq> 0 \<and> \<not> entered then vmo_unwire_page ob i s else s)
       else (if ph \<noteq> 0 \<and> \<not> entered then vmo_unwire_page ob i s else s)), P)"
proof -
  consider "ph \<noteq> 0" "\<not> entered" "\<not> dirty" | "ph = 0 \<or> entered" dirty | "ph = 0 \<or> entered" "\<not> dirty"
    using assms by (cases dirty; cases entered; cases "ph = 0") simp_all
  then show ?thesis
  proof cases
    case 1
    have "vm_step (s, add_mset (PUnwire ob i ph) P) (vmo_unwire_page ob i s, add_mset (PHold ob) P)" by (rule give_pin)
    then show ?thesis using 1 close_file [of "vmo_unwire_page ob i s" ob P] by (simp add: fault_left_def converse_rtranclp_into_rtranclp)
  next
    case 2
    have "vm_step (s, add_mset (PDirty ob i) P) (vmo_mark_dirty ob i s, add_mset (PHold ob) P)" by (rule mark_dirty)
    then show ?thesis using 2 close_file [of "vmo_mark_dirty ob i s" ob P] by (auto simp: fault_left_def converse_rtranclp_into_rtranclp)
  next
    case 3
    then show ?thesis using close_file [of s ob P] by (auto simp: fault_left_def)
  qed
qed

lemma fault_sections:
  assumes "vm_fault_resolve addr wr ex io s = (r, s')"
  shows "vm_step\<^sup>*\<^sup>* (s, P) (s', P)"
proof -
  let ?page = "addr div PAGE_SIZE * PAGE_SIZE"
  obtain n s1 where b: "vm_fault_begin ?page wr ex s = (n, s1)" by fastforce
  show ?thesis
  proof (cases n)
    case (FCow ob i already)
    obtain copied ret s2 where c: "vm_fault_copy ?page ob i already (vmo_page_phys s1 ob i) s1 = ((copied, ret), s2)" by (metis surj_pair)
    have s': "s' = vmo_put ob (if copied then vmo_unwire_page ob i s2 else s2)"
      using assms b FCow c by (auto simp: vm_fault_resolve_def vm_fault_cow_def)
    have 1: "vm_step (s, P) (s1, add_mset (PCow ?page ob i already) P)" using b FCow by (auto intro: fault_cow)
    have 2: "vm_step (s1, add_mset (PCow ?page ob i already) P) (s2, add_mset (if copied then PUnwire ob i already else PHold ob) P)"
      by (rule cow_copy [OF c])
    have 3: "vm_step\<^sup>*\<^sup>* (s2, add_mset (if copied then PUnwire ob i already else PHold ob) P) (s', P)"
      using give_pin [of s2 ob i already P] close_file [of "vmo_unwire_page ob i s2" ob P] close_file [of s2 ob P]
      by (auto simp: s' intro: converse_rtranclp_into_rtranclp)
    show ?thesis by (rule converse_rtranclp_into_rtranclp [OF 1 converse_rtranclp_into_rtranclp [OF 2 3]])
  next
    case (FWire ob i fl)
    obtain ph s2 where w: "vmo_wire_page ob i io s1 = (ph, s2)" by fastforce
    obtain entered retry dirty s3 where e: "vm_fault_enter ?page ob i fl ph s2 = ((entered, retry, dirty), s3)" by (metis surj_pair)
    have d: "\<not> dirty \<or> entered" using e by (auto simp: vm_fault_enter_def Let_def split: option.splits if_splits prod.splits)
    have s': "s' = vmo_put ob (if dirty then vmo_mark_dirty ob i (if ph \<noteq> 0 \<and> \<not> entered then vmo_unwire_page ob i s3 else s3)
       else (if ph \<noteq> 0 \<and> \<not> entered then vmo_unwire_page ob i s3 else s3))"
      using assms b FWire w e by (auto simp: vm_fault_resolve_def vm_fault_finish_def Let_def)
    have 1: "vm_step (s, P) (s1, add_mset (PWire ?page ob i fl) P)" using b FWire by (auto intro: fault_wire)
    note 2 = wire_page [OF w, of ?page fl P] and 3 = wire_enter [OF e, of P] and 4 = step_left [OF d, of s3 ob i ph P]
    show ?thesis unfolding s'
      by (rule converse_rtranclp_into_rtranclp [OF 1 converse_rtranclp_into_rtranclp [OF 2 converse_rtranclp_into_rtranclp [OF 3 4]]])
  qed (use assms b in \<open>auto simp: vm_fault_resolve_def vm_fault_begin_def Let_def split: option.splits if_splits\<close>)
qed

lemma place_sections:
  assumes "anon_object_for start len s = (r, s1)"
  shows "case r of None \<Rightarrow> vm_step\<^sup>*\<^sup>* (s, add_mset (PPlace start len prot fl) P) (s1, P)
    | Some ob \<Rightarrow> vm_step\<^sup>*\<^sup>* (s, add_mset (PPlace start len prot fl) P) (snd (map_install start len prot fl ob s1), P)"
proof (cases r)
  case None
  then show ?thesis using assms place_fail [of start len s s1 prot fl P] by auto
next
  case (Some ob)
  have "vm_step (s, add_mset (PPlace start len prot fl) P) (s1, add_mset (PMap start len prot fl ob) P)"
    "vm_step (s1, add_mset (PMap start len prot fl ob) P) (snd (map_install start len prot fl ob s1), P)"
    using assms Some by (auto intro: place_object place_install [of start len prot fl ob s1 "fst (map_install start len prot fl ob s1)"])
  then show ?thesis using Some by (simp add: converse_rtranclp_into_rtranclp)
qed

lemma mmap_loop_sections:
  assumes "map_anon_loop n addr (page_align_up len) prot fl s = (r, s')" "map_args_ok s len prot fl" "addr < 2 ^ 63"
    "has fl MAP_ANONYMOUS" "has fl MAP_PRIVATE" "\<not> has fl MAP_SHARED"
  shows "vm_step\<^sup>*\<^sup>* (s, P) (s', P)"
  using assms(1,2)
proof (induction n arbitrary: s)
  case (Suc n)
  let ?len = "page_align_up len"
  show ?case
  proof (cases "map_choose addr ?len fl s")
    case (Inl e) then show ?thesis using Suc.prems by simp
  next
    case (Inr start)
    have c: "vm_step (s, P) (s, add_mset (PPlace start ?len prot fl) P)" using Suc.prems(2) assms(3-6) Inr by (simp add: mmap_choose)
    obtain ro s1 where o: "anon_object_for start ?len s = (ro, s1)" by fastforce
    note S = place_sections [OF o, of prot fl P]
    show ?thesis
    proof (cases ro)
      case None
      then show ?thesis using Suc.prems Inr o S c by (simp add: converse_rtranclp_into_rtranclp)
    next
      case (Some ob)
      obtain ri s2 where i: "map_install start ?len prot fl ob s1 = (ri, s2)" by fastforce
      have to2: "vm_step\<^sup>*\<^sup>* (s, P) (s2, P)" using S c Some i by (simp add: converse_rtranclp_into_rtranclp)
      show ?thesis
      proof (cases "ri = None \<and> \<not> has fl MAP_FIXED")
        case False
        then have "s' = s2" using Suc.prems(1) Inr o Some i by (auto split: option.splits bool.splits if_splits)
        then show ?thesis using to2 by simp
      next
        case True
        then have l: "map_anon_loop n addr ?len prot fl s2 = (r, s')" using Suc.prems(1) Inr o Some i by simp
        have "same_list s s1" using same_list_object_for [of s start ?len] o by simp
        moreover have "same_list s1 s2" using i True by (auto simp: map_install_def Let_def split: if_splits prod.splits)
        ultimately have "map_args_ok s2 len prot fl" using Suc.prems(2) by (simp add: map_args_ok_def same_list_def)
        then show ?thesis using Suc.IH [OF l] to2 by simp
      qed
    qed
  qed
qed simp

lemma mmap_sections:
  assumes "addr < 2 ^ 63" "vma_mmap addr len prot fl s = (r, s')"
  shows "vm_step\<^sup>*\<^sup>* (s, P) (s', P)"
  using assms mmap_loop_sections [of 8 addr len prot fl s r s' P] by (auto simp: vma_mmap_def vma_map_common_def Let_def split: if_splits)


section \<open>Properties\<close>

lemma vm0_init: "vm_init vm0"
  by (simp add: vm_init_def vm0_def layout_ok_def)

lemmas fault_run = vm_fault_resolve_def vm_fault_begin_def vmm_get_phys_in_def page_index_def vmo_ref_def upd_obj_def
  vmo_wire_page_def page_get_def page_find_def page_fill_def pmm_take_def pmm_give_def take_mem_def upd_page_def vmo_page_phys_def
  vm_fault_finish_def vm_fault_enter_def fault_same_def vmm_map_in_def vmo_put_def obj_anon_def vmo_mark_dirty_def vmo_unwire_page_def has_def wrap64_def Let_def

text \<open>One page mapped and touched.\<close>

definition vm1 :: vm where
  "vm1 = snd (vma_mmap 0 4096 (PROT_READ OR PROT_WRITE) (MAP_PRIVATE OR MAP_ANONYMOUS) vm0)"

definition vm2 :: vm where
  "vm2 = snd (vm_fault_resolve 0x500000000000 True False True vm1)"

lemma vm1_eval: "vm1 = vm0\<lparr>vm_vmas := [\<lparr>va_start = 0x500000000000, va_end = 0x500000001000, va_prot = 3, va_flags = 0x22, va_obj = Some 1, va_off = 0\<rparr>],
    vm_objs := [1 \<mapsto> \<lparr>vo_refs = 1, vo_anon = True, vo_vn = 0, vo_size = 4096, vo_mapper = Some 0x500000000000, vo_pages = []\<rparr>], vm_next := 2,
    vm_mem := drop 2 (vm_mem vm0)\<rparr>"
  by (simp add: vm1_def vm0_def vma_run)

lemma vm2_pt: "vm_pt vm2 0x500000000000 = Some (4096, prot_to_vmm 3)"
  by (simp add: vm2_def vm1_eval vm0_def fault_run)

lemma vm2_reach: "vm_step\<^sup>*\<^sup>* (vm0, {#}) (vm2, {#})"
proof -
  have "vm_step\<^sup>*\<^sup>* (vm0, {#}) (vm1, {#})" by (rule mmap_sections [where addr = 0]) (simp_all add: vm1_def prod_eq_iff)
  moreover have "vm_step\<^sup>*\<^sup>* (vm1, {#}) (vm2, {#})" by (rule fault_sections) (simp add: vm2_def prod_eq_iff)
  ultimately show ?thesis by (rule rtranclp_trans)
qed

text \<open>
  C2: isolation in the interleavings of \<open>vm_step\<close>.  Threads map, unmap, protect, grow the heap and
  fault, and the reclaimer takes pages in between, in any order of the locked sections, with three
  exceptions: the heap is not grown in place while another thread is between two sections on the
  object behind it, files are not truncated, and the cache's answer in a copy-on-write fault is
  still current when it is used.  Then a page-table entry lies in a mapping that allows its permissions and is
  never writable and executable; its frame is not free; and it shows the page of the object that
  is mapped there, or else a private copy of a file page that no other entry and no object has.
  The first two exceptions are needed: \<open>heap_regrow_maps_free_frame\<close> and
  \<open>truncate_frees_mapped_frame\<close>.
\<close>

theorem vm_isolation:
  assumes "vm_init s0" "vm_step\<^sup>*\<^sup>* (s0, {#}) (s, P)" "vm_pt s va = Some (f, fl)"
  shows "f \<notin> set (vm_frames s) \<and> \<not> (has fl VMM_WRITABLE \<and> has fl VMM_EXEC) \<and>
    (\<exists>v ob. v \<in> set (vm_vmas s) \<and> contains v va \<and> va_obj v = Some ob \<and> perm_ok fl (va_prot v) \<and>
      (vmo_page_phys s ob (page_index v va) = f \<or>
       \<not> obj_anon s ob \<and> (\<forall>va' fl'. vm_pt s va' = Some (f, fl') \<longrightarrow> va' = va) \<and> (\<forall>ob i. vmo_page_phys s ob i \<noteq> f)))"
proof -
  note inv = reachable_inv [OF assms(1,2)]
  note D = vm_invD [OF inv]
  have pf: "pf (frames s P) va = Some f" using assms(3) by simp
  obtain v where v: "v \<in> set (vm_vmas s)" "contains v va" "perm_ok fl (va_prot v)" using D(8) [OF assms(3)] by blast
  obtain ob where ob: "va_obj v = Some ob" using D(3) [OF v(1)] by (auto simp: place_ok_def)
  have f0: "f \<noteq> 0" "slot_at (vm_vmas s) va \<noteq> None" using fm_invD(2) [OF D(9) pf] by auto
  then have "PAGE_SIZE dvd va" by (simp add: slot_at_def split: if_splits)
  then have sl: "sl (frames s P) va = Some (ob, page_index v va)" using v ob slot_at_iff [OF D(2)] by auto
  have ff: "ff (frames s P) o1 i = Some f \<longleftrightarrow> vmo_page_phys s o1 i = f" for o1 i
    using f0(1) by (auto simp: ff_def vmo_page_phys_def split: option.splits)
  have "vmo_page_phys s ob (page_index v va) = f \<or>
       \<not> obj_anon s ob \<and> (\<forall>va' fl'. vm_pt s va' = Some (f, fl') \<longrightarrow> va' = va) \<and> (\<forall>ob i. vmo_page_phys s ob i \<noteq> f)"
    using fm_invD(7) [OF D(9) pf sl] unfolding ff own_copy_def by force
  moreover have "\<not> wx (va_prot v)" using D(3) [OF v(1)] by blast
  ultimately show ?thesis using fm_entry_not_free [OF D(9) pf] v ob by (auto simp: perm_ok_def wx_def)
qed

theorem vm_isolation_witness:
  "vm_pt vm2 0x500000000000 = Some (4096, prot_to_vmm 3) \<and> 4096 \<notin> set (vm_frames vm2) \<and>
   \<not> (has (prot_to_vmm 3) VMM_WRITABLE \<and> has (prot_to_vmm 3) VMM_EXEC)"
  using vm_isolation [OF vm0_init vm2_reach vm2_pt] vm2_pt by simp

text \<open>
  C6: the accounts of memory objects are exact, in the interleavings of \<open>vm_step\<close> (no growth of the
  heap in place under another thread's sections, no truncation, an answer of the cache that is
  still current).  An object exists exactly as long as mappings or threads refer to it, and its count
  is their number; no two pages have the same frame, none has a free one; and a page whose wire
  count is 0, which is what the reclaimer asks, is in no page table.
\<close>

theorem vm_objects_exact:
  assumes "vm_init s0" "vm_step\<^sup>*\<^sup>* (s0, {#}) (s, P)"
  shows "(\<forall>ob. case vm_objs s ob of None \<Rightarrow> holders (vm_vmas s) P ob = 0
      | Some x \<Rightarrow> vo_refs x = holders (vm_vmas s) P ob \<and> 0 < vo_refs x) \<and>
    (\<forall>ob i f. vmo_page_phys s ob i = f \<and> f \<noteq> 0 \<longrightarrow> f \<notin> set (vm_frames s) \<and> (\<forall>ob' i'. vmo_page_phys s ob' i' = f \<longrightarrow> ob' = ob \<and> i' = i)) \<and>
    (\<forall>ob i p va. page_find s ob i = Some p \<and> pg_wired p = 0 \<and> pg_phys p \<noteq> 0 \<longrightarrow> vmm_get_phys_in s va \<noteq> pg_phys p)"
proof -
  note inv = reachable_inv [OF assms]
  note D = vm_invD [OF inv]
  note F = fm_invD [OF D(9)]
  have ff: "ff (frames s P) o1 i = Some f \<longleftrightarrow> vmo_page_phys s o1 i = f" if "f \<noteq> 0" for o1 i f
    using that by (auto simp: ff_def vmo_page_phys_def split: option.splits)
  have "vmm_get_phys_in s va \<noteq> pg_phys p" if p: "page_find s ob i = Some p" "pg_wired p = 0" "pg_phys p \<noteq> 0" for ob i p va
  proof
    assume "vmm_get_phys_in s va = pg_phys p"
    then have pf: "pf (frames s P) va = Some (pg_phys p)" using get_phys_Some [of s va] p(3) by blast
    have f: "ff (frames s P) ob i = Some (pg_phys p)" using p(1) by (simp add: ff_def)
    have "va \<in> mapped (frames s P) ob i" "live (frames s P) ob i" using fm_entry_page [OF D(9) pf f] by auto
    then show False using F(8) [of ob i p] p mapped_finite [OF D(9), of ob i] by (auto simp: card_eq_0_iff)
  qed
  moreover have "f \<notin> set (vm_frames s) \<and> (\<forall>ob' i'. vmo_page_phys s ob' i' = f \<longrightarrow> ob' = ob \<and> i' = i)" if "vmo_page_phys s ob i = f \<and> f \<noteq> 0" for ob i f
    using F(5) [of ob i f] F(6) [of ob i f] ff that by auto
  moreover have "\<forall>ob. case vm_objs s ob of None \<Rightarrow> holders (vm_vmas s) P ob = 0 | Some x \<Rightarrow> vo_refs x = holders (vm_vmas s) P ob \<and> 0 < vo_refs x"
    using D(5) unfolding obj_ok_def by blast
  ultimately show ?thesis by blast
qed

theorem vm_objects_exact_witness:
  "vmo_page_phys vm2 1 0 = 4096 \<and> 4096 \<notin> set (vm_frames vm2) \<and> holders (vm_vmas vm2) {#} 2 = 0"
proof -
  have v: "vmo_page_phys vm2 1 0 = 4096" "vm_objs vm2 2 = None" by (simp_all add: vm2_def vm1_eval vm0_def fault_run)
  note E = vm_objects_exact [OF vm0_init vm2_reach]
  have "4096 \<notin> set (vm_frames vm2)" using E [THEN conjunct2, THEN conjunct1, rule_format, of 1 0 4096] v(1) by simp
  moreover have "holders (vm_vmas vm2) {#} 2 = 0" using E [THEN conjunct1, rule_format, of 2] v(2) by simp
  ultimately show ?thesis using v(1) by blast
qed

text \<open>
  The operations are their locked sections, one after the other.  Mapping, unmapping, changing
  the protection and resolving a fault, run by one thread while others are between sections, are runs
  of the step relation.
\<close>

theorem operations_are_sections:
  assumes "addr < 2 ^ 63"
  shows "vm_step\<^sup>*\<^sup>* (s, P) (snd (vma_mmap addr len prot fl s), P) \<and>
    vm_step\<^sup>*\<^sup>* (s, P) (snd (vma_munmap addr len s), P) \<and>
    vm_step\<^sup>*\<^sup>* (s, P) (snd (vma_mprotect check addr len prot s), P) \<and>
    vm_step\<^sup>*\<^sup>* (s, P) (snd (vm_fault_resolve addr wr ex io s), P)"
proof -
  have a: "addr < 2 ^ 64" using assms by simp
  show ?thesis
    using mmap_sections [OF assms, of len prot fl s "fst (vma_mmap addr len prot fl s)" "snd (vma_mmap addr len prot fl s)" P]
      munmap_sections [OF a, of len s "fst (vma_munmap addr len s)" "snd (vma_munmap addr len s)" P]
      mprotect_sections [OF a, of check len prot s "fst (vma_mprotect check addr len prot s)" "snd (vma_mprotect check addr len prot s)" P]
      fault_sections [of addr wr ex io s "fst (vm_fault_resolve addr wr ex io s)" "snd (vm_fault_resolve addr wr ex io s)" P] by simp
qed

theorem operations_are_sections_witness: "vm_step\<^sup>*\<^sup>* (vm0, {#}) (snd (vma_munmap 0x500000000000 4096 vm0), {#})"
  using operations_are_sections [where addr = "0x500000000000" and s = vm0 and P = "{#}" and len = 4096] by simp

lemmas heap_run = vma_heap_set_end_def heap_args_def heap_grow_begin_def heap_extend_def heap_growable_def
lemmas unmap_run = vma_munmap_def munmap_begin_def split_range_def vma_split_at_def cut_head_def cut_tail_def in_range_def mark_dying_def
  unmap_area_def vmo_discard_range_def anon_unmap_locked_def page_frames_def munmap_finish_def put_area_def vmm_unmap_in_def vma_unlink_def

definition heap_area :: "nat \<Rightarrow> nat \<Rightarrow> vm_area" where
  "heap_area lo hi = \<lparr>va_start = lo, va_end = hi, va_prot = 3, va_flags = 0x22, va_obj = Some 1, va_off = 0\<rparr>"

definition heap_state :: "nat \<Rightarrow> nat \<Rightarrow> (nat \<times> vmo_page) list \<Rightarrow> nat list \<Rightarrow> nat \<Rightarrow> vm" where
  "heap_state hi refs ps fs used = vm0\<lparr>vm_vmas := [heap_area 0x600000000000 hi],
     vm_objs := [1 \<mapsto> \<lparr>vo_refs = refs, vo_anon = True, vo_vn = 0, vo_size = 8192, vo_mapper = Some 0x600000000000, vo_pages = ps\<rparr>],
     vm_next := 2, vm_frames := fs, vm_mem := drop used (vm_mem vm0)\<rparr>"

lemma heap_first: "vma_heap_set_end 0x600000000000 0x600000002000 vm0 = (Inr (), heap_state 0x600000002000 1 [] [4096, 8192, 12288] 2)"
  by (simp add: heap_run vma_run heap_state_def heap_area_def vm0_def)

lemma heap_fault: "vm_fault_begin 0x600000001000 True False (heap_state 0x600000002000 1 [] [4096, 8192, 12288] 2) =
    (FWire 1 1 0x22, heap_state 0x600000002000 (Suc 1) [] [4096, 8192, 12288] 2)"
  by (simp add: fault_run heap_state_def heap_area_def vm0_def)

lemma heap_wire: "vmo_wire_page 1 1 True (heap_state 0x600000002000 (Suc 1) [] [4096, 8192, 12288] 2) =
    (4096, heap_state 0x600000002000 (Suc 1) [(1, \<lparr>pg_phys = 4096, pg_slot = 0, pg_dirty = False, pg_wired = 1\<rparr>)] [8192, 12288] 3)"
  by (simp add: fault_run heap_state_def vm0_def)

lemma heap_shrink:
  "vma_heap_set_end 0x600000002000 0x600000001000 (heap_state 0x600000002000 (Suc 1) [(1, \<lparr>pg_phys = 4096, pg_slot = 0, pg_dirty = False, pg_wired = 1\<rparr>)] [8192, 12288] 3) =
    (Inr (), heap_state 0x600000001000 (Suc 1) [] [4096, 8192, 12288] 4)"
  by (simp add: heap_run vma_run unmap_run vmo_ref_def vmo_put_def heap_state_def heap_area_def vm0_def fun_eq_iff)

lemma heap_regrow: "vma_heap_set_end 0x600000001000 0x600000002000 (heap_state 0x600000001000 (Suc 1) [] [4096, 8192, 12288] 4) =
    (Inr (), heap_state 0x600000002000 (Suc 1) [] [4096, 8192, 12288] 4)"
  by (simp add: heap_run vma_run heap_state_def heap_area_def vm0_def)

lemma heap_enter: "vm_fault_finish 0x600000001000 1 1 0x22 4096 (heap_state 0x600000002000 (Suc 1) [] [4096, 8192, 12288] 4) =
    (True, (heap_state 0x600000002000 1 [] [4096, 8192, 12288] 5)\<lparr>vm_pt := [0x600000001000 \<mapsto> (4096, prot_to_vmm 3)]\<rparr>)"
  by (simp add: fault_run heap_state_def heap_area_def vm0_def)

text \<open>
  C35: growing the heap in place is not safe against a fault in flight.  A thread faults on the last
  heap page and has it wired; another shrinks the heap by that page, which frees the frame, and
  grows it again, which extends the same mapping of the same object; the first thread finds mapping,
  object and index unchanged and enters the frame, which is free and will be handed out again.
\<close>

theorem heap_regrow_maps_free_frame:
  "let s1 = snd (vma_heap_set_end 0x600000000000 0x600000002000 vm0);
       (n, s2) = vm_fault_begin 0x600000001000 True False s1;
       (phys, s3) = vmo_wire_page 1 1 True s2;
       s4 = snd (vma_heap_set_end 0x600000002000 0x600000001000 s3);
       s5 = snd (vma_heap_set_end 0x600000001000 0x600000002000 s4);
       (r, s6) = vm_fault_finish 0x600000001000 1 1 0x22 phys s5
   in n = FWire 1 1 0x22 \<and> r \<and> vmm_get_phys_in s6 0x600000001000 = phys \<and> phys \<in> set (vm_frames s6)"
  by (simp only: Let_def heap_first heap_fault heap_wire heap_shrink heap_regrow heap_enter prod.case snd_conv)
    (simp add: heap_state_def vmm_get_phys_in_def)

text \<open>
  C36: cutting a file short frees pages that are mapped.  After a file page has been mapped and
  touched, \<open>vmo_truncated\<close> gives its frame back while the page table still shows it.
\<close>

theorem truncate_frees_mapped_frame:
  "let (o1, s1) = vmo_get 7 True 4096 vm0;
       (m, s2) = vma_mmap_file (\<lambda>_. None) 4096 PROT_READ MAP_SHARED o1 0 True s1;
       (r, s3) = vm_fault_resolve 0x500000000000 False False True s2;
       s4 = vmo_truncated 1 0 s3
   in o1 = Some 1 \<and> m = Inr 0x500000000000 \<and> r \<and> vmm_get_phys_in s4 0x500000000000 = 4096 \<and> 4096 \<in> set (vm_frames s4)"
  by (simp add: vm0_def vmo_get_def registry_find_def vma_mmap_file_def vmo_check_write_def vma_run fault_run
      vmo_truncated_def truncate_locked_def page_frames_def)

end
