(* ===== verification/Sched.thy ===== *)
theory Sched
  imports Waitq
begin

text \<open>
  Threads, processes and scheduling policies: the tables of \<open>kernel/process/process.c\<close>, the wait
  queues on them, and the two policies \<open>kernel/process/sched_rr.c\<close> and \<open>sched_deadline.c\<close>.

  A thread and a process are records in two tables, and the pointers between them are indices.
  An intrusive list is the list of its members, held where the code holds its head.  The clock is
  part of the state.  What the code keeps for display only (lifetimes, dispatch counts, migration
  history) and the saved registers have no place in the model.
\<close>

section \<open>State\<close>

datatype process_state = PROCESS_UNUSED | PROCESS_READY | PROCESS_RUNNING | PROCESS_BLOCKED | PROCESS_ZOMBIE

abbreviation (input) SCHED_PRIORITY_BANDS :: nat where "SCHED_PRIORITY_BANDS \<equiv> 4"
abbreviation (input) PRIORITY_REALTIME :: nat where "PRIORITY_REALTIME \<equiv> 0"
abbreviation (input) PRIORITY_NORMAL :: nat where "PRIORITY_NORMAL \<equiv> 2"
abbreviation (input) PRIORITY_BACKGROUND :: nat where "PRIORITY_BACKGROUND \<equiv> 3"
abbreviation (input) PRIORITY_AGE_TICKS :: nat where "PRIORITY_AGE_TICKS \<equiv> 20"

text \<open>
  The wait queues: the timer queue, the two queues inside process \<open>p\<close>, and all others (pipes,
  channels, futex buckets, locks), which are numbered.
\<close>

datatype wqid = SleepQ | ChildQ nat | JoinQ nat | OtherQ nat

text \<open>\<open>running_cpu\<close> and \<open>pinned_cpu\<close> are \<open>None\<close> for -1.\<close>

record thread =
  th_state :: process_state
  th_wq :: "wqid option"
  th_wake_at :: nat
  th_futex_key :: nat
  th_cpu_ns :: nat
  th_dispatched_ns :: nat
  th_period_ms :: nat
  th_deadline_ms :: nat
  th_budget_ms :: nat
  th_period_cpu_ns :: nat
  th_running :: "nat option"
  th_pinned :: "nat option"
  th_prio :: nat
  th_base :: nat
  th_ticks :: nat
  th_suspended :: bool
  th_killed :: bool
  th_in_kernel :: nat
  th_idle :: bool
  th_joinable :: bool
  th_exit_code :: int
  th_proc :: "nat option"

text \<open>What \<open>memset(t, 0, sizeof *t)\<close> leaves; core 0 is a valid core.\<close>

definition thread_zero :: thread where
  "thread_zero = \<lparr>th_state = PROCESS_UNUSED, th_wq = None, th_wake_at = 0, th_futex_key = 0, th_cpu_ns = 0,
     th_dispatched_ns = 0, th_period_ms = 0, th_deadline_ms = 0, th_budget_ms = 0, th_period_cpu_ns = 0,
     th_running = Some 0, th_pinned = Some 0, th_prio = 0, th_base = 0, th_ticks = 0, th_suspended = False,
     th_killed = False, th_in_kernel = 0, th_idle = False, th_joinable = False, th_exit_code = 0, th_proc = None\<rparr>"

record process =
  p_pid :: nat
  p_kernel :: bool
  p_cancelled :: bool
  p_intr_catch :: bool
  p_intr_pending :: nat
  p_parent :: "nat option"
  p_parent_pid :: nat
  p_children :: "nat list"
  p_zombies :: "nat list"
  p_forced :: bool
  p_exit_code :: int
  p_live :: nat
  p_threads :: "nat list"
  p_running :: "nat option"

definition process_zero :: process where
  "process_zero = \<lparr>p_pid = 0, p_kernel = False, p_cancelled = False, p_intr_catch = False, p_intr_pending = 0,
     p_parent = None, p_parent_pid = 0, p_children = [], p_zombies = [], p_forced = False, p_exit_code = 0,
     p_live = 0, p_threads = [], p_running = Some 0\<rparr>"

text \<open>What a core keeps: the thread it runs, and what it has to reap at its next decision.\<close>

record cpu =
  c_cur :: "nat option"
  c_pend_thread :: "nat option"
  c_pend_proc :: "nat option"

datatype sched_policy = RoundRobin | Deadline

text \<open>\<open>s_spaces\<close> lists the processes whose address spaces went to the worker to be destroyed.\<close>

record sys =
  s_threads :: "thread list"
  s_procs :: "process list"
  s_cpus :: "cpu list"
  s_waitq :: "wqid \<Rightarrow> wait_queue"
  s_next_pid :: nat
  s_declared :: nat
  s_policy :: sched_policy
  s_spaces :: "nat list"
  s_now_ms :: nat
  s_now_ns :: nat

definition cpu_zero :: cpu where
  "cpu_zero = \<lparr>c_cur = None, c_pend_thread = None, c_pend_proc = None\<rparr>"

text \<open>Reading the tables; the code never reads outside them.\<close>

definition thr :: "sys \<Rightarrow> nat \<Rightarrow> thread" where
  "thr s t = (if t < length (s_threads s) then s_threads s ! t else thread_zero)"

definition prc :: "sys \<Rightarrow> nat \<Rightarrow> process" where
  "prc s p = (if p < length (s_procs s) then s_procs s ! p else process_zero)"

definition cpu_of :: "sys \<Rightarrow> nat \<Rightarrow> cpu" where
  "cpu_of s c = (if c < length (s_cpus s) then s_cpus s ! c else cpu_zero)"

definition upd_thr :: "nat \<Rightarrow> (thread \<Rightarrow> thread) \<Rightarrow> sys \<Rightarrow> sys" where
  "upd_thr t f s = s\<lparr>s_threads := (s_threads s)[t := f (thr s t)]\<rparr>"

definition upd_prc :: "nat \<Rightarrow> (process \<Rightarrow> process) \<Rightarrow> sys \<Rightarrow> sys" where
  "upd_prc p f s = s\<lparr>s_procs := (s_procs s)[p := f (prc s p)]\<rparr>"

definition upd_cpu :: "nat \<Rightarrow> (cpu \<Rightarrow> cpu) \<Rightarrow> sys \<Rightarrow> sys" where
  "upd_cpu c f s = s\<lparr>s_cpus := (s_cpus s)[c := f (cpu_of s c)]\<rparr>"

section \<open>The deadline policy's periods\<close>

definition roll :: "nat \<Rightarrow> thread \<Rightarrow> thread" where
  "roll now t =
     (if th_period_ms t = 0 \<or> now < th_deadline_ms t then t
      else t\<lparr>th_deadline_ms := (if now - th_deadline_ms t \<ge> th_period_ms t then now + th_period_ms t
                                 else th_deadline_ms t + th_period_ms t),
             th_period_cpu_ns := th_cpu_ns t\<rparr>)"

definition dl_enqueue :: "nat \<Rightarrow> sys \<Rightarrow> sys" where
  "dl_enqueue t s = (if th_period_ms (thr s t) \<noteq> 0 then upd_thr t (roll (s_now_ms s)) s else s)"

section \<open>Runnability and wait queues\<close>

definition sched_set_ready :: "nat \<Rightarrow> sys \<Rightarrow> sys" where
  "sched_set_ready t s =
     (let s1 = upd_thr t (\<lambda>x. x\<lparr>th_state := PROCESS_READY\<rparr>) s in
      case s_policy s1 of RoundRobin \<Rightarrow> s1 | Deadline \<Rightarrow> dl_enqueue t s1)"

definition sched_set_blocked :: "nat \<Rightarrow> sys \<Rightarrow> sys" where
  "sched_set_blocked t = upd_thr t (\<lambda>x. x\<lparr>th_state := PROCESS_BLOCKED\<rparr>)"

definition wq_block :: "wqid \<Rightarrow> nat \<Rightarrow> sys \<Rightarrow> sys" where
  "wq_block q t s =
     (let s1 = upd_thr t (\<lambda>x. x\<lparr>th_running := None\<rparr>) (sched_set_blocked t s) in
      if th_wq (thr s1 t) = Some q then s1
      else (upd_thr t (\<lambda>x. x\<lparr>th_wq := Some q\<rparr>) s1)\<lparr>s_waitq := (s_waitq s1)(q := t # s_waitq s1 q)\<rparr>)"

definition wq_remove :: "wqid \<Rightarrow> nat \<Rightarrow> sys \<Rightarrow> sys" where
  "wq_remove q t s =
     (if t \<in> set (s_waitq s q)
      then (upd_thr t (\<lambda>x. x\<lparr>th_wq := None\<rparr>) s)\<lparr>s_waitq := (s_waitq s)(q := wait_queue_remove t (s_waitq s q))\<rparr>
      else s)"

definition wq_wake_one :: "wqid \<Rightarrow> sys \<Rightarrow> sys" where
  "wq_wake_one q s = (case s_waitq s q of [] \<Rightarrow> s | t # _ \<Rightarrow> sched_set_ready t (wq_remove q t s))"

text \<open>\<open>while (wq->head)\<close>: every round removes one thread.\<close>

definition wq_wake_all :: "wqid \<Rightarrow> sys \<Rightarrow> sys" where
  "wq_wake_all q s = fold (\<lambda>_. wq_wake_one q) (s_waitq s q) s"

text \<open>A thread that is blocked is taken off its queue and made ready.\<close>

definition wake_blocked :: "nat \<Rightarrow> sys \<Rightarrow> sys" where
  "wake_blocked t s =
     (case th_wq (thr s t) of
        Some q \<Rightarrow> if th_state (thr s t) = PROCESS_BLOCKED then sched_set_ready t (wq_remove q t s) else s
      | None \<Rightarrow> s)"

section \<open>Round robin with priority bands and aging\<close>

definition rr_age :: "nat \<Rightarrow> nat \<Rightarrow> thread \<Rightarrow> thread" where
  "rr_age cur i t =
     (if i = cur \<or> th_state t \<noteq> PROCESS_READY \<or> th_idle t \<or> th_suspended t then t
      else if th_ticks t + 1 \<ge> PRIORITY_AGE_TICKS
      then t\<lparr>th_prio := (if th_prio t > PRIORITY_REALTIME then th_prio t - 1 else th_prio t), th_ticks := 0\<rparr>
      else t\<lparr>th_ticks := th_ticks t + 1\<rparr>)"

definition rr_tick :: "nat \<Rightarrow> sys \<Rightarrow> sys" where
  "rr_tick cur s = s\<lparr>s_threads := map (\<lambda>i. rr_age cur i (thr s i)) [0..<length (s_threads s)]\<rparr>"

text \<open>May core \<open>c\<close>, which runs \<open>cur\<close>, dispatch thread \<open>i\<close>?\<close>

definition dispatchable :: "nat \<Rightarrow> nat \<Rightarrow> nat \<Rightarrow> thread \<Rightarrow> bool" where
  "dispatchable c cur i t \<longleftrightarrow>
     \<not> (th_pinned t \<noteq> None \<and> th_pinned t \<noteq> Some c) \<and> \<not> th_suspended t \<and>
     \<not> (i \<noteq> cur \<and> th_running t \<noteq> None) \<and>
     (th_state t = PROCESS_READY \<or> i = cur \<and> th_state t = PROCESS_RUNNING)"

text \<open>The slots in the order of the scan: from the one after \<open>cur\<close> round to \<open>cur\<close> itself.\<close>

definition rr_order :: "nat \<Rightarrow> nat \<Rightarrow> nat list" where
  "rr_order n cur = map (\<lambda>off. (cur + off) mod n) [1..<n + 1]"

definition rr_band :: "nat \<Rightarrow> nat \<Rightarrow> nat \<Rightarrow> sys \<Rightarrow> nat option" where
  "rr_band c cur band s =
     find (\<lambda>i. dispatchable c cur i (thr s i) \<and> th_prio (thr s i) = band) (rr_order (length (s_threads s)) cur)"

fun first_some :: "('a \<Rightarrow> 'b option) \<Rightarrow> 'a list \<Rightarrow> 'b option" where
  "first_some f [] = None"
| "first_some f (x # xs) = (case f x of None \<Rightarrow> first_some f xs | Some y \<Rightarrow> Some y)"

definition rr_pick :: "nat \<Rightarrow> nat \<Rightarrow> sys \<Rightarrow> nat option" where
  "rr_pick c cur s = first_some (\<lambda>band. rr_band c cur band s) [0..<SCHED_PRIORITY_BANDS]"

section \<open>Earliest deadline first\<close>

definition spent_ns :: "thread \<Rightarrow> nat \<Rightarrow> nat" where
  "spent_ns t now =
     (if th_state t = PROCESS_RUNNING \<and> th_dispatched_ns t \<noteq> 0 \<and> now > th_dispatched_ns t
      then th_cpu_ns t + (now - th_dispatched_ns t) else th_cpu_ns t)"

definition budget_spent :: "nat \<Rightarrow> thread \<Rightarrow> bool" where
  "budget_spent now t \<longleftrightarrow> wrap64 (spent_ns t now + 2 ^ 64 - th_period_cpu_ns t) \<ge> th_budget_ms t * 1000000"

text \<open>One round of the scan; \<open>best\<close> is the most urgent thread so far.\<close>

definition dl_scan :: "nat \<Rightarrow> nat \<Rightarrow> nat \<Rightarrow> nat option \<times> sys \<Rightarrow> nat option \<times> sys" where
  "dl_scan c cur i bs =
     (case bs of (best, s) \<Rightarrow>
        if th_period_ms (thr s i) = 0 \<or> \<not> dispatchable c cur i (thr s i) then (best, s)
        else
          let s1 = upd_thr i (roll (s_now_ms s)) s in
          if budget_spent (s_now_ns s1) (thr s1 i) then (best, s1)
          else (case best of
                  None \<Rightarrow> (Some i, s1)
                | Some b \<Rightarrow> (if th_deadline_ms (thr s1 i) < th_deadline_ms (thr s1 b) then Some i else Some b, s1)))"

definition dl_pick :: "nat \<Rightarrow> nat \<Rightarrow> sys \<Rightarrow> nat option \<times> sys" where
  "dl_pick c cur s =
     (if s_declared s = 0 then (rr_pick c cur s, s)
      else
        case fold (dl_scan c cur) [0..<length (s_threads s)] (None, s) of
          (Some best, s1) \<Rightarrow> (Some best, s1)
        | (None, s1) \<Rightarrow> (rr_pick c cur s1, s1))"

definition policy_pick :: "nat \<Rightarrow> nat \<Rightarrow> sys \<Rightarrow> nat option \<times> sys" where
  "policy_pick c cur s = (case s_policy s of RoundRobin \<Rightarrow> (rr_pick c cur s, s) | Deadline \<Rightarrow> dl_pick c cur s)"

text \<open>Both policies age priorities in the same way.\<close>

definition dl_tick :: "nat \<Rightarrow> sys \<Rightarrow> sys" where
  "dl_tick cur s = rr_tick cur s"

definition policy_tick :: "nat \<Rightarrow> sys \<Rightarrow> sys" where
  "policy_tick cur s = (case s_policy s of RoundRobin \<Rightarrow> rr_tick cur s | Deadline \<Rightarrow> dl_tick cur s)"

definition sched_policy_set :: "sched_policy \<Rightarrow> sys \<Rightarrow> sys" where
  "sched_policy_set pol s = s\<lparr>s_policy := pol\<rparr>"

definition sched_policy_by_name :: "string \<Rightarrow> sched_policy option" where
  "sched_policy_by_name name =
     (if name = ''round-robin'' then Some RoundRobin else if name = ''deadline'' then Some Deadline else None)"

section \<open>Declared periods\<close>

abbreviation (input) SCHED_MIN_PERIOD_MS :: nat where "SCHED_MIN_PERIOD_MS \<equiv> 4"
abbreviation (input) SCHED_MAX_PERIOD_MS :: nat where "SCHED_MAX_PERIOD_MS \<equiv> 10000"
abbreviation (input) SCHED_MAX_RESERVED_PERMILLE :: nat where "SCHED_MAX_RESERVED_PERMILLE \<equiv> 700"

definition declares :: "thread \<Rightarrow> bool" where
  "declares t \<longleftrightarrow> th_state t \<noteq> PROCESS_UNUSED \<and> th_state t \<noteq> PROCESS_ZOMBIE \<and> th_period_ms t \<noteq> 0"

definition recount_declared_locked :: "sys \<Rightarrow> sys" where
  "recount_declared_locked s = s\<lparr>s_declared := length (filter declares (s_threads s))\<rparr>"

definition permille :: "nat \<Rightarrow> nat \<Rightarrow> nat" where
  "permille budget period = budget * 1000 div period"

definition reserved_permille_locked :: "nat option \<Rightarrow> sys \<Rightarrow> nat" where
  "reserved_permille_locked except s =
     wrap32 (sum_list (map (\<lambda>i. if except \<noteq> Some i \<and> declares (thr s i)
        then permille (th_budget_ms (thr s i)) (th_period_ms (thr s i)) else 0) [0..<length (s_threads s)]))"

text \<open>\<open>cur\<close> is the calling thread, if the core has one.\<close>

definition sched_declare_period :: "nat option \<Rightarrow> nat \<Rightarrow> nat \<Rightarrow> sys \<Rightarrow> unit res \<times> sys" where
  "sched_declare_period cur period budget s =
     (case cur of
        None \<Rightarrow> (Inl EINVAL, s)
      | Some t \<Rightarrow>
          if period = 0 then
            (Inr (), recount_declared_locked
               (upd_thr t (\<lambda>x. x\<lparr>th_period_ms := 0, th_budget_ms := 0, th_deadline_ms := 0, th_period_cpu_ns := 0\<rparr>) s))
          else if period < SCHED_MIN_PERIOD_MS \<or> period > SCHED_MAX_PERIOD_MS then (Inl EINVAL, s)
          else
            let budget1 = (if budget = 0 then (if period div 2 \<noteq> 0 then period div 2 else 1) else budget) in
            if budget1 > period then (Inl EINVAL, s)
            else if wrap32 (reserved_permille_locked (Some t) s + permille budget1 period) > SCHED_MAX_RESERVED_PERMILLE
            then (Inl EBUSY, s)
            else
              (Inr (), recount_declared_locked
                 (upd_thr t (\<lambda>x. x\<lparr>th_period_ms := period, th_budget_ms := budget1,
                    th_deadline_ms := s_now_ms s + period, th_period_cpu_ns := th_cpu_ns x\<rparr>) s)))"

end
