(* ===== verification/Process.thy ===== *)
theory Process
  imports Sched
begin

text \<open>
  The scheduling mechanism and the life of threads and processes, \<open>kernel/process/process.c\<close>:
  creation, dispatch, blocking, exit, kill, cancellation, waiting and reaping.

  Every definition is a section under the scheduler lock, performed by core \<open>c\<close>; a section that
  ends in a context switch leaves the core with another current thread.  \<open>process_wait\<close> and
  \<open>thread_join\<close> are attempts: one round of their loops, which ends in a result, in a busy retry, or
  in the caller being blocked.  Creating a process or a thread is one section: the slots it fills
  are reserved and nobody else reaches them until its last action.  Descriptors, windows, address
  spaces and kernel stacks are released by other components; the model records the hand-over of
  the address space.
\<close>

section \<open>Processes\<close>

definition process_find :: "nat \<Rightarrow> sys \<Rightarrow> nat option" where
  "process_find pid s = first_index (\<lambda>p. p_pid p = pid) (s_procs s)"

definition cur_of :: "sys \<Rightarrow> nat \<Rightarrow> nat option" where
  "cur_of s c = c_cur (cpu_of s c)"

definition cur_proc :: "sys \<Rightarrow> nat \<Rightarrow> nat option" where
  "cur_proc s c = (case cur_of s c of None \<Rightarrow> None | Some t \<Rightarrow> th_proc (thr s t))"

definition process_alive :: "nat \<Rightarrow> sys \<Rightarrow> bool" where
  "process_alive pid s \<longleftrightarrow>
     pid \<noteq> 0 \<and> (case process_find pid s of None \<Rightarrow> False | Some p \<Rightarrow> p_live (prc s p) > 0)"

definition parent_is_alive :: "sys \<Rightarrow> nat \<Rightarrow> bool" where
  "parent_is_alive s p \<longleftrightarrow>
     (case p_parent (prc s p) of
        None \<Rightarrow> False
      | Some q \<Rightarrow> p_pid (prc s q) \<noteq> 0 \<and> p_pid (prc s q) = p_parent_pid (prc s p))"

definition child_list_remove :: "nat option \<Rightarrow> nat \<Rightarrow> sys \<Rightarrow> sys" where
  "child_list_remove parent child s =
     (case parent of None \<Rightarrow> s | Some q \<Rightarrow> upd_prc q (\<lambda>x. x\<lparr>p_children := remove1 child (p_children x)\<rparr>) s)"

section \<open>Creation\<close>

definition process_alloc :: "sys \<Rightarrow> nat option \<times> sys" where
  "process_alloc s =
     (case first_index (\<lambda>p. p_pid p = 0) (s_procs s) of
        None \<Rightarrow> (None, s)
      | Some p \<Rightarrow>
          (Some p, (upd_prc p (\<lambda>x. x\<lparr>p_pid := s_next_pid s, p_live := 0, p_threads := [], p_cancelled := False,
             p_forced := False, p_intr_catch := False, p_intr_pending := 0, p_running := None\<rparr>) s)
             \<lparr>s_next_pid := wrap32 (s_next_pid s + 1)\<rparr>))"

definition thread_alloc :: "sys \<Rightarrow> nat option \<times> sys" where
  "thread_alloc s =
     (case first_index (\<lambda>t. th_state t = PROCESS_UNUSED) (s_threads s) of
        None \<Rightarrow> (None, s)
      | Some t \<Rightarrow> (Some t, upd_thr t (\<lambda>x. x\<lparr>th_state := PROCESS_BLOCKED, th_running := None, th_pinned := None\<rparr>) s))"

text \<open>\<open>stack\<close>: was there memory for a kernel stack?\<close>

definition thread_init_for :: "nat \<Rightarrow> nat \<Rightarrow> bool \<Rightarrow> sys \<Rightarrow> bool \<times> sys" where
  "thread_init_for t p stack s =
     (if \<not> stack then (False, s)
      else (True,
        upd_prc p (\<lambda>x. x\<lparr>p_threads := t # p_threads x, p_live := p_live x + 1\<rparr>)
          (upd_thr t (\<lambda>x. x\<lparr>th_proc := Some p, th_prio := PRIORITY_NORMAL, th_base := PRIORITY_NORMAL, th_idle := False,
             th_ticks := 0, th_suspended := False, th_killed := False, th_in_kernel := 0, th_wq := None,
             th_exit_code := 0\<rparr>) s)))"

definition thread_alloc_for :: "nat \<Rightarrow> bool \<Rightarrow> sys \<Rightarrow> nat option \<times> sys" where
  "thread_alloc_for p stack s =
     (case thread_alloc s of
        (None, s1) \<Rightarrow> (None, s1)
      | (Some t, s1) \<Rightarrow>
          (case thread_init_for t p stack (upd_thr t (\<lambda>x. x\<lparr>th_joinable := False\<rparr>) s1) of
             (True, s2) \<Rightarrow> (Some t, s2)
           | (False, s2) \<Rightarrow> (None, upd_thr t (\<lambda>x. x\<lparr>th_state := PROCESS_UNUSED\<rparr>) s2)))"

definition thread_create :: "nat \<Rightarrow> bool \<Rightarrow> sys \<Rightarrow> nat option \<times> sys" where
  "thread_create p stack s =
     (case thread_alloc_for p stack s of
        (Some t, s1) \<Rightarrow> (Some t, sched_set_ready t s1)
      | (None, s1) \<Rightarrow> (None, s1))"

text \<open>\<open>ustack\<close>: could the user stack be mapped?\<close>

definition thread_create_user :: "nat \<Rightarrow> bool \<Rightarrow> bool \<Rightarrow> sys \<Rightarrow> nat res \<times> sys" where
  "thread_create_user p ustack stack s =
     (case thread_alloc s of
        (None, s1) \<Rightarrow> (Inl EAGAIN, s1)
      | (Some t, s1) \<Rightarrow>
          if \<not> ustack then (Inl ENOMEM, upd_thr t (\<lambda>x. x\<lparr>th_state := PROCESS_UNUSED\<rparr>) s1)
          else
            (case thread_init_for t p stack (upd_thr t (\<lambda>x. x\<lparr>th_joinable := True\<rparr>) s1) of
               (True, s2) \<Rightarrow> (Inr t, sched_set_ready t s2)
             | (False, s2) \<Rightarrow> (Inl ENOMEM, upd_thr t (\<lambda>x. x\<lparr>th_state := PROCESS_UNUSED\<rparr>) s2)))"

definition process_create_kthread :: "nat option \<Rightarrow> bool \<Rightarrow> sys \<Rightarrow> nat option \<times> sys" where
  "process_create_kthread parent stack s =
     (case process_alloc s of
        (None, s1) \<Rightarrow> (None, s1)
      | (Some p, s1) \<Rightarrow>
          let s2 = upd_prc p (\<lambda>x. x\<lparr>p_kernel := True, p_exit_code := 0, p_parent := parent,
                 p_parent_pid := (case parent of None \<Rightarrow> 0 | Some q \<Rightarrow> p_pid (prc s1 q)),
                 p_zombies := [], p_children := []\<rparr>) s1 in
          (case thread_alloc_for p stack s2 of
             (None, s3) \<Rightarrow> (None, upd_prc p (\<lambda>x. x\<lparr>p_pid := 0\<rparr>) s3)
           | (Some t, s3) \<Rightarrow> (Some t, sched_set_ready t s3)))"

text \<open>
  A user process, \<open>create_image\<close>: \<open>built\<close> is the outcome of everything between the two tables,
  namely capabilities, namespace, address space, program, descriptors and user stack.
\<close>

definition create_image :: "nat \<Rightarrow> unit res \<Rightarrow> bool \<Rightarrow> sys \<Rightarrow> nat res \<times> sys" where
  "create_image c built stack s =
     (case process_alloc s of
        (None, s1) \<Rightarrow> (Inl ENOMEM, s1)
      | (Some p, s1) \<Rightarrow>
          let parent = cur_proc s1 c;
              s2 = upd_prc p (\<lambda>x. x\<lparr>p_kernel := False, p_parent := parent,
                 p_parent_pid := (case parent of None \<Rightarrow> 0 | Some q \<Rightarrow> p_pid (prc s1 q)),
                 p_zombies := [], p_children := [], p_exit_code := 0\<rparr>) s1 in
          case built of
            Inl e \<Rightarrow> (Inl e, upd_prc p (\<lambda>x. x\<lparr>p_pid := 0\<rparr>) s2)
          | Inr _ \<Rightarrow>
              (case thread_alloc_for p stack s2 of
                 (None, s3) \<Rightarrow> (Inl EIO, upd_prc p (\<lambda>x. x\<lparr>p_pid := 0\<rparr>) s3)
               | (Some t, s3) \<Rightarrow>
                   let s4 = (case parent of None \<Rightarrow> s3 | Some q \<Rightarrow> upd_prc q (\<lambda>x. x\<lparr>p_children := p # p_children x\<rparr>) s3) in
                   (Inr (p_pid (prc s4 p)), sched_set_ready t s4)))"

definition process_create_idle_for_cpu :: "nat \<Rightarrow> bool \<Rightarrow> sys \<Rightarrow> nat option \<times> sys" where
  "process_create_idle_for_cpu c stack s =
     (case process_create_kthread None stack s of
        (None, s1) \<Rightarrow> (None, s1)
      | (Some t, s1) \<Rightarrow>
          (Some t, upd_thr t (\<lambda>x. x\<lparr>th_pinned := Some c, th_prio := PRIORITY_BACKGROUND,
             th_base := PRIORITY_BACKGROUND, th_idle := True\<rparr>) s1))"

definition process_adopt_current :: "nat \<Rightarrow> sys \<Rightarrow> nat option \<times> sys" where
  "process_adopt_current c s =
     (case process_alloc s of
        (None, s1) \<Rightarrow> (None, s1)
      | (Some p, s1) \<Rightarrow>
          (case thread_alloc s1 of
             (None, s2) \<Rightarrow> (None, upd_prc p (\<lambda>x. x\<lparr>p_pid := 0\<rparr>) s2)
           | (Some t, s2) \<Rightarrow>
               (Some t, upd_cpu c (\<lambda>x. x\<lparr>c_cur := Some t\<rparr>)
                  (upd_prc p (\<lambda>x. x\<lparr>p_kernel := True, p_live := 1, p_threads := [t]\<rparr>)
                     (upd_thr t (\<lambda>x. x\<lparr>th_proc := Some p, th_prio := PRIORITY_NORMAL, th_base := PRIORITY_NORMAL,
                        th_ticks := 0, th_wq := None, th_running := Some c, th_pinned := Some c,
                        th_state := PROCESS_RUNNING\<rparr>) s2)))))"

definition process_init :: "nat \<Rightarrow> nat \<Rightarrow> nat \<Rightarrow> sys" where
  "process_init nthreads nprocs ncpus =
     \<lparr>s_threads = replicate nthreads thread_zero, s_procs = replicate nprocs process_zero,
      s_cpus = replicate ncpus cpu_zero, s_waitq = (\<lambda>_. []),
      s_next_pid = 1, s_declared = 0, s_policy = Deadline, s_spaces = [], s_now_ms = 0, s_now_ns = 0\<rparr>"

section \<open>Reaping\<close>

definition thread_reap_slot :: "nat \<Rightarrow> sys \<Rightarrow> sys" where
  "thread_reap_slot t s =
     (if th_state (thr s t) \<noteq> PROCESS_ZOMBIE then s
      else
        let s1 = upd_thr t (\<lambda>_. thread_zero) s in
        if th_period_ms (thr s t) \<noteq> 0 then recount_declared_locked s1 else s1)"

definition reap_claimed :: "nat \<Rightarrow> sys \<Rightarrow> bool" where
  "reap_claimed t s \<longleftrightarrow> list_ex (\<lambda>x. c_pend_thread x = Some t) (s_cpus s)"

definition reap_orphan :: "nat \<Rightarrow> nat \<Rightarrow> sys \<Rightarrow> sys" where
  "reap_orphan p t s =
     (if th_state (thr s t) \<noteq> PROCESS_ZOMBIE \<or> th_proc (thr s t) \<noteq> Some p \<or> th_running (thr s t) \<noteq> None then s
      else if reap_claimed t s then s
      else thread_reap_slot t s)"

definition process_reap_slot :: "nat \<Rightarrow> sys \<Rightarrow> sys" where
  "process_reap_slot p s =
     (let s1 = s\<lparr>s_spaces := p_pid (prc s p) # s_spaces s\<rparr>;
          s2 = fold (reap_orphan p) [0..<length (s_threads s1)] s1;
          s3 = upd_prc p (\<lambda>_. process_zero) s2
      in s3\<lparr>s_waitq := (s_waitq s3)(ChildQ p := [], JoinQ p := [])\<rparr>)"

section \<open>The end of a thread\<close>

text \<open>
  The first result is the process that nobody will wait for and that has to be reaped once no
  core stands on it any more.
\<close>

definition thread_zombie_locked :: "nat \<Rightarrow> sys \<Rightarrow> nat option \<times> sys" where
  "thread_zombie_locked t s =
     (case th_proc (thr s t) of
        None \<Rightarrow> (None, s)
      | Some p \<Rightarrow>
          let s1 =
            (if t \<in> set (p_threads (prc s p)) then
               wq_wake_all (JoinQ p)
                 (upd_prc p (\<lambda>x. x\<lparr>p_threads := remove1 t (p_threads x), p_live := p_live x - 1,
                    p_running := (if p_live x - 1 = 0 then th_running (thr s t) else p_running x)\<rparr>) s)
             else s) in
          if p_live (prc s1 p) > 0 then (None, s1)
          else
            let s2 = child_list_remove (p_parent (prc s1 p)) p s1 in
            if parent_is_alive s2 p then
              let q = the (p_parent (prc s2 p)) in
              if p \<in> set (p_zombies (prc s2 q)) then (None, s2)
              else (None, wq_wake_all (ChildQ q) (upd_prc q (\<lambda>x. x\<lparr>p_zombies := p # p_zombies x\<rparr>) s2))
            else (Some p, s2))"

section \<open>The switch\<close>

text \<open>The reaping a core put off until it stood on another stack.\<close>

definition reap_pending :: "nat \<Rightarrow> sys \<Rightarrow> sys" where
  "reap_pending c s =
     (let s1 = (case c_pend_thread (cpu_of s c) of
            None \<Rightarrow> s
          | Some t \<Rightarrow> thread_reap_slot t (upd_cpu c (\<lambda>x. x\<lparr>c_pend_thread := None\<rparr>) s))
      in case c_pend_proc (cpu_of s1 c) of
           None \<Rightarrow> s1
         | Some p \<Rightarrow> process_reap_slot p (upd_cpu c (\<lambda>x. x\<lparr>c_pend_proc := None\<rparr>) s1))"

text \<open>A killed thread found in user mode, and a killed kernel thread, die here.\<close>

definition die_if_killed :: "nat \<Rightarrow> sys \<Rightarrow> sys" where
  "die_if_killed t s =
     (let x = thr s t in
      if th_state x = PROCESS_RUNNING \<and> th_killed x \<and>
         (th_in_kernel x = 0 \<or> (case th_proc x of None \<Rightarrow> False | Some p \<Rightarrow> p_kernel (prc s p)))
      then upd_thr t (\<lambda>x. x\<lparr>th_exit_code := -1, th_state := PROCESS_ZOMBIE\<rparr>) s
      else s)"

text \<open>A block that did not happen is undone.\<close>

definition undo_block :: "nat \<Rightarrow> nat \<Rightarrow> sys \<Rightarrow> sys" where
  "undo_block c t s =
     (if th_state (thr s t) = PROCESS_BLOCKED then
        let s1 = (case th_wq (thr s t) of None \<Rightarrow> s | Some q \<Rightarrow> wq_remove q t s) in
        upd_thr t (\<lambda>x. x\<lparr>th_state := PROCESS_RUNNING, th_running := Some c, th_wake_at := 0, th_futex_key := 0\<rparr>) s1
      else s)"

text \<open>Leaving \<open>prev\<close>.\<close>

definition switch_from :: "nat \<Rightarrow> sys \<Rightarrow> sys" where
  "switch_from prev s =
     (case th_state (thr s prev) of
        PROCESS_RUNNING \<Rightarrow> upd_thr prev (\<lambda>x. x\<lparr>th_running := None\<rparr>) (sched_set_ready prev s)
      | PROCESS_ZOMBIE \<Rightarrow>
          let s1 = upd_thr prev (\<lambda>x. x\<lparr>th_running := None\<rparr>) s in
          (case th_proc (thr s1 prev) of
             None \<Rightarrow> s1
           | Some p \<Rightarrow> if p_live (prc s1 p) = 0 then upd_prc p (\<lambda>x. x\<lparr>p_running := None\<rparr>) s1 else s1)
      | _ \<Rightarrow> s)"

text \<open>Billing \<open>prev\<close> and dispatching \<open>next\<close> on core \<open>c\<close>.\<close>

definition switch_to :: "nat \<Rightarrow> nat \<Rightarrow> nat \<Rightarrow> sys \<Rightarrow> sys" where
  "switch_to c prev nxt s =
     (let now = s_now_ns s;
          s1 = upd_thr prev (\<lambda>x. if th_dispatched_ns x \<noteq> 0 \<and> now > th_dispatched_ns x
                 then x\<lparr>th_cpu_ns := th_cpu_ns x + (now - th_dispatched_ns x)\<rparr> else x) s;
          s2 = upd_thr nxt (\<lambda>x. x\<lparr>th_dispatched_ns := now, th_state := PROCESS_RUNNING, th_running := Some c,
                 th_ticks := 0, th_prio := th_base x\<rparr>) s1
      in upd_cpu c (\<lambda>x. x\<lparr>c_cur := Some nxt\<rparr>) s2)"

text \<open>A core that leaves a dead thread for good reaps it at its next decision, unless it may still be joined.\<close>

definition defer_reap :: "nat \<Rightarrow> nat \<Rightarrow> nat option \<Rightarrow> sys \<Rightarrow> sys" where
  "defer_reap c t dying_proc s =
     (if th_joinable (thr s t) \<and> dying_proc = None then s
      else upd_cpu c (\<lambda>x. x\<lparr>c_pend_thread := Some t, c_pend_proc := dying_proc\<rparr>) s)"

definition schedule_locked :: "nat \<Rightarrow> sys \<Rightarrow> sys" where
  "schedule_locked c s =
     (case cur_of s c of
        None \<Rightarrow> s
      | Some cur \<Rightarrow>
          let s1 = die_if_killed cur (policy_tick cur (reap_pending c s));
              dying = th_state (thr s1 cur) = PROCESS_ZOMBIE;
              (dying_proc, s2) = (if dying then thread_zombie_locked cur s1 else (None, s1));
              (nxt, s3) = policy_pick c cur s2
          in case nxt of
               None \<Rightarrow> undo_block c cur s3
             | Some n \<Rightarrow>
                 if n = cur then undo_block c cur s3
                 else switch_to c cur n (switch_from cur (if dying then defer_reap c cur dying_proc s3 else s3)))"

section \<open>Sleeping\<close>

definition wake_expired :: "nat \<Rightarrow> sys \<Rightarrow> sys" where
  "wake_expired t s =
     (if th_wake_at (thr s t) \<noteq> 0 \<and> s_now_ms s \<ge> th_wake_at (thr s t)
      then sched_set_ready t (upd_thr t (\<lambda>x. x\<lparr>th_wake_at := 0\<rparr>) (wq_remove SleepQ t s))
      else s)"

definition wake_expired_locked :: "sys \<Rightarrow> sys" where
  "wake_expired_locked s = fold wake_expired (s_waitq s SleepQ) s"

definition schedule :: "nat \<Rightarrow> sys \<Rightarrow> sys" where
  "schedule c s = (case cur_of s c of None \<Rightarrow> s | Some _ \<Rightarrow> schedule_locked c (wake_expired_locked s))"

definition sched_block_current_locked :: "nat \<Rightarrow> wqid \<Rightarrow> sys \<Rightarrow> sys" where
  "sched_block_current_locked c q s =
     (case cur_of s c of None \<Rightarrow> s | Some t \<Rightarrow> schedule_locked c (wq_block q t s))"

text \<open>One round of the loop in \<open>sched_sleep_ms\<close>; \<open>True\<close> when the sleep is over.\<close>

definition sched_sleep_ms :: "nat \<Rightarrow> nat \<Rightarrow> sys \<Rightarrow> bool \<times> sys" where
  "sched_sleep_ms c deadline s =
     (case cur_of s c of
        None \<Rightarrow> (True, s)
      | Some t \<Rightarrow>
          if s_now_ms s \<ge> deadline then (True, s)
          else (False, sched_block_current_locked c SleepQ (upd_thr t (\<lambda>x. x\<lparr>th_wake_at := deadline\<rparr>) s)))"

section \<open>Cancellation, interrupts, kill\<close>

definition process_cancel_locked :: "nat \<Rightarrow> sys \<Rightarrow> unit res \<times> sys" where
  "process_cancel_locked pid s =
     (case process_find pid s of
        None \<Rightarrow> (Inl EINVAL, s)
      | Some p \<Rightarrow>
          if p_live (prc s p) = 0 then (Inr (), s)
          else (Inr (), fold wake_blocked (p_threads (prc s p)) (upd_prc p (\<lambda>x. x\<lparr>p_cancelled := True\<rparr>) s)))"

definition process_cancel :: "nat \<Rightarrow> sys \<Rightarrow> unit res \<times> sys" where
  "process_cancel pid s = process_cancel_locked pid s"

text \<open>\<open>Inr False\<close>: the process does not catch interrupts, and the caller cancels it instead.\<close>

definition process_raise_interrupt :: "nat \<Rightarrow> sys \<Rightarrow> bool res \<times> sys" where
  "process_raise_interrupt pid s =
     (case process_find pid s of
        None \<Rightarrow> (Inl EINVAL, s)
      | Some p \<Rightarrow>
          if \<not> p_intr_catch (prc s p) then (Inr False, s)
          else if p_live (prc s p) = 0 then (Inr True, s)
          else (Inr True, fold wake_blocked (p_threads (prc s p))
                  (upd_prc p (\<lambda>x. x\<lparr>p_intr_pending := wrap32 (p_intr_pending x + 1)\<rparr>) s)))"

definition process_set_intr_catch :: "nat \<Rightarrow> bool \<Rightarrow> sys \<Rightarrow> sys" where
  "process_set_intr_catch c on s =
     (case cur_proc s c of
        None \<Rightarrow> s
      | Some p \<Rightarrow> upd_prc p (\<lambda>x. x\<lparr>p_intr_catch := on, p_intr_pending := (if on then p_intr_pending x else 0)\<rparr>) s)"

definition process_take_interrupts :: "nat \<Rightarrow> sys \<Rightarrow> nat \<times> sys" where
  "process_take_interrupts c s =
     (case cur_proc s c of
        None \<Rightarrow> (0, s)
      | Some p \<Rightarrow> (p_intr_pending (prc s p), upd_prc p (\<lambda>x. x\<lparr>p_intr_pending := 0\<rparr>) s))"

definition process_is_cancelled :: "nat \<Rightarrow> sys \<Rightarrow> bool res" where
  "process_is_cancelled pid s =
     (case process_find pid s of None \<Rightarrow> Inl EINVAL | Some p \<Rightarrow> Inr (p_cancelled (prc s p)))"

definition mark_killed :: "nat option \<Rightarrow> nat \<Rightarrow> sys \<Rightarrow> sys" where
  "mark_killed cur t s =
     (if cur = Some t \<or> th_state (thr s t) = PROCESS_ZOMBIE then s
      else wake_blocked t (upd_thr t (\<lambda>x. x\<lparr>th_killed := True, th_suspended := False\<rparr>) s))"

definition end_every_thread_locked :: "nat \<Rightarrow> nat \<Rightarrow> int \<Rightarrow> sys \<Rightarrow> sys" where
  "end_every_thread_locked c p code s =
     (let s1 = upd_prc p (\<lambda>x. x\<lparr>p_exit_code := code, p_cancelled := True\<rparr>) s;
          threads = p_threads (prc s1 p);
          s2 = fold (mark_killed (cur_of s c)) threads s1
      in case cur_of s c of
           None \<Rightarrow> s2
         | Some t \<Rightarrow>
             if t \<in> set threads then
               schedule_locked c
                 (if th_state (thr s2 t) \<noteq> PROCESS_ZOMBIE
                  then snd (thread_zombie_locked t (upd_thr t (\<lambda>x. x\<lparr>th_state := PROCESS_ZOMBIE\<rparr>) s2))
                  else s2)
             else s2)"

definition process_kill_code :: "nat \<Rightarrow> nat \<Rightarrow> int \<Rightarrow> sys \<Rightarrow> sys" where
  "process_kill_code c pid code s =
     (case process_find pid s of
        None \<Rightarrow> s
      | Some p \<Rightarrow>
          if p_live (prc s p) = 0 then s
          else end_every_thread_locked c p code (upd_prc p (\<lambda>x. x\<lparr>p_forced := True\<rparr>) s))"

definition process_kill :: "nat \<Rightarrow> nat \<Rightarrow> sys \<Rightarrow> sys" where
  "process_kill c pid s = process_kill_code c pid (-1) s"

definition process_exit_self :: "nat \<Rightarrow> int \<Rightarrow> sys \<Rightarrow> sys" where
  "process_exit_self c code s =
     (case cur_proc s c of None \<Rightarrow> s | Some p \<Rightarrow> end_every_thread_locked c p code s)"

definition thread_exit_self :: "nat \<Rightarrow> int \<Rightarrow> sys \<Rightarrow> sys" where
  "thread_exit_self c code s =
     (case (cur_of s c, cur_proc s c) of
        (Some t, Some p) \<Rightarrow>
          schedule c (upd_thr t (\<lambda>x. x\<lparr>th_exit_code := code, th_state := PROCESS_ZOMBIE\<rparr>)
            (upd_prc p (\<lambda>x. x\<lparr>p_exit_code := code\<rparr>) s))
      | _ \<Rightarrow> s)"

definition thread_die_killed :: "nat \<Rightarrow> sys \<Rightarrow> sys" where
  "thread_die_killed c s =
     (case cur_of s c of
        None \<Rightarrow> s
      | Some t \<Rightarrow> schedule c (upd_thr t (\<lambda>x. x\<lparr>th_exit_code := -1, th_state := PROCESS_ZOMBIE\<rparr>) s))"

definition process_abort_spawn :: "nat \<Rightarrow> nat \<Rightarrow> sys \<Rightarrow> sys" where
  "process_abort_spawn c pid s =
     (case (process_find pid s, cur_proc s c) of
        (Some p, Some me) \<Rightarrow>
          if p_parent (prc s p) \<noteq> Some me \<or> p_parent_pid (prc s p) \<noteq> p_pid (prc s me) then s
          else
            let s1 = child_list_remove (Some me) p s;
                s2 = upd_prc me (\<lambda>x. x\<lparr>p_zombies := remove1 p (p_zombies x)\<rparr>) s1;
                s3 = upd_prc p (\<lambda>x. x\<lparr>p_parent := None, p_parent_pid := 0\<rparr>) s2 in
            if p_live (prc s3 p) = 0 then (if p_running (prc s3 p) = None then process_reap_slot p s3 else s3)
            else end_every_thread_locked c p (-1) (upd_prc p (\<lambda>x. x\<lparr>p_forced := True\<rparr>) s3)
      | _ \<Rightarrow> s)"

section \<open>Waiting\<close>

datatype 'a attempt = Returns 'a | Retries | Blocks

definition frozen :: "sys \<Rightarrow> nat \<Rightarrow> bool" where
  "frozen s p \<longleftrightarrow>
     (let live = filter (\<lambda>t. th_state (thr s t) \<noteq> PROCESS_ZOMBIE \<and> th_state (thr s t) \<noteq> PROCESS_UNUSED) (p_threads (prc s p))
      in live \<noteq> [] \<and> list_all (\<lambda>t. th_suspended (thr s t)) live)"

definition process_wait :: "nat \<Rightarrow> nat \<Rightarrow> sys \<Rightarrow> int res attempt \<times> sys" where
  "process_wait c pid s =
     (case cur_proc s c of
        None \<Rightarrow> (Returns (Inl ECHILD), s)
      | Some me \<Rightarrow>
          (case find (\<lambda>z. p_pid (prc s z) = pid) (p_zombies (prc s me)) of
             Some z \<Rightarrow>
               if p_running (prc s z) \<noteq> None then (Retries, s)
               else (Returns (Inr (p_exit_code (prc s z))),
                     process_reap_slot z (upd_prc me (\<lambda>x. x\<lparr>p_zombies := remove1 z (p_zombies x)\<rparr>) s))
           | None \<Rightarrow>
               if p_cancelled (prc s me) then (Returns (Inl ECANCELED), s)
               else
                 (case process_find pid s of
                    None \<Rightarrow> (Returns (Inl ECHILD), s)
                  | Some p \<Rightarrow>
                      if p_parent (prc s p) \<noteq> Some me then (Returns (Inl ECHILD), s)
                      else if p_live (prc s p) > 0 \<and> frozen s p then (Returns (Inl ESTOPPED), s)
                      else (Blocks, sched_block_current_locked c (ChildQ me) s))))"

definition thread_by_tid :: "nat \<Rightarrow> nat \<Rightarrow> sys \<Rightarrow> nat option" where
  "thread_by_tid p tid s =
     (if tid \<ge> length (s_threads s) then None
      else if th_proc (thr s tid) \<noteq> Some p \<or> th_state (thr s tid) = PROCESS_UNUSED then None
      else Some tid)"

definition thread_join :: "nat \<Rightarrow> nat \<Rightarrow> sys \<Rightarrow> int res attempt \<times> sys" where
  "thread_join c tid s =
     (case cur_proc s c of
        None \<Rightarrow> (Returns (Inl EINVAL), s)
      | Some p \<Rightarrow>
          (case thread_by_tid p tid s of
             None \<Rightarrow> (Returns (Inl EINVAL), s)
           | Some t \<Rightarrow>
               if \<not> th_joinable (thr s t) then (Returns (Inl EINVAL), s)
               else if th_state (thr s t) = PROCESS_ZOMBIE then
                 (if th_running (thr s t) \<noteq> None then (Retries, s)
                  else (Returns (Inr (th_exit_code (thr s t))), thread_reap_slot t s))
               else if p_cancelled (prc s p) then (Returns (Inl ECANCELED), s)
               else (Blocks, sched_block_current_locked c (JoinQ p) s)))"

section \<open>Control\<close>

definition process_set_priority :: "nat \<Rightarrow> nat \<Rightarrow> sys \<Rightarrow> unit res \<times> sys" where
  "process_set_priority pid prio s =
     (case process_find pid s of
        None \<Rightarrow> (Inl ECHILD, s)
      | Some p \<Rightarrow>
          let b = (if prio > PRIORITY_BACKGROUND then PRIORITY_BACKGROUND else prio) in
          (Inr (), fold (\<lambda>t. upd_thr t (\<lambda>x. x\<lparr>th_prio := b, th_base := b, th_ticks := 0\<rparr>)) (p_threads (prc s p)) s))"

definition set_process_suspended :: "nat \<Rightarrow> bool \<Rightarrow> sys \<Rightarrow> sys" where
  "set_process_suspended pid val s =
     (if pid = 0 then s
      else case process_find pid s of
        None \<Rightarrow> s
      | Some p \<Rightarrow>
          fold (\<lambda>t s. if th_pinned (thr s t) \<noteq> None then s else upd_thr t (\<lambda>x. x\<lparr>th_suspended := val\<rparr>) s)
            (p_threads (prc s p)) s)"

definition set_thread_suspended :: "nat \<Rightarrow> bool \<Rightarrow> sys \<Rightarrow> sys" where
  "set_thread_suspended tid val s =
     (if tid \<ge> length (s_threads s) then s
      else if th_state (thr s tid) = PROCESS_UNUSED \<or> th_pinned (thr s tid) \<noteq> None then s
      else upd_thr tid (\<lambda>x. x\<lparr>th_suspended := val\<rparr>) s)"

definition process_wake_child_waiters :: "nat \<Rightarrow> sys \<Rightarrow> sys" where
  "process_wake_child_waiters pid s =
     (case process_find pid s of None \<Rightarrow> s | Some p \<Rightarrow> wq_wake_all (ChildQ p) s)"

end
