(* ===== verification/Sched_Inv.thy ===== *)
theory Sched_Inv
  imports Process
begin

text \<open>
  The invariant of the thread and process tables of \<open>kernel/process/process.c\<close>: which thread runs
  on which core, who waits on which queue, which threads a process has, where the dead are kept,
  and that every core has an idle thread.  Waking, blocking and dying keep it.
\<close>

section \<open>Reading updated states\<close>

abbreviation "nthr s \<equiv> length (s_threads s)"
abbreviation "nprc s \<equiv> length (s_procs s)"
abbreviation "ncpu s \<equiv> length (s_cpus s)"

lemma thr_upd_thr: "thr (upd_thr t f s) t' = (if t' = t \<and> t < nthr s then f (thr s t) else thr s t')"
  by (cases "t < nthr s") (auto simp: thr_def upd_thr_def not_less list_update_beyond)

lemma prc_upd_prc: "prc (upd_prc p f s) p' = (if p' = p \<and> p < nprc s then f (prc s p) else prc s p')"
  by (cases "p < nprc s") (auto simp: prc_def upd_prc_def not_less list_update_beyond)

lemma cpu_upd_cpu: "cpu_of (upd_cpu c f s) c' = (if c' = c \<and> c < ncpu s then f (cpu_of s c) else cpu_of s c')"
  by (cases "c < ncpu s") (auto simp: cpu_of_def upd_cpu_def not_less list_update_beyond)

lemma upd_thr_frame [simp]:
  "nthr (upd_thr t f s) = nthr s" "s_procs (upd_thr t f s) = s_procs s" "s_cpus (upd_thr t f s) = s_cpus s"
  "s_waitq (upd_thr t f s) = s_waitq s" "s_next_pid (upd_thr t f s) = s_next_pid s" "s_declared (upd_thr t f s) = s_declared s"
  "s_policy (upd_thr t f s) = s_policy s" "s_spaces (upd_thr t f s) = s_spaces s" "s_now_ms (upd_thr t f s) = s_now_ms s"
  "s_now_ns (upd_thr t f s) = s_now_ns s" "prc (upd_thr t f s) = prc s" "cpu_of (upd_thr t f s) = cpu_of s" "cur_of (upd_thr t f s) = cur_of s"
  by (auto simp: upd_thr_def prc_def cpu_of_def cur_of_def fun_eq_iff)

lemma upd_prc_frame [simp]:
  "nprc (upd_prc p f s) = nprc s" "s_threads (upd_prc p f s) = s_threads s" "s_cpus (upd_prc p f s) = s_cpus s"
  "s_waitq (upd_prc p f s) = s_waitq s" "s_next_pid (upd_prc p f s) = s_next_pid s" "s_declared (upd_prc p f s) = s_declared s"
  "s_policy (upd_prc p f s) = s_policy s" "s_spaces (upd_prc p f s) = s_spaces s" "s_now_ms (upd_prc p f s) = s_now_ms s"
  "s_now_ns (upd_prc p f s) = s_now_ns s" "thr (upd_prc p f s) = thr s" "cpu_of (upd_prc p f s) = cpu_of s" "cur_of (upd_prc p f s) = cur_of s"
  by (auto simp: upd_prc_def thr_def cpu_of_def cur_of_def fun_eq_iff)

lemma upd_cpu_frame [simp]:
  "ncpu (upd_cpu c f s) = ncpu s" "s_threads (upd_cpu c f s) = s_threads s" "s_procs (upd_cpu c f s) = s_procs s"
  "s_waitq (upd_cpu c f s) = s_waitq s" "s_next_pid (upd_cpu c f s) = s_next_pid s" "s_declared (upd_cpu c f s) = s_declared s"
  "s_policy (upd_cpu c f s) = s_policy s" "s_spaces (upd_cpu c f s) = s_spaces s" "s_now_ms (upd_cpu c f s) = s_now_ms s"
  "s_now_ns (upd_cpu c f s) = s_now_ns s" "thr (upd_cpu c f s) = thr s" "prc (upd_cpu c f s) = prc s"
  by (auto simp: upd_cpu_def thr_def prc_def fun_eq_iff)

lemma waitq_upd_frame [simp]:
  "thr (s\<lparr>s_waitq := w\<rparr>) = thr s" "prc (s\<lparr>s_waitq := w\<rparr>) = prc s" "cpu_of (s\<lparr>s_waitq := w\<rparr>) = cpu_of s" "cur_of (s\<lparr>s_waitq := w\<rparr>) = cur_of s"
  by (auto simp: thr_def prc_def cpu_of_def cur_of_def fun_eq_iff)

lemma spaces_upd_frame [simp]:
  "thr (s\<lparr>s_spaces := w\<rparr>) = thr s" "prc (s\<lparr>s_spaces := w\<rparr>) = prc s" "cpu_of (s\<lparr>s_spaces := w\<rparr>) = cpu_of s" "cur_of (s\<lparr>s_spaces := w\<rparr>) = cur_of s"
  by (auto simp: thr_def prc_def cpu_of_def cur_of_def fun_eq_iff)

lemma declared_upd_frame [simp]:
  "thr (s\<lparr>s_declared := w\<rparr>) = thr s" "prc (s\<lparr>s_declared := w\<rparr>) = prc s" "cpu_of (s\<lparr>s_declared := w\<rparr>) = cpu_of s" "cur_of (s\<lparr>s_declared := w\<rparr>) = cur_of s"
  by (auto simp: thr_def prc_def cpu_of_def cur_of_def fun_eq_iff)

lemma recount_frame [simp]:
  "s_threads (recount_declared_locked s) = s_threads s" "s_procs (recount_declared_locked s) = s_procs s"
  "s_cpus (recount_declared_locked s) = s_cpus s" "s_waitq (recount_declared_locked s) = s_waitq s"
  "s_next_pid (recount_declared_locked s) = s_next_pid s" "s_policy (recount_declared_locked s) = s_policy s"
  "s_spaces (recount_declared_locked s) = s_spaces s" "thr (recount_declared_locked s) = thr s"
  "prc (recount_declared_locked s) = prc s" "cpu_of (recount_declared_locked s) = cpu_of s" "cur_of (recount_declared_locked s) = cur_of s"
  by (auto simp: recount_declared_locked_def thr_def prc_def cpu_of_def cur_of_def fun_eq_iff)

lemma roll_frame [simp]:
  "th_state (roll n t) = th_state t" "th_wq (roll n t) = th_wq t" "th_running (roll n t) = th_running t" "th_pinned (roll n t) = th_pinned t"
  "th_prio (roll n t) = th_prio t" "th_base (roll n t) = th_base t" "th_suspended (roll n t) = th_suspended t" "th_killed (roll n t) = th_killed t"
  "th_idle (roll n t) = th_idle t" "th_joinable (roll n t) = th_joinable t" "th_proc (roll n t) = th_proc t" "th_period_ms (roll n t) = th_period_ms t"
  by (auto simp: roll_def)

section \<open>The invariant\<close>

text \<open>
  \<open>X\<close> names the core that is inside a scheduling decision, if any.  Its current thread may be blocked
  or dead already; every other core's current thread is running.
\<close>

definition dying :: "nat option \<Rightarrow> sys \<Rightarrow> nat \<Rightarrow> bool" where
  "dying X s t \<longleftrightarrow> (\<exists>c. X = Some c \<and> cur_of s c = Some t \<and> th_state (thr s t) = PROCESS_ZOMBIE)"

definition alive :: "thread \<Rightarrow> bool" where
  "alive t \<longleftrightarrow> th_state t \<noteq> PROCESS_UNUSED \<and> th_state t \<noteq> PROCESS_ZOMBIE"

definition prio_ok :: "thread \<Rightarrow> bool" where
  "prio_ok t \<longleftrightarrow> th_prio t < SCHED_PRIORITY_BANDS \<and> th_base t < SCHED_PRIORITY_BANDS"

text \<open>Cores and threads: who runs where.\<close>

definition run_ok :: "nat option \<Rightarrow> sys \<Rightarrow> bool" where
  "run_ok X s \<longleftrightarrow>
     (\<forall>c t. cur_of s c = Some t \<longrightarrow>
        th_state (thr s t) = PROCESS_RUNNING \<and> th_running (thr s t) = Some c \<or>
        X = Some c \<and> (th_state (thr s t) = PROCESS_BLOCKED \<and> th_running (thr s t) = None \<or>
                        th_state (thr s t) = PROCESS_ZOMBIE \<and> th_running (thr s t) = Some c)) \<and>
     (\<forall>t c. th_state (thr s t) \<noteq> PROCESS_UNUSED \<and> th_running (thr s t) = Some c \<longrightarrow>
        cur_of s c = Some t \<and> (th_state (thr s t) = PROCESS_RUNNING \<or> dying X s t) \<and>
        (th_pinned (thr s t) = None \<or> th_pinned (thr s t) = Some c)) \<and>
     (\<forall>t. th_state (thr s t) = PROCESS_RUNNING \<longrightarrow> th_running (thr s t) \<noteq> None)"

text \<open>Wait queues hold exactly the blocked threads.\<close>

definition queue_ok :: "sys \<Rightarrow> bool" where
  "queue_ok s \<longleftrightarrow>
     (\<forall>q. distinct (s_waitq s q)) \<and>
     (\<forall>q t. t \<in> set (s_waitq s q) \<longleftrightarrow> th_wq (thr s t) = Some q) \<and>
     (\<forall>t. th_wq (thr s t) \<noteq> None \<longleftrightarrow> th_state (thr s t) = PROCESS_BLOCKED) \<and>
     (\<forall>t p. th_wq (thr s t) = Some (ChildQ p) \<longrightarrow> th_proc (thr s t) = Some p) \<and>
     (\<forall>t p. th_wq (thr s t) = Some (JoinQ p) \<longrightarrow> th_proc (thr s t) = Some p)"

text \<open>Threads and their processes.\<close>

definition link_ok :: "nat option \<Rightarrow> sys \<Rightarrow> bool" where
  "link_ok X s \<longleftrightarrow>
     (\<forall>t. alive (thr s t) \<longrightarrow> prio_ok (thr s t) \<and>
        (\<exists>p. th_proc (thr s t) = Some p \<and> t \<in> set (p_threads (prc s p)))) \<and>
     (\<forall>p. distinct (p_threads (prc s p)) \<and> p_live (prc s p) = length (p_threads (prc s p)) \<and>
        (p_threads (prc s p) \<noteq> [] \<longrightarrow> p_pid (prc s p) \<noteq> 0)) \<and>
     (\<forall>p t. t \<in> set (p_threads (prc s p)) \<longrightarrow> th_proc (thr s t) = Some p \<and> (alive (thr s t) \<or> dying X s t))"

text \<open>Dead threads: on their core's list, or kept for a join while their process exists.\<close>

definition zombie_ok :: "nat option \<Rightarrow> sys \<Rightarrow> bool" where
  "zombie_ok X s \<longleftrightarrow>
     (\<forall>t. th_state (thr s t) = PROCESS_ZOMBIE \<longrightarrow>
        dying X s t \<or> (\<exists>c. c_pend_thread (cpu_of s c) = Some t) \<or>
        th_joinable (thr s t) \<and> (\<exists>p. th_proc (thr s t) = Some p \<and> p_pid (prc s p) \<noteq> 0)) \<and>
     (\<forall>c t. c_pend_thread (cpu_of s c) = Some t \<longrightarrow>
        th_state (thr s t) = PROCESS_ZOMBIE \<and> th_running (thr s t) = None \<and>
        (\<forall>c'. c_pend_thread (cpu_of s c') = Some t \<longrightarrow> c' = c) \<and>
        (th_joinable (thr s t) \<longrightarrow> th_proc (thr s t) \<noteq> None \<and> c_pend_proc (cpu_of s c) = th_proc (thr s t))) \<and>
     (\<forall>t. dying X s t \<longrightarrow> (\<exists>p. th_proc (thr s t) = Some p \<and> p_pid (prc s p) \<noteq> 0))"

text \<open>Exited processes: handed to the parent, on a core's list, or orphaned.\<close>

definition dying_in :: "nat option \<Rightarrow> sys \<Rightarrow> nat \<Rightarrow> bool" where
  "dying_in X s p \<longleftrightarrow> (\<exists>t. dying X s t \<and> th_proc (thr s t) = Some p)"

definition exit_ok :: "nat option \<Rightarrow> sys \<Rightarrow> bool" where
  "exit_ok X s \<longleftrightarrow>
     (\<forall>c p. c_pend_proc (cpu_of s c) = Some p \<longrightarrow>
        p_pid (prc s p) \<noteq> 0 \<and> p_live (prc s p) = 0 \<and> \<not> parent_is_alive s p \<and>
        \<not> dying_in X s p \<and>
        (\<forall>c'. c_pend_proc (cpu_of s c') = Some p \<longrightarrow> c' = c)) \<and>
     (\<forall>q. distinct (p_zombies (prc s q))) \<and>
     (\<forall>q p. p \<in> set (p_zombies (prc s q)) \<longrightarrow>
        p_pid (prc s p) \<noteq> 0 \<and> p_live (prc s p) = 0 \<and> p_parent (prc s p) = Some q \<and>
        p_pid (prc s q) \<noteq> 0 \<and> p_parent_pid (prc s p) = p_pid (prc s q)) \<and>
     (\<forall>p. p_pid (prc s p) \<noteq> 0 \<and> p_running (prc s p) \<noteq> None \<longrightarrow>
        p_live (prc s p) = 0 \<and> dying_in X s p) \<and>
     (\<forall>p. p_pid (prc s p) \<noteq> 0 \<and> p_live (prc s p) = 0 \<longrightarrow>
        \<not> parent_is_alive s p \<or> p \<in> set (p_zombies (prc s (the (p_parent (prc s p))))) \<or>
        dying_in X s p)"

definition pid_ok :: "sys \<Rightarrow> bool" where
  "pid_ok s \<longleftrightarrow>
     0 < s_next_pid s \<and>
     (\<forall>p. p_pid (prc s p) < s_next_pid s) \<and>
     (\<forall>p p'. p_pid (prc s p) = p_pid (prc s p') \<and> p_pid (prc s p) \<noteq> 0 \<longrightarrow> p = p') \<and>
     (\<forall>p q. p_pid (prc s p) \<noteq> 0 \<and> p_parent (prc s p) = Some q \<longrightarrow> q \<noteq> p \<and> p_parent_pid (prc s p) < s_next_pid s)"

text \<open>Every core has something to run.\<close>

definition idle_for :: "sys \<Rightarrow> nat \<Rightarrow> nat \<Rightarrow> bool" where
  "idle_for s c i \<longleftrightarrow> th_idle (thr s i) \<and> th_pinned (thr s i) = Some c \<and>
     (th_state (thr s i) = PROCESS_READY \<or> th_state (thr s i) = PROCESS_RUNNING) \<and>
     \<not> th_suspended (thr s i) \<and> \<not> th_killed (thr s i)"

definition idle_ok :: "sys \<Rightarrow> bool" where
  "idle_ok s \<longleftrightarrow> (\<forall>c. cur_of s c \<noteq> None \<longrightarrow> (\<exists>i. idle_for s c i))"

definition declared_ok :: "sys \<Rightarrow> bool" where
  "declared_ok s \<longleftrightarrow> card {t. declares (thr s t)} \<le> s_declared s \<and>
     (\<forall>t. th_state (thr s t) = PROCESS_UNUSED \<longrightarrow> th_period_ms (thr s t) = 0)"

definition sched_inv :: "nat option \<Rightarrow> sys \<Rightarrow> bool" where
  "sched_inv X s \<longleftrightarrow> run_ok X s \<and> queue_ok s \<and> link_ok X s \<and> zombie_ok X s \<and> exit_ok X s \<and> pid_ok s \<and> idle_ok s \<and> declared_ok s"

lemma sched_invD:
  assumes "sched_inv X s"
  shows "run_ok X s" "queue_ok s" "link_ok X s" "zombie_ok X s" "exit_ok X s" "pid_ok s" "idle_ok s" "declared_ok s"
  using assms by (auto simp: sched_inv_def)

text \<open>What the invariant does not look at.\<close>

definition tcore :: "thread \<Rightarrow> process_state \<times> wqid option \<times> nat option \<times> nat option \<times> bool \<times> bool \<times> bool \<times> bool \<times> nat option \<times> nat" where
  "tcore t = (th_state t, th_wq t, th_running t, th_pinned t, th_suspended t, th_killed t, th_idle t, th_joinable t, th_proc t, th_period_ms t)"

definition pcore :: "process \<Rightarrow> nat \<times> nat option \<times> nat \<times> nat list \<times> nat \<times> nat list \<times> nat option" where
  "pcore p = (p_pid p, p_parent p, p_parent_pid p, p_zombies p, p_live p, p_threads p, p_running p)"

definition same_core :: "sys \<Rightarrow> sys \<Rightarrow> bool" where
  "same_core s s' \<longleftrightarrow> nthr s' = nthr s \<and> nprc s' = nprc s \<and> s_cpus s' = s_cpus s \<and> s_waitq s' = s_waitq s \<and>
     s_next_pid s' = s_next_pid s \<and> s_declared s' = s_declared s \<and>
     (\<forall>t. tcore (thr s' t) = tcore (thr s t) \<and> (prio_ok (thr s t) \<longrightarrow> prio_ok (thr s' t))) \<and>
     (\<forall>p. pcore (prc s' p) = pcore (prc s p))"

lemma same_core_refl [simp]: "same_core s s"
  by (simp add: same_core_def)

lemma same_core_trans: "same_core s s' \<Longrightarrow> same_core s' s'' \<Longrightarrow> same_core s s''"
  by (simp add: same_core_def)

lemma declares_zero [simp]: "\<not> declares thread_zero"
  by (simp add: declares_def thread_zero_def)

lemma declares_card: "length (filter declares (s_threads s)) = card {t. declares (thr s t)}"
proof -
  have "{t. declares (thr s t)} = {i. i < nthr s \<and> declares (s_threads s ! i)}" by (auto simp: thr_def split: if_splits)
  then show ?thesis by (simp add: length_filter_conv_card)
qed

lemma declares_finite [simp]: "finite {t. declares (thr s t)}"
  by (rule finite_subset [of _ "{..<nthr s}"]) (auto simp: thr_def split: if_splits)

lemma declared_recount [simp]: "s_declared (recount_declared_locked s) = card {t. declares (thr s t)}"
  by (simp add: recount_declared_locked_def declares_card)

lemma same_coreD:
  assumes "same_core s s'"
  shows "nthr s' = nthr s" "nprc s' = nprc s" "s_cpus s' = s_cpus s" "s_waitq s' = s_waitq s" "s_next_pid s' = s_next_pid s" "s_declared s' = s_declared s"
    "cpu_of s' = cpu_of s" "cur_of s' = cur_of s"
    "th_state (thr s' t) = th_state (thr s t)" "th_wq (thr s' t) = th_wq (thr s t)" "th_running (thr s' t) = th_running (thr s t)"
    "th_pinned (thr s' t) = th_pinned (thr s t)" "th_suspended (thr s' t) = th_suspended (thr s t)" "th_killed (thr s' t) = th_killed (thr s t)"
    "th_idle (thr s' t) = th_idle (thr s t)" "th_joinable (thr s' t) = th_joinable (thr s t)" "th_proc (thr s' t) = th_proc (thr s t)"
    "th_period_ms (thr s' t) = th_period_ms (thr s t)" "alive (thr s' t) = alive (thr s t)" "declares (thr s' t) = declares (thr s t)"
    "p_pid (prc s' p) = p_pid (prc s p)" "p_parent (prc s' p) = p_parent (prc s p)" "p_parent_pid (prc s' p) = p_parent_pid (prc s p)"
    "p_zombies (prc s' p) = p_zombies (prc s p)" "p_live (prc s' p) = p_live (prc s p)" "p_threads (prc s' p) = p_threads (prc s p)"
    "p_running (prc s' p) = p_running (prc s p)"
  using assms by (auto simp: same_core_def cpu_of_def cur_of_def tcore_def pcore_def alive_def declares_def fun_eq_iff)

lemma dying_cong: "same_core s s' \<Longrightarrow> dying X s' t = dying X s t"
  unfolding dying_def by (simp add: same_coreD [of s s'])

lemma dying_in_cong: "same_core s s' \<Longrightarrow> dying_in X s' p = dying_in X s p"
  unfolding dying_in_def by (simp add: same_coreD [of s s'] dying_cong [of s s'])

lemma parent_is_alive_cong: "same_core s s' \<Longrightarrow> parent_is_alive s' p = parent_is_alive s p"
  unfolding parent_is_alive_def by (simp add: same_coreD [of s s'] split: option.split)

lemma same_core_inv:
  assumes c: "same_core s s'" and inv: "sched_inv X s"
  shows "sched_inv X s'"
proof -
  note D = sched_invD [OF inv]
  note cs = same_coreD [OF c] dying_cong [OF c] dying_in_cong [OF c] parent_is_alive_cong [OF c]
  have "run_ok X s'" using D(1) unfolding run_ok_def cs .
  moreover have "queue_ok s'" using D(2) unfolding queue_ok_def cs .
  moreover have "link_ok X s'" using D(3) c unfolding link_ok_def cs same_core_def by blast
  moreover have "zombie_ok X s'" using D(4) unfolding zombie_ok_def cs .
  moreover have "exit_ok X s'" using D(5) unfolding exit_ok_def cs .
  moreover have "pid_ok s'" using D(6) unfolding pid_ok_def cs .
  moreover have "idle_ok s'" using D(7) unfolding idle_ok_def idle_for_def cs .
  moreover have "declared_ok s'" using D(8) unfolding declared_ok_def cs .
  ultimately show ?thesis by (simp add: sched_inv_def)
qed

lemma run_okD:
  assumes "run_ok X s"
  shows "cur_of s c = Some t \<Longrightarrow> th_state (thr s t) = PROCESS_RUNNING \<and> th_running (thr s t) = Some c \<or>
      X = Some c \<and> (th_state (thr s t) = PROCESS_BLOCKED \<and> th_running (thr s t) = None \<or>
                      th_state (thr s t) = PROCESS_ZOMBIE \<and> th_running (thr s t) = Some c)"
    "th_state (thr s t) \<noteq> PROCESS_UNUSED \<Longrightarrow> th_running (thr s t) = Some c \<Longrightarrow> cur_of s c = Some t"
    "th_state (thr s t) \<noteq> PROCESS_UNUSED \<Longrightarrow> th_running (thr s t) = Some c \<Longrightarrow> th_state (thr s t) = PROCESS_RUNNING \<or> dying X s t"
    "th_state (thr s t) \<noteq> PROCESS_UNUSED \<Longrightarrow> th_running (thr s t) = Some c \<Longrightarrow> th_pinned (thr s t) = None \<or> th_pinned (thr s t) = Some c"
    "th_state (thr s t) = PROCESS_RUNNING \<Longrightarrow> th_running (thr s t) \<noteq> None"
  using assms unfolding run_ok_def by blast+

lemma queue_okD:
  assumes "queue_ok s"
  shows "distinct (s_waitq s q)" "t \<in> set (s_waitq s q) \<longleftrightarrow> th_wq (thr s t) = Some q"
    "th_wq (thr s t) \<noteq> None \<longleftrightarrow> th_state (thr s t) = PROCESS_BLOCKED"
    "th_wq (thr s t) = Some (ChildQ p) \<Longrightarrow> th_proc (thr s t) = Some p" "th_wq (thr s t) = Some (JoinQ p) \<Longrightarrow> th_proc (thr s t) = Some p"
  using assms unfolding queue_ok_def by blast+

lemma link_okD:
  assumes "link_ok X s"
  shows "alive (thr s t) \<Longrightarrow> prio_ok (thr s t)" "alive (thr s t) \<Longrightarrow> \<exists>p. th_proc (thr s t) = Some p \<and> t \<in> set (p_threads (prc s p))"
    "distinct (p_threads (prc s p))" "p_live (prc s p) = length (p_threads (prc s p))" "p_threads (prc s p) \<noteq> [] \<Longrightarrow> p_pid (prc s p) \<noteq> 0"
    "t \<in> set (p_threads (prc s p)) \<Longrightarrow> th_proc (thr s t) = Some p" "t \<in> set (p_threads (prc s p)) \<Longrightarrow> alive (thr s t) \<or> dying X s t"
  using assms unfolding link_ok_def by blast+

lemma zombie_okD:
  assumes "zombie_ok X s"
  shows "th_state (thr s t) = PROCESS_ZOMBIE \<Longrightarrow> dying X s t \<or> (\<exists>c. c_pend_thread (cpu_of s c) = Some t) \<or>
        th_joinable (thr s t) \<and> (\<exists>p. th_proc (thr s t) = Some p \<and> p_pid (prc s p) \<noteq> 0)"
    "c_pend_thread (cpu_of s c) = Some t \<Longrightarrow> th_state (thr s t) = PROCESS_ZOMBIE"
    "c_pend_thread (cpu_of s c) = Some t \<Longrightarrow> th_running (thr s t) = None"
    "c_pend_thread (cpu_of s c) = Some t \<Longrightarrow> c_pend_thread (cpu_of s c') = Some t \<Longrightarrow> c' = c"
    "dying X s t \<Longrightarrow> \<exists>p. th_proc (thr s t) = Some p \<and> p_pid (prc s p) \<noteq> 0"
    "c_pend_thread (cpu_of s c) = Some t \<Longrightarrow> th_joinable (thr s t) \<Longrightarrow> th_proc (thr s t) \<noteq> None \<and> c_pend_proc (cpu_of s c) = th_proc (thr s t)"
  using assms unfolding zombie_ok_def by blast+

lemma exit_okD:
  assumes "exit_ok X s"
  shows "c_pend_proc (cpu_of s c) = Some p \<Longrightarrow> p_pid (prc s p) \<noteq> 0 \<and> p_live (prc s p) = 0 \<and> \<not> parent_is_alive s p"
    "c_pend_proc (cpu_of s c) = Some p \<Longrightarrow> \<not> dying_in X s p"
    "c_pend_proc (cpu_of s c) = Some p \<Longrightarrow> c_pend_proc (cpu_of s c') = Some p \<Longrightarrow> c' = c"
    "distinct (p_zombies (prc s q))"
    "p \<in> set (p_zombies (prc s q)) \<Longrightarrow> p_pid (prc s p) \<noteq> 0 \<and> p_live (prc s p) = 0 \<and> p_parent (prc s p) = Some q \<and>
        p_pid (prc s q) \<noteq> 0 \<and> p_parent_pid (prc s p) = p_pid (prc s q)"
    "p_pid (prc s p) \<noteq> 0 \<Longrightarrow> p_running (prc s p) \<noteq> None \<Longrightarrow> p_live (prc s p) = 0 \<and> dying_in X s p"
    "p_pid (prc s p) \<noteq> 0 \<Longrightarrow> p_live (prc s p) = 0 \<Longrightarrow> parent_is_alive s p \<Longrightarrow> \<not> dying_in X s p \<Longrightarrow>
        p \<in> set (p_zombies (prc s (the (p_parent (prc s p)))))"
  using assms unfolding exit_ok_def by blast+

lemma pid_okD:
  assumes "pid_ok s"
  shows "0 < s_next_pid s" "p_pid (prc s p) < s_next_pid s" "p_pid (prc s p) = p_pid (prc s p') \<Longrightarrow> p_pid (prc s p) \<noteq> 0 \<Longrightarrow> p = p'"
    "p_pid (prc s p) \<noteq> 0 \<Longrightarrow> p_parent (prc s p) = Some q \<Longrightarrow> q \<noteq> p \<and> p_parent_pid (prc s p) < s_next_pid s"
  using assms unfolding pid_ok_def by blast+

lemma exit_okI:
  assumes "\<And>c p. c_pend_proc (cpu_of s c) = Some p \<Longrightarrow> p_pid (prc s p) \<noteq> 0 \<and> p_live (prc s p) = 0 \<and> \<not> parent_is_alive s p \<and> \<not> dying_in X s p"
    "\<And>c c' p. c_pend_proc (cpu_of s c) = Some p \<Longrightarrow> c_pend_proc (cpu_of s c') = Some p \<Longrightarrow> c' = c"
    "\<And>q. distinct (p_zombies (prc s q))"
    "\<And>p q. p \<in> set (p_zombies (prc s q)) \<Longrightarrow> p_pid (prc s p) \<noteq> 0 \<and> p_live (prc s p) = 0 \<and> p_parent (prc s p) = Some q \<and>
        p_pid (prc s q) \<noteq> 0 \<and> p_parent_pid (prc s p) = p_pid (prc s q)"
    "\<And>p. p_pid (prc s p) \<noteq> 0 \<Longrightarrow> p_running (prc s p) \<noteq> None \<Longrightarrow> p_live (prc s p) = 0 \<and> dying_in X s p"
    "\<And>p. p_pid (prc s p) \<noteq> 0 \<Longrightarrow> p_live (prc s p) = 0 \<Longrightarrow> parent_is_alive s p \<Longrightarrow> \<not> dying_in X s p \<Longrightarrow>
        p \<in> set (p_zombies (prc s (the (p_parent (prc s p)))))"
  shows "exit_ok X s"
  unfolding exit_ok_def using assms by blast

lemma exit_ok_keep:
  assumes "exit_ok X s" "prc w = prc s" "cpu_of w = cpu_of s" "\<And>p. dying_in X s p \<Longrightarrow> dying_in Y w p"
    "\<And>c p. c_pend_proc (cpu_of s c) = Some p \<Longrightarrow> \<not> dying_in Y w p"
  shows "exit_ok Y w"
proof -
  have pa: "parent_is_alive w = parent_is_alive s" using assms(2) by (auto simp: parent_is_alive_def fun_eq_iff split: option.splits)
  show ?thesis using assms(1,4,5) unfolding exit_ok_def assms(2,3) pa by blast
qed

section \<open>Waking\<close>

lemma ready_core: "same_core (upd_thr t (\<lambda>x. x\<lparr>th_state := PROCESS_READY\<rparr>) s) (sched_set_ready t s)"
  by (auto simp: same_core_def sched_set_ready_def dl_enqueue_def thr_upd_thr tcore_def prio_ok_def Let_def split: sched_policy.splits)

lemma thr_range: "th_state (thr s t) \<noteq> PROCESS_UNUSED \<Longrightarrow> t < nthr s"
  by (auto simp: thr_def thread_zero_def split: if_splits)

lemma blocked_not_running:
  assumes "run_ok X s" "th_state (thr s t) = PROCESS_BLOCKED \<or> th_state (thr s t) = PROCESS_READY"
  shows "th_running (thr s t) = None"
proof (rule ccontr)
  assume "th_running (thr s t) \<noteq> None"
  then show False using run_okD(3) [OF assms(1), of t] assms(2) by (auto simp: dying_def)
qed

lemma wq_thr:
  assumes "sched_inv X s" "th_wq (thr s t) = Some q"
  shows "t < nthr s" "th_state (thr s t) = PROCESS_BLOCKED" "t \<in> set (s_waitq s q)" "th_running (thr s t) = None" "alive (thr s t)"
proof -
  note D = sched_invD [OF assms(1)]
  show b: "th_state (thr s t) = PROCESS_BLOCKED" "t \<in> set (s_waitq s q)" using queue_okD(2,3) [OF D(2), of t] assms(2) by auto
  then show "t < nthr s" using thr_range [of s t] by simp
  show "alive (thr s t)" using b by (simp add: alive_def)
  show "th_running (thr s t) = None" using blocked_not_running [OF D(1)] b by simp
qed

lemma idle_okI: "idle_ok s \<Longrightarrow> (\<And>c. cur_of s' c \<noteq> None \<Longrightarrow> cur_of s c \<noteq> None) \<Longrightarrow> (\<And>c i. idle_for s c i \<Longrightarrow> idle_for s' c i) \<Longrightarrow> idle_ok s'"
  unfolding idle_ok_def by blast

lemma declared_okI:
  assumes "declared_ok s" "s_declared s' = s_declared s" "\<And>t. declares (thr s' t) \<Longrightarrow> declares (thr s t)"
    "\<And>t. th_state (thr s' t) = PROCESS_UNUSED \<Longrightarrow> th_period_ms (thr s' t) = 0"
  shows "declared_ok s'"
proof -
  have "card {t. declares (thr s' t)} \<le> card {t. declares (thr s t)}" using assms(3) by (intro card_mono) auto
  then show ?thesis using assms by (simp add: declared_ok_def)
qed

lemma unused_period: "declared_ok s \<Longrightarrow> th_state (thr s t) = PROCESS_UNUSED \<Longrightarrow> th_period_ms (thr s t) = 0"
  by (simp add: declared_ok_def)

lemma wake_inv:
  assumes inv: "sched_inv X s" and q: "th_wq (thr s t) = Some q" and nc: "\<And>c. cur_of s c \<noteq> Some t"
  shows "sched_inv X (sched_set_ready t (wq_remove q t s))"
proof (rule same_core_inv [OF ready_core])
  note D = sched_invD [OF inv]
  note T = wq_thr [OF inv q]
  define w where "w = upd_thr t (\<lambda>x. x\<lparr>th_state := PROCESS_READY\<rparr>) (wq_remove q t s)"
  have th: "thr w = (thr s)(t := (thr s t)\<lparr>th_state := PROCESS_READY, th_wq := None\<rparr>)"
    and wq: "s_waitq w = (s_waitq s)(q := wait_queue_remove t (s_waitq s q))"
    and fr: "prc w = prc s" "cpu_of w = cpu_of s" "cur_of w = cur_of s" "s_next_pid w = s_next_pid s" "s_declared w = s_declared s"
    using T by (auto simp: w_def wq_remove_def thr_upd_thr fun_eq_iff)
  have dy: "dying X w = dying X s" using T by (auto simp: dying_def fun_eq_iff fr th)
  have pr: "th_proc (thr w t') = th_proc (thr s t')" for t' by (simp add: th)
  have di: "dying_in X w = dying_in X s" by (simp add: dying_in_def dy pr fun_eq_iff)
  have "run_ok X w" unfolding run_ok_def dy fr th
    using run_okD [OF D(1)] nc T by (simp add: fun_upd_def)
  moreover have "queue_ok w" using D(2) T unfolding queue_ok_def wq th by (auto simp: wait_queue_remove_eq)
  moreover have "link_ok X w" using D(3) T unfolding link_ok_def dy fr th by (auto simp: alive_def prio_ok_def)
  moreover have "zombie_ok X w" using D(4) T unfolding zombie_ok_def dy fr th by auto
  moreover have "exit_ok X w" by (rule exit_ok_keep [OF D(5) fr(1,2)]) (use exit_okD(2) [OF D(5)] in \<open>simp_all add: di\<close>)
  moreover have "pid_ok w" using D(6) unfolding pid_ok_def fr .
  moreover have "idle_ok w" by (rule idle_okI [OF D(7)]) (use T in \<open>auto simp: fr th idle_for_def\<close>)
  moreover have "declared_ok w" by (rule declared_okI [OF D(8) fr(5)]) (use T unused_period [OF D(8)] in \<open>auto simp: th declares_def split: if_splits\<close>)
  ultimately show "sched_inv X (upd_thr t (\<lambda>x. x\<lparr>th_state := PROCESS_READY\<rparr>) (wq_remove q t s))" unfolding w_def [symmetric] by (simp add: sched_inv_def)
qed

text \<open>What waking some threads leaves as it was.\<close>

definition awoken :: "thread \<Rightarrow> thread \<Rightarrow> bool" where
  "awoken x y \<longleftrightarrow> y = x \<or> th_state x = PROCESS_BLOCKED \<and> th_state y = PROCESS_READY \<and> th_wq y = None \<and>
     th_running y = th_running x \<and> th_pinned y = th_pinned x \<and> th_killed y = th_killed x \<and> th_suspended y = th_suspended x \<and>
     th_joinable y = th_joinable x \<and> th_idle y = th_idle x \<and> th_proc y = th_proc x"

lemma awoken_trans: "awoken x y \<Longrightarrow> awoken y z \<Longrightarrow> awoken x z"
  by (auto simp: awoken_def)

definition woken :: "sys \<Rightarrow> sys \<Rightarrow> bool" where
  "woken s s' \<longleftrightarrow> nthr s' = nthr s \<and> s_procs s' = s_procs s \<and> s_cpus s' = s_cpus s \<and> s_next_pid s' = s_next_pid s \<and>
     s_declared s' = s_declared s \<and> s_policy s' = s_policy s \<and> s_spaces s' = s_spaces s \<and> s_now_ms s' = s_now_ms s \<and> s_now_ns s' = s_now_ns s \<and>
     (\<forall>t. awoken (thr s t) (thr s' t))"

lemma woken_refl [simp]: "woken s s"
  by (simp add: woken_def awoken_def)

lemma woken_trans: "woken s s' \<Longrightarrow> woken s' s'' \<Longrightarrow> woken s s''"
  unfolding woken_def by (auto intro: awoken_trans)

lemma wokenD:
  assumes "woken s s'"
  shows "nthr s' = nthr s" "prc s' = prc s" "cpu_of s' = cpu_of s" "cur_of s' = cur_of s" "nprc s' = nprc s" "ncpu s' = ncpu s" "s_next_pid s' = s_next_pid s"
    "th_state (thr s t) \<noteq> PROCESS_BLOCKED \<Longrightarrow> thr s' t = thr s t" "th_proc (thr s' t) = th_proc (thr s t)" "th_running (thr s' t) = th_running (thr s t)"
    "th_state (thr s' t) = th_state (thr s t) \<or> th_state (thr s t) = PROCESS_BLOCKED \<and> th_state (thr s' t) = PROCESS_READY"
    "th_joinable (thr s' t) = th_joinable (thr s t)" "th_idle (thr s' t) = th_idle (thr s t)"
proof -
  have a: "awoken (thr s t) (thr s' t)" for t using assms by (simp add: woken_def)
  show "nthr s' = nthr s" "prc s' = prc s" "cpu_of s' = cpu_of s" "cur_of s' = cur_of s" "nprc s' = nprc s" "ncpu s' = ncpu s" "s_next_pid s' = s_next_pid s"
    using assms by (simp_all add: woken_def prc_def cpu_of_def cur_of_def fun_eq_iff)
  show "th_state (thr s t) \<noteq> PROCESS_BLOCKED \<Longrightarrow> thr s' t = thr s t" "th_proc (thr s' t) = th_proc (thr s t)" "th_running (thr s' t) = th_running (thr s t)"
    "th_state (thr s' t) = th_state (thr s t) \<or> th_state (thr s t) = PROCESS_BLOCKED \<and> th_state (thr s' t) = PROCESS_READY"
    "th_joinable (thr s' t) = th_joinable (thr s t)" "th_idle (thr s' t) = th_idle (thr s t)"
    using a [of t] by (auto simp: awoken_def)
qed

definition calm :: "sys \<Rightarrow> bool" where
  "calm s \<longleftrightarrow> (\<forall>c t. cur_of s c = Some t \<longrightarrow> th_state (thr s t) \<noteq> PROCESS_BLOCKED)"

lemma calm_None: "sched_inv None s \<Longrightarrow> calm s"
  using run_okD(1) [of None s] sched_invD(1) [of None s] by (fastforce simp: calm_def)

lemma wake_woken: "th_wq (thr s t) = Some q \<Longrightarrow> th_state (thr s t) = PROCESS_BLOCKED \<Longrightarrow> t \<in> set (s_waitq s q) \<Longrightarrow> woken s (sched_set_ready t (wq_remove q t s))"
  by (auto simp: woken_def awoken_def sched_set_ready_def wq_remove_def dl_enqueue_def thr_upd_thr Let_def thr_range split: sched_policy.splits)

lemma wake_thread:
  assumes "sched_inv X s" "calm s" "th_wq (thr s t) = Some q"
  shows "sched_inv X (sched_set_ready t (wq_remove q t s))" "woken s (sched_set_ready t (wq_remove q t s))" "calm (sched_set_ready t (wq_remove q t s))"
proof -
  note T = wq_thr [OF assms(1,3)]
  show i: "sched_inv X (sched_set_ready t (wq_remove q t s))" using wake_inv [OF assms(1,3)] assms(2) T by (auto simp: calm_def)
  show w: "woken s (sched_set_ready t (wq_remove q t s))" using wake_woken assms(3) T by blast
  show "calm (sched_set_ready t (wq_remove q t s))" unfolding calm_def wokenD(4) [OF w]
    using assms(2) wokenD(8) [OF w] by (metis calm_def)
qed

definition wakes :: "(sys \<Rightarrow> sys) \<Rightarrow> bool" where
  "wakes f \<longleftrightarrow> (\<forall>X s. sched_inv X s \<and> calm s \<longrightarrow> sched_inv X (f s) \<and> woken s (f s) \<and> calm (f s))"

lemma wakesD:
  assumes "wakes f" "sched_inv X s" "calm s"
  shows "sched_inv X (f s)" "woken s (f s)" "calm (f s)"
  using assms unfolding wakes_def by blast+

lemma wakes_fold: "(\<And>x. x \<in> set xs \<Longrightarrow> wakes (f x)) \<Longrightarrow> wakes (fold f xs)"
proof (induction xs)
  case (Cons x xs)
  have f: "wakes (f x)" "wakes (fold f xs)" using Cons by auto
  show ?case unfolding wakes_def
  proof (intro allI impI, goal_cases)
    case (1 X s)
    note a = wakesD [OF f(1), of X s]
    note b = wakesD [OF f(2), of X "f x s"]
    show ?case using 1 a b woken_trans by auto
  qed
qed (simp add: wakes_def)

lemma wakes_one: "wakes (wq_wake_one q)"
  unfolding wakes_def
proof (intro allI impI, goal_cases)
  case (1 X s)
  show ?case
  proof (cases "s_waitq s q")
    case (Cons t ts)
    then have "th_wq (thr s t) = Some q" using queue_okD(2) [OF sched_invD(2), of X s t q] 1 by simp
    then show ?thesis using wake_thread [of X s t q] 1 Cons by (simp add: wq_wake_one_def)
  qed (use 1 in \<open>simp add: wq_wake_one_def\<close>)
qed

lemma wakes_all: "wakes (wq_wake_all q)"
proof -
  have "wakes (fold (\<lambda>_. wq_wake_one q) ts)" for ts :: wait_queue by (rule wakes_fold) (rule wakes_one)
  then show ?thesis unfolding wakes_def wq_wake_all_def by blast
qed

lemma wakes_blocked: "wakes (wake_blocked t)"
  unfolding wakes_def wake_blocked_def using wake_thread by (auto split: option.splits)

text \<open>Waking all empties the queue.\<close>

lemma wake_one_queue: "sched_inv X s \<Longrightarrow> calm s \<Longrightarrow> s_waitq (wq_wake_one q s) q = tl (s_waitq s q)"
  by (auto simp: wq_wake_one_def sched_set_ready_def wq_remove_def dl_enqueue_def Let_def split: list.splits sched_policy.splits)

lemma wake_all_queue:
  assumes "sched_inv X s" "calm s"
  shows "s_waitq (wq_wake_all q s) q = []"
proof -
  have "s_waitq (fold (\<lambda>_. wq_wake_one q) ts s) q = drop (length ts) (s_waitq s q)" if "sched_inv X s" "calm s" for ts :: "nat list" and s
    using that
  proof (induction ts arbitrary: s)
    case (Cons t ts)
    then show ?case using wakesD [OF wakes_one, of X s q] wake_one_queue [of X s q] by (simp add: drop_Suc)
  qed simp
  then show ?thesis using assms by (simp add: wq_wake_all_def)
qed

section \<open>Leaving the processor\<close>

lemma cur_thr:
  assumes "sched_inv None s" "cur_of s c = Some t"
  shows "th_state (thr s t) = PROCESS_RUNNING" "th_running (thr s t) = Some c" "t < nthr s" "th_wq (thr s t) = None" "alive (thr s t)"
    "cur_of s c' = Some t \<longleftrightarrow> c' = c"
proof -
  note D = sched_invD [OF assms(1)]
  show r: "th_state (thr s t) = PROCESS_RUNNING" "th_running (thr s t) = Some c" using run_okD(1) [OF D(1) assms(2)] by auto
  then show "t < nthr s" "alive (thr s t)" using thr_range [of s t] by (simp_all add: alive_def)
  show "th_wq (thr s t) = None" using queue_okD(3) [OF D(2), of t] r by simp
  show "cur_of s c' = Some t \<longleftrightarrow> c' = c" using run_okD(1) [OF D(1), of c' t] r assms(2) by auto
qed

lemma linked_pid:
  assumes "link_ok X s" "t \<in> set (p_threads (prc s p))"
  shows "p_pid (prc s p) \<noteq> 0" "p_live (prc s p) \<noteq> 0"
  using link_okD(4,5) [OF assms(1), of p] assms(2) by (cases "p_threads (prc s p)"; simp)+

lemma run_ok_leave:
  assumes inv: "sched_inv None s" and t: "cur_of s c = Some t" and th: "thr w = (thr s)(t := x)" and cu: "cur_of w = cur_of s"
    and x: "th_state x = PROCESS_BLOCKED \<and> th_running x = None \<or>
      th_state x = PROCESS_ZOMBIE \<and> th_running x = Some c \<and> th_pinned x = th_pinned (thr s t)"
  shows "run_ok (Some c) w"
proof -
  note R = run_okD [OF sched_invD(1) [OF inv]]
  note T = cur_thr [OF inv t]
  have nd: "\<not> dying None s t'" for t' by (simp add: dying_def)
  have "th_state (thr w t') = PROCESS_RUNNING \<and> th_running (thr w t') = Some c' \<or>
      Some c = Some c' \<and> (th_state (thr w t') = PROCESS_BLOCKED \<and> th_running (thr w t') = None \<or>
        th_state (thr w t') = PROCESS_ZOMBIE \<and> th_running (thr w t') = Some c')" if "cur_of w c' = Some t'" for c' t'
    using R(1) [of c' t'] T(6) [of c'] that x by (cases "t' = t") (auto simp: th cu)
  moreover have "cur_of w c' = Some t' \<and> (th_state (thr w t') = PROCESS_RUNNING \<or> dying (Some c) w t') \<and>
        (th_pinned (thr w t') = None \<or> th_pinned (thr w t') = Some c')"
    if "th_state (thr w t') \<noteq> PROCESS_UNUSED \<and> th_running (thr w t') = Some c'" for t' c'
  proof (cases "t' = t")
    case True
    then have "c' = c" "th_state x = PROCESS_ZOMBIE" using x that by (auto simp: th)
    then show ?thesis using True t x R(4) [of t c] T(1,2) by (simp add: th cu dying_def)
  next
    case False
    then show ?thesis using R(2,3,4) [of t' c'] that nd by (simp add: th cu)
  qed
  moreover have "th_running (thr w t') \<noteq> None" if "th_state (thr w t') = PROCESS_RUNNING" for t'
    using R(5) [of t'] that x by (cases "t' = t") (auto simp: th)
  ultimately show ?thesis unfolding run_ok_def by blast
qed

lemma block_inv:
  assumes inv: "sched_inv None s" and t: "cur_of s c = Some t" "\<And>c. \<not> idle_for s c t"
    and q: "\<And>p. q = ChildQ p \<or> q = JoinQ p \<Longrightarrow> th_proc (thr s t) = Some p"
  shows "sched_inv (Some c) (wq_block q t s)"
proof -
  note D = sched_invD [OF inv]
  note T = cur_thr [OF inv t(1)]
  define w where "w = wq_block q t s"
  have th: "thr w = (thr s)(t := (thr s t)\<lparr>th_state := PROCESS_BLOCKED, th_running := None, th_wq := Some q\<rparr>)"
    and wq: "s_waitq w = (s_waitq s)(q := t # s_waitq s q)"
    and fr: "prc w = prc s" "cpu_of w = cpu_of s" "cur_of w = cur_of s" "s_next_pid w = s_next_pid s" "s_declared w = s_declared s"
    using T by (auto simp: w_def wq_block_def sched_set_blocked_def Let_def thr_upd_thr fun_eq_iff)
  have dy: "\<not> dying (Some c) w t'" "\<not> dying None s t'" for t' using t(1) T(1) by (auto simp: dying_def fr th)
  have "run_ok (Some c) w" by (rule run_ok_leave [OF inv t(1) th fr(3)]) (use T in simp)
  moreover have "queue_ok w" using D(2) T q unfolding queue_ok_def wq th by (auto simp: fun_upd_def)
  moreover have "link_ok (Some c) w" using D(3) T unfolding link_ok_def fr th by (auto simp: alive_def prio_ok_def dy)
  moreover have "zombie_ok (Some c) w" using D(4) T unfolding zombie_ok_def fr th by (auto simp: dy)
  moreover have "exit_ok (Some c) w" by (rule exit_ok_keep [OF D(5) fr(1,2)]) (auto simp: dying_in_def dy)
  moreover have "pid_ok w" using D(6) unfolding pid_ok_def fr .
  moreover have "idle_ok w" by (rule idle_okI [OF D(7)]) (use T t in \<open>auto simp: fr th idle_for_def\<close>)
  moreover have "declared_ok w" by (rule declared_okI [OF D(8) fr(5)]) (use T unused_period [OF D(8)] in \<open>auto simp: th declares_def split: if_splits\<close>)
  ultimately show ?thesis unfolding w_def [symmetric] by (simp add: sched_inv_def)
qed

lemma die_inv:
  assumes inv: "sched_inv None s" and t: "cur_of s c = Some t" "\<And>c. \<not> idle_for s c t"
  shows "sched_inv (Some c) (upd_thr t (\<lambda>x. x\<lparr>th_state := PROCESS_ZOMBIE\<rparr>) s)"
proof -
  note D = sched_invD [OF inv]
  note T = cur_thr [OF inv t(1)]
  define w where "w = upd_thr t (\<lambda>x. x\<lparr>th_state := PROCESS_ZOMBIE\<rparr>) s"
  have th: "thr w = (thr s)(t := (thr s t)\<lparr>th_state := PROCESS_ZOMBIE\<rparr>)" and wq: "s_waitq w = s_waitq s"
    and fr: "prc w = prc s" "cpu_of w = cpu_of s" "cur_of w = cur_of s" "s_next_pid w = s_next_pid s" "s_declared w = s_declared s"
    using T by (auto simp: w_def thr_upd_thr fun_eq_iff)
  have dy: "dying (Some c) w t' \<longleftrightarrow> t' = t" "\<not> dying None s t'" for t' using t(1) T(1) by (auto simp: dying_def fr th)
  obtain p where p: "th_proc (thr s t) = Some p" "t \<in> set (p_threads (prc s p))" using link_okD(2) [OF D(3) T(5)] by blast
  then have p1: "p_pid (prc s p) \<noteq> 0" "p_live (prc s p) \<noteq> 0" using linked_pid [OF D(3), of t p] by auto
  have "run_ok (Some c) w" by (rule run_ok_leave [OF inv t(1) th fr(3)]) (use T in simp)
  moreover have "queue_ok w" using D(2) T unfolding queue_ok_def wq th by (auto simp: fun_upd_def)
  moreover have "link_ok (Some c) w" using D(3) T unfolding link_ok_def fr th by (auto simp: alive_def prio_ok_def dy)
  moreover have "zombie_ok (Some c) w" using D(4) T p p1 unfolding zombie_ok_def fr th by (auto simp: dy)
  moreover have "exit_ok (Some c) w" by (rule exit_ok_keep [OF D(5) fr(1,2)]) (use p p1 exit_okD(1) [OF D(5)] in \<open>auto simp: dying_in_def dy th\<close>)
  moreover have "pid_ok w" using D(6) unfolding pid_ok_def fr .
  moreover have "idle_ok w" by (rule idle_okI [OF D(7)]) (use T t in \<open>auto simp: fr th idle_for_def\<close>)
  moreover have "declared_ok w" by (rule declared_okI [OF D(8) fr(5)]) (use T unused_period [OF D(8)] in \<open>auto simp: th declares_def split: if_splits\<close>)
  ultimately show ?thesis unfolding w_def [symmetric] by (simp add: sched_inv_def)
qed

end
