(* ===== verification/Sched_Exit.thy ===== *)
theory Sched_Exit
  imports Sched_Inv
begin

text \<open>
  The end of threads and processes keeps the invariant: unlinking a dead thread, handing an exited
  process to its parent, and reaping the slots.
\<close>

section \<open>The end of a thread\<close>

lemma dying_thr:
  assumes inv: "sched_inv (Some c) s" and t: "cur_of s c = Some t" "th_state (thr s t) = PROCESS_ZOMBIE"
  shows "t < nthr s" "th_running (thr s t) = Some c" "calm s" "dying (Some c) s t' \<longleftrightarrow> t' = t"
    "\<exists>p. th_proc (thr s t) = Some p \<and> p_pid (prc s p) \<noteq> 0" "\<not> alive (thr s t)"
proof -
  note D = sched_invD [OF inv]
  show "t < nthr s" using thr_range [of s t] t(2) by simp
  show "th_running (thr s t) = Some c" using run_okD(1) [OF D(1) t(1)] t(2) by auto
  show d: "dying (Some c) s t' \<longleftrightarrow> t' = t" for t' using t by (auto simp: dying_def)
  show "calm s" unfolding calm_def
  proof (intro allI impI notI)
    fix c' t' assume a: "cur_of s c' = Some t'" "th_state (thr s t') = PROCESS_BLOCKED"
    then have "c' = c" using run_okD(1) [OF D(1) a(1)] by auto
    then show False using a t by simp
  qed
  show "\<exists>p. th_proc (thr s t) = Some p \<and> p_pid (prc s p) \<noteq> 0" using zombie_okD(5) [OF D(4), of t] d by blast
  show "\<not> alive (thr s t)" using t by (simp add: alive_def)
qed

lemma unlink_thread_inv:
  assumes inv: "sched_inv (Some c) s" and t: "cur_of s c = Some t" "th_state (thr s t) = PROCESS_ZOMBIE"
    and p: "th_proc (thr s t) = Some p" "t \<in> set (p_threads (prc s p))"
  shows "sched_inv (Some c) (upd_prc p (\<lambda>x. x\<lparr>p_threads := remove1 t (p_threads x), p_live := p_live x - 1,
    p_running := (if p_live x - 1 = 0 then th_running (thr s t) else p_running x)\<rparr>) s)"
proof -
  note D = sched_invD [OF inv]
  note T = dying_thr [OF inv t]
  define w where "w = upd_prc p (\<lambda>x. x\<lparr>p_threads := remove1 t (p_threads x), p_live := p_live x - 1,
    p_running := (if p_live x - 1 = 0 then th_running (thr s t) else p_running x)\<rparr>) s"
  have pn: "p < nprc s" using p(2) by (auto simp: prc_def process_zero_def split: if_splits)
  note pid = linked_pid [OF D(3) p(2)]
  note dp = link_okD(3,4) [OF D(3), of p]
  have pr: "prc w = (prc s)(p := (prc s p)\<lparr>p_threads := remove1 t (p_threads (prc s p)), p_live := p_live (prc s p) - 1,
      p_running := (if p_live (prc s p) - 1 = 0 then Some c else p_running (prc s p))\<rparr>)"
    and fr: "thr w = thr s" "cpu_of w = cpu_of s" "cur_of w = cur_of s" "s_next_pid w = s_next_pid s" "s_declared w = s_declared s" "s_waitq w = s_waitq s"
    using pn T(2) by (auto simp: w_def prc_upd_prc fun_eq_iff)
  have dy: "dying (Some c) w = dying (Some c) s" by (simp add: dying_def fr fun_eq_iff)
  have di: "dying_in (Some c) w q \<longleftrightarrow> q = p" "dying_in (Some c) s q \<longleftrightarrow> q = p" for q using T(4) p(1) by (auto simp: dying_in_def dy fr)
  have pa: "parent_is_alive w = parent_is_alive s" by (auto simp: parent_is_alive_def fun_eq_iff pr split: option.splits)
  have np: "c_pend_proc (cpu_of s c') \<noteq> Some p" for c' using exit_okD(2) [OF D(5)] di by blast
  have nz: "p \<notin> set (p_zombies (prc s q))" for q using exit_okD(5) [OF D(5), of p q] pid by auto
  have pi: "p_pid (prc w q) = p_pid (prc s q)" "p_parent (prc w q) = p_parent (prc s q)" "p_parent_pid (prc w q) = p_parent_pid (prc s q)"
    "p_zombies (prc w q) = p_zombies (prc s q)" for q by (simp_all add: pr)
  have lv: "q \<noteq> p \<Longrightarrow> p_live (prc w q) = p_live (prc s q)" "q \<noteq> p \<Longrightarrow> p_running (prc w q) = p_running (prc s q)" for q by (simp_all add: pr)
  have "run_ok (Some c) w" using D(1) unfolding run_ok_def dy fr .
  moreover have "queue_ok w" using D(2) unfolding queue_ok_def fr .
  moreover have "link_ok (Some c) w"
    using D(3) T(6) dp p pid unfolding link_ok_def dy fr pr by (auto simp: length_remove1 split: if_splits)
  moreover have "zombie_ok (Some c) w" using D(4) unfolding zombie_ok_def dy fr pi .
  moreover have "exit_ok (Some c) w"
  proof (rule exit_okI, unfold fr pa pi di)
    fix c' q assume "c_pend_proc (cpu_of s c') = Some q"
    then show "p_pid (prc s q) \<noteq> 0 \<and> p_live (prc w q) = 0 \<and> \<not> parent_is_alive s q \<and> q \<noteq> p"
      using exit_okD(1) [OF D(5), of c' q] np lv [of q] by auto
  next
    fix q r assume "q \<in> set (p_zombies (prc s r))"
    then show "p_pid (prc s q) \<noteq> 0 \<and> p_live (prc w q) = 0 \<and> p_parent (prc s q) = Some r \<and> p_pid (prc s r) \<noteq> 0 \<and> p_parent_pid (prc s q) = p_pid (prc s r)"
      using exit_okD(5) [OF D(5), of q r] nz [of r] lv [of q] by auto
  next
    fix q assume "p_pid (prc s q) \<noteq> 0" "p_running (prc w q) \<noteq> None"
    then show "p_live (prc w q) = 0 \<and> q = p" using exit_okD(6) [OF D(5), of q] di lv [of q] by (cases "q = p") (auto simp: pr split: if_splits)
  next
    fix q assume "p_pid (prc s q) \<noteq> 0" "p_live (prc w q) = 0" "parent_is_alive s q" "q \<noteq> p"
    then show "q \<in> set (p_zombies (prc s (the (p_parent (prc s q)))))" using exit_okD(7) [OF D(5), of q] di lv [of q] by auto
  qed (use exit_okD(3,4) [OF D(5)] in auto)
  moreover have "pid_ok w" using D(6) unfolding pid_ok_def fr pi .
  moreover have "idle_ok w" using D(7) unfolding idle_ok_def idle_for_def fr .
  moreover have "declared_ok w" using D(8) unfolding declared_ok_def fr .
  ultimately show ?thesis unfolding w_def [symmetric] by (simp add: sched_inv_def)
qed

lemma children_core: "same_core s (child_list_remove q p s)"
  by (auto simp: child_list_remove_def same_core_def prc_upd_prc pcore_def split: option.splits)

lemma hand_over_inv:
  assumes inv: "sched_inv (Some c) s" and t: "cur_of s c = Some t" "th_state (thr s t) = PROCESS_ZOMBIE" "th_proc (thr s t) = Some p"
    and p: "p_live (prc s p) = 0" "parent_is_alive s p" "p_parent (prc s p) = Some q" "p \<notin> set (p_zombies (prc s q))"
  shows "sched_inv (Some c) (upd_prc q (\<lambda>x. x\<lparr>p_zombies := p # p_zombies x\<rparr>) s)"
proof -
  note D = sched_invD [OF inv]
  note T = dying_thr [OF inv t(1,2)]
  define w where "w = upd_prc q (\<lambda>x. x\<lparr>p_zombies := p # p_zombies x\<rparr>) s"
  have q: "p_pid (prc s q) \<noteq> 0" "p_parent_pid (prc s p) = p_pid (prc s q)" using p(2,3) by (auto simp: parent_is_alive_def)
  have qn: "q < nprc s" using q(1) by (auto simp: prc_def process_zero_def split: if_splits)
  have pp: "p_pid (prc s p) \<noteq> 0" using T(5) t(3) by auto
  have pr: "prc w = (prc s)(q := (prc s q)\<lparr>p_zombies := p # p_zombies (prc s q)\<rparr>)"
    and fr: "thr w = thr s" "cpu_of w = cpu_of s" "cur_of w = cur_of s" "s_next_pid w = s_next_pid s" "s_declared w = s_declared s" "s_waitq w = s_waitq s"
    using qn by (auto simp: w_def prc_upd_prc fun_eq_iff)
  have dy: "dying (Some c) w = dying (Some c) s" "dying_in (Some c) w = dying_in (Some c) s" by (simp_all add: dying_def dying_in_def fr fun_eq_iff)
  have pi: "p_pid (prc w r) = p_pid (prc s r)" "p_parent (prc w r) = p_parent (prc s r)" "p_parent_pid (prc w r) = p_parent_pid (prc s r)"
    "p_live (prc w r) = p_live (prc s r)" "p_threads (prc w r) = p_threads (prc s r)" "p_running (prc w r) = p_running (prc s r)" for r by (simp_all add: pr)
  have pa: "parent_is_alive w = parent_is_alive s" by (auto simp: parent_is_alive_def fun_eq_iff pr split: option.splits)
  have z: "p_zombies (prc w r) = (if r = q then p # p_zombies (prc s q) else p_zombies (prc s r))" for r by (simp add: pr)
  have "run_ok (Some c) w" using D(1) unfolding run_ok_def dy fr .
  moreover have "queue_ok w" using D(2) unfolding queue_ok_def fr .
  moreover have "link_ok (Some c) w" using D(3) unfolding link_ok_def dy fr pi .
  moreover have "zombie_ok (Some c) w" using D(4) unfolding zombie_ok_def dy fr pi .
  moreover have "exit_ok (Some c) w"
    by (rule exit_okI, unfold fr pa pi dy z)
      (use exit_okD(1,2,3,4,5,6) [OF D(5)] p q pp in \<open>auto split: if_splits intro: exit_okD(7) [OF D(5)]\<close>)
  moreover have "pid_ok w" using D(6) unfolding pid_ok_def fr pi .
  moreover have "idle_ok w" using D(7) unfolding idle_ok_def idle_for_def fr .
  moreover have "declared_ok w" using D(8) unfolding declared_ok_def fr .
  ultimately show ?thesis unfolding w_def [symmetric] by (simp add: sched_inv_def)
qed

text \<open>Who gets the exit of process \<open>p\<close>: nobody yet, the parent, or \<open>r\<close>.\<close>

definition exit_to :: "sys \<Rightarrow> nat \<Rightarrow> nat option \<Rightarrow> bool" where
  "exit_to s p r \<longleftrightarrow>
     (case r of
        None \<Rightarrow> p_live (prc s p) > 0 \<or> p \<in> set (p_zombies (prc s (the (p_parent (prc s p)))))
      | Some p' \<Rightarrow> p' = p \<and> p_live (prc s p) = 0 \<and> \<not> parent_is_alive s p)"

lemma thread_zombie_inv:
  assumes inv: "sched_inv (Some c) s" and t: "cur_of s c = Some t" "th_state (thr s t) = PROCESS_ZOMBIE"
    and r: "thread_zombie_locked t s = (r, s')"
  shows "sched_inv (Some c) s'" "cur_of s' = cur_of s" "thr s' t = thr s t" "cpu_of s' = cpu_of s" "nthr s' = nthr s"
    "\<And>p. th_proc (thr s t) = Some p \<Longrightarrow> t \<notin> set (p_threads (prc s' p)) \<and> exit_to s' p r"
proof -
  note D = sched_invD [OF inv]
  note T = dying_thr [OF inv t]
  obtain p where p: "th_proc (thr s t) = Some p" "p_pid (prc s p) \<noteq> 0" using T(5) by blast
  define u where "u = upd_prc p (\<lambda>x. x\<lparr>p_threads := remove1 t (p_threads x), p_live := p_live x - 1,
      p_running := (if p_live x - 1 = 0 then th_running (thr s t) else p_running x)\<rparr>) s"
  define s1 where "s1 = (if t \<in> set (p_threads (prc s p)) then wq_wake_all (JoinQ p) u else s)"
  have s1: "sched_inv (Some c) s1" "cur_of s1 = cur_of s" "thr s1 t = thr s t" "cpu_of s1 = cpu_of s" "nthr s1 = nthr s" "t \<notin> set (p_threads (prc s1 p))"
  proof -
    have "sched_inv (Some c) s1 \<and> cur_of s1 = cur_of s \<and> thr s1 t = thr s t \<and> cpu_of s1 = cpu_of s \<and> nthr s1 = nthr s \<and> t \<notin> set (p_threads (prc s1 p))"
    proof (cases "t \<in> set (p_threads (prc s p))")
      case True
      have u: "sched_inv (Some c) u" unfolding u_def by (rule unlink_thread_inv [OF inv t p(1) True])
      have uf: "thr u = thr s" "cur_of u = cur_of s" "cpu_of u = cpu_of s" "nthr u = nthr s" by (simp_all add: u_def)
      have ct: "cur_of u c = Some t" "th_state (thr u t) = PROCESS_ZOMBIE" using t by (simp_all add: uf)
      note W = wakesD [OF wakes_all u dying_thr(3) [OF u ct], of "JoinQ p"]
      have "p < nprc s" using True by (auto simp: prc_def process_zero_def split: if_splits)
      then have "t \<notin> set (p_threads (prc u p))" using link_okD(3) [OF D(3), of p] by (simp add: u_def prc_upd_prc)
      then show ?thesis using True W(1) wokenD [OF W(2)] ct by (simp add: s1_def uf)
    qed (use inv in \<open>simp add: s1_def\<close>)
    then show "sched_inv (Some c) s1" "cur_of s1 = cur_of s" "thr s1 t = thr s t" "cpu_of s1 = cpu_of s" "nthr s1 = nthr s" "t \<notin> set (p_threads (prc s1 p))" by blast+
  qed
  define s2 where "s2 = child_list_remove (p_parent (prc s1 p)) p s1"
  have sc: "same_core s1 s2" by (simp add: s2_def children_core)
  have th2: "thr s2 = thr s1" by (auto simp: s2_def child_list_remove_def split: option.splits)
  have s2: "sched_inv (Some c) s2" using same_core_inv [OF sc s1(1)] .
  have ct: "cur_of s2 c = Some t" "th_state (thr s2 t) = PROCESS_ZOMBIE" "th_proc (thr s2 t) = Some p" using t p same_coreD [OF sc] s1 by simp_all
  have e: "thread_zombie_locked t s = (if p_live (prc s1 p) > 0 then (None, s1)
      else if parent_is_alive s2 p then
        (if p \<in> set (p_zombies (prc s2 (the (p_parent (prc s2 p))))) then (None, s2)
         else (None, wq_wake_all (ChildQ (the (p_parent (prc s2 p)))) (upd_prc (the (p_parent (prc s2 p))) (\<lambda>x. x\<lparr>p_zombies := p # p_zombies x\<rparr>) s2)))
      else (Some p, s2))"
    using p(1) by (simp add: thread_zombie_locked_def s1_def u_def s2_def Let_def)
  note re = r [unfolded e]
  have "sched_inv (Some c) s' \<and> cur_of s' = cur_of s \<and> thr s' t = thr s t \<and> cpu_of s' = cpu_of s \<and> nthr s' = nthr s \<and>
      t \<notin> set (p_threads (prc s' p)) \<and> exit_to s' p r"
  proof (cases "p_live (prc s1 p) > 0")
    case True
    then have "r = None" "s' = s1" using re by simp_all
    then show ?thesis using s1 True by (simp add: exit_to_def)
  next
    case l0: False
    have l2: "p_live (prc s2 p) = 0" using l0 same_coreD(25) [OF sc] by simp
    show ?thesis
    proof (cases "parent_is_alive s2 p \<and> p \<notin> set (p_zombies (prc s2 (the (p_parent (prc s2 p)))))")
      case False
      then have "s' = s2" "exit_to s2 p r" using re l0 l2 by (auto simp: exit_to_def split: if_splits)
      then show ?thesis using s1 s2 same_coreD [OF sc] by (simp add: th2)
    next
      case True
      then obtain q where q: "p_parent (prc s2 p) = Some q" by (auto simp: parent_is_alive_def split: option.splits)
      define v where "v = upd_prc q (\<lambda>x. x\<lparr>p_zombies := p # p_zombies x\<rparr>) s2"
      have rv: "r = None" "s' = wq_wake_all (ChildQ q) v" using re True q l0 by (simp_all add: v_def)
      have v: "sched_inv (Some c) v" unfolding v_def by (rule hand_over_inv [OF s2 ct l2]) (use True q in simp_all)
      have vf: "thr v = thr s2" "cur_of v = cur_of s2" "cpu_of v = cpu_of s2" "nthr v = nthr s2" by (simp_all add: v_def)
      have cv: "cur_of v c = Some t" "th_state (thr v t) = PROCESS_ZOMBIE" using ct by (simp_all add: vf)
      note W = wakesD [OF wakes_all v dying_thr(3) [OF v cv], of "ChildQ q"]
      have "q < nprc s2" using True q by (auto simp: parent_is_alive_def prc_def [of s2 q] process_zero_def split: if_splits)
      then have "p \<in> set (p_zombies (prc v q))" "p_parent (prc v p) = Some q" "p_threads (prc v p) = p_threads (prc s2 p)"
        using q by (auto simp: v_def prc_upd_prc)
      then show ?thesis unfolding rv using W(1) wokenD [OF W(2)] cv s1 same_coreD [OF sc] by (simp add: vf th2 exit_to_def)
    qed
  qed
  then show "sched_inv (Some c) s'" "cur_of s' = cur_of s" "thr s' t = thr s t" "cpu_of s' = cpu_of s" "nthr s' = nthr s"
    "\<And>p. th_proc (thr s t) = Some p \<Longrightarrow> t \<notin> set (p_threads (prc s' p)) \<and> exit_to s' p r" using p by auto
qed

section \<open>Reaping\<close>

lemma thread_zero_frame [simp]:
  "th_state thread_zero = PROCESS_UNUSED" "th_wq thread_zero = None" "th_period_ms thread_zero = 0" "\<not> th_idle thread_zero" "\<not> alive thread_zero"
  by (simp_all add: thread_zero_def alive_def)

lemma parent_prc: "prc w = prc s \<Longrightarrow> parent_is_alive w = parent_is_alive s"
  by (auto simp: parent_is_alive_def fun_eq_iff split: option.splits)

lemma zombie_okI:
  assumes "\<And>t. th_state (thr s t) = PROCESS_ZOMBIE \<Longrightarrow> \<not> dying X s t \<Longrightarrow> (\<And>c. c_pend_thread (cpu_of s c) \<noteq> Some t) \<Longrightarrow>
      th_joinable (thr s t) \<and> (\<exists>p. th_proc (thr s t) = Some p \<and> p_pid (prc s p) \<noteq> 0)"
    "\<And>c t. c_pend_thread (cpu_of s c) = Some t \<Longrightarrow> th_state (thr s t) = PROCESS_ZOMBIE \<and> th_running (thr s t) = None"
    "\<And>c c' t. c_pend_thread (cpu_of s c) = Some t \<Longrightarrow> c_pend_thread (cpu_of s c') = Some t \<Longrightarrow> c' = c"
    "\<And>t. dying X s t \<Longrightarrow> \<exists>p. th_proc (thr s t) = Some p \<and> p_pid (prc s p) \<noteq> 0"
    "\<And>c t. c_pend_thread (cpu_of s c) = Some t \<Longrightarrow> th_joinable (thr s t) \<Longrightarrow> th_proc (thr s t) \<noteq> None \<and> c_pend_proc (cpu_of s c) = th_proc (thr s t)"
  shows "zombie_ok X s"
  unfolding zombie_ok_def using assms by blast

lemma zombie_kept:
  assumes "zombie_ok X s" "th_state (thr s t) = PROCESS_ZOMBIE" "\<not> dying X s t" "\<And>c. c_pend_thread (cpu_of s c) \<noteq> Some t"
  shows "th_joinable (thr s t)" "\<exists>p. th_proc (thr s t) = Some p \<and> p_pid (prc s p) \<noteq> 0"
  using zombie_okD(1) [OF assms(1,2)] assms(3,4) by auto

lemma reap_thread_inv:
  assumes inv: "sched_inv X s" and t: "th_state (thr s t) = PROCESS_ZOMBIE" "\<not> dying X s t"
    and th: "thr w = (thr s)(t := thread_zero)" and wq: "s_waitq w = s_waitq s" and pr: "prc w = prc s" and np: "s_next_pid w = s_next_pid s"
    and cu: "cur_of w = cur_of s" "\<And>c. c_pend_proc (cpu_of w c) = c_pend_proc (cpu_of s c)"
    and pt: "\<And>c u. c_pend_thread (cpu_of w c) = Some u \<longleftrightarrow> c_pend_thread (cpu_of s c) = Some u \<and> u \<noteq> t"
    and dc: "s_declared w = s_declared s \<or> s_declared w = card {t. declares (thr w t)}"
  shows "sched_inv X w"
proof -
  note D = sched_invD [OF inv]
  have nr: "th_running (thr s t) = None" using run_okD(3) [OF D(1), of t] t by fastforce
  have nc: "cur_of s c \<noteq> Some t" for c using run_okD(1) [OF D(1), of c t] t by (auto simp: dying_def)
  have nl: "t \<notin> set (p_threads (prc s p))" for p using link_okD(7) [OF D(3), of t p] t by (auto simp: alive_def)
  have nw: "th_wq (thr s t) = None" using queue_okD(3) [OF D(2), of t] t by simp
  have dy: "dying X w = dying X s" using nc by (auto simp: dying_def cu th fun_eq_iff)
  have di: "dying_in X w = dying_in X s" using t(2) by (auto simp: dying_in_def dy th fun_eq_iff)
  have pa: "parent_is_alive w = parent_is_alive s" by (rule parent_prc [OF pr])
  have "run_ok X w" using D(1) nc unfolding run_ok_def dy cu th by (simp add: fun_upd_def)
  moreover have "queue_ok w" using D(2) nw unfolding queue_ok_def wq th by (auto simp: fun_upd_def)
  moreover have "link_ok X w" using D(3) nl unfolding link_ok_def dy pr th by (auto simp: fun_upd_def)
  moreover have "zombie_ok X w" 
    by (rule zombie_okI) (use zombie_kept [OF D(4)] zombie_okD(2-6) [OF D(4)] t(2) in \<open>auto simp: dy pr pt th cu split: if_splits\<close>)
  moreover have "exit_ok X w" using D(5) unfolding exit_ok_def pr cu pa di .
  moreover have "pid_ok w" using D(6) unfolding pid_ok_def pr np .
  moreover have "idle_ok w" by (rule idle_okI [OF D(7)]) (use t in \<open>auto simp: cu th idle_for_def\<close>)
  moreover have "declared_ok w"
  proof -
    have "{t'. declares (thr w t')} = {t'. declares (thr s t')}" using t(1) by (auto simp: th declares_def)
    then show ?thesis using D(8) dc unfolding declared_ok_def by (auto simp: th)
  qed
  ultimately show ?thesis by (simp add: sched_inv_def)
qed

lemma thread_reap_read:
  assumes "th_state (thr s t) = PROCESS_ZOMBIE"
  shows "thr (thread_reap_slot t s) = (thr s)(t := thread_zero)" "s_waitq (thread_reap_slot t s) = s_waitq s" "prc (thread_reap_slot t s) = prc s"
    "s_next_pid (thread_reap_slot t s) = s_next_pid s" "cur_of (thread_reap_slot t s) = cur_of s" "cpu_of (thread_reap_slot t s) = cpu_of s"
    "s_declared (thread_reap_slot t s) = s_declared s \<or> s_declared (thread_reap_slot t s) = card {t'. declares (thr (thread_reap_slot t s) t')}"
    "nthr (thread_reap_slot t s) = nthr s" "s_cpus (thread_reap_slot t s) = s_cpus s" "nprc (thread_reap_slot t s) = nprc s"
  using assms thr_range [of s t] by (auto simp: thread_reap_slot_def Let_def thr_upd_thr fun_eq_iff)

lemma claimed_iff: "reap_claimed t s \<longleftrightarrow> (\<exists>c. c_pend_thread (cpu_of s c) = Some t)"
proof -
  have "c_pend_thread (cpu_of s c) = Some t \<longleftrightarrow> c < length (s_cpus s) \<and> c_pend_thread (s_cpus s ! c) = Some t" for c
    by (simp add: cpu_of_def cpu_zero_def)
  then show ?thesis by (auto simp: reap_claimed_def list_ex_length)
qed

lemma thread_reap_inv:
  assumes "sched_inv X s" "th_state (thr s t) = PROCESS_ZOMBIE" "\<not> dying X s t" "\<not> reap_claimed t s"
  shows "sched_inv X (thread_reap_slot t s)"
  by (rule reap_thread_inv [OF assms(1,2,3)]) (use thread_reap_read [OF assms(2)] assms(4) in \<open>auto simp: claimed_iff\<close>)


text \<open>The orphans of a process: some dead threads are gone, and nothing else has changed.\<close>

definition reaped :: "sys \<Rightarrow> sys \<Rightarrow> bool" where
  "reaped s w \<longleftrightarrow> prc w = prc s \<and> nprc w = nprc s \<and> s_cpus w = s_cpus s \<and> nthr w = nthr s \<and> s_waitq w = s_waitq s \<and> s_next_pid w = s_next_pid s \<and>
     (\<forall>t. thr w t = thr s t \<or> thr w t = thread_zero \<and> th_state (thr s t) = PROCESS_ZOMBIE)"

lemma reapedD:
  assumes "reaped s w"
  shows "prc w = prc s" "nprc w = nprc s" "s_cpus w = s_cpus s" "nthr w = nthr s" "s_waitq w = s_waitq s" "s_next_pid w = s_next_pid s"
    "cpu_of w = cpu_of s" "cur_of w = cur_of s" "thr w t = thr s t \<or> thr w t = thread_zero \<and> th_state (thr s t) = PROCESS_ZOMBIE"
    "th_state (thr w t) = PROCESS_ZOMBIE \<Longrightarrow> thr w t = thr s t"
proof -
  show z: "thr w t = thr s t \<or> thr w t = thread_zero \<and> th_state (thr s t) = PROCESS_ZOMBIE" using assms unfolding reaped_def by blast
  show "th_state (thr w t) = PROCESS_ZOMBIE \<Longrightarrow> thr w t = thr s t" using z by auto
qed (use assms in \<open>simp_all add: reaped_def cur_of_def cpu_of_def fun_eq_iff\<close>)

lemma reaped_trans: "reaped s w \<Longrightarrow> reaped w v \<Longrightarrow> reaped s v"
  unfolding reaped_def by (metis process_state.distinct(7) thread_zero_frame(1))

lemma reaped_dying: "reaped s w \<Longrightarrow> dying_in X w p \<Longrightarrow> dying_in X s p"
  unfolding dying_in_def dying_def by (metis reapedD(8,10))

lemma reap_orphan_reaped: "reaped s (reap_orphan p t s)"
  using thread_reap_read [of s t] by (simp add: reap_orphan_def reaped_def)

lemma reap_orphan_inv:
  assumes inv: "sched_inv X s" and nd: "\<not> dying_in X s p"
  shows "sched_inv X (reap_orphan p t s)"
    "th_state (thr (reap_orphan p t s) t) = PROCESS_ZOMBIE \<Longrightarrow> th_proc (thr (reap_orphan p t s) t) = Some p \<Longrightarrow> reap_claimed t (reap_orphan p t s)"
proof -
  have z: "th_state (thr s t) = PROCESS_ZOMBIE \<Longrightarrow> th_proc (thr s t) = Some p \<Longrightarrow> \<not> dying X s t" using nd by (auto simp: dying_in_def)
  then have rn: "th_state (thr s t) = PROCESS_ZOMBIE \<Longrightarrow> th_proc (thr s t) = Some p \<Longrightarrow> th_running (thr s t) = None"
    using run_okD(3) [OF sched_invD(1) [OF inv], of t] by fastforce
  show "sched_inv X (reap_orphan p t s)" using thread_reap_inv [OF inv, of t] z inv by (simp add: reap_orphan_def)
  show "th_state (thr (reap_orphan p t s) t) = PROCESS_ZOMBIE \<Longrightarrow> th_proc (thr (reap_orphan p t s) t) = Some p \<Longrightarrow> reap_claimed t (reap_orphan p t s)"
    using thread_reap_read(1) [of s t] rn by (auto simp: reap_orphan_def split: if_splits)
qed

lemma claimed_reaped: "reaped s w \<Longrightarrow> reap_claimed t w = reap_claimed t s"
  by (simp add: claimed_iff reapedD(7))

lemma reap_orphans_inv:
  assumes "sched_inv X s" "\<not> dying_in X s p"
  shows "sched_inv X (fold (reap_orphan p) ts s) \<and> reaped s (fold (reap_orphan p) ts s) \<and>
    (\<forall>t \<in> set ts. th_state (thr (fold (reap_orphan p) ts s) t) = PROCESS_ZOMBIE \<and> th_proc (thr (fold (reap_orphan p) ts s) t) = Some p \<longrightarrow>
       reap_claimed t (fold (reap_orphan p) ts s))"
  using assms
proof (induction ts arbitrary: s)
  case (Cons t ts)
  let ?r = "reap_orphan p t s"
  have r: "reaped s ?r" by (rule reap_orphan_reaped)
  have nd: "\<not> dying_in X ?r p" using Cons.prems(2) reaped_dying [OF r] by blast
  note R = reap_orphan_inv [OF Cons.prems, of t]
  note I = Cons.IH [OF R(1) nd]
  let ?w = "fold (reap_orphan p) ts ?r"
  have w: "reaped ?r ?w" using I by blast
  have "th_state (thr ?w t) = PROCESS_ZOMBIE \<and> th_proc (thr ?w t) = Some p \<longrightarrow> reap_claimed t ?w"
    using R(2) reapedD(10) [OF w, of t] claimed_reaped [OF w] by auto
  then show ?case using I reaped_trans [OF r w] by auto
qed (simp add: reaped_def)

lemma process_zero_frame [simp]:
  "p_pid process_zero = 0" "p_live process_zero = 0" "p_threads process_zero = []" "p_zombies process_zero = []" "p_parent process_zero = None"
  by (simp_all add: process_zero_def)

text \<open>The slot itself.\<close>

lemma clear_process_inv:
  assumes inv: "sched_inv X s" and p: "p_live (prc s p) = 0" "\<not> dying_in X s p" "\<And>c. c_pend_proc (cpu_of s c) \<noteq> Some p" "\<And>q. p \<notin> set (p_zombies (prc s q))"
    and orph: "\<And>t. th_state (thr s t) = PROCESS_ZOMBIE \<Longrightarrow> th_proc (thr s t) = Some p \<Longrightarrow> reap_claimed t s"
    and th: "thr w = thr s" "cpu_of w = cpu_of s" "s_declared w = s_declared s" "s_next_pid w = s_next_pid s"
    and pr: "prc w = (prc s)(p := process_zero)" and wq: "s_waitq w = (s_waitq s)(ChildQ p := [], JoinQ p := [])"
  shows "sched_inv X w"
proof -
  note D = sched_invD [OF inv]
  have cu: "cur_of w = cur_of s" by (simp add: cur_of_def th fun_eq_iff)
  have dy: "dying X w = dying X s" "dying_in X w = dying_in X s" by (simp_all add: dying_def dying_in_def cu th fun_eq_iff)
  have e: "p_threads (prc s p) = []" using p(1) link_okD(4) [OF D(3), of p] by simp
  have em: "s_waitq s (ChildQ p) = []" "s_waitq s (JoinQ p) = []"
  proof -
    have "th_state (thr s t) = PROCESS_BLOCKED \<Longrightarrow> th_proc (thr s t) \<noteq> Some p" for t
      using link_okD(2) [OF D(3), of t] e by (auto simp: alive_def)
    then have "t \<notin> set (s_waitq s (ChildQ p))" "t \<notin> set (s_waitq s (JoinQ p))" for t
      using queue_okD(2,3,4,5) [OF D(2)] by (metis option.distinct(1))+
    then show "s_waitq s (ChildQ p) = []" "s_waitq s (JoinQ p) = []" by (metis list.set_intros(1) neq_Nil_conv)+
  qed
  have wq': "s_waitq w = s_waitq s" using em by (auto simp: wq fun_eq_iff)
  have pa: "parent_is_alive w r \<Longrightarrow> parent_is_alive s r \<and> p_parent (prc s r) \<noteq> Some p \<and> r \<noteq> p" for r
    by (auto simp: parent_is_alive_def pr split: option.splits if_splits)
  have "run_ok X w" using D(1) unfolding run_ok_def dy cu th .
  moreover have "queue_ok w" using D(2) unfolding queue_ok_def wq' th .
  moreover have "link_ok X w" 
  proof -
    have f: "p_threads (prc w r) = p_threads (prc s r)" "p_live (prc w r) = p_live (prc s r)"
      "p_threads (prc s r) \<noteq> [] \<Longrightarrow> p_pid (prc w r) = p_pid (prc s r)" for r using e p(1) by (auto simp: pr)
    show ?thesis using D(3) f(3) unfolding link_ok_def dy th f(1,2) by metis
  qed
  moreover have "zombie_ok X w"
  proof (rule zombie_okI)
    fix t assume t: "th_state (thr w t) = PROCESS_ZOMBIE" "\<not> dying X w t" "\<And>c. c_pend_thread (cpu_of w c) \<noteq> Some t"
    then have np: "th_proc (thr s t) \<noteq> Some p" using orph [of t] by (auto simp: th claimed_iff)
    show "th_joinable (thr w t) \<and> (\<exists>p. th_proc (thr w t) = Some p \<and> p_pid (prc w p) \<noteq> 0)"
      using zombie_kept [OF D(4) t [unfolded dy th]] np by (auto simp: th pr)
  next
    fix t assume t: "dying X w t"
    then have np: "th_proc (thr s t) \<noteq> Some p" using p(2) by (auto simp: dying_in_def dy)
    show "\<exists>p. th_proc (thr w t) = Some p \<and> p_pid (prc w p) \<noteq> 0"
      using zombie_okD(5) [OF D(4) t [unfolded dy]] np by (auto simp: th pr)
  qed (unfold th, (use zombie_okD(2-4,6) [OF D(4)] in \<open>blast\<close>)+)
  moreover have "exit_ok X w"
  proof (rule exit_okI)
    fix c r assume r: "c_pend_proc (cpu_of w c) = Some r"
    then have "r \<noteq> p" using p(3) by (auto simp: th)
    then show "p_pid (prc w r) \<noteq> 0 \<and> p_live (prc w r) = 0 \<and> \<not> parent_is_alive w r \<and> \<not> dying_in X w r"
      using exit_okD(1,2) [OF D(5) r [unfolded th]] pa [of r] by (auto simp: dy pr)
  next
    fix r q assume r: "r \<in> set (p_zombies (prc w q))"
    then have q: "q \<noteq> p" "r \<in> set (p_zombies (prc s q))" "r \<noteq> p" using p(4) by (auto simp: pr split: if_splits)
    show "p_pid (prc w r) \<noteq> 0 \<and> p_live (prc w r) = 0 \<and> p_parent (prc w r) = Some q \<and> p_pid (prc w q) \<noteq> 0 \<and> p_parent_pid (prc w r) = p_pid (prc w q)"
      using exit_okD(5) [OF D(5) q(2)] q by (simp add: pr)
  next
    fix r assume r: "p_pid (prc w r) \<noteq> 0" "p_live (prc w r) = 0" "parent_is_alive w r" "\<not> dying_in X w r"
    note f = pa [OF r(3)]
    have rp: "r \<noteq> p" using f by simp
    have "r \<in> set (p_zombies (prc s (the (p_parent (prc s r)))))"
      using exit_okD(7) [OF D(5), of r] r rp f by (simp add: pr dy)
    moreover have "the (p_parent (prc s r)) \<noteq> p" using f r(3) by (auto simp: parent_is_alive_def split: option.splits)
    ultimately show "r \<in> set (p_zombies (prc w (the (p_parent (prc w r)))))" using rp by (simp add: pr)
  qed (use exit_okD(3,4,6) [OF D(5)] in \<open>auto simp: th pr dy split: if_splits\<close>)
  moreover have "pid_ok w"
  proof -
    have f: "p_pid (prc w r) \<noteq> 0 \<Longrightarrow> prc w r = prc s r" "p_pid (prc w r) \<le> p_pid (prc s r)" for r by (auto simp: pr)
    show ?thesis using D(6) unfolding pid_ok_def th by (metis f le_less_trans)
  qed
  moreover have "idle_ok w" using D(7) unfolding idle_ok_def idle_for_def cu th .
  moreover have "declared_ok w" using D(8) unfolding declared_ok_def th .
  ultimately show ?thesis by (simp add: sched_inv_def)
qed

lemma process_reap_inv:
  assumes inv: "sched_inv X s" and p: "p_live (prc s p) = 0" "\<not> dying_in X s p" "\<And>c. c_pend_proc (cpu_of s c) \<noteq> Some p" "\<And>q. p \<notin> set (p_zombies (prc s q))"
  shows "sched_inv X (process_reap_slot p s)" "cpu_of (process_reap_slot p s) = cpu_of s" "cur_of (process_reap_slot p s) = cur_of s"
    "prc (process_reap_slot p s) = (prc s)(p := process_zero)"
    "thr (process_reap_slot p s) t = thr s t \<or> thr (process_reap_slot p s) t = thread_zero \<and> th_state (thr s t) = PROCESS_ZOMBIE"
proof -
  define u where "u = s\<lparr>s_spaces := p_pid (prc s p) # s_spaces s\<rparr>"
  define v where "v = fold (reap_orphan p) [0..<nthr u] u"
  have u: "same_core s u" by (simp add: u_def same_core_def)
  note U = same_core_inv [OF u inv]
  have d: "\<not> dying_in X u p" using p(2) by (simp add: dying_in_cong [OF u])
  note V = reap_orphans_inv [OF U d, of "[0..<nthr u]", folded v_def]
  then have R: "reaped u v" by blast
  define w where "w = process_reap_slot p s"
  have w: "thr w = thr v" "cpu_of w = cpu_of v" "s_declared w = s_declared v" "s_next_pid w = s_next_pid v"
    "s_waitq w = (s_waitq v)(ChildQ p := [], JoinQ p := [])" "prc w = (prc v)(p := process_zero)"
    by (simp_all add: w_def process_reap_slot_def Let_def u_def [symmetric] v_def [symmetric] prc_upd_prc fun_eq_iff) (auto simp: prc_def)
  have orph: "reap_claimed t v" if "th_state (thr v t) = PROCESS_ZOMBIE" "th_proc (thr v t) = Some p" for t
    using V thr_range [of v t] that reapedD(4) [OF R] by auto
  have uv: "prc v = prc s" "cpu_of v = cpu_of s" "\<not> dying_in X v p" "cur_of v = cur_of s"
    using reapedD(1,7,8) [OF R] reaped_dying [OF R] d by (auto simp: u_def)
  show "sched_inv X (process_reap_slot p s)" unfolding w_def [symmetric]
    by (rule clear_process_inv [of X v p, OF _ _ uv(3) _ _ orph w(1-4) w(6,5)]) (use V p uv in \<open>auto\<close>)
  show "cpu_of (process_reap_slot p s) = cpu_of s" "prc (process_reap_slot p s) = (prc s)(p := process_zero)"
    unfolding w_def [symmetric] w uv by simp_all
  then show "cur_of (process_reap_slot p s) = cur_of s" by (simp add: cur_of_def fun_eq_iff)
  show "thr (process_reap_slot p s) t = thr s t \<or> thr (process_reap_slot p s) t = thread_zero \<and> th_state (thr s t) = PROCESS_ZOMBIE"
    using reapedD(9) [OF R, of t] unfolding w_def [symmetric] w by (simp add: u_def)
qed

lemma cur_not_zero:
  assumes "sched_inv X w" "cur_of w c = Some t" "thr w t = thr s t \<or> thr w t = thread_zero \<and> P"
  shows "thr w t = thr s t"
  using run_okD(1) [OF sched_invD(1) [OF assms(1)] assms(2)] assms(3) by auto

lemma pend_proc_free:
  assumes "exit_ok X s" "c_pend_proc (cpu_of s c) = Some p"
  shows "p \<notin> set (p_zombies (prc s q))"
  using exit_okD(1) [OF assms] exit_okD(5) [OF assms(1), of p q] by (auto simp: parent_is_alive_def)

lemma unclaim_process_inv:
  assumes inv: "sched_inv X s" and p: "c_pend_proc (cpu_of s c) = Some p" and np: "c_pend_thread (cpu_of s c) = None"
  defines "w \<equiv> upd_cpu c (\<lambda>x. x\<lparr>c_pend_proc := None\<rparr>) s"
  shows "sched_inv X w" "c_pend_proc (cpu_of w c') \<noteq> Some p" "cur_of w = cur_of s" "thr w = thr s" "prc w = prc s"
    "c_pend_thread (cpu_of w c') = c_pend_thread (cpu_of s c')" "c_pend_proc (cpu_of w c) = None"
proof -
  note D = sched_invD [OF inv]
  have cn: "c < ncpu s" using p by (auto simp: cpu_of_def cpu_zero_def split: if_splits)
  have cp: "cpu_of w = (cpu_of s)(c := (cpu_of s c)\<lparr>c_pend_proc := None\<rparr>)" using cn by (simp add: w_def cpu_upd_cpu fun_eq_iff)
  show cu: "cur_of w = cur_of s" by (simp add: cur_of_def cp fun_eq_iff)
  show fr: "thr w = thr s" "prc w = prc s" by (simp_all add: w_def)
  have fs: "s_waitq w = s_waitq s" "s_next_pid w = s_next_pid s" "s_declared w = s_declared s" by (simp_all add: w_def)
  have pt: "c_pend_thread (cpu_of w c') = c_pend_thread (cpu_of s c')" for c' by (simp add: cp)
  then show "c_pend_thread (cpu_of w c') = c_pend_thread (cpu_of s c')" .
  have pp: "c_pend_proc (cpu_of w c') = Some r \<longleftrightarrow> c_pend_proc (cpu_of s c') = Some r \<and> c' \<noteq> c" for c' r by (simp add: cp)
  show "c_pend_proc (cpu_of w c') \<noteq> Some p" "c_pend_proc (cpu_of w c) = None" using pp exit_okD(3) [OF D(5) p, of c'] by (auto simp: cp)
  have dy: "dying X w = dying X s" "dying_in X w = dying_in X s" by (simp_all add: dying_def dying_in_def cu fr fun_eq_iff)
  note pa = parent_prc [OF fr(2)]
  have "run_ok X w" using D(1) unfolding run_ok_def dy cu fr .
  moreover have "queue_ok w" using D(2) unfolding queue_ok_def fr fs .
  moreover have "link_ok X w" using D(3) unfolding link_ok_def dy fr .
  moreover have "zombie_ok X w" 
  proof -
    have j: "c_pend_proc (cpu_of w c') = c_pend_proc (cpu_of s c')" if "c_pend_thread (cpu_of s c') = Some t" for c' t
      using np that by (cases "c' = c") (simp_all add: cp)
    show ?thesis
    proof (rule zombie_okI, unfold dy fr pt, goal_cases)
      case (5 c' t)
      then show ?case using zombie_okD(6) [OF D(4) 5] j by simp
    qed (use zombie_kept [OF D(4)] zombie_okD(2-5) [OF D(4)] in blast)+
  qed
  moreover have "exit_ok X w" using D(5) unfolding exit_ok_def dy fr pa pp by blast
  moreover have "pid_ok w" using D(6) unfolding pid_ok_def fr fs .
  moreover have "idle_ok w" using D(7) unfolding idle_ok_def idle_for_def cu fr .
  moreover have "declared_ok w" using D(8) unfolding declared_ok_def fr fs .
  ultimately show "sched_inv X w" by (simp add: sched_inv_def)
qed

lemma reap_pend_thread_inv:
  assumes inv: "sched_inv X s" and t: "c_pend_thread (cpu_of s c) = Some t"
  defines "w \<equiv> thread_reap_slot t (upd_cpu c (\<lambda>x. x\<lparr>c_pend_thread := None\<rparr>) s)"
  shows "sched_inv X w" "cur_of w = cur_of s" "thr w = (thr s)(t := thread_zero)" "th_state (thr s t) = PROCESS_ZOMBIE"
    "c_pend_thread (cpu_of w c) = None" "prc w = prc s"
proof -
  note D = sched_invD [OF inv]
  show z: "th_state (thr s t) = PROCESS_ZOMBIE" using zombie_okD(2) [OF D(4) t] .
  have nd: "\<not> dying X s t" using zombie_okD(3) [OF D(4) t] run_okD(1) [OF D(1)] z by (fastforce simp: dying_def)
  define u where "u = upd_cpu c (\<lambda>x. x\<lparr>c_pend_thread := None\<rparr>) s"
  have cn: "c < ncpu s" using t by (auto simp: cpu_of_def cpu_zero_def split: if_splits)
  have cp: "cpu_of u = (cpu_of s)(c := (cpu_of s c)\<lparr>c_pend_thread := None\<rparr>)" using cn by (simp add: u_def cpu_upd_cpu fun_eq_iff)
  have cu: "cur_of u = cur_of s" by (simp add: cur_of_def cp fun_eq_iff)
  have uz: "th_state (thr u t) = PROCESS_ZOMBIE" using z by (simp add: u_def)
  note R = thread_reap_read [OF uz, folded u_def]
  show c: "cur_of w = cur_of s" and th: "thr w = (thr s)(t := thread_zero)" and "c_pend_thread (cpu_of w c) = None" "prc w = prc s"
    using R cu cp by (simp_all add: w_def u_def [symmetric]) (simp_all add: u_def)
  have px: "c_pend_thread (cpu_of s c') = Some t \<longleftrightarrow> c' = c" for c' using zombie_okD(4) [OF D(4) t, of c'] t by blast
  have cw: "cpu_of w = cpu_of u" using R(6) by (simp add: w_def u_def [symmetric])
  have pt: "c_pend_thread (cpu_of w c') = Some r \<longleftrightarrow> c_pend_thread (cpu_of s c') = Some r \<and> r \<noteq> t" for c' r
    using px [of c'] t by (cases "c' = c") (auto simp: cw cp)
  have "s_waitq w = s_waitq s" "prc w = prc s" "s_next_pid w = s_next_pid s"
    "s_declared w = s_declared s \<or> s_declared w = card {t. declares (thr w t)}"
    using R(2,3,4,7) unfolding w_def u_def [symmetric] by (simp_all add: u_def)
  moreover have "c_pend_proc (cpu_of w c') = c_pend_proc (cpu_of s c')" for c' by (simp add: cw cp)
  ultimately show "sched_inv X w" by (intro reap_thread_inv [OF inv z nd th _ _ _ c _ pt])
qed

lemma reap_pending_inv:
  assumes inv: "sched_inv X s" and w_def: "w = reap_pending c s"
  shows "sched_inv X w" "cur_of w = cur_of s" "c_pend_thread (cpu_of w c) = None" "c_pend_proc (cpu_of w c) = None"
    "cur_of s c' = Some t \<Longrightarrow> thr w t = thr s t"
proof -
  define u where "u = (case c_pend_thread (cpu_of s c) of None \<Rightarrow> s
      | Some t \<Rightarrow> thread_reap_slot t (upd_cpu c (\<lambda>x. x\<lparr>c_pend_thread := None\<rparr>) s))"
  have U: "sched_inv X u" "cur_of u = cur_of s" "c_pend_thread (cpu_of u c) = None"
    "\<And>t. thr u t = thr s t \<or> thr u t = thread_zero \<and> th_state (thr s t) = PROCESS_ZOMBIE"
    using inv reap_pend_thread_inv [OF inv, of c] by (auto simp: u_def split: option.splits)
  have w: "w = (case c_pend_proc (cpu_of u c) of None \<Rightarrow> u | Some p \<Rightarrow> process_reap_slot p (upd_cpu c (\<lambda>x. x\<lparr>c_pend_proc := None\<rparr>) u))"
    unfolding w_def reap_pending_def Let_def u_def [symmetric] by (rule refl)
  have "sched_inv X w \<and> cur_of w = cur_of s \<and> c_pend_thread (cpu_of w c) = None \<and> c_pend_proc (cpu_of w c) = None \<and>
    (\<forall>t. thr w t = thr s t \<or> thr w t = thread_zero \<and> th_state (thr s t) = PROCESS_ZOMBIE)"
  proof (cases "c_pend_proc (cpu_of u c)")
    case (Some p)
    let ?v = "upd_cpu c (\<lambda>x. x\<lparr>c_pend_proc := None\<rparr>) u"
    note E = sched_invD(5) [OF U(1)]
    note V = unclaim_process_inv [OF U(1) Some U(3)]
    have nd: "\<not> dying_in X ?v p" using exit_okD(2) [OF E Some] V(3,4) by (simp add: dying_in_def dying_def)
    have "p_live (prc ?v p) = 0" "\<And>q. p \<notin> set (p_zombies (prc ?v q))" using exit_okD(1) [OF E Some] pend_proc_free [OF E Some] V(5) by simp_all
    note R = process_reap_inv [OF V(1) this(1) nd V(2) this(2)]
    have "thr (process_reap_slot p ?v) t = thr s t \<or> thr (process_reap_slot p ?v) t = thread_zero \<and> th_state (thr s t) = PROCESS_ZOMBIE" for t
      using R(5) [of t] U(4) [of t] V(4) by auto
    then show ?thesis using R(1,2,3) V U by (simp add: w Some)
  qed (use U in \<open>simp add: w\<close>)
  then show "sched_inv X w" "cur_of w = cur_of s" "c_pend_thread (cpu_of w c) = None" "c_pend_proc (cpu_of w c) = None"
    "cur_of s c' = Some t \<Longrightarrow> thr w t = thr s t" using cur_not_zero [of X w c' t s "th_state (thr s t) = PROCESS_ZOMBIE"] by simp_all
qed

end
