(* ===== verification/Sched_Switch.thy ===== *)
theory Sched_Switch
  imports Sched_Exit
begin

text \<open>
  Scheduling decisions keep the invariant.  What the mechanism in \<open>process.c\<close> relies on in a policy is
  a locale, which both policies satisfy; with it \<open>schedule_locked\<close>, from picking to switching, is
  shown to leave every core with a running thread of its own.
\<close>

section \<open>Picking\<close>

lemma rr_tick_core: "same_core s (rr_tick t s)"
proof -
  have "tcore (rr_age cur i x) = tcore x" "prio_ok x \<Longrightarrow> prio_ok (rr_age cur i x)" for cur i x
    by (auto simp: rr_age_def tcore_def prio_ok_def)
  then show ?thesis by (auto simp: rr_tick_def same_core_def thr_def prc_def)
qed

lemma dispatchable_core: "tcore x = tcore y \<Longrightarrow> dispatchable c cur i x = dispatchable c cur i y"
  by (simp add: dispatchable_def tcore_def)

lemma dispatchable_same: "same_core s s' \<Longrightarrow> dispatchable c cur i (thr s' i) = dispatchable c cur i (thr s i)"
  by (rule dispatchable_core) (simp add: same_core_def)

lemma roll_core: "same_core s (upd_thr i (roll n) s)"
  by (auto simp: same_core_def thr_upd_thr tcore_def prio_ok_def)

lemma dl_scan_fold:
  assumes "\<And>i. i \<in> set is \<Longrightarrow> i < nthr s" "\<And>b. best = Some b \<Longrightarrow> b < nthr s \<and> dispatchable c cur b (thr s b)"
    and "fold (dl_scan c cur) is (best, s) = (best', s')"
  shows "same_core s s' \<and> (\<forall>b. best' = Some b \<longrightarrow> b < nthr s \<and> dispatchable c cur b (thr s b))"
  using assms
proof (induction "is" arbitrary: best s)
  case (Cons i "is")
  obtain b1 s1 where d: "dl_scan c cur i (best, s) = (b1, s1)" by force
  have c: "same_core s s1 \<and> (\<forall>b. b1 = Some b \<longrightarrow> b < nthr s \<and> dispatchable c cur b (thr s b))"
    using d Cons.prems(1,2) roll_core [of s i "s_now_ms s"] by (auto simp: dl_scan_def Let_def split: if_splits option.splits)
  then have n: "nthr s1 = nthr s" by (simp add: same_core_def)
  have "same_core s1 s' \<and> (\<forall>b. best' = Some b \<longrightarrow> b < nthr s1 \<and> dispatchable c cur b (thr s1 b))"
  proof (rule Cons.IH)
    show "i < nthr s1" if "i \<in> set is" for i using Cons.prems(1) that n by simp
    show "b < nthr s1 \<and> dispatchable c cur b (thr s1 b)" if "b1 = Some b" for b
      using c that n dispatchable_same [of s s1] by simp
    show "fold (dl_scan c cur) is (b1, s1) = (best', s')" using Cons.prems(3) d by simp
  qed
  then show ?case using c same_core_trans [of s s1 s'] dispatchable_same [of s s1] n by simp
qed simp

lemma first_some_iff: "first_some f xs = Some y \<Longrightarrow> \<exists>x \<in> set xs. f x = Some y" "first_some f xs = None \<longleftrightarrow> (\<forall>x \<in> set xs. f x = None)"
  by (induction xs) (auto split: option.splits)

lemma rr_order_set: "cur < n \<Longrightarrow> set (rr_order n cur) = {..<n}"
proof -
  assume c: "cur < n"
  have "i \<in> set (rr_order n cur)" if "i < n" for i
  proof (cases "i \<le> cur")
    case True
    then have "(cur + (i + n - cur)) mod n = i" "i + n - cur \<in> set [1..<n + 1]" using that c by auto
    then show ?thesis unfolding rr_order_def by (metis (no_types, lifting) image_eqI list.set_map)
  next
    case False
    then have "(cur + (i - cur)) mod n = i" "i - cur \<in> set [1..<n + 1]" using that c by auto
    then show ?thesis unfolding rr_order_def by (metis (no_types, lifting) image_eqI list.set_map)
  qed
  then show ?thesis using c by (auto simp: rr_order_def)
qed

lemma rr_pick_dispatchable: "rr_pick c cur s = Some n \<Longrightarrow> dispatchable c cur n (thr s n)"
  by (drule first_some_iff(1) [OF rr_pick_def [symmetric, THEN trans]]) (auto simp: rr_band_def find_Some_iff)

lemma rr_pick_None:
  assumes "cur < nthr s" "i < nthr s" "dispatchable c cur i (thr s i)" "th_prio (thr s i) < SCHED_PRIORITY_BANDS"
  shows "rr_pick c cur s \<noteq> None"
proof
  assume "rr_pick c cur s = None"
  then have "rr_band c cur (th_prio (thr s i)) s = None" using assms(4) unfolding rr_pick_def first_some_iff(2) by auto
  then show False using assms rr_order_set [OF assms(1)] by (auto simp: rr_band_def find_None_iff)
qed

text \<open>
  What the mechanism relies on when it asks the installed policy (the hooks of \<open>struct sched_policy\<close>):
  neither hook touches what the invariant speaks of, a pick can run on the core, and a policy that
  finds nothing has nothing to run.
\<close>

locale scheduling_policy =
  fixes pick :: "nat \<Rightarrow> nat \<Rightarrow> sys \<Rightarrow> nat option \<times> sys" and tick :: "nat \<Rightarrow> sys \<Rightarrow> sys"
  assumes tick_core: "same_core s (tick t s)"
    and pick_core: "pick c cur s = (r, s') \<Longrightarrow> same_core s s'"
    and pick_runs: "pick c cur s = (Some n, s') \<Longrightarrow> dispatchable c cur n (thr s' n)"
    and pick_finds: "pick c cur s = (None, s') \<Longrightarrow> cur < nthr s' \<Longrightarrow> i < nthr s' \<Longrightarrow> dispatchable c cur i (thr s' i) \<Longrightarrow>
      SCHED_PRIORITY_BANDS \<le> th_prio (thr s' i)"
begin

lemma pick_some:
  assumes inv: "sched_inv X s" and cur: "cur_of s c = Some cur" and p: "pick c cur s = (r, s')"
  obtains n where "r = Some n" "dispatchable c cur n (thr s' n)"
proof (cases r)
  case None
  note P = pick_core [OF p]
  note c = same_coreD [OF P]
  note D = sched_invD [OF same_core_inv [OF P inv]]
  have cu: "cur_of s' c = Some cur" using cur c by simp
  obtain i where i: "idle_for s' c i" using D(7) cu unfolding idle_ok_def by blast
  then have a: "alive (thr s' i)" "i < nthr s'" using thr_range [of s' i] by (auto simp: idle_for_def alive_def)
  have "th_running (thr s' i) \<noteq> None \<Longrightarrow> i = cur"
    using i run_okD(2,3,4) [OF D(1), of i] blocked_not_running [OF D(1), of i] cu by (auto simp: idle_for_def)
  then have "dispatchable c cur i (thr s' i)" using i run_okD(5) [OF D(1), of i] by (auto simp: dispatchable_def idle_for_def)
  moreover have "cur < nthr s'" using run_okD(1) [OF D(1) cu] thr_range [of s' cur] by auto
  ultimately have "SCHED_PRIORITY_BANDS \<le> th_prio (thr s' i)" using pick_finds p a(2) None by simp
  then show ?thesis using link_okD(1) [OF D(3) a(1)] by (simp add: prio_ok_def)
qed (use pick_runs p that in blast)

lemma tick_inv: "sched_inv X s \<Longrightarrow> sched_inv X (tick t s)"
  by (rule same_core_inv [OF tick_core])

end

lemma rr_pick_finds:
  assumes "rr_pick c cur s = None" "cur < nthr s" "i < nthr s" "dispatchable c cur i (thr s i)"
  shows "SCHED_PRIORITY_BANDS \<le> th_prio (thr s i)"
  using rr_pick_None [OF assms(2-4)] assms(1) by linarith

lemma dl_scan_all:
  assumes "fold (dl_scan c cur) [0..<nthr s] (None, s) = (best, s')"
  shows "same_core s s'" "best = Some b \<Longrightarrow> dispatchable c cur b (thr s' b)"
  using dl_scan_fold [OF _ _ assms] dispatchable_same [of s s'] by auto

interpretation round_robin: scheduling_policy "\<lambda>c cur s. (rr_pick c cur s, s)" rr_tick
  by unfold_locales (auto simp: rr_tick_core rr_pick_dispatchable dest: rr_pick_finds)

interpretation earliest_deadline: scheduling_policy dl_pick dl_tick
proof (unfold_locales, goal_cases)
  case (1 s t)
  show ?case by (simp add: dl_tick_def rr_tick_core)
qed (auto simp: dl_pick_def split: if_splits prod.splits option.splits dest: dl_scan_all rr_pick_dispatchable rr_pick_finds)

interpretation installed: scheduling_policy policy_pick policy_tick
proof (unfold_locales, goal_cases)
  case (1 s t)
  show ?case using round_robin.tick_core earliest_deadline.tick_core by (simp add: policy_tick_def split: sched_policy.split)
next
  case (2 c cur s r s')
  then show ?case using earliest_deadline.pick_core by (auto simp: policy_pick_def split: sched_policy.splits)
next
  case (3 c cur s n s')
  then show ?case using round_robin.pick_runs earliest_deadline.pick_runs by (auto simp: policy_pick_def split: sched_policy.splits)
next
  case (4 c cur s s' i)
  then show ?case using round_robin.pick_finds earliest_deadline.pick_finds by (auto simp: policy_pick_def split: sched_policy.splits)
qed

section \<open>Switching\<close>

lemma dying_None [simp]: "\<not> dying None s t" "\<not> dying_in None s p"
  by (simp_all add: dying_def dying_in_def)

text \<open>A core whose current thread runs is not inside a decision.\<close>

lemma running_None:
  assumes "cur_of s c = Some t" "th_state (thr s t) = PROCESS_RUNNING"
  shows "sched_inv (Some c) s \<longleftrightarrow> sched_inv None s"
proof -
  have d: "dying (Some c) s = dying None s" using assms by (auto simp: dying_def fun_eq_iff)
  then have di: "dying_in (Some c) s = dying_in None s" by (simp add: dying_in_def fun_eq_iff)
  have "run_ok (Some c) s \<longleftrightarrow> run_ok None s" 
  proof
    assume r: "run_ok (Some c) s"
    have "th_state (thr s u) = PROCESS_RUNNING \<and> th_running (thr s u) = Some c'" if "cur_of s c' = Some u" for c' u
      using run_okD(1) [OF r that] assms that by auto
    then show "run_ok None s" using r unfolding run_ok_def d by blast
  qed (unfold run_ok_def d, blast)
  then show ?thesis unfolding sched_inv_def link_ok_def zombie_ok_def exit_ok_def d di by simp
qed

text \<open>What core \<open>c\<close> does to the two threads when it goes from \<open>t\<close> to \<open>n\<close>.\<close>

definition switched :: "nat \<Rightarrow> nat \<Rightarrow> nat \<Rightarrow> sys \<Rightarrow> sys \<Rightarrow> bool" where
  "switched c t n s w \<longleftrightarrow> thr w = (thr s)(
       t := (thr s t)\<lparr>th_state := (if th_state (thr s t) = PROCESS_RUNNING then PROCESS_READY else th_state (thr s t)), th_running := None\<rparr>,
       n := (thr s n)\<lparr>th_state := PROCESS_RUNNING, th_running := Some c\<rparr>) \<and>
     cur_of w = (cur_of s)(c := Some n) \<and> s_waitq w = s_waitq s \<and> s_next_pid w = s_next_pid s \<and> s_declared w = s_declared s"

definition dispatched :: "nat \<Rightarrow> nat \<Rightarrow> nat \<Rightarrow> sys \<Rightarrow> bool" where
  "dispatched c t n s \<longleftrightarrow> cur_of s c = Some t \<and> n \<noteq> t \<and> dispatchable c t n (thr s n)"

lemma switched_parts:
  assumes inv: "sched_inv (Some c) s" and n: "dispatched c t n s" and w: "switched c t n s w"
    and nl: "th_state (thr s t) = PROCESS_ZOMBIE \<Longrightarrow> (\<And>p. t \<notin> set (p_threads (prc s p)))"
    and pr: "\<And>p. p_threads (prc w p) = p_threads (prc s p)" "\<And>p. p_live (prc w p) = p_live (prc s p)" "\<And>p. p_pid (prc w p) = p_pid (prc s p)"
      "\<And>p. p_parent (prc w p) = p_parent (prc s p)" "\<And>p. p_parent_pid (prc w p) = p_parent_pid (prc s p)"
  shows "run_ok None w" "queue_ok w" "link_ok None w" "pid_ok w" "idle_ok w" "declared_ok w"
proof -
  note D = sched_invD [OF inv]
  have cu: "cur_of s c = Some t" and nt: "n \<noteq> t" "th_state (thr s n) = PROCESS_READY" "th_running (thr s n) = None"
      "th_pinned (thr s n) = None \<or> th_pinned (thr s n) = Some c"
    using n by (auto simp: dispatched_def dispatchable_def)
  have tc: "cur_of s c' = Some t \<longleftrightarrow> c' = c" for c' using run_okD(1) [OF D(1), of c' t] run_okD(1) [OF D(1) cu] cu by auto
  have ncu: "cur_of s c' \<noteq> Some n" for c' using run_okD(1) [OF D(1), of c' n] nt by auto
  have th: "thr w = (thr s)(
       t := (thr s t)\<lparr>th_state := (if th_state (thr s t) = PROCESS_RUNNING then PROCESS_READY else th_state (thr s t)), th_running := None\<rparr>,
       n := (thr s n)\<lparr>th_state := PROCESS_RUNNING, th_running := Some c\<rparr>)"
    and cw: "cur_of w = (cur_of s)(c := Some n)" and fr: "s_waitq w = s_waitq s" "s_next_pid w = s_next_pid s" "s_declared w = s_declared s"
    using w by (simp_all add: switched_def)
  have dy: "dying (Some c) s t' \<longleftrightarrow> t' = t \<and> th_state (thr s t) = PROCESS_ZOMBIE" for t' using cu by (auto simp: dying_def)
  have ts: "th_state (thr s t) = PROCESS_RUNNING \<or> th_state (thr s t) = PROCESS_BLOCKED \<or> th_state (thr s t) = PROCESS_ZOMBIE"
    using run_okD(1) [OF D(1) cu] by auto
  have "th_state (thr w u) = PROCESS_RUNNING \<and> th_running (thr w u) = Some c'" if "cur_of w c' = Some u" for c' u
    using run_okD(1) [OF D(1), of c' u] that tc [of c'] ncu [of c'] nt by (cases "c' = c") (auto simp: cw th)
  moreover have "cur_of w c' = Some u \<and> th_state (thr w u) = PROCESS_RUNNING \<and> (th_pinned (thr w u) = None \<or> th_pinned (thr w u) = Some c')"
    if "th_state (thr w u) \<noteq> PROCESS_UNUSED" "th_running (thr w u) = Some c'" for c' u
  proof (cases "u = n \<or> u = t")
    case False
    then have "c' \<noteq> c" "cur_of s c' = Some u" "th_state (thr s u) = PROCESS_RUNNING"
      using run_okD(2,3) [OF D(1), of u c'] that cu by (auto simp: th dy)
    then show ?thesis using False run_okD(4) [OF D(1), of u c'] that by (simp add: cw th)
  qed (use that nt in \<open>auto simp: cw th\<close>)
  moreover have "th_running (thr w u) \<noteq> None" if "th_state (thr w u) = PROCESS_RUNNING" for u
    using run_okD(5) [OF D(1), of u] that by (auto simp: th split: if_splits)
  ultimately show "run_ok None w" unfolding run_ok_def by blast
  show "queue_ok w" using D(2) nt ts unfolding queue_ok_def th fr by (auto simp: fun_upd_def)
  show "link_ok None w" using D(3) nl nt ts unfolding link_ok_def th pr dy by (auto simp: alive_def prio_ok_def)
  show "pid_ok w" using D(6) unfolding pid_ok_def pr fr .
  show "idle_ok w"
    by (rule idle_okI [OF D(7)]) (use ts nt cu in \<open>auto simp: cw th idle_for_def split: if_splits\<close>)
  show "declared_ok w"
    by (rule declared_okI [OF D(8) fr(3)]) (use ts nt unused_period [OF D(8)] in \<open>auto simp: th declares_def split: if_splits\<close>)
qed

lemma switched_thr:
  assumes "switched c t n s w" "n \<noteq> t"
  shows "u = t \<and> thr w u = (thr s t)\<lparr>th_state := (if th_state (thr s t) = PROCESS_RUNNING then PROCESS_READY else th_state (thr s t)), th_running := None\<rparr> \<or>
    u = n \<and> thr w u = (thr s n)\<lparr>th_state := PROCESS_RUNNING, th_running := Some c\<rparr> \<or> u \<noteq> t \<and> u \<noteq> n \<and> thr w u = thr s u"
  using assms unfolding switched_def by (simp only: fun_upd_apply) auto

lemma switch_live_inv:
  assumes inv: "sched_inv (Some c) s" and n: "dispatched c t n s" and w: "switched c t n s w" and t: "th_state (thr s t) \<noteq> PROCESS_ZOMBIE"
    and pr: "prc w = prc s" and pc: "\<And>c. c_pend_thread (cpu_of w c) = c_pend_thread (cpu_of s c)" "\<And>c. c_pend_proc (cpu_of w c) = c_pend_proc (cpu_of s c)"
  shows "sched_inv None w"
proof -
  note D = sched_invD [OF inv]
  have cu: "cur_of s c = Some t" and nt: "n \<noteq> t" "th_state (thr s n) = PROCESS_READY" using n by (auto simp: dispatched_def dispatchable_def)
  have dy: "\<not> dying (Some c) s t'" "\<not> dying_in (Some c) s p" for t' p using cu t by (auto simp: dying_def dying_in_def)
  have z: "th_state (thr w u) = PROCESS_ZOMBIE \<longleftrightarrow> th_state (thr s u) = PROCESS_ZOMBIE"
    "th_state (thr s u) = PROCESS_ZOMBIE \<Longrightarrow> thr w u = thr s u" for u
    using t nt switched_thr [OF w nt(1), of u] by (auto split: if_splits)
  have "zombie_ok None w"
  proof (rule zombie_okI, goal_cases)
    case (1 u)
    then show ?case using zombie_kept [OF D(4), of u] z [of u] dy by (simp add: pr pc)
  next
    case (2 c' u)
    then show ?case using zombie_okD(2,3) [OF D(4), of c' u] z [of u] by (simp add: pc)
  next
    case (3 c' c'' u)
    then show ?case using zombie_okD(4) [OF D(4), of c' u c''] by (simp add: pc)
  next
    case (5 c' u)
    then show ?case using zombie_okD(2,6) [OF D(4), of c' u] z [of u] by (simp add: pc)
  qed simp
  moreover have "exit_ok None w"
  proof -
    have di: "dying_in (Some c) s = dying_in None w" by (simp add: dy fun_eq_iff)
    show ?thesis using D(5) unfolding exit_ok_def pr pc parent_prc [OF pr] di .
  qed
  moreover have "th_state (thr s t) = PROCESS_ZOMBIE \<Longrightarrow> t \<notin> set (p_threads (prc s p))" for p using t by simp
  note switched_parts [OF inv n w this]
  ultimately show ?thesis by (simp add: sched_inv_def pr)
qed

lemma switch_dead_inv:
  assumes inv: "sched_inv (Some c) s" and n: "dispatched c t n s" and w: "switched c t n s w"
    and t: "th_state (thr s t) = PROCESS_ZOMBIE" "th_proc (thr s t) = Some p" "t \<notin> set (p_threads (prc s p))" "exit_to s p r"
    and free: "c_pend_thread (cpu_of s c) = None" "c_pend_proc (cpu_of s c) = None"
    and pr: "prc w = (prc s)(p := (if p_live (prc s p) = 0 then (prc s p)\<lparr>p_running := None\<rparr> else prc s p))"
    and pt: "\<And>c' u. c_pend_thread (cpu_of w c') = Some u \<longleftrightarrow> c_pend_thread (cpu_of s c') = Some u \<or> c' = c \<and> u = t \<and> \<not> (th_joinable (thr s t) \<and> r = None)"
    and pp: "\<And>c' u. c_pend_proc (cpu_of w c') = Some u \<longleftrightarrow> c_pend_proc (cpu_of s c') = Some u \<or> c' = c \<and> r = Some u"
  shows "sched_inv None w"
proof -
  note D = sched_invD [OF inv]
  have cu: "cur_of s c = Some t" and nt: "n \<noteq> t" "th_state (thr s n) = PROCESS_READY" using n by (auto simp: dispatched_def dispatchable_def)
  have dy: "dying (Some c) s t' \<longleftrightarrow> t' = t" "dying_in (Some c) s p' \<longleftrightarrow> p' = p" for t' p' using cu t by (auto simp: dying_def dying_in_def)
  have nl: "t \<notin> set (p_threads (prc s p'))" for p' using link_okD(6) [OF D(3), of t p'] t by auto
  have rt: "th_running (thr s t) = Some c" using run_okD(1) [OF D(1) cu] t by auto
  have npt: "c_pend_thread (cpu_of s c') \<noteq> Some t" for c' using zombie_okD(3) [OF D(4), of c' t] rt by auto
  have npp: "c_pend_proc (cpu_of s c') \<noteq> Some p" for c' using exit_okD(2) [OF D(5), of c' p] dy by auto
  have pid: "p_pid (prc s p) \<noteq> 0" using zombie_okD(5) [OF D(4), of t] dy t by auto
  have z: "th_state (thr w u) = PROCESS_ZOMBIE \<longleftrightarrow> th_state (thr s u) = PROCESS_ZOMBIE" "th_joinable (thr w u) = th_joinable (thr s u)" "th_proc (thr w u) = th_proc (thr s u)"
    "u \<noteq> t \<Longrightarrow> th_state (thr s u) = PROCESS_ZOMBIE \<Longrightarrow> th_running (thr w u) = th_running (thr s u)" "th_running (thr w t) = None" for u
    using t nt switched_thr [OF w nt(1), of u] switched_thr [OF w nt(1), of t] by (auto split: if_splits)
  have pf: "p_pid (prc w q) = p_pid (prc s q)" "p_live (prc w q) = p_live (prc s q)" "p_parent (prc w q) = p_parent (prc s q)" "p_parent_pid (prc w q) = p_parent_pid (prc s q)"
    "p_zombies (prc w q) = p_zombies (prc s q)" "p_threads (prc w q) = p_threads (prc s q)" for q by (auto simp: pr)
  have pa: "parent_is_alive w = parent_is_alive s" by (auto simp: parent_is_alive_def pf fun_eq_iff split: option.splits)
  have "zombie_ok None w"
  proof (rule zombie_okI, goal_cases)
    case (1 u)
    then show ?case using zombie_kept [OF D(4), of u] t pid by (cases "u = t") (auto simp: z pf pt dy)
  next
    case (2 c' u)
    then show ?case using zombie_okD(2,3) [OF D(4), of c' u] t npt by (cases "u = t") (auto simp: z pt)
  next
    case (3 c' c'' u)
    then show ?case unfolding pt using zombie_okD(4) [OF D(4), of c' u c''] npt by blast
  next
    case (5 c' u)
    show ?case
    proof (cases "u = t \<and> c' = c")
      case True
      then show ?thesis using 5 npt t pp [of c p] by (cases r) (auto simp: pt z exit_to_def)
    next
      case False
      then have u: "c_pend_thread (cpu_of s c') = Some u" "th_joinable (thr s u)" using 5 by (auto simp: pt z)
      then have "c' \<noteq> c" using free by auto
      then show ?thesis using zombie_okD(6) [OF D(4) u] pp [of c'] by (auto simp: z)
    qed
  qed simp
  moreover have "exit_ok None w"
  proof (rule exit_okI, goal_cases)
    case (1 c' q)
    then show ?case using exit_okD(1) [OF D(5), of c' q] t(4) pid by (auto simp: pp pf pa exit_to_def)
  next
    case (2 c' c'' q)
    have "r = Some q \<Longrightarrow> q = p" using t(4) by (simp add: exit_to_def)
    with 2 show ?case unfolding pp using exit_okD(3) [OF D(5), of c' q c''] npp by blast
  next
    case (5 q)
    then show ?case using exit_okD(6) [OF D(5), of q] by (auto simp: pf dy pr split: if_splits)
  next
    case (6 q)
    then show ?case using exit_okD(7) [OF D(5), of q] t(4) by (cases "q = p") (auto simp: pf pa dy exit_to_def split: option.splits)
  qed (use exit_okD(4,5) [OF D(5)] in \<open>auto simp: pf\<close>)
  ultimately show ?thesis using switched_parts [OF inv n w nl pf(6,2,1,3,4)] by (simp add: sched_inv_def)
qed

lemma cur_range: "cur_of s c = Some t \<Longrightarrow> c < ncpu s"
  by (auto simp: cur_of_def cpu_of_def cpu_zero_def split: if_splits)

lemma defer_frame [simp]: "thr (defer_reap c t r s) = thr s" "prc (defer_reap c t r s) = prc s" "nthr (defer_reap c t r s) = nthr s"
    "nprc (defer_reap c t r s) = nprc s" "ncpu (defer_reap c t r s) = ncpu s" "s_waitq (defer_reap c t r s) = s_waitq s"
    "s_next_pid (defer_reap c t r s) = s_next_pid s" "s_declared (defer_reap c t r s) = s_declared s" "cur_of (defer_reap c t r s) = cur_of s"
  by (auto simp: defer_reap_def cur_of_def fun_eq_iff cpu_upd_cpu)

lemma thr_update_same: "thr s u = y \<Longrightarrow> u < nthr s \<Longrightarrow> thr (upd_thr u f s) = (thr s)(u := f y)"
  by (auto simp: thr_upd_thr fun_eq_iff)

lemma cpus_upd_cpu: "s_cpus (upd_cpu c f s) = (s_cpus s)[c := f (cpu_of s c)]"
  by (simp add: upd_cpu_def)

abbreviation enter :: "nat \<Rightarrow> nat \<Rightarrow> sys \<Rightarrow> sys" where
  "enter c n s \<equiv> upd_cpu c (\<lambda>x. x\<lparr>c_cur := Some n\<rparr>) (upd_thr n (\<lambda>x. x\<lparr>th_state := PROCESS_RUNNING, th_running := Some c\<rparr>) s)"

abbreviation leave :: "nat \<Rightarrow> sys \<Rightarrow> sys" where
  "leave t s \<equiv> upd_thr t (\<lambda>x. x\<lparr>th_state := (if th_state x = PROCESS_RUNNING then PROCESS_READY else th_state x), th_running := None\<rparr>) s"

lemma switch_to_core: "same_core (enter c n s) (switch_to c t n s)"
  by (auto simp: same_core_def switch_to_def Let_def thr_upd_thr tcore_def prio_ok_def cpus_upd_cpu)

lemma enter_core:
  assumes "same_core a b"
  shows "same_core (enter c n a) (enter c n b)"
  using assms same_coreD(7) [OF assms] by (auto simp: same_core_def thr_upd_thr tcore_def prio_ok_def cpus_upd_cpu)

lemma leave_core:
  assumes "th_state (thr s t) = PROCESS_RUNNING \<or> th_state (thr s t) = PROCESS_BLOCKED \<and> th_running (thr s t) = None"
  shows "same_core (leave t s) (switch_from t s)"
  using assms by (auto simp: same_core_def switch_from_def sched_set_ready_def dl_enqueue_def Let_def thr_upd_thr tcore_def prio_ok_def split: sched_policy.splits)

lemma switch_thr:
  assumes n: "t < nthr s" "n < nthr s" "c < ncpu s" "n \<noteq> t"
  defines "w \<equiv> enter c n (leave t s)"
  shows "switched c t n s w" "prc w = prc s" "c_pend_thread (cpu_of w c') = c_pend_thread (cpu_of s c')" "c_pend_proc (cpu_of w c') = c_pend_proc (cpu_of s c')"
  using n by (auto simp: switched_def w_def thr_upd_thr cur_of_def cpu_upd_cpu fun_eq_iff)

lemma switch_live:
  assumes inv: "sched_inv (Some c) s" and n: "dispatched c t n s" and t: "th_state (thr s t) \<noteq> PROCESS_ZOMBIE"
  shows "sched_inv None (switch_to c t n (switch_from t s))"
proof -
  note D = sched_invD [OF inv]
  have cu: "cur_of s c = Some t" and nt: "n \<noteq> t" "th_state (thr s n) = PROCESS_READY" using n by (auto simp: dispatched_def dispatchable_def)
  have ts: "th_state (thr s t) = PROCESS_RUNNING \<or> th_state (thr s t) = PROCESS_BLOCKED \<and> th_running (thr s t) = None"
    using run_okD(1) [OF D(1) cu] t by auto
  have r: "t < nthr s" "n < nthr s" "c < ncpu s" using thr_range [of s t] thr_range [of s n] cur_range [OF cu] ts nt by auto
  note W = switch_thr [OF r nt(1)]
  have "same_core (enter c n (leave t s)) (switch_to c t n (switch_from t s))"
    by (rule same_core_trans [OF enter_core [OF leave_core [OF ts]] switch_to_core])
  then show ?thesis using switch_live_inv [OF inv n W(1) t W(2,3,4)] same_core_inv by blast
qed

lemma defer_cpu: 
  assumes "c < ncpu s" "c_pend_thread (cpu_of s c) = None" "c_pend_proc (cpu_of s c) = None"
  shows "c_pend_thread (cpu_of (defer_reap c t r s) c') = Some u \<longleftrightarrow> c_pend_thread (cpu_of s c') = Some u \<or> c' = c \<and> u = t \<and> \<not> (th_joinable (thr s t) \<and> r = None)"
    "c_pend_proc (cpu_of (defer_reap c t r s) c') = Some p \<longleftrightarrow> c_pend_proc (cpu_of s c') = Some p \<or> c' = c \<and> r = Some p"
  using assms by (auto simp: defer_reap_def cpu_upd_cpu)

lemma switch_dead:
  assumes inv: "sched_inv (Some c) s" and n: "dispatched c t n s"
    and t: "th_state (thr s t) = PROCESS_ZOMBIE" "th_proc (thr s t) = Some p" "t \<notin> set (p_threads (prc s p))" "exit_to s p r"
    and free: "c_pend_thread (cpu_of s c) = None" "c_pend_proc (cpu_of s c) = None"
  shows "sched_inv None (switch_to c t n (switch_from t (defer_reap c t r s)))"
proof -
  note D = sched_invD [OF inv]
  have cu: "cur_of s c = Some t" and nt: "n \<noteq> t" "th_state (thr s n) = PROCESS_READY" using n by (auto simp: dispatched_def dispatchable_def)
  have pid: "p_pid (prc s p) \<noteq> 0" using zombie_okD(5) [OF D(4), of t] cu t by (auto simp: dying_def)
  have pr: "p < nprc s" using pid by (auto simp: prc_def split: if_splits)
  have r: "t < nthr s" "n < nthr s" "c < ncpu s" using thr_range [of s t] thr_range [of s n] cur_range [OF cu] t nt by auto
  let ?s = "upd_prc p (\<lambda>x. if p_live x = 0 then x\<lparr>p_running := None\<rparr> else x) (defer_reap c t r s)"
  let ?w = "enter c n (leave t ?s)"
  have W: "switched c t n ?s ?w" "prc ?w = prc ?s" "\<And>c'. c_pend_thread (cpu_of ?w c') = c_pend_thread (cpu_of ?s c')" "\<And>c'. c_pend_proc (cpu_of ?w c') = c_pend_proc (cpu_of ?s c')"
    using switch_thr [of t ?s n c] r nt(1) by simp_all
  have sw: "switched c t n s ?w" using W(1) by (simp add: switched_def)
  have "same_core ?w (switch_to c t n (switch_from t (defer_reap c t r s)))"
  proof (rule same_core_trans [OF enter_core switch_to_core])
    show "same_core (leave t ?s) (switch_from t (defer_reap c t r s))"
      using t r by (auto simp: same_core_def switch_from_def Let_def thr_upd_thr prc_upd_prc tcore_def pcore_def prio_ok_def)
  qed
  moreover have "sched_inv None ?w"
    by (rule switch_dead_inv [OF inv n sw t free]) (use pr in \<open>simp_all add: W(2-4) defer_cpu [OF r(3) free] prc_upd_prc fun_eq_iff del: upd_thr_frame upd_cpu_frame\<close>)
  ultimately show ?thesis using same_core_inv by blast
qed

lemma exit_code_core: "same_core (upd_thr t (\<lambda>x. x\<lparr>th_state := PROCESS_ZOMBIE\<rparr>) s) (upd_thr t (\<lambda>x. x\<lparr>th_exit_code := e, th_state := PROCESS_ZOMBIE\<rparr>) s)"
  by (auto simp: same_core_def thr_upd_thr tcore_def prio_ok_def)

lemma die_killed_inv:
  assumes inv: "sched_inv (Some c) s" and t: "cur_of s c = Some t"
  shows "sched_inv (Some c) (die_if_killed t s)" "cur_of (die_if_killed t s) = cur_of s" "cpu_of (die_if_killed t s) = cpu_of s"
proof -
  have "sched_inv (Some c) (upd_thr t (\<lambda>x. x\<lparr>th_exit_code := -1, th_state := PROCESS_ZOMBIE\<rparr>) s)" if "th_state (thr s t) = PROCESS_RUNNING" "th_killed (thr s t)"
    using die_inv [of s c t] running_None [OF t that(1)] inv t that(2) same_core_inv [OF exit_code_core] by (simp add: idle_for_def)
  then show "sched_inv (Some c) (die_if_killed t s)" using inv by (simp add: die_if_killed_def Let_def)
qed (simp_all add: die_if_killed_def Let_def)

lemma tick_kernel: "th_in_kernel (thr (policy_tick t s) u) = th_in_kernel (thr s u)"
  by (auto simp: policy_tick_def dl_tick_def rr_tick_def rr_age_def thr_def split: sched_policy.split)

lemma switch_cur: "cur_of (switch_from t s) = cur_of s" "ncpu (switch_from t s) = ncpu s" "c < ncpu s \<Longrightarrow> cur_of (switch_to c t n s) = (cur_of s)(c := Some n)"
  by (auto simp: switch_from_def switch_to_def sched_set_ready_def dl_enqueue_def Let_def cur_of_def cpu_upd_cpu fun_eq_iff split: process_state.split sched_policy.split option.split)

lemma switch_dead_state:
  assumes "th_state (thr s t) = PROCESS_ZOMBIE" "n \<noteq> t"
  shows "th_state (thr (switch_to c t n (switch_from t s)) t) = PROCESS_ZOMBIE"
  using assms by (auto simp: switch_from_def switch_to_def thr_upd_thr Let_def split: option.split)

theorem schedule_locked_inv:
  assumes inv: "sched_inv (Some c) s" and t: "cur_of s c = Some t"
  shows "sched_inv None (schedule_locked c s)" "cur_of (schedule_locked c s) c \<noteq> None" "c' \<noteq> c \<Longrightarrow> cur_of (schedule_locked c s) c' = cur_of s c'"
    "th_state (thr s t) = PROCESS_RUNNING \<Longrightarrow> th_killed (thr s t) \<Longrightarrow> th_in_kernel (thr s t) = 0 \<Longrightarrow>
      cur_of (schedule_locked c s) c \<noteq> Some t \<and> th_state (thr (schedule_locked c s) t) = PROCESS_ZOMBIE"
proof -
  note R = reap_pending_inv [OF inv refl, of c]
  let ?k = "policy_tick t (reap_pending c s)"
  note k = same_coreD [OF installed.tick_core [of "reap_pending c s" t]]
  have K: "sched_inv (Some c) ?k" "cur_of ?k c = Some t" using installed.tick_inv [OF R(1)] R(2) t k by simp_all
  define s1 where "s1 = die_if_killed t ?k"
  note S = die_killed_inv [OF K, folded s1_def]
  have s1: "cur_of s1 c = Some t" "c_pend_thread (cpu_of s1 c) = None" "c_pend_proc (cpu_of s1 c) = None" using S(2,3) R(2,3,4) k t by simp_all
  define dy where "dy = (th_state (thr s1 t) = PROCESS_ZOMBIE)"
  obtain r s2 where z: "(if dy then thread_zombie_locked t s1 else (None, s1)) = (r, s2)" by force
  have Z: "sched_inv (Some c) s2" "cur_of s2 = cur_of s1" "cpu_of s2 = cpu_of s1" "thr s2 t = thr s1 t"
    "dy \<Longrightarrow> \<exists>p. th_proc (thr s2 t) = Some p \<and> t \<notin> set (p_threads (prc s2 p)) \<and> exit_to s2 p r"
  proof -
    have "dy \<Longrightarrow> \<exists>p. th_proc (thr s1 t) = Some p" using zombie_okD(5) [OF sched_invD(4) [OF S(1)], of t] s1(1) by (auto simp: dy_def dying_def)
    then show "sched_inv (Some c) s2" "cur_of s2 = cur_of s1" "cpu_of s2 = cpu_of s1" "thr s2 t = thr s1 t"
      "dy \<Longrightarrow> \<exists>p. th_proc (thr s2 t) = Some p \<and> t \<notin> set (p_threads (prc s2 p)) \<and> exit_to s2 p r"
      using thread_zombie_inv [OF S(1) s1(1), of r s2] z S(1) by (cases dy; auto simp: dy_def)+
  qed
  have c2: "cur_of s2 c = Some t" using Z(2) s1(1) by simp
  obtain m s3 where pk: "policy_pick c t s2 = (m, s3)" by force
  obtain n where n: "m = Some n" "dispatchable c t n (thr s3 n)" by (rule installed.pick_some [OF Z(1) c2 pk])
  note P = installed.pick_core [OF pk]
  note p3 = same_coreD [OF P]
  have I3: "sched_inv (Some c) s3" by (rule same_core_inv [OF P Z(1)])
  have c3: "cur_of s3 c = Some t" using c2 p3 by simp
  have fin: "schedule_locked c s = (if n = t then undo_block c t s3 else switch_to c t n (switch_from t (if dy then defer_reap c t r s3 else s3)))"
    using z pk n t by (simp add: schedule_locked_def s1_def [symmetric] dy_def Let_def)
  have cu3: "cur_of s3 = cur_of s" "c < ncpu s3" using p3 Z(2) S(2) k R(2) cur_range [OF c3] by simp_all
  have cf: "cur_of (schedule_locked c s) = (if n = t then cur_of s else (cur_of s)(c := Some n))"
    unfolding fin using cu3 by (simp add: undo_block_def wq_remove_def switch_cur Let_def split: option.split)
  then show "cur_of (schedule_locked c s) c \<noteq> None" "c' \<noteq> c \<Longrightarrow> cur_of (schedule_locked c s) c' = cur_of s c'" using t by simp_all
  have nz: "n \<noteq> t" if dy using n(2) that Z(4) p3 by (auto simp: dispatchable_def dy_def)
  show "cur_of (schedule_locked c s) c \<noteq> Some t \<and> th_state (thr (schedule_locked c s) t) = PROCESS_ZOMBIE"
    if x: "th_state (thr s t) = PROCESS_RUNNING" "th_killed (thr s t)" "th_in_kernel (thr s t) = 0"
  proof -
    have "th_in_kernel (thr ?k t) = 0" using tick_kernel [of t "reap_pending c s"] R(5) [OF t] x by simp
    moreover have "th_state (thr ?k t) = PROCESS_RUNNING" "th_killed (thr ?k t)" using R(5) [OF t] x k by simp_all
    moreover have "t < nthr ?k" using thr_range [of ?k t] calculation by simp
    ultimately have d: dy by (simp add: dy_def s1_def die_if_killed_def Let_def thr_upd_thr)
    then have "th_state (thr (defer_reap c t r s3) t) = PROCESS_ZOMBIE" using Z(4) p3 by (simp add: dy_def)
    then show ?thesis using d nz [OF d] cf switch_dead_state by (simp add: fin)
  qed
  show "sched_inv None (schedule_locked c s)"
  proof (cases "n = t")
    case True
    then have "th_state (thr s3 t) = PROCESS_RUNNING" using n(2) run_okD(1) [OF sched_invD(1) [OF I3] c3] by (auto simp: dispatchable_def)
    then show ?thesis using True I3 running_None [OF c3] by (simp add: fin undo_block_def)
  next
    case False
    have d: "dispatched c t n s3" using c3 False n(2) by (simp add: dispatched_def)
    show ?thesis
    proof (cases dy)
      case True
      then obtain p where p: "th_proc (thr s2 t) = Some p" "t \<notin> set (p_threads (prc s2 p))" "exit_to s2 p r" using Z(5) by blast
      have e: "exit_to s3 p r" using p(3) parent_is_alive_cong [OF P] p3 by (simp add: exit_to_def split: option.splits)
      show ?thesis using switch_dead [OF I3 d, of p r] True p e s1 Z(3,4) p3 False by (simp add: fin dy_def)
    next
      case no: False
      then show ?thesis using switch_live [OF I3 d] p3 Z(4) False by (simp add: fin dy_def)
    qed
  qed
qed

end
