(* ===== verification/Sched_Ops.thy ===== *)
theory Sched_Ops
  imports Sched_Switch
begin

text \<open>
  Every operation of \<open>kernel/process/process.c\<close> that the model has keeps the invariant: blocking and
  sleeping, cancellation and kill, exit, waiting and joining, priorities and suspension, and declared
  periods.  Creation has a theory of its own.
\<close>

section \<open>Deciding\<close>

lemma ready_other: "u \<noteq> t \<Longrightarrow> thr (sched_set_ready t s) u = thr s u" "cur_of (sched_set_ready t s) = cur_of s"
  by (auto simp: sched_set_ready_def dl_enqueue_def thr_upd_thr Let_def split: sched_policy.split)

lemma remove_other: "u \<noteq> t \<Longrightarrow> thr (wq_remove q t s) u = thr s u" "cur_of (wq_remove q t s) = cur_of s"
  by (simp_all add: wq_remove_def thr_upd_thr)

lemma clear_wake_core: "same_core (sched_set_ready t s) (sched_set_ready t (upd_thr t (\<lambda>x. x\<lparr>th_wake_at := 0\<rparr>) s))"
  by (auto simp: same_core_def sched_set_ready_def dl_enqueue_def thr_upd_thr tcore_def prio_ok_def Let_def split: sched_policy.splits)

lemma calm_cong: "calm s \<Longrightarrow> cur_of w = cur_of s \<Longrightarrow> (\<And>u. th_state (thr s u) \<noteq> PROCESS_BLOCKED \<Longrightarrow> th_state (thr w u) = th_state (thr s u)) \<Longrightarrow> calm w"
  unfolding calm_def by metis

lemma wake_sleeper:
  assumes inv: "sched_inv X s" and cm: "calm s" and q: "th_wq (thr s t) = Some SleepQ"
  shows "sched_inv X (wake_expired t s)" "cur_of (wake_expired t s) = cur_of s" "u \<noteq> t \<Longrightarrow> thr (wake_expired t s) u = thr s u"
  using wake_thread(1) [OF inv cm q] inv same_core_inv [OF clear_wake_core]
  by (auto simp: wake_expired_def ready_other remove_other thr_upd_thr)

lemma wake_sleepers:
  assumes "distinct ts" "\<And>t. t \<in> set ts \<Longrightarrow> th_wq (thr s t) = Some SleepQ" "sched_inv X s" "calm s"
  shows "sched_inv X (fold wake_expired ts s) \<and> cur_of (fold wake_expired ts s) = cur_of s \<and> calm (fold wake_expired ts s) \<and>
    (\<forall>u. th_state (thr s u) \<noteq> PROCESS_BLOCKED \<longrightarrow> thr (fold wake_expired ts s) u = thr s u)"
  using assms
proof (induction ts arbitrary: s)
  case (Cons t ts)
  have q: "th_wq (thr s t) = Some SleepQ" using Cons.prems(2) by simp
  note W = wake_sleeper [OF Cons.prems(3,4) q]
  have b: "th_state (thr s t) = PROCESS_BLOCKED" using wq_thr(2) [OF Cons.prems(3) q] .
  have k: "thr (wake_expired t s) u = thr s u" if "th_state (thr s u) \<noteq> PROCESS_BLOCKED" for u using W(3) [of u] b that by auto
  have c: "calm (wake_expired t s)" by (rule calm_cong [OF Cons.prems(4) W(2)]) (simp add: k)
  have "th_wq (thr (wake_expired t s) t') = Some SleepQ" if "t' \<in> set ts" for t'
    using Cons.prems(1) Cons.prems(2) [of t'] W(3) [of t'] that by (cases "t' = t") auto
  from Cons.IH [OF _ this W(1) c] Cons.prems(1) show ?case using W(2) k by simp
qed simp

lemma wake_expired_inv:
  assumes "sched_inv X s" "calm s"
  shows "sched_inv X (wake_expired_locked s)" "cur_of (wake_expired_locked s) = cur_of s" "calm (wake_expired_locked s)"
    "th_state (thr s u) \<noteq> PROCESS_BLOCKED \<Longrightarrow> thr (wake_expired_locked s) u = thr s u"
proof -
  note Q = sched_invD(2) [OF assms(1)]
  have "distinct (s_waitq s SleepQ)" "\<And>t. t \<in> set (s_waitq s SleepQ) \<Longrightarrow> th_wq (thr s t) = Some SleepQ" using queue_okD(1,2) [OF Q] by auto
  from wake_sleepers [OF this assms]
  show "sched_inv X (wake_expired_locked s)" "cur_of (wake_expired_locked s) = cur_of s" "calm (wake_expired_locked s)"
    "th_state (thr s u) \<noteq> PROCESS_BLOCKED \<Longrightarrow> thr (wake_expired_locked s) u = thr s u" by (simp_all add: wake_expired_locked_def)
qed

lemma schedule_any_inv:
  assumes "sched_inv (Some c) s" "calm s" "cur_of s c = Some t"
  shows "sched_inv None (schedule c s)"
  using schedule_locked_inv [OF wake_expired_inv(1) [OF assms(1,2)]] wake_expired_inv(2) [OF assms(1,2)] assms(3) by (simp add: schedule_def)

lemma schedule_inv: "sched_inv None s \<Longrightarrow> sched_inv None (schedule c s)"
proof (cases "cur_of s c")
  case (Some t)
  assume i: "sched_inv None s"
  then have "sched_inv (Some c) s" using running_None [OF Some cur_thr(1) [OF i Some]] by simp
  then show ?thesis using schedule_any_inv [OF _ calm_None [OF i] Some] by simp
qed (simp add: schedule_def)

text \<open>Blocking and sleeping.  An idle thread never does.\<close>

definition may_block :: "nat \<Rightarrow> sys \<Rightarrow> bool" where
  "may_block c s \<longleftrightarrow> (case cur_of s c of None \<Rightarrow> True | Some t \<Rightarrow> \<not> th_idle (thr s t))"

lemma may_blockD: "may_block c s \<Longrightarrow> cur_of s c = Some t \<Longrightarrow> \<not> idle_for s c' t"
  by (auto simp: may_block_def idle_for_def)

lemma block_current_inv:
  assumes "sched_inv None s" "may_block c s" "\<And>p. q = ChildQ p \<or> q = JoinQ p \<Longrightarrow> cur_proc s c = Some p"
  shows "sched_inv None (sched_block_current_locked c q s)"
proof (cases "cur_of s c")
  case (Some t)
  have "sched_inv (Some c) (wq_block q t s)"
    by (rule block_inv [OF assms(1) Some]) (use may_blockD [OF assms(2) Some] assms(3) Some in \<open>auto simp: cur_proc_def\<close>)
  moreover have "cur_of (wq_block q t s) c = Some t" using Some by (simp add: wq_block_def sched_set_blocked_def Let_def)
  ultimately show ?thesis using schedule_locked_inv by (simp add: sched_block_current_locked_def Some)
qed (use assms in \<open>simp add: sched_block_current_locked_def\<close>)

lemma sleep_inv:
  assumes "sched_inv None s" "may_block c s"
  shows "sched_inv None (snd (sched_sleep_ms c d s))"
proof (cases "cur_of s c")
  case (Some t)
  let ?w = "upd_thr t (\<lambda>x. x\<lparr>th_wake_at := d\<rparr>) s"
  have "same_core s ?w" by (auto simp: same_core_def thr_upd_thr tcore_def prio_ok_def)
  then have i: "sched_inv None ?w" using same_core_inv assms(1) by blast
  have "may_block c ?w" using assms(2) by (auto simp: may_block_def thr_upd_thr split: option.splits)
  from block_current_inv [OF i this, of SleepQ] show ?thesis using assms(1) Some by (simp add: sched_sleep_ms_def)
qed (use assms in \<open>simp add: sched_sleep_ms_def\<close>)

section \<open>Cancelling and killing\<close>

lemma flags_core: "(\<And>x. pcore (f x) = pcore x) \<Longrightarrow> same_core s (upd_prc p f s)"
  by (auto simp: same_core_def prc_upd_prc)

lemma wakes_list: "wakes (fold wake_blocked ts)"
  by (rule wakes_fold) (rule wakes_blocked)

lemma wake_list_inv: "sched_inv None s \<Longrightarrow> sched_inv None (fold wake_blocked ts s)"
  using wakesD(1) [OF wakes_list] calm_None by blast

lemma cancel_inv: "sched_inv None s \<Longrightarrow> sched_inv None (snd (process_cancel_locked pid s))"
  using wake_list_inv same_core_inv [OF flags_core, of "\<lambda>x. x\<lparr>p_cancelled := True\<rparr>" None s]
  by (auto simp: process_cancel_locked_def pcore_def split: option.split)

lemma interrupt_inv: "sched_inv None s \<Longrightarrow> sched_inv None (snd (process_raise_interrupt pid s))"
  using wake_list_inv same_core_inv [OF flags_core, of "\<lambda>x. x\<lparr>p_intr_pending := wrap32 (p_intr_pending x + 1)\<rparr>" None s]
  by (auto simp: process_raise_interrupt_def pcore_def split: option.split)

text \<open>Marking the threads of a process; only the idle threads matter to the invariant.\<close>

lemma flag_thread_inv:
  assumes inv: "sched_inv X s" and ni: "\<not> th_idle (thr s t) \<or> th_pinned (thr s t) = None"
    and f: "tcore (f (thr s t)) = tcore ((thr s t)\<lparr>th_killed := k, th_suspended := u\<rparr>)" "prio_ok (thr s t) \<Longrightarrow> prio_ok (f (thr s t))"
  shows "sched_inv X (upd_thr t f s)"
proof -
  note D = sched_invD [OF inv]
  define w where "w = upd_thr t f s"
  have th: "th_state (thr w v) = th_state (thr s v)" "th_wq (thr w v) = th_wq (thr s v)" "th_running (thr w v) = th_running (thr s v)"
    "th_pinned (thr w v) = th_pinned (thr s v)" "th_joinable (thr w v) = th_joinable (thr s v)" "th_proc (thr w v) = th_proc (thr s v)"
    "th_period_ms (thr w v) = th_period_ms (thr s v)" "alive (thr w v) = alive (thr s v)" "declares (thr w v) = declares (thr s v)"
    "prio_ok (thr s v) \<Longrightarrow> prio_ok (thr w v)" for v
    using f by (auto simp: w_def thr_upd_thr tcore_def alive_def declares_def)
  have fr: "prc w = prc s" "cpu_of w = cpu_of s" "cur_of w = cur_of s" "s_next_pid w = s_next_pid s" "s_declared w = s_declared s" "s_waitq w = s_waitq s"
    by (simp_all add: w_def)
  have dy: "dying X w = dying X s" "dying_in X w = dying_in X s" by (simp_all add: dying_def dying_in_def fr th fun_eq_iff)
  have id: "idle_for w c i" if "idle_for s c i" for c i using that ni by (cases "i = t") (auto simp: w_def thr_upd_thr idle_for_def)
  have "run_ok X w" using D(1) unfolding run_ok_def dy fr th .
  moreover have "queue_ok w" using D(2) unfolding queue_ok_def fr th .
  moreover have "link_ok X w" using D(3) th(10) unfolding link_ok_def dy fr th(1-9) by blast
  moreover have "zombie_ok X w" using D(4) unfolding zombie_ok_def dy fr th .
  moreover have "exit_ok X w" using D(5) unfolding exit_ok_def dy fr parent_prc [OF fr(1)] .
  moreover have "pid_ok w" using D(6) unfolding pid_ok_def fr .
  moreover have "idle_ok w" by (rule idle_okI [OF D(7)]) (use id in \<open>auto simp: fr\<close>)
  moreover have "declared_ok w" using D(8) unfolding declared_ok_def fr th .
  ultimately show ?thesis by (simp add: sched_inv_def w_def)
qed

lemma wake_blocked_thr:
  shows "u \<noteq> t \<Longrightarrow> thr (wake_blocked t s) u = thr s u" "cur_of (wake_blocked t s) = cur_of s" "prc (wake_blocked t s) = prc s"
    "th_idle (thr (wake_blocked t s) u) = th_idle (thr s u)" "th_killed (thr (wake_blocked t s) u) = th_killed (thr s u)"
    "th_suspended (thr (wake_blocked t s) u) = th_suspended (thr s u)" "nthr (wake_blocked t s) = nthr s"
  by (auto simp: wake_blocked_def sched_set_ready_def dl_enqueue_def wq_remove_def thr_upd_thr Let_def split: option.split sched_policy.split)

lemma wake_blocked_state: "sched_inv X s \<Longrightarrow> th_state (thr (wake_blocked t s) t) \<noteq> PROCESS_BLOCKED"
  using queue_okD(3) [OF sched_invD(2), of X s t] thr_range [of s t]
  by (auto simp: wake_blocked_def sched_set_ready_def dl_enqueue_def wq_remove_def thr_upd_thr Let_def split: option.split sched_policy.split)

text \<open>A marked thread: it will die where it is found, and nothing keeps it from being found.\<close>

definition doomed :: "thread \<Rightarrow> bool" where
  "doomed x \<longleftrightarrow> th_state x = PROCESS_ZOMBIE \<or> th_killed x \<and> \<not> th_suspended x \<and> th_state x \<noteq> PROCESS_BLOCKED"

lemma mark_killed_inv:
  assumes inv: "sched_inv None s" and ni: "\<not> th_idle (thr s t)"
  shows "sched_inv None (mark_killed cur t s)" "cur_of (mark_killed cur t s) = cur_of s" "prc (mark_killed cur t s) = prc s"
    "th_idle (thr (mark_killed cur t s) u) = th_idle (thr s u)" "u \<noteq> t \<or> cur = Some u \<Longrightarrow> thr (mark_killed cur t s) u = thr s u"
    "t < nthr s \<Longrightarrow> cur \<noteq> Some t \<Longrightarrow> doomed (thr (mark_killed cur t s) t)"
proof -
  let ?f = "\<lambda>x. x\<lparr>th_killed := True, th_suspended := False\<rparr>"
  let ?w = "upd_thr t ?f s"
  have i: "sched_inv None ?w" by (rule flag_thread_inv [OF inv, where k = True and u = False]) (use ni in \<open>simp_all add: tcore_def prio_ok_def\<close>)
  have j: "sched_inv None (wake_blocked t ?w)" by (rule wakesD(1) [OF wakes_blocked i calm_None [OF i]])
  note b = wake_blocked_state [OF i, of t]
  show "sched_inv None (mark_killed cur t s)" using j inv by (simp add: mark_killed_def)
  show "cur_of (mark_killed cur t s) = cur_of s" "prc (mark_killed cur t s) = prc s" "th_idle (thr (mark_killed cur t s) u) = th_idle (thr s u)"
    by (simp_all add: mark_killed_def wake_blocked_thr thr_upd_thr)
  show "u \<noteq> t \<or> cur = Some u \<Longrightarrow> thr (mark_killed cur t s) u = thr s u" by (auto simp: mark_killed_def wake_blocked_thr thr_upd_thr)
  show "t < nthr s \<Longrightarrow> cur \<noteq> Some t \<Longrightarrow> doomed (thr (mark_killed cur t s) t)"
    using b by (simp add: mark_killed_def doomed_def wake_blocked_thr thr_upd_thr)
qed

lemma mark_all_inv:
  assumes "sched_inv None s" "\<And>t. t \<in> set ts \<Longrightarrow> \<not> th_idle (thr s t)"
  shows "sched_inv None (fold (mark_killed cur) ts s) \<and> cur_of (fold (mark_killed cur) ts s) = cur_of s \<and> prc (fold (mark_killed cur) ts s) = prc s \<and>
    (\<forall>u. th_idle (thr (fold (mark_killed cur) ts s) u) = th_idle (thr s u)) \<and> (\<forall>u. cur = Some u \<longrightarrow> thr (fold (mark_killed cur) ts s) u = thr s u)"
  using assms
proof (induction ts arbitrary: s)
  case (Cons t ts)
  have "\<not> th_idle (thr s t)" using Cons.prems(2) by simp
  note M = mark_killed_inv [OF Cons.prems(1) this, where cur = cur]
  have "thr (mark_killed cur t s) u = thr s u" if "cur = Some u" for u using M(5) that by blast
  moreover have "\<not> th_idle (thr (mark_killed cur t s) t')" if "t' \<in> set ts" for t' using Cons.prems(2) M(4) that by simp
  note Cons.IH [OF M(1) this]
  ultimately show ?case using M(2-4) by (metis fold_simps(2))
qed simp

text \<open>A process none of whose threads is a core's idle thread.\<close>

definition mortal :: "nat \<Rightarrow> sys \<Rightarrow> bool" where
  "mortal p s \<longleftrightarrow> list_all (\<lambda>t. \<not> th_idle (thr s t)) (p_threads (prc s p))"

lemma mortal_core: "same_core s s' \<Longrightarrow> mortal p s' = mortal p s"
  using same_coreD(15,26) [of s s'] by (simp add: mortal_def)

lemma end_every_thread_inv:
  assumes inv: "sched_inv None s" and m: "mortal p s"
  shows "sched_inv None (end_every_thread_locked c p code s)"
proof -
  define s1 where "s1 = upd_prc p (\<lambda>x. x\<lparr>p_exit_code := code, p_cancelled := True\<rparr>) s"
  define ts where "ts = p_threads (prc s1 p)"
  define s2 where "s2 = fold (mark_killed (cur_of s c)) ts s1"
  define s3 where "s3 t = (if th_state (thr s2 t) \<noteq> PROCESS_ZOMBIE
      then snd (thread_zombie_locked t (upd_thr t (\<lambda>x. x\<lparr>th_state := PROCESS_ZOMBIE\<rparr>) s2)) else s2)" for t
  have e: "end_every_thread_locked c p code s = (case cur_of s c of None \<Rightarrow> s2 | Some t \<Rightarrow> if t \<in> set ts then schedule_locked c (s3 t) else s2)"
    unfolding end_every_thread_locked_def Let_def s1_def [symmetric] ts_def [symmetric] s2_def [symmetric] s3_def [symmetric] by (rule refl)
  have c1: "same_core s s1" unfolding s1_def by (rule flags_core) (simp add: pcore_def)
  have ni: "\<not> th_idle (thr s1 t)" if "t \<in> set ts" for t using mortal_core [OF c1, of p] m that unfolding mortal_def list_all_iff ts_def by blast
  have M: "sched_inv None s2" "cur_of s2 = cur_of s" "th_idle (thr s2 u) = th_idle (thr s1 u)" for u
    using mark_all_inv [OF same_core_inv [OF c1 inv] ni, where cur = "cur_of s c"] by (auto simp: s2_def s1_def)
  have "sched_inv None (schedule_locked c (s3 t))" if t: "cur_of s c = Some t" "t \<in> set ts" for t
  proof -
    have c2: "cur_of s2 c = Some t" using M(2) t by simp
    note T = cur_thr [OF M(1) c2]
    have nid: "\<not> idle_for s2 c' t" for c' using ni [OF t(2)] M(3) by (simp add: idle_for_def)
    let ?d = "upd_thr t (\<lambda>x. x\<lparr>th_state := PROCESS_ZOMBIE\<rparr>) s2"
    have I: "sched_inv (Some c) ?d" by (rule die_inv [OF M(1) c2 nid])
    obtain r w where z: "thread_zombie_locked t ?d = (r, w)" by force
    have "sched_inv (Some c) w" "cur_of w c = Some t" using thread_zombie_inv(1,2) [OF I _ _ z] c2 T(3) by (simp_all add: thr_upd_thr)
    then show ?thesis using schedule_locked_inv T(1) z by (simp add: s3_def)
  qed
  then show ?thesis using M(1) by (simp add: e split: option.split)
qed

lemma kill_code_inv:
  assumes "sched_inv None s" "\<And>p. process_find pid s = Some p \<Longrightarrow> mortal p s"
  shows "sched_inv None (process_kill_code c pid code s)"
proof (cases "process_find pid s")
  case (Some p)
  have c: "same_core s (upd_prc p (\<lambda>x. x\<lparr>p_forced := True\<rparr>) s)" by (rule flags_core) (simp add: pcore_def)
  show ?thesis using end_every_thread_inv [OF same_core_inv [OF c assms(1)]] mortal_core [OF c] assms Some by (simp add: process_kill_code_def)
qed (use assms in \<open>simp add: process_kill_code_def\<close>)

text \<open>The ways in which the current thread dies by itself.\<close>

lemma die_schedule_inv:
  assumes inv: "sched_inv None s" and t: "cur_of s c = Some t" and mb: "may_block c s"
  shows "sched_inv None (schedule c (upd_thr t (\<lambda>x. x\<lparr>th_exit_code := e, th_state := PROCESS_ZOMBIE\<rparr>) s))"
proof -
  let ?w = "upd_thr t (\<lambda>x. x\<lparr>th_exit_code := e, th_state := PROCESS_ZOMBIE\<rparr>) s"
  have i: "sched_inv (Some c) ?w" using same_core_inv [OF exit_code_core die_inv [OF inv t]] may_blockD [OF mb t] by blast
  have "calm ?w" using calm_None [OF inv] by (auto simp: calm_def thr_upd_thr)
  then show ?thesis using schedule_any_inv [OF i] t by simp
qed

lemma exit_self_inv:
  assumes "sched_inv None s" "\<And>p. cur_proc s c = Some p \<Longrightarrow> mortal p s"
  shows "sched_inv None (process_exit_self c code s)"
  using assms end_every_thread_inv by (simp add: process_exit_self_def split: option.split)

lemma thread_exit_inv:
  assumes inv: "sched_inv None s" and mb: "may_block c s"
  shows "sched_inv None (thread_exit_self c code s)"
proof -
  have "sched_inv None (schedule c (upd_thr t (\<lambda>x. x\<lparr>th_exit_code := code, th_state := PROCESS_ZOMBIE\<rparr>) (upd_prc p (\<lambda>x. x\<lparr>p_exit_code := code\<rparr>) s)))"
    if "cur_of s c = Some t" for t p
  proof (rule die_schedule_inv)
    have "same_core s (upd_prc p (\<lambda>x. x\<lparr>p_exit_code := code\<rparr>) s)" by (rule flags_core) (simp add: pcore_def)
    then show "sched_inv None (upd_prc p (\<lambda>x. x\<lparr>p_exit_code := code\<rparr>) s)" using same_core_inv inv by blast
  qed (use that mb in \<open>simp_all add: may_block_def\<close>)
  then show ?thesis using inv by (simp add: thread_exit_self_def split: option.split)
qed

lemma die_killed_self_inv: "sched_inv None s \<Longrightarrow> may_block c s \<Longrightarrow> sched_inv None (thread_die_killed c s)"
  using die_schedule_inv by (simp add: thread_die_killed_def split: option.split)

section \<open>Waiting\<close>

lemma disown_inv:
  assumes inv: "sched_inv None s" and pm: "p_parent (prc s p) = Some me" "me \<noteq> p"
    and pr: "prc w = (prc s)(me := (prc s me)\<lparr>p_zombies := remove1 p (p_zombies (prc s me)), p_children := ch\<rparr>, p := (prc s p)\<lparr>p_parent := None, p_parent_pid := 0\<rparr>)"
    and fr: "thr w = thr s" "s_cpus w = s_cpus s" "s_waitq w = s_waitq s" "s_next_pid w = s_next_pid s" "s_declared w = s_declared s"
  shows "sched_inv None w" "p \<notin> set (p_zombies (prc w q))"
proof -
  note D = sched_invD [OF inv]
  have cp: "cpu_of w = cpu_of s" "cur_of w = cur_of s" by (simp_all add: cur_of_def cpu_of_def fr fun_eq_iff)
  have f: "p_pid (prc w r) = p_pid (prc s r)" "p_live (prc w r) = p_live (prc s r)" "p_threads (prc w r) = p_threads (prc s r)" "p_running (prc w r) = p_running (prc s r)"
    "r \<noteq> p \<Longrightarrow> p_parent (prc w r) = p_parent (prc s r)" "r \<noteq> p \<Longrightarrow> p_parent_pid (prc w r) = p_parent_pid (prc s r)" "p_parent (prc w p) = None" for r
    using pm by (auto simp: pr)
  have z: "r \<in> set (p_zombies (prc w q)) \<longleftrightarrow> r \<in> set (p_zombies (prc s q)) \<and> r \<noteq> p" "distinct (p_zombies (prc w q))" for r q
    using exit_okD(4,5) [OF D(5), of q] exit_okD(5) [OF D(5), of p q] pm by (auto simp: pr)
  then show "p \<notin> set (p_zombies (prc w q))" by simp
  have pa: "parent_is_alive w r \<longleftrightarrow> parent_is_alive s r \<and> r \<noteq> p" for r by (cases "r = p") (auto simp: parent_is_alive_def f split: option.split)
  have dy: "dying None w = dying None s" by (simp add: fun_eq_iff)
  have "run_ok None w" using D(1) unfolding run_ok_def dy cp fr .
  moreover have "queue_ok w" using D(2) unfolding queue_ok_def fr .
  moreover have "link_ok None w" using D(3) unfolding link_ok_def dy fr f(1-3) .
  moreover have "zombie_ok None w" using D(4) unfolding zombie_ok_def dy fr cp f(1) .
  moreover have "exit_ok None w"
  proof (rule exit_okI, goal_cases)
    case (1 c r)
    then show ?case using exit_okD(1) [OF D(5), of c r] by (simp add: cp f pa)
  next
    case (2 c c' r)
    then show ?case using exit_okD(3) [OF D(5), of c r c'] by (simp add: cp)
  next
    case (4 r q)
    then show ?case using exit_okD(5) [OF D(5), of r q] by (auto simp: z f)
  next
    case (6 r)
    then show ?case using exit_okD(7) [OF D(5), of r] by (simp add: z f pa)
  qed (use exit_okD(6) [OF D(5)] z in \<open>auto simp: f\<close>)
  moreover have "pid_ok w"
    unfolding pid_ok_def f(1) fr using D(6) f(5,6,7) unfolding pid_ok_def by (metis option.distinct(1))
  moreover have "idle_ok w" using D(7) unfolding idle_ok_def idle_for_def fr cp .
  moreover have "declared_ok w" using D(8) unfolding declared_ok_def fr .
  ultimately show "sched_inv None w" by (simp add: sched_inv_def)
qed

lemma reap_orphan_commute: "reap_orphan q t (upd_prc p f s) = upd_prc p f (reap_orphan q t s)"
proof -
  have "thread_reap_slot t (upd_prc p f s) = upd_prc p f (thread_reap_slot t s)"
    by (simp add: thread_reap_slot_def Let_def recount_declared_locked_def upd_prc_def upd_thr_def prc_def thr_def)
  then show ?thesis by (simp add: reap_orphan_def reap_claimed_def)
qed

lemma reap_ignores:
  assumes "\<And>x. p_pid (f x) = p_pid x"
  shows "process_reap_slot p (upd_prc p f s) = process_reap_slot p s"
proof -
  have c: "fold (reap_orphan p) ts (upd_prc p f s) = upd_prc p f (fold (reap_orphan p) ts s)" for ts s
    by (induction ts arbitrary: s) (simp_all add: reap_orphan_commute)
  have z: "upd_prc p (\<lambda>_. process_zero) (upd_prc p f s) = upd_prc p (\<lambda>_. process_zero) s" for s by (simp add: upd_prc_def)
  have u: "(upd_prc p f s)\<lparr>s_spaces := xs\<rparr> = upd_prc p f (s\<lparr>s_spaces := xs\<rparr>)" for xs by (simp add: upd_prc_def prc_def)
  have "p_pid (prc (upd_prc p f s) p) = p_pid (prc s p)" using assms by (simp add: prc_upd_prc)
  then show ?thesis by (simp add: process_reap_slot_def Let_def u c z)
qed

lemma cur_proc_live:
  assumes "sched_inv None s" "cur_proc s c = Some p"
  obtains t where "cur_of s c = Some t" "th_proc (thr s t) = Some p" "t \<in> set (p_threads (prc s p))" "p_live (prc s p) > 0" "p_pid (prc s p) \<noteq> 0" "p < nprc s"
proof -
  obtain t where t: "cur_of s c = Some t" "th_proc (thr s t) = Some p" using assms(2) by (auto simp: cur_proc_def split: option.splits)
  note D = sched_invD [OF assms(1)]
  have m: "t \<in> set (p_threads (prc s p))" using link_okD(2) [OF D(3) cur_thr(5) [OF assms(1) t(1)]] t by auto
  note L = linked_pid [OF D(3) m]
  have "p < nprc s" using L by (auto simp: prc_def split: if_splits)
  then show thesis using that t m L by auto
qed

lemma find_Some: "process_find pid s = Some p \<Longrightarrow> p < nprc s \<and> p_pid (prc s p) = pid"
  by (auto simp: process_find_def prc_def first_index_Some)

lemma wait_inv:
  assumes inv: "sched_inv None s" and mb: "may_block c s"
  shows "sched_inv None (snd (process_wait c pid s))"
proof (cases "cur_proc s c")
  case (Some me)
  note D = sched_invD [OF inv]
  have b: "sched_inv None (sched_block_current_locked c (ChildQ me) s)" by (rule block_current_inv [OF inv mb]) (simp add: Some)
  have r: "sched_inv None (process_reap_slot z (upd_prc me (\<lambda>x. x\<lparr>p_zombies := remove1 z (p_zombies x)\<rparr>) s))" if z: "z \<in> set (p_zombies (prc s me))" for z
  proof -
    let ?r = "upd_prc me (\<lambda>x. x\<lparr>p_zombies := remove1 z (p_zombies x)\<rparr>) s"
    let ?w = "upd_prc z (\<lambda>x. x\<lparr>p_parent := None, p_parent_pid := 0\<rparr>) ?r"
    note E = exit_okD(5) [OF D(5) z]
    have n: "z < nprc s" "me < nprc s" using E by (auto simp: prc_def split: if_splits)
    have mz: "me \<noteq> z" using pid_okD(4) [OF D(6), of z me] E by auto
    have "sched_inv None ?w \<and> z \<notin> set (p_zombies (prc ?w q))" for q
      using disown_inv [OF inv _ mz, of ?w "p_children (prc s me)"] E n mz by (auto simp: prc_upd_prc fun_eq_iff)
    moreover have "c_pend_proc (cpu_of ?w c') \<noteq> Some z" for c' using exit_okD(1) [OF D(5), of c' z] E by (auto simp: parent_is_alive_def)
    moreover have "p_live (prc ?w z) = 0" using E mz n by (simp add: prc_upd_prc)
    ultimately have "sched_inv None (process_reap_slot z ?w)" using process_reap_inv(1) [of None ?w z] by simp
    then show ?thesis by (subst (asm) reap_ignores) simp_all
  qed
  show ?thesis using inv b r by (auto simp: process_wait_def Some find_Some_iff split: option.split)
qed (use inv in \<open>simp add: process_wait_def\<close>)

lemma join_inv:
  assumes inv: "sched_inv None s" and mb: "may_block c s"
  shows "sched_inv None (snd (thread_join c tid s))"
proof (cases "cur_proc s c")
  case (Some p)
  note D = sched_invD [OF inv]
  have b: "sched_inv None (sched_block_current_locked c (JoinQ p) s)" by (rule block_current_inv [OF inv mb]) (simp add: Some)
  have l: "p_live (prc s p) > 0" using cur_proc_live [OF inv Some] by blast
  have r: "sched_inv None (thread_reap_slot t s)" if "th_state (thr s t) = PROCESS_ZOMBIE" "th_joinable (thr s t)" "th_proc (thr s t) = Some p" for t
  proof (rule thread_reap_inv [OF inv that(1)])
    show "\<not> reap_claimed t s"
    proof
      assume "reap_claimed t s"
      then obtain c' where "c_pend_thread (cpu_of s c') = Some t" by (auto simp: claimed_iff)
      then have "c_pend_proc (cpu_of s c') = Some p" using zombie_okD(6) [OF D(4), of c' t] that by simp
      then show False using exit_okD(1) [OF D(5), of c' p] l by simp
    qed
  qed simp
  show ?thesis using inv b r by (auto simp: thread_join_def Some thread_by_tid_def)
qed (use inv in \<open>simp add: thread_join_def\<close>)

lemma abort_spawn_inv:
  assumes inv: "sched_inv None s" and m: "\<And>p. process_find pid s = Some p \<Longrightarrow> mortal p s"
  shows "sched_inv None (process_abort_spawn c pid s)"
proof (cases "process_find pid s")
  case p: (Some p)
  show ?thesis
  proof (cases "cur_proc s c")
    case me: (Some me)
    show ?thesis
    proof (cases "p_parent (prc s p) \<noteq> Some me \<or> p_parent_pid (prc s p) \<noteq> p_pid (prc s me)")
      case False
      note D = sched_invD [OF inv]
      have pid: "p_pid (prc s me) \<noteq> 0" and n: "me < nprc s" "p < nprc s" using cur_proc_live [OF inv me] find_Some [OF p] by blast+
      have al: "parent_is_alive s p" using False pid by (simp add: parent_is_alive_def)
      have mp: "me \<noteq> p"
      proof
        assume "me = p"
        then show False using pid_okD(4) [OF D(6), of p me] False pid by simp
      qed
      define s1 where "s1 = child_list_remove (Some me) p s"
      define s2 where "s2 = upd_prc me (\<lambda>x. x\<lparr>p_zombies := remove1 p (p_zombies x)\<rparr>) s1"
      define s3 where "s3 = upd_prc p (\<lambda>x. x\<lparr>p_parent := None, p_parent_pid := 0\<rparr>) s2"
      have pr: "prc s3 = (prc s)(me := (prc s me)\<lparr>p_zombies := remove1 p (p_zombies (prc s me)), p_children := remove1 p (p_children (prc s me))\<rparr>,
          p := (prc s p)\<lparr>p_parent := None, p_parent_pid := 0\<rparr>)"
        using n mp by (auto simp: s3_def s2_def s1_def child_list_remove_def prc_upd_prc fun_eq_iff)
      have fr: "thr s3 = thr s" "s_cpus s3 = s_cpus s" "s_waitq s3 = s_waitq s" "s_next_pid s3 = s_next_pid s" "s_declared s3 = s_declared s" "cpu_of s3 = cpu_of s"
        by (simp_all add: s3_def s2_def s1_def child_list_remove_def)
      have I: "sched_inv None s3" "p \<notin> set (p_zombies (prc s3 q))" for q
        using disown_inv [OF inv _ mp pr fr(1-5)] False by simp_all
      have np: "c_pend_proc (cpu_of s3 c') \<noteq> Some p" for c' using exit_okD(1) [OF D(5), of c' p] al by (auto simp: fr)
      have R: "sched_inv None (process_reap_slot p s3)" if "p_live (prc s3 p) = 0" by (rule process_reap_inv(1) [OF I(1) that _ np I(2)]) simp
      let ?k = "upd_prc p (\<lambda>x. x\<lparr>p_forced := True\<rparr>) s3"
      have ck: "same_core s3 ?k" by (rule flags_core) (simp add: pcore_def)
      have "mortal p s3" using m [OF p] by (simp add: mortal_def pr fr)
      then have K: "sched_inv None (end_every_thread_locked c p (-1) ?k)"
        using end_every_thread_inv [OF same_core_inv [OF ck I(1)]] mortal_core [OF ck] by simp
      show ?thesis using False R K I(1) by (simp add: process_abort_spawn_def p me s1_def [symmetric] s2_def [symmetric] s3_def [symmetric] Let_def)
    qed (simp add: process_abort_spawn_def p me inv)
  qed (simp add: process_abort_spawn_def p inv)
qed (simp add: process_abort_spawn_def inv)

section \<open>Control\<close>

lemma priority_inv: "sched_inv None s \<Longrightarrow> sched_inv None (snd (process_set_priority pid prio s))"
proof -
  have c: "same_core s (fold (\<lambda>t. upd_thr t (\<lambda>x. x\<lparr>th_prio := b, th_base := b, th_ticks := 0\<rparr>)) ts s)" if "b \<le> PRIORITY_BACKGROUND" for b ts s
  proof (induction ts arbitrary: s)
    case (Cons t ts)
    have "same_core s (upd_thr t (\<lambda>x. x\<lparr>th_prio := b, th_base := b, th_ticks := 0\<rparr>) s)"
      using that by (auto simp: same_core_def thr_upd_thr tcore_def prio_ok_def)
    from same_core_trans [OF this Cons.IH] show ?case by simp
  qed simp
  assume "sched_inv None s"
  then show ?thesis using same_core_inv [OF c] by (auto simp: process_set_priority_def Let_def split: option.split)
qed

lemma suspend_thread_inv:
  assumes "sched_inv None s" "th_pinned (thr s t) = None"
  shows "sched_inv None (upd_thr t (\<lambda>x. x\<lparr>th_suspended := v\<rparr>) s)"
  by (rule flag_thread_inv [OF assms(1), where k = "th_killed (thr s t)" and u = v]) (use assms(2) in \<open>simp_all add: tcore_def prio_ok_def\<close>)

lemma suspend_inv: "sched_inv None s \<Longrightarrow> sched_inv None (set_process_suspended pid v s)" "sched_inv None s \<Longrightarrow> sched_inv None (set_thread_suspended tid v s)"
proof -
  have "sched_inv None (fold (\<lambda>t s. if th_pinned (thr s t) \<noteq> None then s else upd_thr t (\<lambda>x. x\<lparr>th_suspended := v\<rparr>) s) ts s)" if "sched_inv None s" for ts s
    using that by (induction ts arbitrary: s) (simp_all add: suspend_thread_inv)
  then show "sched_inv None s \<Longrightarrow> sched_inv None (set_process_suspended pid v s)" by (simp add: set_process_suspended_def split: option.split)
  show "sched_inv None s \<Longrightarrow> sched_inv None (set_thread_suspended tid v s)" by (simp add: set_thread_suspended_def suspend_thread_inv)
qed

lemma period_inv:
  assumes inv: "sched_inv None s" and t: "th_state (thr s t) \<noteq> PROCESS_UNUSED"
    and f: "\<And>x. tcore (f x) = tcore (x\<lparr>th_period_ms := p\<rparr>)" "\<And>x. prio_ok x \<Longrightarrow> prio_ok (f x)"
  shows "sched_inv None (recount_declared_locked (upd_thr t f s))"
proof -
  note D = sched_invD [OF inv]
  define w where "w = recount_declared_locked (upd_thr t f s)"
  have th: "th_state (thr w v) = th_state (thr s v)" "th_wq (thr w v) = th_wq (thr s v)" "th_running (thr w v) = th_running (thr s v)"
    "th_pinned (thr w v) = th_pinned (thr s v)" "th_joinable (thr w v) = th_joinable (thr s v)" "th_proc (thr w v) = th_proc (thr s v)"
    "th_idle (thr w v) = th_idle (thr s v)" "alive (thr w v) = alive (thr s v)" "th_suspended (thr w v) = th_suspended (thr s v)" "th_killed (thr w v) = th_killed (thr s v)"
    "prio_ok (thr s v) \<Longrightarrow> prio_ok (thr w v)" "v \<noteq> t \<Longrightarrow> thr w v = thr s v" for v
    using f(1) [of "thr s t"] f(2) by (auto simp: w_def thr_upd_thr tcore_def alive_def)
  have fr: "prc w = prc s" "cpu_of w = cpu_of s" "cur_of w = cur_of s" "s_next_pid w = s_next_pid s" "s_waitq w = s_waitq s" "s_declared w = card {t. declares (thr w t)}"
    by (simp_all add: w_def)
  have dy: "dying None w = dying None s" "dying_in None w = dying_in None s" by (simp_all add: fun_eq_iff)
  have "run_ok None w" using D(1) unfolding run_ok_def dy fr th .
  moreover have "queue_ok w" using D(2) unfolding queue_ok_def fr th .
  moreover have "link_ok None w" using D(3) th(11) unfolding link_ok_def dy fr th(1-10) by blast
  moreover have "zombie_ok None w" using D(4) unfolding zombie_ok_def dy fr th .
  moreover have "exit_ok None w" using D(5) unfolding exit_ok_def dy fr parent_prc [OF fr(1)] .
  moreover have "pid_ok w" using D(6) unfolding pid_ok_def fr .
  moreover have "idle_ok w" using D(7) unfolding idle_ok_def idle_for_def fr th .
  moreover have "declared_ok w" unfolding declared_ok_def fr(6) using unused_period [OF D(8)] t th(1,12) by (metis order_refl)
  ultimately show ?thesis by (simp add: sched_inv_def w_def)
qed

lemma declare_inv: "sched_inv None s \<Longrightarrow> sched_inv None (snd (sched_declare_period (cur_of s c) period budget s))"
proof (cases "cur_of s c")
  case (Some t)
  assume inv: "sched_inv None s"
  have u: "th_state (thr s t) \<noteq> PROCESS_UNUSED" using cur_thr(1) [OF inv Some] by simp
  have "sched_inv None (recount_declared_locked (upd_thr t (\<lambda>x. x\<lparr>th_period_ms := 0, th_budget_ms := 0, th_deadline_ms := 0, th_period_cpu_ns := 0\<rparr>) s))"
    by (rule period_inv [OF inv u, where p = 0]) (simp_all add: tcore_def prio_ok_def)
  moreover have "sched_inv None (recount_declared_locked (upd_thr t (\<lambda>x. x\<lparr>th_period_ms := period, th_budget_ms := b, th_deadline_ms := d, th_period_cpu_ns := th_cpu_ns x\<rparr>) s))" for b d
    by (rule period_inv [OF inv u, where p = period]) (simp_all add: tcore_def prio_ok_def)
  ultimately show ?thesis using inv by (simp add: sched_declare_period_def Some Let_def)
qed (simp add: sched_declare_period_def)

text \<open>Operations the invariant does not notice.\<close>

lemma clock_inv: "sched_inv X s \<Longrightarrow> sched_inv X (s\<lparr>s_now_ms := a, s_now_ns := b\<rparr>)"
  by (rule same_core_inv [of s]) (simp add: same_core_def thr_def prc_def)

lemma policy_set_inv: "sched_inv X s \<Longrightarrow> sched_inv X (sched_policy_set pol s)"
  by (rule same_core_inv [of s]) (simp add: same_core_def sched_policy_set_def thr_def prc_def)

lemma in_kernel_inv: "sched_inv X s \<Longrightarrow> sched_inv X (upd_thr t (\<lambda>x. x\<lparr>th_in_kernel := k\<rparr>) s)"
  by (rule same_core_inv [of s]) (auto simp: same_core_def thr_upd_thr tcore_def prio_ok_def)

lemma intr_inv: "sched_inv X s \<Longrightarrow> sched_inv X (process_set_intr_catch c on s)" "sched_inv X s \<Longrightarrow> sched_inv X (snd (process_take_interrupts c s))"
  by (auto simp: process_set_intr_catch_def process_take_interrupts_def pcore_def intro: same_core_inv [OF flags_core] split: option.split)

end
