(* ===== verification/Sched_Create.thy ===== *)
theory Sched_Create
  imports Sched_Ops
begin

text \<open>
  Creation of threads and processes keeps the invariant, whether it succeeds or gives its slots back,
  and so does the start of the machine: the first state, an idle thread per core, and the adoption of
  the context a core starts in.
\<close>

section \<open>Creation\<close>

text \<open>
  A new thread \<open>t\<close> in slot \<open>p\<close>, which holds a process with other threads or takes up a new one.  It
  runs on no core yet or, for the context a core starts in, on a core that had none.
\<close>

definition spawned :: "nat \<Rightarrow> nat \<Rightarrow> sys \<Rightarrow> sys \<Rightarrow> bool" where
  "spawned t p s w \<longleftrightarrow>
     th_state (thr s t) = PROCESS_UNUSED \<and> th_wq (thr w t) = None \<and> prio_ok (thr w t) \<and> th_proc (thr w t) = Some p \<and> th_period_ms (thr w t) = 0 \<and>
     (th_state (thr w t) = PROCESS_READY \<and> th_running (thr w t) = None \<and> cur_of w = cur_of s \<or>
      th_state (thr w t) = PROCESS_RUNNING \<and> (\<exists>c. th_running (thr w t) = Some c \<and> th_pinned (thr w t) = Some c \<and> cur_of s c = None \<and>
        cur_of w = (cur_of s)(c := Some t) \<and> (\<exists>i. idle_for s c i))) \<and>
     (\<forall>u. u \<noteq> t \<longrightarrow> thr w u = thr s u) \<and> (\<forall>q. q \<noteq> p \<longrightarrow> prc w q = prc s q) \<and>
     p_threads (prc w p) = t # p_threads (prc s p) \<and> p_live (prc w p) = Suc (p_live (prc s p)) \<and> p_zombies (prc w p) = p_zombies (prc s p) \<and>
     p_running (prc w p) = None \<and>
     (0 < p_live (prc s p) \<and> p_pid (prc w p) = p_pid (prc s p) \<and> p_parent (prc w p) = p_parent (prc s p) \<and>
        p_parent_pid (prc w p) = p_parent_pid (prc s p) \<and> s_next_pid w = s_next_pid s \<or>
      p_pid (prc s p) = 0 \<and> p_pid (prc w p) = s_next_pid s \<and> s_next_pid w = Suc (s_next_pid s) \<and>
        (\<forall>q. p_parent (prc w p) = Some q \<longrightarrow> q \<noteq> p \<and> p_parent_pid (prc w p) \<le> s_next_pid s)) \<and>
     s_waitq w = s_waitq s \<and> s_declared w = s_declared s \<and>
     (\<forall>c. c_pend_thread (cpu_of w c) = c_pend_thread (cpu_of s c) \<and> c_pend_proc (cpu_of w c) = c_pend_proc (cpu_of s c))"

lemma spawnedD:
  assumes "spawned t p s w"
  shows "th_state (thr s t) = PROCESS_UNUSED" "th_wq (thr w t) = None" "prio_ok (thr w t)" "th_proc (thr w t) = Some p" "th_period_ms (thr w t) = 0"
    "th_state (thr w t) = PROCESS_READY \<and> th_running (thr w t) = None \<and> cur_of w = cur_of s \<or>
      th_state (thr w t) = PROCESS_RUNNING \<and> (\<exists>c. th_running (thr w t) = Some c \<and> th_pinned (thr w t) = Some c \<and> cur_of s c = None \<and>
        cur_of w = (cur_of s)(c := Some t) \<and> (\<exists>i. idle_for s c i))"
    "u \<noteq> t \<Longrightarrow> thr w u = thr s u" "q \<noteq> p \<Longrightarrow> prc w q = prc s q"
    "p_threads (prc w p) = t # p_threads (prc s p)" "p_live (prc w p) = Suc (p_live (prc s p))" "p_zombies (prc w q) = p_zombies (prc s q)" "p_running (prc w p) = None"
    "0 < p_live (prc s p) \<and> p_pid (prc w p) = p_pid (prc s p) \<and> p_parent (prc w p) = p_parent (prc s p) \<and>
        p_parent_pid (prc w p) = p_parent_pid (prc s p) \<and> s_next_pid w = s_next_pid s \<or>
      p_pid (prc s p) = 0 \<and> p_pid (prc w p) = s_next_pid s \<and> s_next_pid w = Suc (s_next_pid s) \<and>
        (\<forall>q. p_parent (prc w p) = Some q \<longrightarrow> q \<noteq> p \<and> p_parent_pid (prc w p) \<le> s_next_pid s)"
    "s_waitq w = s_waitq s" "s_declared w = s_declared s"
    "c_pend_thread (cpu_of w c) = c_pend_thread (cpu_of s c)" "c_pend_proc (cpu_of w c) = c_pend_proc (cpu_of s c)"
  using assms unfolding spawned_def
  by (elim conjE, assumption | elim conjE, erule allE, erule mp, assumption | elim conjE, cases "q = p"; simp)+

lemma spawn_run:
  assumes inv: "sched_inv None s" and sp: "spawned t p s w"
  shows "run_ok None w" "queue_ok w" "idle_ok w" "declared_ok w"
proof -
  note D = sched_invD [OF inv] and S = spawnedD [OF sp]
  have nc: "cur_of s c \<noteq> Some t" for c using run_okD(1) [OF D(1), of c t] S(1) by auto
  have nw: "th_wq (thr s t) = None" using queue_okD(3) [OF D(2), of t] S(1) by simp
  have wq: "th_wq (thr w u) = th_wq (thr s u)" for u using nw S(2) S(7) [of u] by (cases "u = t") auto
  have bl: "th_state (thr w u) = PROCESS_BLOCKED \<longleftrightarrow> th_state (thr s u) = PROCESS_BLOCKED" for u using S(1,6) S(7) [of u] by (cases "u = t") auto
  have wp: "th_wq (thr s u) \<noteq> None \<Longrightarrow> thr w u = thr s u" for u using nw S(7) [of u] by (cases "u = t") auto
  show "queue_ok w"
    unfolding queue_ok_def wq bl S(14) using D(2) wp unfolding queue_ok_def by (metis option.distinct(1))
  have idl: "idle_for s c i \<Longrightarrow> idle_for w c i" for c i using S(1) S(7) [of i] by (cases "i = t") (auto simp: idle_for_def)
  then show "idle_ok w" using D(7) S(6) unfolding idle_ok_def by (metis fun_upd_apply)
  show "declared_ok w"
  proof (rule declared_okI [OF D(8) S(15)])
    show "declares (thr w u) \<Longrightarrow> declares (thr s u)" for u using S(5) S(7) [of u] by (cases "u = t") (auto simp: declares_def)
    show "th_state (thr w u) = PROCESS_UNUSED \<Longrightarrow> th_period_ms (thr w u) = 0" for u using unused_period [OF D(8), of u] S(5) S(7) [of u] by (cases "u = t") auto
  qed
  have a: "th_state (thr w u) = PROCESS_RUNNING \<and> th_running (thr w u) = Some c" if "cur_of w c = Some u" for c u
    using S(6) that run_okD(1) [OF D(1), of c u] S(7) [of u] nc [of c] by (cases "u = t") (auto split: if_splits)
  have b: "cur_of w c = Some u \<and> th_state (thr w u) = PROCESS_RUNNING \<and> (th_pinned (thr w u) = None \<or> th_pinned (thr w u) = Some c)"
    if "th_state (thr w u) \<noteq> PROCESS_UNUSED" "th_running (thr w u) = Some c" for c u
  proof (cases "u = t")
    case False
    then have "cur_of s c = Some u" "th_state (thr s u) = PROCESS_RUNNING" "th_pinned (thr s u) = None \<or> th_pinned (thr s u) = Some c"
      using run_okD(2-4) [OF D(1), of u c] that S(7) [OF False] by auto
    then show ?thesis using S(6) S(7) [OF False] by auto
  qed (use S(6) that in auto)
  have d: "th_running (thr w u) \<noteq> None" if "th_state (thr w u) = PROCESS_RUNNING" for u
    using S(6) run_okD(5) [OF D(1), of u] S(7) [of u] that by (cases "u = t") auto
  show "run_ok None w" unfolding run_ok_def using a b d by blast
qed

lemma spawn_link:
  assumes inv: "sched_inv None s" and sp: "spawned t p s w"
  shows "link_ok None w" "zombie_ok None w" "pid_ok w"
proof -
  note D = sched_invD [OF inv] and S = spawnedD [OF sp]
  have ta: "alive (thr w t)" using S(6) by (auto simp: alive_def)
  have nl: "t \<notin> set (p_threads (prc s q))" for q using link_okD(7) [OF D(3), of t q] S(1) by (auto simp: alive_def)
  have npid: "0 < s_next_pid s" using pid_okD(1) [OF D(6)] .
  have pidp: "p_pid (prc w p) \<noteq> 0" using S(13) npid link_okD(4,5) [OF D(3), of p] by auto
  have pp: "p_pid (prc s q) \<noteq> 0 \<Longrightarrow> p_pid (prc w q) = p_pid (prc s q)" for q using S(13) S(8) [of q] by (cases "q = p") auto
  show "link_ok None w"
    unfolding link_ok_def
  proof (intro conjI allI impI, goal_cases)
    case (1 u)
    then show ?case using link_okD(1) [OF D(3), of u] S(3) S(7) [of u] by (cases "u = t") auto
  next
    case (2 u)
    show ?case
    proof (cases "u = t")
      case False
      then obtain q where q: "th_proc (thr s u) = Some q" "u \<in> set (p_threads (prc s q))" using 2 link_okD(2) [OF D(3), of u] S(7) [OF False] by auto
      then have "u \<in> set (p_threads (prc w q))" using S(8) [of q] S(9) by (cases "q = p") auto
      then show ?thesis using q S(7) [OF False] by auto
    qed (use S(4,9) in auto)
  next
    case (3 q)
    then show ?case using link_okD(3) [OF D(3), of q] nl S(8) [of q] S(9) by (cases "q = p") auto
  next
    case (4 q)
    then show ?case using link_okD(4) [OF D(3), of q] S(8) [of q] S(9,10) by (cases "q = p") auto
  next
    case (5 q)
    then show ?case using link_okD(5) [OF D(3), of q] pidp S(8) [of q] by (cases "q = p") auto
  next
    case (6 q u)
    then show ?case using link_okD(6) [OF D(3), of u q] nl S(4,9) S(7) [of u] S(8) [of q] by (cases "q = p"; cases "u = t") auto
  next
    case (7 q u)
    then show ?case using link_okD(7) [OF D(3), of u q] ta nl S(9) S(7) [of u] S(8) [of q] by (cases "q = p"; cases "u = t") auto
  qed
  have zt: "th_state (thr w u) = PROCESS_ZOMBIE \<Longrightarrow> thr w u = thr s u" "th_state (thr s u) = PROCESS_ZOMBIE \<Longrightarrow> thr w u = thr s u" for u
    using S(1,6) S(7) [of u] by (cases "u = t"; auto)+
  show "zombie_ok None w"
  proof (rule zombie_okI, goal_cases)
    case (1 u)
    then have e: "thr w u = thr s u" using zt by blast
    have "th_joinable (thr s u)" "\<exists>q. th_proc (thr s u) = Some q \<and> p_pid (prc s q) \<noteq> 0" using zombie_kept [OF D(4), of u] 1 e by (auto simp: S(16))
    then show ?case using pp e by metis
  next
    case (2 c u)
    then show ?case using zombie_okD(2,3) [OF D(4), of c u] zt(2) by (simp add: S(16))
  next
    case (3 c c' u)
    then show ?case using zombie_okD(4) [OF D(4), of c u c'] by (simp add: S(16))
  next
    case (5 c u)
    then show ?case using zombie_okD(2,6) [OF D(4), of c u] zt(2) by (simp add: S(16,17))
  qed simp
  have lt: "p_pid (prc s q) < s_next_pid s" for q using pid_okD(2) [OF D(6)] .
  show "pid_ok w"
    unfolding pid_ok_def
  proof (intro conjI allI impI, goal_cases)
    case 1
    then show ?case using S(13) npid by auto
  next
    case (2 q)
    then show ?case using S(13) lt [of q] lt [of p] S(8) [of q] by (cases "q = p") auto
  next
    case (3 q r)
    then show ?case using pid_okD(3) [OF D(6), of q r] S(13) lt [of q] lt [of r] S(8) [of q] S(8) [of r] by (cases "q = p"; cases "r = p") auto
  next
    case (4 q r)
    then show ?case using pid_okD(4) [OF D(6), of q r] S(13) S(8) [of q] npid link_okD(4,5) [OF D(3), of p] by (cases "q = p") auto
  next
    case (5 q r)
    then show ?case using pid_okD(4) [OF D(6), of q r] S(13) S(8) [of q] npid link_okD(4,5) [OF D(3), of p] by (cases "q = p") auto
  qed
qed

lemma spawn_exit:
  assumes inv: "sched_inv None s" and sp: "spawned t p s w"
  shows "exit_ok None w"
proof -
  note D = sched_invD [OF inv] and S = spawnedD [OF sp]
  have np: "c_pend_proc (cpu_of s c) \<noteq> Some p" for c using S(13) exit_okD(1) [OF D(5), of c p] by auto
  have nz: "p \<notin> set (p_zombies (prc s q))" for q using S(13) exit_okD(5) [OF D(5), of p q] by auto
  have lt: "p_parent_pid (prc s r) < s_next_pid s" if "p_pid (prc s r) \<noteq> 0" "p_parent (prc s r) = Some q" for r q using pid_okD(4) [OF D(6) that] by simp
  have pa: "parent_is_alive w r \<longleftrightarrow> parent_is_alive s r" if r: "r \<noteq> p" "p_pid (prc s r) \<noteq> 0" for r
  proof (cases "p_parent (prc s r)")
    case (Some q)
    then show ?thesis using S(8) [OF r(1)] S(8) [of q] S(13) lt [OF r(2) Some] by (cases "q = p") (auto simp: parent_is_alive_def)
  qed (simp add: parent_is_alive_def S(8) [OF r(1)])
  have pq: "p_pid (prc w q) = p_pid (prc s q)" if "p_pid (prc s q) \<noteq> 0" for q using S(13) S(8) [of q] that by (cases "q = p") auto
  show ?thesis
  proof (rule exit_okI, goal_cases)
    case (1 c r)
    then have r: "c_pend_proc (cpu_of s c) = Some r" by (simp add: S(17))
    then have "r \<noteq> p" using np by auto
    then show ?case using exit_okD(1) [OF D(5) r] pa [of r] S(8) [of r] by simp
  next
    case (2 c c' r)
    then show ?case using exit_okD(3) [OF D(5), of c r c'] by (simp add: S(17))
  next
    case (3 q)
    then show ?case using exit_okD(4) [OF D(5)] by (simp add: S(11))
  next
    case (4 r q)
    then have r: "r \<in> set (p_zombies (prc s q))" by (simp add: S(11))
    then have "r \<noteq> p" using nz by auto
    then show ?case using exit_okD(5) [OF D(5) r] S(8) [of r] pq [of q] by simp
  next
    case (5 r)
    then show ?case using exit_okD(6) [OF D(5), of r] S(12) S(8) [of r] by (cases "r = p") auto
  next
    case (6 r)
    have r: "r \<noteq> p" using 6(2) S(10) by auto
    then show ?case using exit_okD(7) [OF D(5), of r] 6 pa [OF r] S(8) [OF r] by (simp add: S(11))
  qed
qed

lemma spawn_inv:
  assumes "sched_inv None s" "spawned t p s w"
  shows "sched_inv None w"
  unfolding sched_inv_def [of None w] by (intro conjI spawn_run [OF assms] spawn_link [OF assms] spawn_exit [OF assms])

text \<open>Slots that were reserved and given back.\<close>

lemma free_slot_inv:
  assumes inv: "sched_inv None s" and p: "p_pid (prc s p) = 0" "p_pid (prc w p) = 0" "p_threads (prc w p) = []" "p_live (prc w p) = 0" "p_zombies (prc w p) = []"
    and pr: "\<And>q. q \<noteq> p \<Longrightarrow> prc w q = prc s q" and np: "s_next_pid s \<le> s_next_pid w"
    and fr: "\<And>u. th_state (thr s u) \<noteq> PROCESS_UNUSED \<Longrightarrow> thr w u = thr s u"
      "\<And>u. th_state (thr s u) = PROCESS_UNUSED \<Longrightarrow> th_state (thr w u) = PROCESS_UNUSED \<and> th_wq (thr w u) = None \<and> th_period_ms (thr w u) = 0"
      "s_cpus w = s_cpus s" "s_waitq w = s_waitq s" "s_declared w = s_declared s"
  shows "sched_inv None w"
proof -
  note D = sched_invD [OF inv]
  have cp: "cpu_of w = cpu_of s" "cur_of w = cur_of s" by (simp_all add: cur_of_def cpu_of_def fr fun_eq_iff)
  have st: "th_state (thr w u) = th_state (thr s u)" "th_wq (thr w u) = th_wq (thr s u)" "alive (thr w u) = alive (thr s u)" "declares (thr w u) = declares (thr s u)"
    "th_period_ms (thr w u) = th_period_ms (thr s u)" for u
    using fr(1,2) [of u] queue_okD(3) [OF D(2), of u] unused_period [OF D(8), of u] by (cases "th_state (thr s u) = PROCESS_UNUSED"; auto simp: alive_def declares_def)+
  have us: "alive (thr s u) \<Longrightarrow> thr w u = thr s u" "th_wq (thr s u) \<noteq> None \<Longrightarrow> thr w u = thr s u" for u
    using fr(1) [of u] queue_okD(3) [OF D(2), of u] by (auto simp: alive_def)
  have e: "p_threads (prc s p) = []" "p_live (prc s p) = 0" "p_zombies (prc s p) = []"
    using link_okD(4,5) [OF D(3), of p] exit_okD(5) [OF D(5), of _ p] p(1) by (auto, metis list.set_intros(1) neq_Nil_conv)
  have f: "p_threads (prc w q) = p_threads (prc s q)" "p_live (prc w q) = p_live (prc s q)" "p_zombies (prc w q) = p_zombies (prc s q)" "p_pid (prc w q) = p_pid (prc s q)"
    "p_pid (prc s q) \<noteq> 0 \<Longrightarrow> prc w q = prc s q" for q using p e pr [of q] by (cases "q = p"; simp)+
  have pa: "parent_is_alive w r \<longleftrightarrow> parent_is_alive s r" if "p_pid (prc s r) \<noteq> 0" for r
    using f(5) [OF that] by (auto simp: parent_is_alive_def f(4) split: option.split)
  have dy: "dying None w = dying None s" "dying_in None w = dying_in None s" by (simp_all add: fun_eq_iff)
  have "run_ok None w"
  proof -
    have "th_state (thr w u) = PROCESS_RUNNING \<and> th_running (thr w u) = Some c" if "cur_of w c = Some u" for c u
      using cur_thr(1,2) [OF inv, of c u] that fr(1) [of u] by (simp add: cp)
    moreover have "cur_of w c = Some u \<and> th_state (thr w u) = PROCESS_RUNNING \<and> (th_pinned (thr w u) = None \<or> th_pinned (thr w u) = Some c)"
      if "th_state (thr w u) \<noteq> PROCESS_UNUSED" "th_running (thr w u) = Some c" for c u
      using run_okD(2-4) [OF D(1), of u c] fr(1) [of u] that by (simp add: st(1) cp)
    moreover have "th_running (thr w u) \<noteq> None" if "th_state (thr w u) = PROCESS_RUNNING" for u
      using run_okD(5) [OF D(1), of u] fr(1) [of u] that by (simp add: st(1))
    ultimately show ?thesis unfolding run_ok_def by blast
  qed
  moreover have "queue_ok w"
    using D(2) us(2) unfolding queue_ok_def fr(4) st(1,2) by (metis option.distinct(1))
  moreover have "link_ok None w"
  proof -
    have "th_proc (thr w u) = Some q \<and> alive (thr w u)" if "u \<in> set (p_threads (prc s q))" for u q
      using link_okD(6,7) [OF D(3) that] us(1) [of u] by auto
    then show ?thesis using link_okD(1-6) [OF D(3)] us(1) unfolding link_ok_def dy f(1,2,4) by (simp add: st(3))
  qed
  moreover have "zombie_ok None w"
  proof -
    have z: "th_state (thr s u) = PROCESS_ZOMBIE \<Longrightarrow> thr w u = thr s u" for u using fr(1) [of u] by simp
    show ?thesis
    proof (rule zombie_okI, goal_cases)
      case (1 u)
      then show ?case using zombie_kept [OF D(4), of u] z [of u] by (simp add: st cp f(4))
    next
      case (2 c u)
      then show ?case using zombie_okD(2,3) [OF D(4), of c u] z [of u] by (simp add: cp)
    next
      case (3 c c' u)
      then show ?case using zombie_okD(4) [OF D(4), of c u c'] by (simp add: cp)
    next
      case (5 c u)
      then show ?case using zombie_okD(2,6) [OF D(4), of c u] z [of u] by (simp add: cp)
    qed simp
  qed
  moreover have "exit_ok None w"
  proof (rule exit_okI, goal_cases)
    case (1 c r)
    then show ?case using exit_okD(1) [OF D(5), of c r] pa [of r] by (simp add: cp f(2,4))
  next
    case (2 c c' r)
    then show ?case using exit_okD(3) [OF D(5), of c r c'] by (simp add: cp)
  next
    case (4 r q)
    then show ?case using exit_okD(5) [OF D(5), of r q] f(5) [of r] by (simp add: f(2,3,4))
  next
    case (5 r)
    then show ?case using exit_okD(6) [OF D(5), of r] f(5) [of r] by (simp add: f(2,4))
  next
    case (6 r)
    then show ?case using exit_okD(7) [OF D(5), of r] f(5) [of r] pa [of r] by (simp add: f(2,3,4))
  qed (use exit_okD(4) [OF D(5)] in \<open>simp add: f(3)\<close>)
  moreover have "pid_ok w"
    unfolding pid_ok_def f(4) using D(6) f(5) np unfolding pid_ok_def by (metis order_less_le_trans)
  moreover have "idle_ok w"
    by (rule idle_okI [OF D(7)]) (use fr(1) in \<open>auto simp: cp idle_for_def\<close>)
  moreover have "declared_ok w" using D(8) unfolding declared_ok_def fr(5) st .
  ultimately show ?thesis by (simp add: sched_inv_def)
qed

lemma thread_alloc_Some:
  assumes "thread_alloc s = (Some t, s1)"
  shows "th_state (thr s t) = PROCESS_UNUSED" "t < nthr s" "s1 = upd_thr t (\<lambda>x. x\<lparr>th_state := PROCESS_BLOCKED, th_running := None, th_pinned := None\<rparr>) s"
  using assms by (auto simp: thread_alloc_def thr_def first_index_Some split: option.splits)

lemma thread_alloc_None: "thread_alloc s = (None, s1) \<Longrightarrow> s1 = s"
  by (auto simp: thread_alloc_def split: option.splits)

lemma unused_thr:
  assumes "sched_inv None s" "th_state (thr s t) = PROCESS_UNUSED"
  shows "th_wq (thr s t) = None" "th_period_ms (thr s t) = 0"
  using queue_okD(3) [OF sched_invD(2) [OF assms(1)], of t] unused_period [OF sched_invD(8) [OF assms(1)] assms(2)] assms(2) by auto

text \<open>A thread slot alone.\<close>

lemma slot_back_inv:
  assumes inv: "sched_inv None s" and t: "th_state (thr s t) = PROCESS_UNUSED" and th: "\<And>u. u \<noteq> t \<Longrightarrow> thr w u = thr s u"
    and w: "th_state (thr w t) = PROCESS_UNUSED" "th_wq (thr w t) = None" "th_period_ms (thr w t) = 0"
    and fr: "prc w = prc s" "nprc w = nprc s" "s_cpus w = s_cpus s" "s_waitq w = s_waitq s" "s_declared w = s_declared s" "s_next_pid w = s_next_pid s"
  shows "sched_inv None w"
proof (rule free_slot_inv [OF inv, of "nprc s"])
  have "prc s (nprc s) = process_zero" by (simp add: prc_def)
  then show "p_pid (prc s (nprc s)) = 0" "p_pid (prc w (nprc s)) = 0" "p_threads (prc w (nprc s)) = []" "p_live (prc w (nprc s)) = 0" "p_zombies (prc w (nprc s)) = []"
    by (simp_all add: fr)
  fix u
  show "th_state (thr s u) \<noteq> PROCESS_UNUSED \<Longrightarrow> thr w u = thr s u" using t th [of u] by (cases "u = t") auto
  show "th_state (thr w u) = PROCESS_UNUSED \<and> th_wq (thr w u) = None \<and> th_period_ms (thr w u) = 0" if "th_state (thr s u) = PROCESS_UNUSED"
    using w th [of u] unused_thr [OF inv that] that by (cases "u = t") auto
qed (use fr in auto)

text \<open>A thread slot filled in and made ready, in a state \<open>v\<close> whose thread table is that of \<open>s\<close>.\<close>

lemma ready_thr:
  assumes f: "f = sched_set_ready t (snd (thread_init_for t p True (upd_thr t (\<lambda>x. x\<lparr>th_joinable := j\<rparr>)
      (upd_thr t (\<lambda>x. x\<lparr>th_state := PROCESS_BLOCKED, th_running := None, th_pinned := None\<rparr>) v))))"
    and t: "t < nthr v" "p < nprc v"
  shows "u \<noteq> t \<Longrightarrow> thr f u = thr v u" "th_state (thr f t) = PROCESS_READY" "th_running (thr f t) = None" "th_wq (thr f t) = None" "prio_ok (thr f t)"
    "th_proc (thr f t) = Some p" "th_period_ms (thr f t) = th_period_ms (thr v t)" "\<not> th_suspended (thr f t)" "\<not> th_killed (thr f t)"
    "prc f = (prc v)(p := (prc v p)\<lparr>p_threads := t # p_threads (prc v p), p_live := p_live (prc v p) + 1\<rparr>)" "nprc f = nprc v" "nthr f = nthr v"
    "s_cpus f = s_cpus v" "s_waitq f = s_waitq v" "s_declared f = s_declared v" "s_next_pid f = s_next_pid v" "cur_of f = cur_of v" "cpu_of f = cpu_of v"
  using t by (auto simp: f thread_init_for_def sched_set_ready_def dl_enqueue_def thr_upd_thr prc_upd_prc prio_ok_def Let_def fun_eq_iff split: sched_policy.splits)

lemma add_thread_inv:
  assumes inv: "sched_inv None s" and t: "th_state (thr s t) = PROCESS_UNUSED" "t < nthr s" and p: "0 < p_live (prc s p)"
  shows "sched_inv None (sched_set_ready t (snd (thread_init_for t p True (upd_thr t (\<lambda>x. x\<lparr>th_joinable := j\<rparr>)
      (upd_thr t (\<lambda>x. x\<lparr>th_state := PROCESS_BLOCKED, th_running := None, th_pinned := None\<rparr>) s)))))" (is "sched_inv None ?f")
proof -
  note D = sched_invD [OF inv]
  have n: "p < nprc s" using p by (auto simp: prc_def split: if_splits)
  have pd: "p_pid (prc s p) \<noteq> 0" using link_okD(4,5) [OF D(3), of p] p by auto
  have r: "p_running (prc s p) = None" using exit_okD(6) [OF D(5) pd] p by (cases "p_running (prc s p)") auto
  note R = ready_thr [OF refl t(2) n, where j = j]
  have "spawned t p s ?f"
    unfolding spawned_def R(10-18) using R(2-7) R(1) t p r unused_thr [OF inv t(1)] by simp
  then show ?thesis by (rule spawn_inv [OF inv])
qed

lemma thread_create_inv:
  assumes inv: "sched_inv None s" and p: "0 < p_live (prc s p)"
  shows "sched_inv None (snd (thread_create p stack s))" "sched_inv None (snd (thread_create_user p ustack stack s))"
proof -
  obtain m s1 where a: "thread_alloc s = (m, s1)" by force
  have "sched_inv None (snd (thread_create p stack s)) \<and> sched_inv None (snd (thread_create_user p ustack stack s))"
  proof (cases m)
    case None
    then show ?thesis using a thread_alloc_None [of s s1] inv by (simp add: thread_create_def thread_create_user_def thread_alloc_for_def)
  next
    case (Some t)
    note A = thread_alloc_Some [OF a [unfolded Some]]
    note U = unused_thr [OF inv A(1)]
    have back1: "sched_inv None (upd_thr t (\<lambda>x. x\<lparr>th_state := PROCESS_UNUSED\<rparr>) (upd_thr t (\<lambda>x. x\<lparr>th_joinable := j\<rparr>) s1))" for j
      by (rule slot_back_inv [OF inv A(1)]) (use A(2) U in \<open>simp_all add: A(3) thr_upd_thr\<close>)
    have back2: "sched_inv None (upd_thr t (\<lambda>x. x\<lparr>th_state := PROCESS_UNUSED\<rparr>) s1)"
      by (rule slot_back_inv [OF inv A(1)]) (use A(2) U in \<open>simp_all add: A(3) thr_upd_thr\<close>)
    define X where "X u = snd (thread_init_for t p True u)" for u
    have ok: "sched_inv None (sched_set_ready t (X (upd_thr t (\<lambda>x. x\<lparr>th_joinable := j\<rparr>) s1)))" for j
      unfolding A(3) X_def by (rule add_thread_inv [OF inv A(1,2) p])
    have i: "thread_init_for t p True u = (True, X u)" "thread_init_for t p False u = (False, u)" for u
      by (simp_all add: thread_init_for_def X_def)
    show ?thesis using a Some back1 back2 ok by (cases stack) (simp_all add: thread_create_def thread_create_user_def thread_alloc_for_def i)
  qed
  then show "sched_inv None (snd (thread_create p stack s))" "sched_inv None (snd (thread_create_user p ustack stack s))" by simp_all
qed

text \<open>A process slot.\<close>

lemma process_alloc_Some:
  assumes "process_alloc s = (Some p, s1)" "s_next_pid s + 1 < 2 ^ 32"
  shows "p_pid (prc s p) = 0" "p < nprc s" "thr s1 = thr s" "nthr s1 = nthr s" "nprc s1 = nprc s" "s_cpus s1 = s_cpus s" "s_waitq s1 = s_waitq s"
    "s_declared s1 = s_declared s" "s_next_pid s1 = s_next_pid s + 1" "q \<noteq> p \<Longrightarrow> prc s1 q = prc s q"
    "p_pid (prc s1 p) = s_next_pid s" "p_live (prc s1 p) = 0" "p_threads (prc s1 p) = []" "p_running (prc s1 p) = None" "p_zombies (prc s1 p) = p_zombies (prc s p)"
    "p_parent (prc s1 p) = p_parent (prc s p)"
proof -
  have p: "p < nprc s \<and> p_pid (prc s p) = 0" using assms(1) by (auto simp: process_alloc_def prc_def first_index_Some split: option.splits)
  then show "p_pid (prc s p) = 0" "p < nprc s" by simp_all
  define u where "u = upd_prc p (\<lambda>x. x\<lparr>p_pid := s_next_pid s, p_live := 0, p_threads := [], p_cancelled := False,
             p_forced := False, p_intr_catch := False, p_intr_pending := 0, p_running := None\<rparr>) s"
  have s1: "s1 = u\<lparr>s_next_pid := s_next_pid s + 1\<rparr>"
    using assms by (auto simp: process_alloc_def u_def wrap32_def split: option.splits)
  have fr: "thr s1 = thr u" "prc s1 = prc u" by (simp_all add: s1 thr_def prc_def fun_eq_iff)
  show "thr s1 = thr s" "nthr s1 = nthr s" "nprc s1 = nprc s" "s_cpus s1 = s_cpus s" "s_waitq s1 = s_waitq s"
    "s_declared s1 = s_declared s" "s_next_pid s1 = s_next_pid s + 1" unfolding fr by (simp_all add: s1 u_def)
  show "q \<noteq> p \<Longrightarrow> prc s1 q = prc s q"
    "p_pid (prc s1 p) = s_next_pid s" "p_live (prc s1 p) = 0" "p_threads (prc s1 p) = []" "p_running (prc s1 p) = None" "p_zombies (prc s1 p) = p_zombies (prc s p)"
    "p_parent (prc s1 p) = p_parent (prc s p)"
    unfolding fr using p by (simp_all add: u_def prc_upd_prc)
qed

lemma free_zombies: "sched_inv None s \<Longrightarrow> p_pid (prc s p) = 0 \<Longrightarrow> p_zombies (prc s p) = [] \<and> p_threads (prc s p) = [] \<and> p_live (prc s p) = 0"
  using exit_okD(5) [OF sched_invD(5), of None s _ p] link_okD(4,5) [OF sched_invD(3), of None s p]
  by (cases "p_zombies (prc s p)"; cases "p_threads (prc s p)") auto

definition new_slot :: "nat \<Rightarrow> sys \<Rightarrow> sys \<Rightarrow> bool" where
  "new_slot p s v \<longleftrightarrow> p_pid (prc s p) = 0 \<and> p < nprc s \<and> thr v = thr s \<and> nthr v = nthr s \<and> nprc v = nprc s \<and> s_cpus v = s_cpus s \<and> s_waitq v = s_waitq s \<and>
     s_declared v = s_declared s \<and> s_next_pid v = Suc (s_next_pid s) \<and> (\<forall>q. q \<noteq> p \<longrightarrow> prc v q = prc s q) \<and>
     p_pid (prc v p) = s_next_pid s \<and> p_live (prc v p) = 0 \<and> p_threads (prc v p) = [] \<and> p_running (prc v p) = None \<and> p_zombies (prc v p) = [] \<and>
     (\<forall>q. p_parent (prc v p) = Some q \<longrightarrow> q \<noteq> p \<and> p_parent_pid (prc v p) \<le> s_next_pid s)"

lemma new_slot_cpu: "new_slot p s v \<Longrightarrow> cpu_of v = cpu_of s \<and> cur_of v = cur_of s"
  by (simp add: new_slot_def cpu_of_def cur_of_def fun_eq_iff)

lemma new_process_inv:
  assumes inv: "sched_inv None s" and v: "new_slot p s v" and t: "th_state (thr s t) = PROCESS_UNUSED" "t < nthr s"
  shows "sched_inv None (sched_set_ready t (snd (thread_init_for t p True (upd_thr t (\<lambda>x. x\<lparr>th_joinable := j\<rparr>)
      (upd_thr t (\<lambda>x. x\<lparr>th_state := PROCESS_BLOCKED, th_running := None, th_pinned := None\<rparr>) v)))))" (is "sched_inv None ?f")
proof -
  have n: "t < nthr v" "p < nprc v" using v t by (simp_all add: new_slot_def)
  note R = ready_thr [OF refl n, where j = j]
  note C = new_slot_cpu [OF v] and Z = free_zombies [OF inv, of p]
  have "spawned t p s ?f"
    unfolding spawned_def R(10-18) using R(2-7) R(1) t v C Z unused_thr [OF inv t(1)] by (simp add: new_slot_def)
  then show ?thesis by (rule spawn_inv [OF inv])
qed

lemma slot_undone_inv:
  assumes inv: "sched_inv None s" and v: "new_slot p s v"
    and w: "\<And>u. th_state (thr s u) \<noteq> PROCESS_UNUSED \<Longrightarrow> thr w u = thr s u"
      "\<And>u. th_state (thr s u) = PROCESS_UNUSED \<Longrightarrow> th_state (thr w u) = PROCESS_UNUSED \<and> th_wq (thr w u) = None \<and> th_period_ms (thr w u) = 0"
    and fr: "prc w = prc v" "nprc w = nprc v" "s_cpus w = s_cpus v" "s_waitq w = s_waitq v" "s_declared w = s_declared v" "s_next_pid w = s_next_pid v"
  shows "sched_inv None (upd_prc p (\<lambda>x. x\<lparr>p_pid := 0\<rparr>) w)"
proof (rule free_slot_inv [OF inv, of p])
  show "th_state (thr s u) \<noteq> PROCESS_UNUSED \<Longrightarrow> thr (upd_prc p (\<lambda>x. x\<lparr>p_pid := 0\<rparr>) w) u = thr s u" for u using w(1) by simp
  show "th_state (thr s u) = PROCESS_UNUSED \<Longrightarrow> th_state (thr (upd_prc p (\<lambda>x. x\<lparr>p_pid := 0\<rparr>) w) u) = PROCESS_UNUSED \<and>
    th_wq (thr (upd_prc p (\<lambda>x. x\<lparr>p_pid := 0\<rparr>) w) u) = None \<and> th_period_ms (thr (upd_prc p (\<lambda>x. x\<lparr>p_pid := 0\<rparr>) w) u) = 0" for u using w(2) by simp
qed (use v fr in \<open>simp_all add: new_slot_def prc_upd_prc\<close>)

text \<open>A thread for the new process, or the slots back.\<close>

lemma alloc_for_inv:
  assumes inv: "sched_inv None s" and v: "new_slot p s v" and a: "thread_alloc_for p stack v = (m, w)"
  shows "m = None \<Longrightarrow> sched_inv None (upd_prc p (\<lambda>x. x\<lparr>p_pid := 0\<rparr>) w)" "m = Some t \<Longrightarrow> sched_inv None (sched_set_ready t w)"
    "m = Some t \<Longrightarrow> t < nthr s \<and> th_state (thr s t) = PROCESS_UNUSED \<and> \<not> th_suspended (thr w t) \<and> \<not> th_killed (thr w t) \<and> \<not> th_idle (thr w t)"
proof -
  have tv: "thr v = thr s" "nthr v = nthr s" "p < nprc v" using v by (simp_all add: new_slot_def)
  obtain l v1 where b: "thread_alloc v = (l, v1)" by force
  have "(m = None \<longrightarrow> sched_inv None (upd_prc p (\<lambda>x. x\<lparr>p_pid := 0\<rparr>) w)) \<and> (\<forall>t. m = Some t \<longrightarrow> sched_inv None (sched_set_ready t w) \<and>
      t < nthr s \<and> th_state (thr s t) = PROCESS_UNUSED \<and> \<not> th_suspended (thr w t) \<and> \<not> th_killed (thr w t) \<and> \<not> th_idle (thr w t))"
  proof (cases l)
    case None
    then have "m = None" "w = v" using a b thread_alloc_None [of v v1] by (simp_all add: thread_alloc_for_def)
    then show ?thesis using slot_undone_inv [OF inv v, of v] tv unused_thr [OF inv] by simp
  next
    case (Some t)
    note A = thread_alloc_Some [OF b [unfolded Some], unfolded tv]
    show ?thesis
    proof (cases stack)
      case True
      then have m: "m = Some t" "w = snd (thread_init_for t p True (upd_thr t (\<lambda>x. x\<lparr>th_joinable := False\<rparr>) v1))"
        using a b Some by (auto simp: thread_alloc_for_def thread_init_for_def)
      have "\<not> th_suspended (thr w t)" "\<not> th_killed (thr w t)" "\<not> th_idle (thr w t)" using A(2) tv by (simp_all add: m A(3) thread_init_for_def thr_upd_thr)
      then show ?thesis using new_process_inv [OF inv v A(1,2)] m A by simp
    next
      case False
      then have m: "m = None" "w = upd_thr t (\<lambda>x. x\<lparr>th_state := PROCESS_UNUSED\<rparr>) (upd_thr t (\<lambda>x. x\<lparr>th_joinable := False\<rparr>) v1)"
        using a b Some by (auto simp: thread_alloc_for_def thread_init_for_def)
      have "sched_inv None (upd_prc p (\<lambda>x. x\<lparr>p_pid := 0\<rparr>) w)"
        by (rule slot_undone_inv [OF inv v]) (use A unused_thr [OF inv] tv in \<open>auto simp: m thr_upd_thr\<close>)
      then show ?thesis using m by simp
    qed
  qed
  then show "m = None \<Longrightarrow> sched_inv None (upd_prc p (\<lambda>x. x\<lparr>p_pid := 0\<rparr>) w)" "m = Some t \<Longrightarrow> sched_inv None (sched_set_ready t w)"
    "m = Some t \<Longrightarrow> t < nthr s \<and> th_state (thr s t) = PROCESS_UNUSED \<and> \<not> th_suspended (thr w t) \<and> \<not> th_killed (thr w t) \<and> \<not> th_idle (thr w t)" by auto
qed

definition may_create :: "sys \<Rightarrow> bool" where
  "may_create s \<longleftrightarrow> s_next_pid s + 1 < 2 ^ 32"

definition parent_ok :: "nat option \<Rightarrow> sys \<Rightarrow> bool" where
  "parent_ok parent s \<longleftrightarrow> (case parent of None \<Rightarrow> True | Some q \<Rightarrow> p_pid (prc s q) \<noteq> 0)"

lemma process_alloc_None: "process_alloc s = (None, s1) \<Longrightarrow> s1 = s"
  by (auto simp: process_alloc_def split: option.splits)

lemma new_slot_alloc:
  assumes inv: "sched_inv None s" and a: "process_alloc s = (Some p, s1)" "may_create s" and q: "parent_ok parent s"
    and f: "\<And>x. pcore (f x) = pcore (x\<lparr>p_parent := parent, p_parent_pid := (case parent of None \<Rightarrow> 0 | Some q \<Rightarrow> p_pid (prc s1 q)), p_zombies := []\<rparr>)"
  shows "new_slot p s (upd_prc p f s1)"
proof -
  note A = process_alloc_Some [OF a(1) a(2) [unfolded may_create_def]]
  have pq: "q \<noteq> p \<and> p_pid (prc s1 q) \<le> s_next_pid s" if "parent = Some q" for q
    using that q A(1) A(10) [of q] pid_okD(2) [OF sched_invD(6) [OF inv], of q] by (cases "q = p") (auto simp: parent_ok_def)
  have n: "p < nprc s1" using A(2,5) by simp
  show ?thesis using A(1-9,11-14) A(10) n pq f [of "prc s1 p"] by (auto simp: new_slot_def prc_upd_prc pcore_def split: option.splits)
qed

lemma kthread_inv:
  assumes inv: "sched_inv None s" and m: "may_create s" and q: "parent_ok parent s"
  shows "sched_inv None (snd (process_create_kthread parent stack s))"
    "fst (process_create_kthread parent stack s) = Some t \<Longrightarrow> t < nthr s \<and> th_state (thr s t) = PROCESS_UNUSED"
    "fst (process_create_kthread parent stack s) = Some t \<Longrightarrow> th_state (thr (snd (process_create_kthread parent stack s)) t) = PROCESS_READY"
    "fst (process_create_kthread parent stack s) = Some t \<Longrightarrow> \<not> th_suspended (thr (snd (process_create_kthread parent stack s)) t) \<and> \<not> th_killed (thr (snd (process_create_kthread parent stack s)) t) \<and> \<not> th_idle (thr (snd (process_create_kthread parent stack s)) t)"
proof -
  obtain l s1 where a: "process_alloc s = (l, s1)" by force
  have "sched_inv None (snd (process_create_kthread parent stack s)) \<and> (\<forall>t. fst (process_create_kthread parent stack s) = Some t \<longrightarrow>
      t < nthr s \<and> th_state (thr s t) = PROCESS_UNUSED \<and> th_state (thr (snd (process_create_kthread parent stack s)) t) = PROCESS_READY \<and>
      \<not> th_suspended (thr (snd (process_create_kthread parent stack s)) t) \<and> \<not> th_killed (thr (snd (process_create_kthread parent stack s)) t) \<and> \<not> th_idle (thr (snd (process_create_kthread parent stack s)) t))"
  proof (cases l)
    case None
    then show ?thesis using a process_alloc_None [of s s1] inv by (simp add: process_create_kthread_def)
  next
    case (Some p)
    define s2 where "s2 = upd_prc p (\<lambda>x. x\<lparr>p_kernel := True, p_exit_code := 0, p_parent := parent,
                 p_parent_pid := (case parent of None \<Rightarrow> 0 | Some q \<Rightarrow> p_pid (prc s1 q)), p_zombies := [], p_children := []\<rparr>) s1"
    have v: "new_slot p s s2" unfolding s2_def by (rule new_slot_alloc [OF inv a [unfolded Some] m q]) (simp add: pcore_def)
    obtain k s3 where b: "thread_alloc_for p stack s2 = (k, s3)" by force
    note B = alloc_for_inv [OF inv v b]
    have e: "process_create_kthread parent stack s = (case k of None \<Rightarrow> (None, upd_prc p (\<lambda>x. x\<lparr>p_pid := 0\<rparr>) s3) | Some t \<Rightarrow> (Some t, sched_set_ready t s3))"
      using a Some b by (simp add: process_create_kthread_def s2_def [symmetric] Let_def split: option.split)
    have r: "th_state (thr (sched_set_ready t s3) t) = PROCESS_READY \<and> th_suspended (thr (sched_set_ready t s3) t) = th_suspended (thr s3 t) \<and>
        th_killed (thr (sched_set_ready t s3) t) = th_killed (thr s3 t) \<and> th_idle (thr (sched_set_ready t s3) t) = th_idle (thr s3 t)" if "t < nthr s3" for t
      using that by (auto simp: sched_set_ready_def dl_enqueue_def thr_upd_thr Let_def split: sched_policy.split)
    have "nthr s3 = nthr s" using b v by (auto simp: thread_alloc_for_def thread_alloc_def thread_init_for_def new_slot_def split: option.splits if_splits)
    then show ?thesis using B r e by (cases k) auto
  qed
  then show "sched_inv None (snd (process_create_kthread parent stack s))"
    "fst (process_create_kthread parent stack s) = Some t \<Longrightarrow> t < nthr s \<and> th_state (thr s t) = PROCESS_UNUSED"
    "fst (process_create_kthread parent stack s) = Some t \<Longrightarrow> th_state (thr (snd (process_create_kthread parent stack s)) t) = PROCESS_READY"
    "fst (process_create_kthread parent stack s) = Some t \<Longrightarrow> \<not> th_suspended (thr (snd (process_create_kthread parent stack s)) t) \<and> \<not> th_killed (thr (snd (process_create_kthread parent stack s)) t) \<and> \<not> th_idle (thr (snd (process_create_kthread parent stack s)) t)"
    by simp_all
qed

lemma ready_prc_core: "(\<And>x. pcore (f x) = pcore x) \<Longrightarrow> same_core (sched_set_ready t s) (sched_set_ready t (upd_prc q f s))"
  by (auto simp: same_core_def sched_set_ready_def dl_enqueue_def thr_upd_thr prc_upd_prc tcore_def prio_ok_def Let_def split: sched_policy.splits)

lemma create_image_inv:
  assumes inv: "sched_inv None s" and m: "may_create s"
  shows "sched_inv None (snd (create_image c built stack s))"
proof -
  obtain l s1 where a: "process_alloc s = (l, s1)" by force
  show ?thesis
  proof (cases l)
    case None
    then show ?thesis using a process_alloc_None [of s s1] inv by (simp add: create_image_def)
  next
    case (Some p)
    note A = process_alloc_Some [OF a [unfolded Some] m [unfolded may_create_def]]
    have cp: "cur_proc s1 c = cur_proc s c" using A(3,6) by (simp add: cur_proc_def cur_of_def cpu_of_def split: option.split)
    have q: "parent_ok (cur_proc s c) s"
    proof (cases "cur_proc s c")
      case (Some me)
      then show ?thesis using cur_proc_live [OF inv Some] by (auto simp: parent_ok_def)
    qed (simp add: parent_ok_def)
    define s2 where "s2 = upd_prc p (\<lambda>x. x\<lparr>p_kernel := False, p_parent := cur_proc s1 c,
                 p_parent_pid := (case cur_proc s1 c of None \<Rightarrow> 0 | Some q \<Rightarrow> p_pid (prc s1 q)), p_zombies := [], p_children := [], p_exit_code := 0\<rparr>) s1"
    have v: "new_slot p s s2" unfolding s2_def cp by (rule new_slot_alloc [OF inv a [unfolded Some] m q]) (simp add: pcore_def)
    have undo: "sched_inv None (upd_prc p (\<lambda>x. x\<lparr>p_pid := 0\<rparr>) s2)"
      by (rule slot_undone_inv [OF inv v]) (use v unused_thr [OF inv] in \<open>simp_all add: new_slot_def\<close>)
    obtain k s3 where b: "thread_alloc_for p stack s2 = (k, s3)" by force
    note B = alloc_for_inv [OF inv v b]
    have ch: "sched_inv None (sched_set_ready t (upd_prc q (\<lambda>x. x\<lparr>p_children := p # p_children x\<rparr>) s3))" if "k = Some t" for t q
      using same_core_inv [OF ready_prc_core B(2) [OF that]] by (simp add: pcore_def)
    show ?thesis using a Some b undo B(1,2) ch
      by (cases k) (simp_all add: create_image_def s2_def [symmetric] Let_def split: sum.split option.split)
  qed
qed

section \<open>Starting up\<close>

lemma pin_idle_inv:
  assumes inv: "sched_inv None s" and t: "th_state (thr s t) = PROCESS_READY" "\<not> th_idle (thr s t)"
  shows "sched_inv None (upd_thr t (\<lambda>x. x\<lparr>th_pinned := Some c, th_prio := PRIORITY_BACKGROUND, th_base := PRIORITY_BACKGROUND, th_idle := True\<rparr>) s)" (is "sched_inv None ?w")
proof -
  note D = sched_invD [OF inv]
  have rn: "th_running (thr s t) = None" using blocked_not_running [OF D(1), of t] t by simp
  define w where "w = ?w"
  have th: "th_state (thr w v) = th_state (thr s v)" "th_wq (thr w v) = th_wq (thr s v)" "th_running (thr w v) = th_running (thr s v)"
    "th_joinable (thr w v) = th_joinable (thr s v)" "th_proc (thr w v) = th_proc (thr s v)" "alive (thr w v) = alive (thr s v)"
    "th_period_ms (thr w v) = th_period_ms (thr s v)" "declares (thr w v) = declares (thr s v)" "prio_ok (thr s v) \<Longrightarrow> prio_ok (thr w v)" "v \<noteq> t \<Longrightarrow> thr w v = thr s v" for v
    by (auto simp: w_def thr_upd_thr alive_def declares_def prio_ok_def)
  have fr: "prc w = prc s" "cpu_of w = cpu_of s" "cur_of w = cur_of s" "s_next_pid w = s_next_pid s" "s_waitq w = s_waitq s" "s_declared w = s_declared s"
    by (simp_all add: w_def)
  have dy: "dying None w = dying None s" "dying_in None w = dying_in None s" by (simp_all add: fun_eq_iff)
  have pn: "th_pinned (thr w v) = None \<or> th_pinned (thr w v) = Some c'" if "th_running (thr s v) = Some c'" "th_pinned (thr s v) = None \<or> th_pinned (thr s v) = Some c'" for v c'
    using rn th(10) [of v] that by (cases "v = t") auto
  have "run_ok None w" using D(1) pn unfolding run_ok_def dy fr th(1,3) by blast
  moreover have "queue_ok w" using D(2) unfolding queue_ok_def fr th .
  moreover have "link_ok None w" using D(3) th(9) unfolding link_ok_def dy fr th(1-8) by blast
  moreover have "zombie_ok None w" using D(4) unfolding zombie_ok_def dy fr th .
  moreover have "exit_ok None w" using D(5) unfolding exit_ok_def dy fr parent_prc [OF fr(1)] .
  moreover have "pid_ok w" using D(6) unfolding pid_ok_def fr .
  moreover have "idle_for w c' i" if "idle_for s c' i" for c' i using that t th(10) [of i] by (cases "i = t") (auto simp: idle_for_def)
  then have "idle_ok w" by (intro idle_okI [OF D(7)]) (auto simp: fr)
  moreover have "declared_ok w" using D(8) unfolding declared_ok_def fr th .
  ultimately show ?thesis by (simp add: sched_inv_def w_def)
qed

lemma create_idle_inv:
  assumes "sched_inv None s" "may_create s"
  shows "sched_inv None (snd (process_create_idle_for_cpu c stack s))"
proof -
  have q: "parent_ok None s" by (simp add: parent_ok_def)
  note K = kthread_inv [OF assms q, of stack]
  obtain m s1 where a: "process_create_kthread None stack s = (m, s1)" by force
  show ?thesis using K a pin_idle_inv [of s1 _ c] by (cases m) (auto simp: process_create_idle_for_cpu_def)
qed

definition may_adopt :: "nat \<Rightarrow> sys \<Rightarrow> bool" where
  "may_adopt c s \<longleftrightarrow> c < length (s_cpus s) \<and> cur_of s c = None \<and> list_ex (idle_for s c) [0..<length (s_threads s)] \<and>
     list_all (\<lambda>p. p_pid p = 0 \<longrightarrow> p_parent p = None) (s_procs s)"

lemma adopt_inv:
  assumes inv: "sched_inv None s" and m: "may_create s" and ad: "may_adopt c s"
  shows "sched_inv None (snd (process_adopt_current c s))"
proof -
  obtain l s1 where a: "process_alloc s = (l, s1)" by force
  show ?thesis
  proof (cases l)
    case None
    then show ?thesis using a process_alloc_None [of s s1] inv by (simp add: process_adopt_current_def)
  next
    case (Some p)
    note A = process_alloc_Some [OF a [unfolded Some] m [unfolded may_create_def]]
    have pn: "p_parent (prc s p) = None" using ad A(1,2) by (auto simp: may_adopt_def list_all_length prc_def split: if_splits)
    have v: "new_slot p s s1" using A(1-9,11-16) A(10) free_zombies [OF inv A(1)] pn by (simp add: new_slot_def)
    note C = new_slot_cpu [OF v]
    obtain k s2 where b: "thread_alloc s1 = (k, s2)" by force
    show ?thesis
    proof (cases k)
      case None
      then have "s2 = s1" using b thread_alloc_None by simp
      then show ?thesis using slot_undone_inv [OF inv v, of s1] A(3) unused_thr [OF inv] a b Some None by (simp add: process_adopt_current_def)
    next
      case k: (Some t)
      note B = thread_alloc_Some [OF b [unfolded k]]
      have t: "th_state (thr s t) = PROCESS_UNUSED" "t < nthr s1" "p < nprc s1" using B A(2,3,5) by simp_all
      note U = unused_thr [OF inv t(1)]
      have cn: "c < ncpu s1" "cur_of s c = None" "\<exists>i. idle_for s c i" using ad A(6) by (auto simp: may_adopt_def list_ex_iff)
      let ?f = "snd (process_adopt_current c s)"
      have f: "?f = upd_cpu c (\<lambda>x. x\<lparr>c_cur := Some t\<rparr>) (upd_prc p (\<lambda>x. x\<lparr>p_kernel := True, p_live := 1, p_threads := [t]\<rparr>)
          (upd_thr t (\<lambda>x. x\<lparr>th_proc := Some p, th_prio := PRIORITY_NORMAL, th_base := PRIORITY_NORMAL,
             th_ticks := 0, th_wq := None, th_running := Some c, th_pinned := Some c, th_state := PROCESS_RUNNING\<rparr>) s2))"
        using a b Some k by (simp add: process_adopt_current_def)
      have cu: "cur_of ?f = (cur_of s)(c := Some t)" using cn(1) C by (auto simp: f B(3) cur_of_def cpu_upd_cpu fun_eq_iff)
      have pt: "c_pend_thread (cpu_of ?f c') = c_pend_thread (cpu_of s c')" "c_pend_proc (cpu_of ?f c') = c_pend_proc (cpu_of s c')" for c'
        using C by (auto simp: f B(3) cpu_upd_cpu)
      have th: "thr ?f = (thr s)(t := (thr s t)\<lparr>th_proc := Some p, th_prio := PRIORITY_NORMAL, th_base := PRIORITY_NORMAL,
             th_ticks := 0, th_wq := None, th_running := Some c, th_pinned := Some c, th_state := PROCESS_RUNNING\<rparr>)"
        using t A(3) by (auto simp: f B(3) thr_upd_thr fun_eq_iff)
      have pr: "prc ?f = (prc s1)(p := (prc s1 p)\<lparr>p_kernel := True, p_live := 1, p_threads := [t]\<rparr>)" using t(3) by (auto simp: f B(3) prc_upd_prc fun_eq_iff)
      have fr: "s_waitq ?f = s_waitq s" "s_declared ?f = s_declared s" "s_next_pid ?f = Suc (s_next_pid s)" using A(7-9) by (simp_all add: f B(3))
      have "spawned t p s ?f"
        unfolding spawned_def cu pt th pr fr using v t(1) U cn(2,3) free_zombies [OF inv A(1)] pn by (auto simp: new_slot_def prio_ok_def)
      then show ?thesis by (rule spawn_inv [OF inv])
    qed
  qed
qed

lemma init_inv: "sched_inv None (process_init nt np nc)"
proof -
  have "thr (process_init nt np nc) = (\<lambda>_. thread_zero)" "prc (process_init nt np nc) = (\<lambda>_. process_zero)" "cpu_of (process_init nt np nc) = (\<lambda>_. cpu_zero)"
    by (auto simp: process_init_def thr_def prc_def cpu_of_def fun_eq_iff)
  moreover have "cur_of (process_init nt np nc) = (\<lambda>_. None)" using calculation by (simp add: cur_of_def cpu_zero_def fun_eq_iff)
  moreover have "s_waitq (process_init nt np nc) = (\<lambda>_. [])" "s_next_pid (process_init nt np nc) = 1" "s_declared (process_init nt np nc) = 0" by (simp_all add: process_init_def)
  ultimately show ?thesis
    by (simp add: sched_inv_def run_ok_def queue_ok_def link_ok_def zombie_ok_def exit_ok_def pid_ok_def idle_ok_def declared_ok_def cpu_zero_def)
qed

end
