(* ===== verification/Spec2Isabelle.thy ===== *)
theory Spec2Isabelle
  imports Pmm Ipc Compress Crc32c Sha256 Sha1 Aes Kheap_Alloc Vma_Steps Sched_Create
begin

text \<open>
  Verification of the kernel of EmbLinkOS (\<open>src/kernel\<close>).

  \<^bold>\<open>The program.\<close>  The kernel gives physical pages to its heap and to processes
  (\<open>mm/pmm.c\<close>), keeps a heap on top of them (\<open>mm/kheap.c\<close>, \<open>mm/kmalloc.c\<close>), builds address
  spaces from mappings of memory objects (\<open>mm/vma.c\<close>, \<open>mm/vm_object.c\<close>), and lets processes
  communicate through handles to surfaces, channels, listening endpoints and pipes (\<open>ipc\<close>,
  \<open>gfx/surface.c\<close>, \<open>fs/epfs.c\<close>), whose blocking operations sleep on wait queues
  (\<open>process/process.c\<close>).  The file system compresses extents, protects blocks by checksums
  (\<open>fs/embkfs/embkfs_compress.c\<close>, \<open>crc32c.c\<close>) and encrypts volumes (\<open>crypto\<close>).

  \<^bold>\<open>Conventions.\<close>  A function of the source is a function of the same name on an explicit state;
  pieces of a long function have names of their own and are composed the way the function
  composes them.  A section that holds a lock is one step.  Errors are the left side of a sum,
  sizes and addresses are natural numbers with the wrap-around of 64-bit arithmetic written out
  (\<open>wrap64\<close>) where the code can reach it, and words where bits matter.  Code outside the
  component appears as an answer consumed from a list (whether an allocation succeeds) or as
  a parameter.  A thread that must wait is a value: one attempt of the loop ends in \<open>Blocked\<close> with
  the thread on the queue, and the loop's next round is the next attempt.

  \<^bold>\<open>Theories.\<close>
  \<^item> \<open>Prelude\<close>: words, errors, results, and lemmas on lists and records that all components share.
  \<^item> \<open>Bitmap\<close>, \<open>Pmm\<close>: the page allocator.  \<open>Bitmap\<close> is the contract of a bit array and the
    counting facts; \<open>Pmm\<close> is the code, the invariant that its counters are the numbers of clear
    and set bits, exactness of single-page and of aligned contiguous allocation, and safety of
    the initialisation from the firmware's map.
  \<^item> \<open>Kheap\<close>, \<open>Kheap_Inv\<close>, \<open>Kheap_Alloc\<close>: the kernel heap: the code, the invariant of the block
    list and of the slab regions, and what clients see: disjoint areas, allocation that ends and
    fails only for lack of pages, exact release, no leak; and the in-place growth that breaks it.
  \<^item> \<open>Vma\<close>, \<open>Vma_List\<close>, \<open>Vma_View\<close>: address spaces: the code, the sorted list of mappings, and its
    refinement of a map from addresses to permissions and contents.
  \<^item> \<open>Ring\<close>, \<open>Waitq\<close>, \<open>Pipe\<close>: circular queues, wait queues and pipes: a pipe is a bounded FIFO byte
    stream and loses no wakeup.
  \<^item> \<open>Ipc_State\<close>, \<open>Handle\<close>, \<open>Endpoint\<close>, \<open>Ipc_Refs\<close>, \<open>Ipc\<close>: the communication layer: its state, its
    operations, the accounting of references, and the layer closed under all its operations.
  \<^item> \<open>Compress\<close>, \<open>Crc32c\<close>: the extent format and the block checksum.
  \<^item> \<open>Hash\<close>, \<open>Sha256\<close>, \<open>Sha1\<close>, \<open>Aes\<close>: hashes, key derivation, block cipher and XTS, against
    their standards.

  \<^bold>\<open>Bounds.\<close>  \<open>kheap_alloc_n\<close> limits the recursion of the allocator to depth 5; \<open>kmalloc_live\<close>
  shows that it is never exhausted.  \<open>sha256_feed\<close> and the padding loops run on fuel that the
  streaming theorems show to suffice.  \<open>map_anon_loop\<close> has the eight attempts of the code.

  \<^bold>\<open>Not modelled.\<close>  Architecture code, device drivers, firmware interfaces, display and
  networking: their behaviour is that of hardware that is not in the repository.  The scheduler
  proper, which is written around context switches.  The on-disk trees of the file systems and
  the user space.  Of \<open>mm/vm_object.c\<close> the page index, the eviction lists, write-back and
  truncation are left out.
\<close>

end
